(* ===== verification/Pfunc_Prelude.thy ===== *)
theory Pfunc_Prelude
  imports Main "HOL-Library.Word" "HOL-Library.Multiset"
begin

text \<open>
  The prelude of the PFunc development: machine types, the status codes of
  \<^verbatim>\<open>pfunc_common.h\<close>, the generic notions of reachability, invariant and
  simulation that the concurrent components share, and the lemmas on words, lists
  and multisets that more than one component uses.
\<close>

section \<open>Machine types\<close>

text \<open>\<open>unsigned int\<close> and \<open>int32_t\<close> are 32 bits wide; \<open>size_t\<close> is 64 bits wide.\<close>

type_synonym u32 = "32 word"
type_synonym u64 = "64 word"

text \<open>Threads, tasks, groups and functors are identified by numbers that stand for pointers.\<close>

type_synonym tid = nat
type_synonym task_ptr = nat
type_synonym group_ptr = nat

section \<open>Collections of rewrite rules\<close>

named_theorems pf_defs \<open>definitions of straight-line operations, unfolded by the step proofs\<close>
named_theorems pf_word \<open>facts about machine words\<close>

section \<open>Reachability, invariants and simulations\<close>

inductive reaches :: "('s \<Rightarrow> 's \<Rightarrow> bool) \<Rightarrow> 's \<Rightarrow> 's \<Rightarrow> bool" for step where
  here: "reaches step s s"
| more: "reaches step s t \<Longrightarrow> step t u \<Longrightarrow> reaches step s u"

lemma reaches_one: "step s t \<Longrightarrow> reaches step s t"
  by (rule reaches.more [OF reaches.here])

lemma reaches_trans:
  assumes "reaches step t u" and "reaches step s t"
  shows "reaches step s u"
  using assms by (induction rule: reaches.induct) (auto intro: reaches.more)

text \<open>
  A concurrent component is given by a function that says what one event (a thread and
  what it does next) makes of the state, \<open>None\<close> if the event cannot happen there.
  Its step relation leaves the choice of the event to the scheduler.
\<close>

inductive step_of :: "('e \<Rightarrow> 's \<Rightarrow> 's option) \<Rightarrow> 's \<Rightarrow> 's \<Rightarrow> bool" for f where
  event: "f e s = Some t \<Longrightarrow> step_of f s t"

inductive_cases step_ofE: "step_of f s t"

fun run_events :: "('e \<Rightarrow> 's \<Rightarrow> 's option) \<Rightarrow> 'e list \<Rightarrow> 's \<Rightarrow> 's option" where
  "run_events f [] s = Some s"
| "run_events f (e # es) s = (case f e s of None \<Rightarrow> None | Some t \<Rightarrow> run_events f es t)"

lemma run_events_reaches: "run_events f es s = Some t \<Longrightarrow> reaches (step_of f) s t"
proof (induction es arbitrary: s)
  case Nil
  then show ?case by (simp add: reaches.here)
next
  case (Cons e es)
  then obtain u where "f e s = Some u" and "reaches (step_of f) u t"
    by (auto split: option.splits)
  then show ?case
    by (auto intro: reaches_trans reaches_one step_of.event)
qed

text \<open>
  What every concurrent component provides: a set of start states, a step relation and
  an invariant. What it gets: the invariant of every reachable state.
\<close>

locale invariant_system =
  fixes init :: "'s \<Rightarrow> bool"
    and step :: "'s \<Rightarrow> 's \<Rightarrow> bool"
    and inv :: "'s \<Rightarrow> bool"
  assumes init_inv: "init s \<Longrightarrow> inv s"
    and step_inv: "inv s \<Longrightarrow> step s t \<Longrightarrow> inv t"
begin

lemma steps_inv: "reaches step s t \<Longrightarrow> inv s \<Longrightarrow> inv t"
  by (induction rule: reaches.induct) (auto intro: step_inv)

lemma reach_inv: "init s \<Longrightarrow> reaches step s t \<Longrightarrow> inv t"
  by (rule steps_inv [OF _ init_inv])

end

text \<open>
  A simulation: under the invariant, every concrete step is an abstract step or changes
  nothing that the abstraction sees.
\<close>

locale simulation = invariant_system init step inv
  for init :: "'s \<Rightarrow> bool" and step :: "'s \<Rightarrow> 's \<Rightarrow> bool" and inv :: "'s \<Rightarrow> bool" +
  fixes astep :: "'a \<Rightarrow> 'a \<Rightarrow> bool"
    and abs :: "'s \<Rightarrow> 'a"
  assumes sim_step: "inv s \<Longrightarrow> step s t \<Longrightarrow> abs t = abs s \<or> astep (abs s) (abs t)"
begin

lemma sim_steps: "reaches step s t \<Longrightarrow> inv s \<Longrightarrow> reaches astep (abs s) (abs t)"
proof (induction rule: reaches.induct)
  case here
  show ?case by (rule reaches.here)
next
  case (more s t u)
  have "inv t" by (rule steps_inv [OF more.hyps(1) more.prems])
  with more show ?case
    using sim_step [of t u] by (auto intro: reaches.more)
qed

lemma sim_reach: "init s \<Longrightarrow> reaches step s t \<Longrightarrow> reaches astep (abs s) (abs t)"
  by (rule sim_steps [OF _ init_inv])

end

section \<open>Sets, lists and options\<close>

lemma singleton_minus_eqD: "{a} - {c} = {b} - {c} \<Longrightarrow> a = b"
  by (cases "a = c") auto

text \<open>A lock with one owner, taken or given back by thread \<open>t\<close>; \<open>W\<close> makes an owner of a thread.\<close>

lemma owner_step:
  assumes "\<And>u. own = W u \<longleftrightarrow> P (f u)" and "\<And>u v. W u = W v \<longleftrightarrow> u = v"
    and "own' = W t \<and> (\<forall>u. own \<noteq> W u) \<and> P pc \<or> (\<forall>u. own' \<noteq> W u) \<and> P (f t) \<and> \<not> P pc \<or>
      own' = own \<and> P pc = P (f t)"
  shows "own' = W u \<longleftrightarrow> P ((f(t := pc)) u)"
  using assms(3) assms(1) [of u] assms(1) [of t] assms(2) [of t u] assms(2) [of u t] by auto

section \<open>Words\<close>

lemma unat_minus_one32 [pf_word]: "(w::u32) \<noteq> 0 \<Longrightarrow> unat (w - 1) = unat w - 1"
  by (rule unat_minus_one)

lemma unat_plus_one32 [pf_word]: "Suc (unat (w::u32)) < 2 ^ 32 \<Longrightarrow> unat (w + 1) = Suc (unat w)"
  by (simp add: unat_word_ariths)

lemma unat_less_32 [pf_word]: "unat (w::u32) < 2 ^ 32"
  using unsigned_less [of w] by simp

lemma unat_less_64 [pf_word]: "unat (w::u64) < 2 ^ 64"
  using unsigned_less [of w] by simp

lemma unat_of_nat64 [pf_word]: "n < 2 ^ 64 \<Longrightarrow> unat (of_nat n :: u64) = n"
  by (simp add: unat_of_nat take_bit_eq_mod)

lemma unat_of_nat32 [pf_word]: "n < 2 ^ 32 \<Longrightarrow> unat (of_nat n :: u32) = n"
  by (simp add: unat_of_nat take_bit_eq_mod)

lemma unat_is_1_32: "unat (w::u32) = 1 \<longleftrightarrow> w = 1"
  by (simp add: word_unat_eq_iff)

lemma unat_below_two: "unat (w::u32) < Suc (Suc 0) \<longleftrightarrow> w = 0 \<or> w = 1"
  by (auto simp: less_Suc_eq unat_eq_0 unat_is_1_32 [unfolded One_nat_def])

lemma of_nat_inj32 [pf_word]:
  "i < 2 ^ 32 \<Longrightarrow> j < 2 ^ 32 \<Longrightarrow> (of_nat i :: u32) = of_nat j \<longleftrightarrow> i = j"
  by (metis unat_of_nat32)

end
