(* ===== verification/Atomics.thy ===== *)
theory Atomics
  imports Pfunc_Prelude
begin

text \<open>
  The atomic operations of \<^verbatim>\<open>pfunc/pfunc_atomics.h\<close>. An operation takes the
  content of the memory cell and returns the result together with the new content,
  as one indivisible step. The x86 versions (\<^verbatim>\<open>pfunc/asm/x86.h\<close>) follow the
  instructions \<open>cmpxchg\<close>, \<open>xchg\<close> and \<open>xadd\<close>, the generic versions
  (\<^verbatim>\<open>pfunc/asm/generic.h\<close>) the critical section under the pthread mutex.
\<close>

section \<open>The x86 instructions\<close>

text \<open>
  \<open>lock cmpxchg\<close>: the accumulator holds the comparand; if it equals the cell the new
  value is stored, else the accumulator is loaded from the cell. The accumulator is the
  result.
\<close>

definition lock_cmpxchg :: "'a::len word \<Rightarrow> 'a word \<Rightarrow> 'a word \<Rightarrow> 'a word \<times> 'a word" where
  "lock_cmpxchg cell exchg acc = (if acc = cell then (acc, exchg) else (cell, cell))"

definition lock_xchg :: "'a::len word \<Rightarrow> 'a word \<Rightarrow> 'a word \<times> 'a word" where
  "lock_xchg cell reg = (cell, reg)"

definition lock_xadd :: "'a::len word \<Rightarrow> 'a word \<Rightarrow> 'a word \<times> 'a word" where
  "lock_xadd cell reg = (cell, cell + reg)"

section \<open>The operations on x86\<close>

definition pfunc_compare_and_swap_8 :: "8 word \<Rightarrow> 8 word \<Rightarrow> 8 word \<Rightarrow> 8 word \<times> 8 word" where
  "pfunc_compare_and_swap_8 location exchg comprnd = lock_cmpxchg location exchg comprnd"

definition pfunc_compare_and_swap_16 :: "16 word \<Rightarrow> 16 word \<Rightarrow> 16 word \<Rightarrow> 16 word \<times> 16 word" where
  "pfunc_compare_and_swap_16 location exchg comprnd = lock_cmpxchg location exchg comprnd"

definition pfunc_compare_and_swap_32 :: "u32 \<Rightarrow> u32 \<Rightarrow> u32 \<Rightarrow> u32 \<times> u32" where
  "pfunc_compare_and_swap_32 location exchg comprnd = lock_cmpxchg location exchg comprnd"

definition pfunc_fetch_and_store_8 :: "8 word \<Rightarrow> 8 word \<Rightarrow> 8 word \<times> 8 word" where
  "pfunc_fetch_and_store_8 location new_val = lock_xchg location new_val"

definition pfunc_fetch_and_store_16 :: "16 word \<Rightarrow> 16 word \<Rightarrow> 16 word \<times> 16 word" where
  "pfunc_fetch_and_store_16 location new_val = lock_xchg location new_val"

definition pfunc_fetch_and_store_32 :: "u32 \<Rightarrow> u32 \<Rightarrow> u32 \<times> u32" where
  "pfunc_fetch_and_store_32 location new_val = lock_xchg location new_val"

definition pfunc_fetch_and_add_8 :: "8 word \<Rightarrow> 8 word \<Rightarrow> 8 word \<times> 8 word" where
  "pfunc_fetch_and_add_8 location addend = lock_xadd location addend"

definition pfunc_fetch_and_add_16 :: "16 word \<Rightarrow> 16 word \<Rightarrow> 16 word \<times> 16 word" where
  "pfunc_fetch_and_add_16 location addend = lock_xadd location addend"

definition pfunc_fetch_and_add_32 :: "u32 \<Rightarrow> u32 \<Rightarrow> u32 \<times> u32" where
  "pfunc_fetch_and_add_32 location addend = lock_xadd location addend"

text \<open>
  The fenced accesses: in a model in which every access is one step of the interleaving
  a fence has no effect of its own, and the access reads or writes the cell.
\<close>

definition pfunc_read_with_fence_8 :: "8 word \<Rightarrow> 8 word" where
  "pfunc_read_with_fence_8 location = location"

definition pfunc_read_with_fence_16 :: "16 word \<Rightarrow> 16 word" where
  "pfunc_read_with_fence_16 location = location"

definition pfunc_read_with_fence_32 :: "u32 \<Rightarrow> u32" where
  "pfunc_read_with_fence_32 location = location"

definition pfunc_write_with_fence_8 :: "8 word \<Rightarrow> 8 word \<Rightarrow> 8 word" where
  "pfunc_write_with_fence_8 location value = value"

definition pfunc_write_with_fence_16 :: "16 word \<Rightarrow> 16 word \<Rightarrow> 16 word" where
  "pfunc_write_with_fence_16 location value = value"

definition pfunc_write_with_fence_32 :: "u32 \<Rightarrow> u32 \<Rightarrow> u32" where
  "pfunc_write_with_fence_32 location value = value"

section \<open>The generic operations\<close>

text \<open>
  The bodies between \<open>pthread_mutex_lock\<close> and \<open>pthread_mutex_unlock\<close>. On success
  the generic compare-and-swap returns the new value, not the old one.
\<close>

definition pfunc_compare_and_swap_generic ::
  "'a::len word \<Rightarrow> 'a word \<Rightarrow> 'a word \<Rightarrow> 'a word \<times> 'a word" where
  "pfunc_compare_and_swap_generic location exchg comprnd =
     (if location = comprnd then (exchg, exchg) else (location, location))"

definition pfunc_fetch_and_store_generic :: "'a::len word \<Rightarrow> 'a word \<Rightarrow> 'a word \<times> 'a word" where
  "pfunc_fetch_and_store_generic location new_val = (location, new_val)"

definition pfunc_fetch_and_add_generic :: "'a::len word \<Rightarrow> 'a word \<Rightarrow> 'a word \<times> 'a word" where
  "pfunc_fetch_and_add_generic location addend = (location, location + addend)"

definition generic_compare_and_swap_8 :: "8 word \<Rightarrow> 8 word \<Rightarrow> 8 word \<Rightarrow> 8 word \<times> 8 word" where
  "generic_compare_and_swap_8 = pfunc_compare_and_swap_generic"

definition generic_compare_and_swap_16 :: "16 word \<Rightarrow> 16 word \<Rightarrow> 16 word \<Rightarrow> 16 word \<times> 16 word" where
  "generic_compare_and_swap_16 = pfunc_compare_and_swap_generic"

definition generic_compare_and_swap_32 :: "u32 \<Rightarrow> u32 \<Rightarrow> u32 \<Rightarrow> u32 \<times> u32" where
  "generic_compare_and_swap_32 = pfunc_compare_and_swap_generic"

definition generic_fetch_and_store_8 :: "8 word \<Rightarrow> 8 word \<Rightarrow> 8 word \<times> 8 word" where
  "generic_fetch_and_store_8 = pfunc_fetch_and_store_generic"

definition generic_fetch_and_store_16 :: "16 word \<Rightarrow> 16 word \<Rightarrow> 16 word \<times> 16 word" where
  "generic_fetch_and_store_16 = pfunc_fetch_and_store_generic"

definition generic_fetch_and_store_32 :: "u32 \<Rightarrow> u32 \<Rightarrow> u32 \<times> u32" where
  "generic_fetch_and_store_32 = pfunc_fetch_and_store_generic"

definition generic_fetch_and_add_8 :: "8 word \<Rightarrow> 8 word \<Rightarrow> 8 word \<times> 8 word" where
  "generic_fetch_and_add_8 = pfunc_fetch_and_add_generic"

definition generic_fetch_and_add_16 :: "16 word \<Rightarrow> 16 word \<Rightarrow> 16 word \<times> 16 word" where
  "generic_fetch_and_add_16 = pfunc_fetch_and_add_generic"

definition generic_fetch_and_add_32 :: "u32 \<Rightarrow> u32 \<Rightarrow> u32 \<times> u32" where
  "generic_fetch_and_add_32 = pfunc_fetch_and_add_generic"

lemmas x86_atomic_defs [pf_defs] =
  lock_cmpxchg_def lock_xchg_def lock_xadd_def
  pfunc_compare_and_swap_8_def pfunc_compare_and_swap_16_def pfunc_compare_and_swap_32_def
  pfunc_fetch_and_store_8_def pfunc_fetch_and_store_16_def pfunc_fetch_and_store_32_def
  pfunc_fetch_and_add_8_def pfunc_fetch_and_add_16_def pfunc_fetch_and_add_32_def

lemmas generic_atomic_defs [pf_defs] =
  pfunc_compare_and_swap_generic_def pfunc_fetch_and_store_generic_def
  pfunc_fetch_and_add_generic_def
  generic_compare_and_swap_8_def generic_compare_and_swap_16_def generic_compare_and_swap_32_def
  generic_fetch_and_store_8_def generic_fetch_and_store_16_def generic_fetch_and_store_32_def
  generic_fetch_and_add_8_def generic_fetch_and_add_16_def generic_fetch_and_add_32_def

section \<open>The contract of a compare-and-swap\<close>

text \<open>
  What the mutex relies on: the result tells whether the swap took place, and the cell
  changes exactly then. The x86 operation keeps this contract.
\<close>

locale compare_and_swap =
  fixes cas :: "u32 \<Rightarrow> u32 \<Rightarrow> u32 \<Rightarrow> u32 \<times> u32"
  assumes cas_result: "fst (cas cell exchg comprnd) = cell"
    and cas_cell: "snd (cas cell exchg comprnd) = (if cell = comprnd then exchg else cell)"
begin

lemma cas_success_iff: "fst (cas cell exchg comprnd) = comprnd \<longleftrightarrow> cell = comprnd"
  by (simp add: cas_result)

lemma cas_eq: "cas cell exchg comprnd = (cell, if cell = comprnd then exchg else cell)"
  by (rule prod_eqI) (simp_all add: cas_result cas_cell)

end

interpretation x86: compare_and_swap pfunc_compare_and_swap_32
  by unfold_locales (auto simp: pf_defs)

text \<open>The generic operation never reports the comparand after a swap.\<close>

lemma generic_cas_eq:
  "generic_compare_and_swap_32 cell exchg comprnd =
     (if cell = comprnd then (exchg, exchg) else (cell, cell))"
  by (simp add: pf_defs)

lemma generic_cas_never_comprnd:
  "exchg \<noteq> comprnd \<Longrightarrow> fst (generic_compare_and_swap_32 cell exchg comprnd) \<noteq> comprnd"
  by (simp add: generic_cas_eq)

section \<open>Tickets\<close>

text \<open>
  Any number of threads adding the same amount to one cell is some sequence of
  \<open>fetch_and_add\<close> steps; \<open>tickets n c\<close> lists their results.
\<close>

fun tickets :: "nat \<Rightarrow> u32 \<Rightarrow> u32 list \<times> u32" where
  "tickets 0 cell = ([], cell)"
| "tickets (Suc n) cell =
     (case pfunc_fetch_and_add_32 cell 1 of
        (r, cell') \<Rightarrow> (case tickets n cell' of (rs, c) \<Rightarrow> (r # rs, c)))"

lemma tickets_eq: "tickets n cell = (map (\<lambda>i. cell + of_nat i) [0..<n], cell + of_nat n)"
proof (induction n arbitrary: cell)
  case 0
  show ?case by simp
next
  case (Suc n)
  have "map (\<lambda>i. cell + of_nat i) [0..<Suc n] =
        cell # map (\<lambda>i. (cell + 1) + of_nat i) [0..<n]"
    by (subst upt_conv_Cons, simp, subst map_Suc_upt [symmetric])
       (simp add: algebra_simps comp_def)
  then show ?case by (simp add: Suc pf_defs)
qed

lemma tickets_distinct: "n \<le> 2 ^ 32 \<Longrightarrow> distinct (fst (tickets n cell))"
  by (auto simp: tickets_eq distinct_map inj_on_def of_nat_inj32)

end
