(* ===== verification/Futex.thy ===== *)
theory Futex
  imports Pfunc_Prelude
begin

text \<open>
  The two system calls of \<^verbatim>\<open>pfunc/futex.h\<close>, with the documented behaviour of the
  Linux kernel. The kernel keeps, per futex word, the list of the threads that sleep on
  it. \<open>FUTEX_WAIT\<close> compares and sleeps in one step; \<open>FUTEX_WAKE\<close> wakes
  \<open>nthreads\<close> of the sleepers, or all of them if there are fewer, and the code cannot
  choose which; a sleeper may also leave the call by itself, when a signal arrives.
\<close>

definition futex_wait :: "u32 \<Rightarrow> u32 \<Rightarrow> tid \<Rightarrow> tid list \<Rightarrow> bool \<times> tid list" where
  "futex_wait word expected t waitq =
     (if word = expected then (True, waitq @ [t]) else (False, waitq))"

text \<open>
  \<open>futex_wake waitq n ws\<close>: the list of sleepers after the kernel has woken exactly
  \<open>ws\<close>, \<open>None\<close> if this is no allowed choice.
\<close>

definition futex_wake :: "tid list \<Rightarrow> nat \<Rightarrow> tid list \<Rightarrow> tid list option" where
  "futex_wake waitq n ws =
     (if distinct ws \<and> set ws \<subseteq> set waitq \<and> length ws = min n (length waitq)
      then Some (filter (\<lambda>t. t \<notin> set ws) waitq) else None)"

text \<open>Callers that want to wake everybody ask for \<open>INT_MAX\<close> threads.\<close>

definition INT_MAX :: nat where "INT_MAX = 2147483647"

definition futex_interrupt :: "tid \<Rightarrow> tid list \<Rightarrow> tid list" where
  "futex_interrupt t waitq = filter (\<lambda>u. u \<noteq> t) waitq"

text \<open>\<open>cpu_relax\<close> is a no-op on the state: it returns the word it was called with.\<close>

definition cpu_relax :: "u32 \<Rightarrow> u32" where
  "cpu_relax word = word"

lemma futex_wait_sleeps [simp]: "futex_wait w w t q = (True, q @ [t])"
  by (simp add: futex_wait_def)

lemma futex_wait_returns [simp]: "w \<noteq> e \<Longrightarrow> futex_wait w e t q = (False, q)"
  by (simp add: futex_wait_def)

lemma futex_wake_SomeD:
  assumes "futex_wake q n ws = Some q'"
  shows "set q' = set q - set ws" and "set ws \<subseteq> set q" and "distinct q \<Longrightarrow> distinct q'"
    and "length ws = min n (length q)"
  using assms by (auto simp: futex_wake_def split: if_splits)

text \<open>A wake-up finds a sleeper when there is one, and empties the list when the bound allows it.\<close>

lemma futex_wake_nonempty: "futex_wake q n ws = Some q' \<Longrightarrow> q \<noteq> [] \<Longrightarrow> 0 < n \<Longrightarrow> ws \<noteq> []"
  by (cases q) (auto simp: futex_wake_def split: if_splits)

lemma futex_wake_all:
  assumes "futex_wake q n ws = Some q'" and "distinct q" and "length q \<le> n"
  shows "q' = []"
proof -
  from assms have "card (set ws) = card (set q)" "set ws \<subseteq> set q"
    by (auto simp: futex_wake_def distinct_card split: if_splits)
  then have "set ws = set q" by (intro card_subset_eq) auto
  with assms show ?thesis by (auto simp: futex_wake_def split: if_splits)
qed

lemma futex_wake_one: "distinct q \<Longrightarrow> t \<in> set q \<Longrightarrow> futex_wake q 1 [t] = Some (filter (\<lambda>u. u \<noteq> t) q)"
  by (cases q) (auto simp: futex_wake_def intro!: filter_cong)

lemma futex_wake_none [simp]: "futex_wake [] n [] = Some []"
  by (simp add: futex_wake_def)

end
