(* ===== verification/Exceptions.thy ===== *)
theory Exceptions
  imports Pfunc_Prelude
begin

text \<open>
  The status codes of \<^verbatim>\<open>pfunc/pfunc_common.h\<close> and the exceptions of
  \<^verbatim>\<open>pfunc/exception.hpp\<close>, as they are with \<open>PFUNC_USE_EXCEPTIONS\<close>. Every object
  that can fail has a pointer \<open>except\<close>; the macros that close its methods put the
  exception there and throw it on. A method that can throw is a function into
  \<open>thrown + 'a\<close>; the file name and line that a macro adds to the trace are an argument.
  What becomes of the pointer, and running out of memory, is in \<open>Exception_Memory\<close>.
\<close>

section \<open>Status codes and barrier types\<close>

datatype pfunc_status =
    PFUNC_ERROR | PFUNC_UNINITIALIZED | PFUNC_NOMEM | PFUNC_INVALID_ARGUMENTS
  | PFUNC_INVALID_ATTR | PFUNC_INVALID_ATTR_NAME | PFUNC_INVALID_ATTR_VALUE
  | PFUNC_INVALID_GROUP | PFUNC_INVALID_GROUP_ATTR | PFUNC_INVALID_HANDLE
  | PFUNC_TASK_INCOMPLETE | PFUNC_SUCCESS | PFUNC_INITIALIZED | PFUNC_TASK_COMPLETE

fun status_code :: "pfunc_status \<Rightarrow> int" where
  "status_code PFUNC_ERROR = - 65535"
| "status_code PFUNC_UNINITIALIZED = - 65534"
| "status_code PFUNC_NOMEM = - 65533"
| "status_code PFUNC_INVALID_ARGUMENTS = - 65532"
| "status_code PFUNC_INVALID_ATTR = - 65531"
| "status_code PFUNC_INVALID_ATTR_NAME = - 65530"
| "status_code PFUNC_INVALID_ATTR_VALUE = - 65529"
| "status_code PFUNC_INVALID_GROUP = - 65528"
| "status_code PFUNC_INVALID_GROUP_ATTR = - 65527"
| "status_code PFUNC_INVALID_HANDLE = - 65526"
| "status_code PFUNC_TASK_INCOMPLETE = - 65525"
| "status_code PFUNC_SUCCESS = 0"
| "status_code PFUNC_INITIALIZED = 1"
| "status_code PFUNC_TASK_COMPLETE = 2"

lemma status_code_inj: "status_code a = status_code b \<longleftrightarrow> a = b"
  by (cases a; cases b) simp_all

datatype barrier_type = BARRIER_SPIN | BARRIER_WAIT | BARRIER_STEAL

fun barrier_code :: "barrier_type \<Rightarrow> u32" where
  "barrier_code BARRIER_SPIN = 0"
| "barrier_code BARRIER_WAIT = 1"
| "barrier_code BARRIER_STEAL = 2"

lemma barrier_code_inj [simp]: "barrier_code a = barrier_code b \<longleftrightarrow> a = b"
  by (cases a; cases b) simp_all

section \<open>The exception object\<close>

record pfunc_exception =
  error_trace :: string
  error_string :: string
  error_code :: int

definition exception_generic_impl :: "string \<Rightarrow> string \<Rightarrow> int \<Rightarrow> pfunc_exception" where
  "exception_generic_impl trace what code =
     \<lparr>error_trace = trace, error_string = what, error_code = code\<rparr>"

text \<open>The copy constructor reads the other object through its accessors.\<close>

definition exception_copy :: "pfunc_exception \<Rightarrow> pfunc_exception" where
  "exception_copy other =
     \<lparr>error_trace = error_trace other, error_string = error_string other,
      error_code = error_code other\<rparr>"

definition add_to_trace :: "string \<Rightarrow> pfunc_exception \<Rightarrow> pfunc_exception" where
  "add_to_trace new_trace e = e\<lparr>error_trace := error_trace e @ new_trace\<rparr>"

text \<open>\<open>clone\<close> constructs the copy in memory from \<open>malloc\<close>; \<open>convert\<close> likewise.\<close>

definition exception_clone :: "pfunc_exception \<Rightarrow> pfunc_exception" where
  "exception_clone e = exception_copy e"

definition exception_convert :: "string \<Rightarrow> string \<Rightarrow> int \<Rightarrow> pfunc_exception" where
  "exception_convert trace what code = exception_generic_impl trace what code"

lemma exception_copy_id [simp]: "exception_copy e = e" "exception_clone e = e"
  by (simp_all add: exception_copy_def exception_clone_def)

lemma add_to_trace_sel [simp]:
  "error_trace (add_to_trace s e) = error_trace e @ s"
  "error_string (add_to_trace s e) = error_string e"
  "error_code (add_to_trace s e) = error_code e"
  by (simp_all add: add_to_trace_def)

section \<open>What can be thrown, and the macros\<close>

text \<open>\<open>StdExn\<close> carries the name of the dynamic type and the result of \<open>what ()\<close>.\<close>

datatype thrown = PfuncExn pfunc_exception | StdExn string string | UnknownExn

type_synonym 'a result = "thrown + 'a"

text \<open>The strings that \<open>#STRUCT_NAME "::" #FUNC_NAME\<close> and \<open>FILE_AND_LINE ()\<close> make.\<close>

definition trace_site :: "string \<Rightarrow> string \<Rightarrow> string \<Rightarrow> string" where
  "trace_site struct func loc = struct @ ''::'' @ func @ '' at '' @ loc"

text \<open>\<open>PFUNC_CATCH_AND_RETHROW\<close>: the new content of \<open>except\<close> and what leaves the method.\<close>

fun pfunc_catch_and_rethrow ::
  "string \<Rightarrow> pfunc_exception option \<Rightarrow> 'a result \<Rightarrow> 'a result \<times> pfunc_exception option" where
  "pfunc_catch_and_rethrow site except (Inr v) = (Inr v, except)"
| "pfunc_catch_and_rethrow site except (Inl (PfuncExn error)) =
     (let e = add_to_trace ('': from '' @ site) (exception_clone error)
      in (Inl (PfuncExn e), Some e))"
| "pfunc_catch_and_rethrow site except (Inl (StdExn ty what)) =
     (let e = exception_convert (ty @ '': from '' @ site) what (status_code PFUNC_ERROR)
      in (Inl (PfuncExn e), Some e))"
| "pfunc_catch_and_rethrow site except (Inl UnknownExn) =
     (Inl (PfuncExn (exception_generic_impl site ''Unknown error'' (status_code PFUNC_ERROR))),
      except)"

text \<open>\<open>PFUNC_CATCH_AND_STORE\<close>: nothing leaves the method; the exception stays in \<open>except\<close>.\<close>

fun pfunc_catch_and_store ::
  "string \<Rightarrow> pfunc_exception option \<Rightarrow> unit result \<Rightarrow> pfunc_exception option" where
  "pfunc_catch_and_store site except (Inr v) = except"
| "pfunc_catch_and_store site except (Inl (PfuncExn error)) =
     Some (add_to_trace ('': from '' @ site) (exception_clone error))"
| "pfunc_catch_and_store site except (Inl (StdExn ty what)) =
     Some (exception_convert (ty @ '': from '' @ site) what (status_code PFUNC_ERROR))"
| "pfunc_catch_and_store site except (Inl UnknownExn) =
     Some (exception_generic_impl site ''Unknown error'' (status_code PFUNC_ERROR))"

text \<open>\<open>PFUNC_CHECK_AND_RETHROW\<close> at the head of a method.\<close>

definition pfunc_check_and_rethrow :: "pfunc_exception option \<Rightarrow> unit result" where
  "pfunc_check_and_rethrow except =
     (case except of None \<Rightarrow> Inr () | Some e \<Rightarrow> Inl (PfuncExn e))"

text \<open>
  \<open>PFUNC_C_CATCH_AND_RETURN_EXCEPTION_CODE\<close> turns an exception of PFunc into its code and
  lets everything else pass; \<open>PFUNC_CXX_CATCH_AND_RETHROW\<close> throws a copy of the same type.
\<close>

fun pfunc_c_catch :: "int result \<Rightarrow> int result" where
  "pfunc_c_catch (Inl (PfuncExn e)) = Inr (error_code e)"
| "pfunc_c_catch r = r"

fun pfunc_cxx_catch_and_rethrow :: "'a result \<Rightarrow> 'a result" where
  "pfunc_cxx_catch_and_rethrow (Inl (PfuncExn e)) = Inl (PfuncExn (exception_copy e))"
| "pfunc_cxx_catch_and_rethrow r = r"

lemma pfunc_cxx_catch_id [simp]: "pfunc_cxx_catch_and_rethrow r = r"
  by (cases r rule: pfunc_cxx_catch_and_rethrow.cases) simp_all

lemma catch_and_rethrow_Inr [simp]:
  "fst (pfunc_catch_and_rethrow site except r) = Inr v \<longleftrightarrow> r = Inr v"
  by (cases "(site, except, r)" rule: pfunc_catch_and_rethrow.cases) (auto simp: Let_def)

lemma catch_and_rethrow_PfuncExn:
  assumes "fst (pfunc_catch_and_rethrow site except r) = Inl x"
  shows "\<exists>e. x = PfuncExn e"
  using assms
  by (cases "(site, except, r)" rule: pfunc_catch_and_rethrow.cases) (auto simp: Let_def)

section \<open>An exception on its way up the call stack\<close>

text \<open>
  The catch blocks of nested methods, innermost first, each with its own \<open>except\<close>
  pointer: the exception that arrives at the top and the pointers afterwards.
\<close>

fun unwind ::
  "(string \<times> pfunc_exception option) list \<Rightarrow> 'a result \<Rightarrow> 'a result \<times> pfunc_exception option list"
where
  "unwind [] r = (r, [])"
| "unwind ((site, except) # frames) r =
     (let p = pfunc_catch_and_rethrow site except r; q = unwind frames (fst p)
      in (fst q, snd p # snd q))"

lemma unwind_PfuncExn:
  "fst (unwind frames (Inl (PfuncExn e))) =
     Inl (PfuncExn (e\<lparr>error_trace := error_trace e @ concat (map (\<lambda>f. '': from '' @ fst f) frames)\<rparr>))"
  by (induction frames arbitrary: e)
     (auto simp: Let_def add_to_trace_def)

text \<open>
  C37: an exception of PFunc crosses any number of catch blocks with its description and
  code unchanged, its trace extended by exactly the sites it passed in order, and reaches
  a caller of the C interface as its error code.
\<close>

theorem unwind_keeps_error:
  "\<exists>e'. fst (unwind frames (Inl (PfuncExn e))) = Inl (PfuncExn e') \<and>
        error_string e' = error_string e \<and> error_code e' = error_code e \<and>
        error_trace e' = error_trace e @ concat (map (\<lambda>f. '': from '' @ fst f) frames) \<and>
        pfunc_c_catch (fst (unwind frames (Inl (PfuncExn e)))) = Inr (error_code e)"
  by (simp add: unwind_PfuncExn)

end
