(* ===== verification/Mutex.thy ===== *)
theory Mutex
  imports Atomics Futex
begin

text \<open>
  The futex mutex of \<^verbatim>\<open>pfunc/mutex.hpp\<close> (the first of its three variants) as a
  machine in which any number of threads call \<open>lock\<close> and \<open>unlock\<close>. Every atomic
  instruction, every read of \<open>val\<close> in the spin loop and every system call is one
  action of the machine.
\<close>

section \<open>State\<close>

definition PFUNC_MUTEX_FREE :: u32 where "PFUNC_MUTEX_FREE = 0"
definition PFUNC_MUTEX_LOCKED :: u32 where "PFUNC_MUTEX_LOCKED = 1"
definition PFUNC_MUTEX_LOCKED_WITH_WAITERS :: u32 where "PFUNC_MUTEX_LOCKED_WITH_WAITERS = 2"
definition PFUNC_MAX_RELAXATIONS :: nat where "PFUNC_MAX_RELAXATIONS = 2 * 1024 * 1024"

lemmas mutex_consts [pf_defs] =
  PFUNC_MUTEX_FREE_def PFUNC_MUTEX_LOCKED_def PFUNC_MUTEX_LOCKED_WITH_WAITERS_def

text \<open>Where a thread is in the code of the mutex.\<close>

datatype mutex_pc =
    Outside
  | LockFast          \<comment> \<open>about to try the first compare-and-swap\<close>
  | LockMark          \<comment> \<open>top of the do loop\<close>
  | LockSpin nat      \<comment> \<open>in the spin loop, with its counter\<close>
  | LockSleep         \<comment> \<open>about to call \<open>futex_wait\<close>\<close>
  | Asleep            \<comment> \<open>sleeping in the kernel\<close>
  | LockRetry         \<comment> \<open>at the condition of the do loop\<close>
  | Holding           \<comment> \<open>\<open>lock\<close> has returned\<close>
  | Unlocking         \<comment> \<open>\<open>unlock\<close> has been called\<close>
  | UnlockWake        \<comment> \<open>about to call \<open>futex_wake\<close>\<close>

record mutex =
  val :: u32
  waitq :: "tid list"       \<comment> \<open>the kernel's list of sleepers on \<open>val\<close>\<close>
  pcs :: "tid \<Rightarrow> mutex_pc"

definition mutex_start :: mutex where
  "mutex_start = \<lparr>val = PFUNC_MUTEX_FREE, waitq = [], pcs = (\<lambda>_. Outside)\<rparr>"

section \<open>The code of a thread\<close>

text \<open>
  The next instruction of \<open>lock\<close> for thread \<open>t\<close>: the new place in the code, the new
  \<open>val\<close> and the new list of sleepers.
\<close>

fun mutex_lock_step ::
  "(u32 \<Rightarrow> u32 \<Rightarrow> u32 \<Rightarrow> u32 \<times> u32) \<Rightarrow> tid \<Rightarrow> u32 \<Rightarrow> tid list \<Rightarrow> mutex_pc \<Rightarrow>
   (mutex_pc \<times> u32 \<times> tid list) option" where
  "mutex_lock_step cas t v q LockFast =
     (case cas v PFUNC_MUTEX_LOCKED PFUNC_MUTEX_FREE of (r, v') \<Rightarrow>
        Some (if PFUNC_MUTEX_FREE \<noteq> r then LockMark else Holding, v', q))"
| "mutex_lock_step cas t v q LockMark =
     (case cas v PFUNC_MUTEX_LOCKED_WITH_WAITERS PFUNC_MUTEX_LOCKED of (oldval, v') \<Rightarrow>
        Some (if PFUNC_MUTEX_FREE \<noteq> oldval then LockSpin 0 else LockRetry, v', q))"
| "mutex_lock_step cas t v q (LockSpin i) =
     Some (if i < PFUNC_MAX_RELAXATIONS \<and> PFUNC_MUTEX_LOCKED_WITH_WAITERS = v
           then LockSpin (Suc i) else LockSleep, v, q)"
| "mutex_lock_step cas t v q LockSleep =
     (case futex_wait v PFUNC_MUTEX_LOCKED_WITH_WAITERS t q of (sleeps, q') \<Rightarrow>
        Some (if sleeps then Asleep else LockRetry, v, q'))"
| "mutex_lock_step cas t v q LockRetry =
     (case cas v PFUNC_MUTEX_LOCKED_WITH_WAITERS PFUNC_MUTEX_FREE of (r, v') \<Rightarrow>
        Some (if PFUNC_MUTEX_FREE \<noteq> r then LockMark else Holding, v', q))"
| "mutex_lock_step cas t v q _ = None"

text \<open>\<open>unlock\<close> up to the system call; the comparison is on signed integers.\<close>

definition mutex_unlock_step :: "u32 \<Rightarrow> mutex_pc \<times> u32" where
  "mutex_unlock_step v =
     (case pfunc_fetch_and_store_32 v PFUNC_MUTEX_FREE of (oldval, v') \<Rightarrow>
        (if sint oldval \<le> sint PFUNC_MUTEX_LOCKED then Outside else UnlockWake, v'))"

text \<open>\<open>trylock\<close>: its result and the new \<open>val\<close>.\<close>

definition mutex_trylock :: "(u32 \<Rightarrow> u32 \<Rightarrow> u32 \<Rightarrow> u32 \<times> u32) \<Rightarrow> u32 \<Rightarrow> bool \<times> u32" where
  "mutex_trylock cas v =
     (case cas v PFUNC_MUTEX_LOCKED PFUNC_MUTEX_FREE of (r, v') \<Rightarrow>
        (if PFUNC_MUTEX_FREE \<noteq> r then True else False, v'))"

section \<open>The machine\<close>

datatype mutex_action =
    CallLock tid
  | LockStep tid
  | CallUnlock tid
  | UnlockStep tid
  | WakeUp tid "tid list"  \<comment> \<open>\<open>futex_wake (&val, 1)\<close> and the threads it wakes\<close>
  | Interrupt tid          \<comment> \<open>a sleeper returns from the system call by itself\<close>

definition goto_pc :: "tid \<Rightarrow> mutex_pc \<Rightarrow> u32 \<Rightarrow> tid list \<Rightarrow> mutex \<Rightarrow> mutex" where
  "goto_pc t pc v q s = s\<lparr>val := v, waitq := q, pcs := (pcs s)(t := pc)\<rparr>"

fun mutex_event ::
  "(u32 \<Rightarrow> u32 \<Rightarrow> u32 \<Rightarrow> u32 \<times> u32) \<Rightarrow> mutex_action \<Rightarrow> mutex \<Rightarrow> mutex option" where
  "mutex_event cas (CallLock t) s =
     (if pcs s t = Outside then Some (goto_pc t LockFast (val s) (waitq s) s) else None)"
| "mutex_event cas (LockStep t) s =
     (case mutex_lock_step cas t (val s) (waitq s) (pcs s t) of
        None \<Rightarrow> None | Some (pc, v, q) \<Rightarrow> Some (goto_pc t pc v q s))"
| "mutex_event cas (CallUnlock t) s =
     (if pcs s t = Holding then Some (goto_pc t Unlocking (val s) (waitq s) s) else None)"
| "mutex_event cas (UnlockStep t) s =
     (if pcs s t = Unlocking
      then (case mutex_unlock_step (val s) of (pc, v) \<Rightarrow> Some (goto_pc t pc v (waitq s) s))
      else None)"
| "mutex_event cas (WakeUp t ws) s =
     (if pcs s t = UnlockWake
      then (case futex_wake (waitq s) (unat PFUNC_MUTEX_LOCKED) ws of
              None \<Rightarrow> None
            | Some q \<Rightarrow>
                Some (s\<lparr>waitq := q,
                        pcs := (\<lambda>u. if u \<in> set ws then LockRetry
                                    else if u = t then Outside else pcs s u)\<rparr>))
      else None)"
| "mutex_event cas (Interrupt t) s =
     (if pcs s t = Asleep
      then Some (goto_pc t LockRetry (val s) (futex_interrupt t (waitq s)) s) else None)"

abbreviation mutex_step :: "(u32 \<Rightarrow> u32 \<Rightarrow> u32 \<Rightarrow> u32 \<times> u32) \<Rightarrow> mutex \<Rightarrow> mutex \<Rightarrow> bool" where
  "mutex_step cas \<equiv> step_of (mutex_event cas)"

text \<open>A thread is in the critical section from the return of \<open>lock\<close> to the store of \<open>unlock\<close>.\<close>

fun holds :: "mutex_pc \<Rightarrow> bool" where
  "holds Holding = True"
| "holds Unlocking = True"
| "holds _ = False"

text \<open>Awake in the slow path of \<open>lock\<close>, or about to wake a sleeper up.\<close>

fun awake :: "mutex_pc \<Rightarrow> bool" where
  "awake LockMark = True"
| "awake (LockSpin _) = True"
| "awake LockSleep = True"
| "awake LockRetry = True"
| "awake UnlockWake = True"
| "awake _ = False"

section \<open>The invariant\<close>

text \<open>
  The word is \<open>FREE\<close> exactly when nobody is in the critical section; at most one thread
  is; and while a thread sleeps, either the word says so or another thread is on its way
  to say so or to wake it up.
\<close>

definition crit :: "mutex \<Rightarrow> tid set" where
  "crit s = {t. holds (pcs s t)}"

definition awakes :: "mutex \<Rightarrow> tid set" where
  "awakes s = {t. awake (pcs s t)}"

definition word_inv :: "mutex \<Rightarrow> bool" where
  "word_inv s \<longleftrightarrow>
     (val s = 0 \<and> crit s = {}) \<or> (val s \<in> {1, 2} \<and> (\<exists>t. crit s = {t}))"

definition sleep_inv :: "mutex \<Rightarrow> bool" where
  "sleep_inv s \<longleftrightarrow>
     distinct (waitq s) \<and> (\<forall>t. t \<in> set (waitq s) \<longleftrightarrow> pcs s t = Asleep) \<and>
     (waitq s \<noteq> [] \<longrightarrow> val s = 2 \<or> awakes s \<noteq> {})"

definition mutex_inv :: "mutex \<Rightarrow> bool" where
  "mutex_inv s \<longleftrightarrow> word_inv s \<and> sleep_inv s"

lemma goto_pc_sel [simp]:
  "val (goto_pc t pc v q s) = v"
  "waitq (goto_pc t pc v q s) = q"
  "pcs (goto_pc t pc v q s) = (pcs s)(t := pc)"
  by (simp_all add: goto_pc_def)

lemma crit_goto [simp]:
  "crit (goto_pc t pc v q s) = (if holds pc then insert t (crit s) else crit s - {t})"
  by (auto simp: crit_def)

lemma awakes_goto [simp]:
  "awakes (goto_pc t pc v q s) = (if awake pc then insert t (awakes s) else awakes s - {t})"
  by (auto simp: awakes_def)

lemma crit_iff: "t \<in> crit s \<longleftrightarrow> holds (pcs s t)"
  by (simp add: crit_def)

lemma not_crit: "\<not> holds (pcs s t) \<Longrightarrow> crit s - {t} = crit s"
  by (auto simp: crit_def)

lemma not_awake: "\<not> awake (pcs s t) \<Longrightarrow> awakes s - {t} = awakes s"
  by (auto simp: awakes_def)

fun_cases mutex_lock_stepE: "mutex_lock_step cas t v q pc = Some r"

text \<open>
  A step of \<open>lock\<close> under a compare-and-swap that keeps its contract: what it can do to
  the word and to the critical section.
\<close>

context compare_and_swap
begin

lemma lock_step_word:
  assumes "word_inv s" and "mutex_lock_step cas t (val s) (waitq s) (pcs s t) = Some (pc, v, q)"
  shows "word_inv (goto_pc t pc v q s)"
  using assms(2)
  by (rule mutex_lock_stepE)
     (use assms(1) in \<open>auto simp: cas_eq word_inv_def mutex_consts futex_wait_def not_crit
        split: if_splits\<close>)

lemma lock_step_sleep:
  assumes "word_inv s" and "sleep_inv s"
    and "mutex_lock_step cas t (val s) (waitq s) (pcs s t) = Some (pc, v, q)"
  shows "sleep_inv (goto_pc t pc v q s)"
  using assms(3)
  by (rule mutex_lock_stepE)
     (use assms(1,2) in \<open>auto simp: cas_eq word_inv_def sleep_inv_def mutex_consts
        futex_wait_def not_awake split: if_splits\<close>)

lemma lock_call_inv:
  assumes "mutex_inv s" and "pcs s t = Outside"
  shows "mutex_inv (goto_pc t LockFast (val s) (waitq s) s)"
  using assms by (auto simp: mutex_inv_def word_inv_def sleep_inv_def not_crit not_awake)

lemma unlock_call_inv:
  assumes "mutex_inv s" and "pcs s t = Holding"
  shows "mutex_inv (goto_pc t Unlocking (val s) (waitq s) s)"
proof -
  from assms(2) have "insert t (crit s) = crit s" by (auto simp: crit_def)
  with assms show ?thesis
    by (auto simp: mutex_inv_def word_inv_def sleep_inv_def not_awake)
qed

lemma unlock_step_inv:
  assumes "mutex_inv s" and "pcs s t = Unlocking" and "mutex_unlock_step (val s) = (pc, v)"
  shows "mutex_inv (goto_pc t pc v (waitq s) s)"
proof -
  have "t \<in> crit s" using assms(2) by (simp add: crit_def)
  with assms show ?thesis
    by (auto simp: mutex_inv_def word_inv_def sleep_inv_def mutex_unlock_step_def
        pfunc_fetch_and_store_32_def lock_xchg_def mutex_consts not_awake split: if_splits)
qed

lemma interrupt_inv:
  assumes "mutex_inv s" and "pcs s t = Asleep"
  shows "mutex_inv (goto_pc t LockRetry (val s) (futex_interrupt t (waitq s)) s)"
  using assms
  by (auto simp: mutex_inv_def word_inv_def sleep_inv_def futex_interrupt_def not_crit)

lemma wake_inv:
  assumes inv: "mutex_inv s" and "pcs s t = UnlockWake"
    and wake: "futex_wake (waitq s) (unat PFUNC_MUTEX_LOCKED) ws = Some q"
  shows "mutex_inv (s\<lparr>waitq := q, pcs := (\<lambda>u. if u \<in> set ws then LockRetry
                                   else if u = t then Outside else pcs s u)\<rparr>)"
    (is "mutex_inv ?s'")
proof -
  note wake_facts = futex_wake_SomeD [OF wake]
  have asleep: "u \<in> set ws \<Longrightarrow> pcs s u = Asleep" for u
    using inv wake_facts(2) by (auto simp: mutex_inv_def sleep_inv_def)
  have "crit ?s' = crit s"
    using assms(2) asleep by (auto simp: crit_def)
  moreover have "awakes ?s' \<noteq> {}" if "q \<noteq> []"
  proof -
    from that wake have "waitq s \<noteq> []" by (auto simp: futex_wake_def split: if_splits)
    with futex_wake_nonempty [OF wake] have "ws \<noteq> []" by (simp add: mutex_consts)
    then show ?thesis by (cases ws) (auto simp: awakes_def)
  qed
  ultimately show ?thesis
    using inv wake_facts assms(2) by (auto simp: mutex_inv_def word_inv_def sleep_inv_def)
qed

lemma mutex_event_inv: "mutex_inv s \<Longrightarrow> mutex_event cas a s = Some s' \<Longrightarrow> mutex_inv s'"
proof (cases a)
  case (LockStep t)
  assume "mutex_inv s" "mutex_event cas a s = Some s'"
  with LockStep show ?thesis
    using lock_step_word [of s t] lock_step_sleep [of s t]
    by (auto simp: mutex_inv_def split: option.splits)
qed (auto intro: lock_call_inv unlock_call_inv unlock_step_inv interrupt_inv wake_inv
       split: if_splits option.splits prod.splits)

lemma mutex_step_inv: "mutex_inv s \<Longrightarrow> mutex_step cas s t \<Longrightarrow> mutex_inv t"
  by (auto elim: step_ofE intro: mutex_event_inv)

end

lemma mutex_inv_start: "mutex_inv mutex_start"
  by (simp add: mutex_inv_def word_inv_def sleep_inv_def mutex_start_def crit_def mutex_consts)

section \<open>The lock as its users see it\<close>

text \<open>
  The abstract lock is the thread in the critical section, if any: it is taken when free
  and given back by its holder.
\<close>

inductive lock_spec_step :: "tid option \<Rightarrow> tid option \<Rightarrow> bool" where
  acquire: "lock_spec_step None (Some t)"
| release: "lock_spec_step (Some t) None"

inductive_simps lock_spec_from_None: "lock_spec_step None h"
inductive_simps lock_spec_from_Some: "lock_spec_step (Some t) h"

definition lock_holder :: "mutex \<Rightarrow> tid option" where
  "lock_holder s = (if crit s = {} then None else Some (the_elem (crit s)))"

lemma word_inv_crit_cases:
  assumes "word_inv s"
  obtains "crit s = {}" | t where "crit s = {t}"
  using assms by (auto simp: word_inv_def)

lemma event_crit:
  assumes "mutex_inv s" and "mutex_event cas a s = Some s'"
  shows "\<exists>t. crit s' - {t} = crit s - {t}"
proof (cases a)
  case (WakeUp t ws)
  with assms obtain q where t: "pcs s t = UnlockWake"
    and q: "futex_wake (waitq s) (unat PFUNC_MUTEX_LOCKED) ws = Some q"
    and s': "s' = s\<lparr>waitq := q, pcs := (\<lambda>u. if u \<in> set ws then LockRetry
                                   else if u = t then Outside else pcs s u)\<rparr>"
    by (auto split: if_splits option.splits)
  have "u \<in> set ws \<Longrightarrow> pcs s u = Asleep" for u
    using assms(1) futex_wake_SomeD(2) [OF q] by (auto simp: mutex_inv_def sleep_inv_def)
  with t s' have "crit s' = crit s" by (auto simp: crit_def)
  then show ?thesis by simp
qed (use assms(2) in \<open>auto split: if_splits option.splits prod.splits\<close>)

lemma crit_lock_spec:
  assumes "word_inv s" and "word_inv s'" and "\<exists>t. crit s' - {t} = crit s - {t}"
  shows "lock_holder s' = lock_holder s \<or> lock_spec_step (lock_holder s) (lock_holder s')"
  using assms
  by (elim word_inv_crit_cases exE)
     (auto simp: lock_holder_def lock_spec_from_None lock_spec_from_Some
        dest: singleton_minus_eqD)

interpretation mtx: simulation "\<lambda>s. s = mutex_start" "mutex_step pfunc_compare_and_swap_32"
  mutex_inv lock_spec_step lock_holder
proof unfold_locales
  fix s t
  show "s = mutex_start \<Longrightarrow> mutex_inv s" by (simp add: mutex_inv_start)
  show inv: "mutex_inv s \<Longrightarrow> mutex_step pfunc_compare_and_swap_32 s t \<Longrightarrow> mutex_inv t"
    by (rule x86.mutex_step_inv)
  assume s: "mutex_inv s" and st: "mutex_step pfunc_compare_and_swap_32 s t"
  have "mutex_inv t" by (rule x86.mutex_step_inv [OF s st])
  moreover have "\<exists>u. crit t - {u} = crit s - {u}"
    using st s by (auto elim!: step_ofE dest: event_crit)
  ultimately show "lock_holder t = lock_holder s \<or> lock_spec_step (lock_holder s) (lock_holder t)"
    using s by (intro crit_lock_spec) (auto simp: mutex_inv_def)
qed

text \<open>A thread holds the lock exactly when the abstract lock says so.\<close>

lemma holds_iff_holder: "mutex_inv s \<Longrightarrow> holds (pcs s t) \<longleftrightarrow> lock_holder s = Some t"
proof -
  assume "mutex_inv s"
  then have "word_inv s" by (simp add: mutex_inv_def)
  then show ?thesis
    by (rule word_inv_crit_cases) (auto simp: lock_holder_def simp flip: crit_iff)
qed

lemma inv_one_holder: "mutex_inv s \<Longrightarrow> holds (pcs s t) \<Longrightarrow> holds (pcs s u) \<Longrightarrow> t = u"
  by (simp add: holds_iff_holder)

section \<open>A thread can always go on\<close>

lemma lock_step_enabled:
  assumes "pcs s t \<in> {LockFast, LockMark, LockSleep, LockRetry} \<or> (\<exists>i. pcs s t = LockSpin i)"
  shows "\<exists>s'. mutex_event cas (LockStep t) s = Some s'"
  using assms by (auto split: prod.splits)

lemma awake_enabled:
  assumes "mutex_inv s" and "awake (pcs s u)"
  shows "\<exists>s'. mutex_step cas s s'"
proof (cases "pcs s u = UnlockWake")
  case True
  then show ?thesis
  proof (cases "waitq s")
    case Nil
    with True show ?thesis
      by (intro exI step_of.event [where e = "WakeUp u []"]) simp
  next
    case (Cons v q)
    with assms have "futex_wake (waitq s) 1 [v] = Some (filter (\<lambda>x. x \<noteq> v) (waitq s))"
      by (intro futex_wake_one) (auto simp: mutex_inv_def sleep_inv_def)
    with True show ?thesis
      by (intro exI step_of.event [where e = "WakeUp u [v]"]) (simp add: mutex_consts)
  qed
next
  case False
  with assms(2) have "\<exists>s'. mutex_event cas (LockStep u) s = Some s'"
    by (intro lock_step_enabled) (cases "pcs s u"; simp)
  then show ?thesis by (blast intro: step_of.event)
qed

text \<open>
  The wake-up is never lost: while somebody sleeps, another thread is in the critical
  section or awake in the code of the mutex.
\<close>

lemma sleeper_has_waker:
  assumes "mutex_inv s" and "pcs s t = Asleep"
  shows "\<exists>u. holds (pcs s u) \<or> awake (pcs s u)"
proof -
  from assms have "waitq s \<noteq> []" by (auto simp: mutex_inv_def sleep_inv_def)
  with assms(1) consider "val s = 2" | "awakes s \<noteq> {}"
    by (auto simp: mutex_inv_def sleep_inv_def)
  then show ?thesis
  proof cases
    case 1
    with assms(1) obtain u where "crit s = {u}"
      by (auto simp: mutex_inv_def word_inv_def)
    then show ?thesis using crit_iff by auto
  next
    case 2
    then show ?thesis by (auto simp: awakes_def)
  qed
qed

section \<open>Clients that also call \<open>trylock\<close>\<close>

datatype mutex_client_action = Lib mutex_action | TryLock tid

fun mutex_client_event ::
  "(u32 \<Rightarrow> u32 \<Rightarrow> u32 \<Rightarrow> u32 \<times> u32) \<Rightarrow> mutex_client_action \<Rightarrow> mutex \<Rightarrow> mutex option" where
  "mutex_client_event cas (Lib a) s = mutex_event cas a s"
| "mutex_client_event cas (TryLock t) s =
     (if pcs s t = Outside
      then (case mutex_trylock cas (val s) of (got, v) \<Rightarrow>
              Some (goto_pc t (if got then Holding else Outside) v (waitq s) s))
      else None)"

section \<open>The generic compare-and-swap\<close>

definition nobody_holds :: "mutex \<Rightarrow> bool" where
  "nobody_holds s \<longleftrightarrow> (\<forall>t. \<not> holds (pcs s t))"

lemma generic_lock_step_not_holding:
  assumes "mutex_lock_step generic_compare_and_swap_32 t v q pc = Some (pc', v', q')"
  shows "\<not> holds pc'"
  using assms
  by (rule mutex_lock_stepE) (auto simp: generic_cas_eq mutex_consts split: if_splits prod.splits)

lemma nobody_holds_goto [simp]:
  "nobody_holds s \<Longrightarrow> nobody_holds (goto_pc t pc v q s) \<longleftrightarrow> \<not> holds pc"
  by (auto simp: nobody_holds_def)

lemma nobody_holds_pcs:
  assumes "nobody_holds s"
  shows "pcs s t \<noteq> Holding" and "pcs s t \<noteq> Unlocking"
  using assms [unfolded nobody_holds_def, THEN spec, of t] by auto

lemma generic_event_nobody_holds:
  assumes "nobody_holds s" and "mutex_event generic_compare_and_swap_32 a s = Some s'"
  shows "nobody_holds s'"
proof (cases a)
  case (WakeUp t ws)
  with assms show ?thesis
    by (auto simp: nobody_holds_def split: if_splits option.splits)
qed (use assms nobody_holds_pcs [OF assms(1)] in
      \<open>auto dest: generic_lock_step_not_holding split: if_splits option.splits\<close>)

lemma nobody_holds_start: "nobody_holds mutex_start"
  by (simp add: nobody_holds_def mutex_start_def)

interpretation gen: invariant_system "\<lambda>s. s = mutex_start"
  "mutex_step generic_compare_and_swap_32" nobody_holds
  by unfold_locales
     (auto elim!: step_ofE intro: nobody_holds_start generic_event_nobody_holds)

section \<open>Properties\<close>

text \<open>
  Mutual exclusion. Whatever the interleaving of \<open>lock\<close> and \<open>unlock\<close> calls, with
  wake-ups in any order and interrupted system calls, two threads are never both between
  the return of \<open>lock\<close> and the store of \<open>unlock\<close>.
\<close>

theorem mutex_mutual_exclusion:
  assumes "reaches (mutex_step pfunc_compare_and_swap_32) mutex_start s"
    and "holds (pcs s t)" and "holds (pcs s u)"
  shows "t = u"
  using mtx.reach_inv [OF refl assms(1)] assms(2,3) by (rule inv_one_holder)

text \<open>A run in which thread 1 finds the mutex locked and marks it.\<close>

definition contended_run :: "mutex_action list" where
  "contended_run = [CallLock 0, LockStep 0, CallLock 1, LockStep 1, LockStep 1]"

lemma contended_reached:
  "\<exists>s. reaches (mutex_step pfunc_compare_and_swap_32) mutex_start s \<and>
       pcs s 0 = Holding \<and> pcs s 1 = LockSpin 0 \<and> val s = 2"
proof -
  have "\<exists>s. run_events (mutex_event pfunc_compare_and_swap_32) contended_run mutex_start = Some s \<and>
        pcs s 0 = Holding \<and> pcs s 1 = LockSpin 0 \<and> val s = 2"
    by (simp add: contended_run_def mutex_start_def mutex_consts goto_pc_def x86.cas_eq)
  then show ?thesis by (blast intro: run_events_reaches)
qed

theorem mutex_mutual_exclusion_witness:
  "\<exists>s. reaches (mutex_step pfunc_compare_and_swap_32) mutex_start s \<and> holds (pcs s 0) \<and>
       (\<forall>u. holds (pcs s u) \<longrightarrow> 0 = u)"
proof -
  obtain s where s: "reaches (mutex_step pfunc_compare_and_swap_32) mutex_start s"
    and "pcs s 0 = Holding" using contended_reached by blast
  then have h: "holds (pcs s 0)" by simp
  with mutex_mutual_exclusion [OF s h] s show ?thesis by blast
qed

text \<open>
  C21: the mutex implements a lock. Every reachable state of the futex code is, through
  \<open>lock_holder\<close>, a reachable state of the abstract lock that is taken only when free and
  released only by its holder; and the threads that have returned from \<open>lock\<close> are exactly
  the abstract holder.
\<close>

theorem mutex_refines_lock:
  assumes "reaches (mutex_step pfunc_compare_and_swap_32) mutex_start s"
  shows "reaches lock_spec_step None (lock_holder s) \<and>
         (\<forall>t. holds (pcs s t) \<longleftrightarrow> lock_holder s = Some t)"
proof -
  have "lock_holder mutex_start = None"
    by (simp add: lock_holder_def crit_def mutex_start_def)
  with mtx.sim_reach [OF refl assms] mtx.reach_inv [OF refl assms] show ?thesis
    by (simp add: holds_iff_holder)
qed

theorem mutex_refines_lock_witness:
  "\<exists>s. reaches (mutex_step pfunc_compare_and_swap_32) mutex_start s \<and> lock_holder s = Some 0"
proof -
  obtain s where s: "reaches (mutex_step pfunc_compare_and_swap_32) mutex_start s"
    and "pcs s 0 = Holding" using contended_reached by blast
  with mutex_refines_lock [OF s] show ?thesis by (metis holds.simps(1))
qed


text \<open>
  The run of the witness: thread 1 finds the mutex locked, marks it, sees it still marked
  for the last spin (the counter is not stepped through two million times here: the holder
  unlocks and locks again, so that the spin loop is left early) and goes to sleep.
\<close>

definition sleep_run :: "mutex_action list" where
  "sleep_run =
     [CallLock 0, LockStep 0, CallLock 1, LockStep 1, LockStep 1,
      CallUnlock 0, UnlockStep 0, WakeUp 0 [], LockStep 1,
      CallLock 2, LockStep 2, CallLock 3, LockStep 3, LockStep 3, LockStep 1]"


text \<open>
  \<open>trylock\<close> reports the opposite of what it did. On a free mutex it takes the mutex
  and returns \<open>false\<close>; on a mutex that another thread holds it returns \<open>true\<close> and
  changes nothing.
\<close>

theorem trylock_result_inverted:
  "mutex_trylock pfunc_compare_and_swap_32 v =
     (if v = PFUNC_MUTEX_FREE then (False, PFUNC_MUTEX_LOCKED) else (True, v))"
  by (simp add: mutex_trylock_def x86.cas_eq)

text \<open>
  So a client that trusts \<open>trylock\<close> loses mutual exclusion: a state with two threads
  in the critical section is reachable.
\<close>

theorem trylock_breaks_exclusion:
  "\<exists>s. reaches (step_of (mutex_client_event pfunc_compare_and_swap_32)) mutex_start s \<and>
       holds (pcs s 0) \<and> holds (pcs s 1)"
proof -
  have "\<exists>s. run_events (mutex_client_event pfunc_compare_and_swap_32)
          [Lib (CallLock 0), Lib (LockStep 0), TryLock 1] mutex_start = Some s \<and>
        holds (pcs s 0) \<and> holds (pcs s 1)"
    by (simp add: mutex_start_def mutex_consts goto_pc_def x86.cas_eq mutex_trylock_def)
  then show ?thesis by (blast intro: run_events_reaches)
qed

text \<open>
  With the generic compare-and-swap (\<^verbatim>\<open>asm/generic.h\<close>), which returns the new value
  on success, \<open>lock\<close> never returns: in no reachable state has any thread got past it.
\<close>

theorem generic_cas_lock_never_returns:
  assumes "reaches (mutex_step generic_compare_and_swap_32) mutex_start s"
  shows "\<not> holds (pcs s t)"
  using gen.reach_inv [OF refl assms] by (simp add: nobody_holds_def)

theorem generic_cas_lock_never_returns_witness:
  "\<exists>s. reaches (mutex_step generic_compare_and_swap_32) mutex_start s \<and>
       val s = PFUNC_MUTEX_LOCKED_WITH_WAITERS \<and> pcs s 0 = LockSpin 0 \<and> \<not> holds (pcs s 0)"
proof -
  have "\<exists>s. run_events (mutex_event generic_compare_and_swap_32)
          [CallLock 0, LockStep 0, LockStep 0] mutex_start = Some s \<and>
        val s = PFUNC_MUTEX_LOCKED_WITH_WAITERS \<and> pcs s 0 = LockSpin 0"
    by (simp add: mutex_start_def mutex_consts goto_pc_def generic_cas_eq)
  then obtain s where s: "reaches (mutex_step generic_compare_and_swap_32) mutex_start s"
    and v: "val s = PFUNC_MUTEX_LOCKED_WITH_WAITERS" "pcs s 0 = LockSpin 0"
    by (blast intro: run_events_reaches)
  from generic_cas_lock_never_returns [OF s] s v show ?thesis by blast
qed

end
