(* ===== verification/Event.thy ===== *)
theory Event
  imports Atomics Futex
begin

text \<open>
  The completion events of \<^verbatim>\<open>pfunc/event.hpp\<close>. \<open>event_base\<close> is the record; \<open>test\<close>,
  \<open>reset\<close> and the two \<open>notify\<close> functions are operations on it. \<open>wait\<close> of the
  waitable event (the futex variant) blocks, so it is also given as a machine: any number
  of waiting threads and the thread that completes the task, one action per access to the
  event or system call. The pthread variant of \<open>wait\<close> is given by the calls it makes on
  its mutex and condition variable.
\<close>

section \<open>State and operations\<close>

definition PFUNC_INACTIVE :: u32 where "PFUNC_INACTIVE = 0"
definition PFUNC_ACTIVE_INCOMPLETE :: u32 where "PFUNC_ACTIVE_INCOMPLETE = 1"
definition PFUNC_ACTIVE_COMPLETE :: u32 where "PFUNC_ACTIVE_COMPLETE = 2"

lemmas event_consts [pf_defs] =
  PFUNC_INACTIVE_def PFUNC_ACTIVE_INCOMPLETE_def PFUNC_ACTIVE_COMPLETE_def

record event =
  event_state :: u32
  num_waiters :: u32

definition event_base :: event where
  "event_base = \<lparr>event_state = PFUNC_INACTIVE, num_waiters = 1\<rparr>"

definition event_test :: "event \<Rightarrow> bool \<times> event" where
  "event_test e =
     (if event_state e = PFUNC_ACTIVE_INCOMPLETE then (False, e)
      else if event_state e = PFUNC_INACTIVE then (True, e)
      else (case pfunc_fetch_and_add_32 (num_waiters e) (- 1) of (old, n) \<Rightarrow>
              (True, if old = 1 then e\<lparr>num_waiters := n, event_state := PFUNC_INACTIVE\<rparr>
                     else e\<lparr>num_waiters := n\<rparr>)))"

definition event_reset :: "u32 \<Rightarrow> event \<Rightarrow> event" where
  "event_reset nwait e = e\<lparr>num_waiters := nwait, event_state := PFUNC_ACTIVE_INCOMPLETE\<rparr>"

text \<open>The store of \<open>notify\<close> in the waitable and in the testable event.\<close>

definition waitable_notify :: "event \<Rightarrow> event" where
  "waitable_notify e =
     e\<lparr>event_state := snd (pfunc_fetch_and_store_32 (event_state e) PFUNC_ACTIVE_COMPLETE)\<rparr>"

definition testable_notify :: "event \<Rightarrow> event" where
  "testable_notify e = e\<lparr>event_state := PFUNC_ACTIVE_COMPLETE\<rparr>"

text \<open>The end of \<open>wait\<close>, after the wake-up.\<close>

definition wait_count :: "event \<Rightarrow> u32 \<times> event" where
  "wait_count e = (case pfunc_fetch_and_add_32 (num_waiters e) (- 1) of (old, n) \<Rightarrow>
                     (old, e\<lparr>num_waiters := n\<rparr>))"

definition wait_after_wake :: "event \<Rightarrow> event" where
  "wait_after_wake e = (case wait_count e of (old, e') \<Rightarrow>
     if old = 0 then e'\<lparr>event_state := PFUNC_INACTIVE\<rparr> else e')"

text \<open>A whole \<open>wait\<close> that nobody interleaves with: \<open>None\<close> if it has to block.\<close>

definition event_wait :: "event \<Rightarrow> event option" where
  "event_wait e = (if event_state e = PFUNC_ACTIVE_INCOMPLETE then None
                   else Some (wait_after_wake e))"

lemma event_test_incomplete: "event_state e = PFUNC_ACTIVE_INCOMPLETE \<Longrightarrow> event_test e = (False, e)"
  by (simp add: event_test_def)

lemma event_test_inactive: "event_state e = PFUNC_INACTIVE \<Longrightarrow> event_test e = (True, e)"
  by (simp add: event_test_def event_consts)

lemma event_test_complete:
  "event_state e = PFUNC_ACTIVE_COMPLETE \<Longrightarrow>
   event_test e = (True, if num_waiters e = 1
                         then \<lparr>event_state = PFUNC_INACTIVE, num_waiters = 0\<rparr>
                         else e\<lparr>num_waiters := num_waiters e - 1\<rparr>)"
  by (cases e) (simp add: event_test_def event_consts pfunc_fetch_and_add_32_def lock_xadd_def)

lemma event_test_False: "\<not> fst (event_test e) \<Longrightarrow> event_test e = (False, e)"
  by (auto simp: event_test_def split: if_splits prod.splits)

lemma event_test_result: "fst (event_test e) \<longleftrightarrow> event_state e \<noteq> PFUNC_ACTIVE_INCOMPLETE"
  by (simp add: event_test_def split: prod.splits)

lemma event_state_reset [simp]: "event_state (event_reset n e) = PFUNC_ACTIVE_INCOMPLETE"
  by (simp add: event_reset_def)

lemma event_state_notify [simp]:
  "event_state (testable_notify e) = PFUNC_ACTIVE_COMPLETE"
  "event_state (waitable_notify e) = PFUNC_ACTIVE_COMPLETE"
  by (simp_all add: testable_notify_def waitable_notify_def pfunc_fetch_and_store_32_def
      lock_xchg_def)

section \<open>Sequences of tests and of waits\<close>

fun event_tests :: "nat \<Rightarrow> event \<Rightarrow> bool list \<times> event" where
  "event_tests 0 e = ([], e)"
| "event_tests (Suc k) e =
     (case event_test e of (b, e') \<Rightarrow> (case event_tests k e' of (bs, e'') \<Rightarrow> (b # bs, e'')))"

fun event_waits :: "nat \<Rightarrow> event \<Rightarrow> event option" where
  "event_waits 0 e = Some e"
| "event_waits (Suc k) e = (case event_wait e of None \<Rightarrow> None | Some e' \<Rightarrow> event_waits k e')"

lemma event_tests_inactive:
  "event_state e = PFUNC_INACTIVE \<Longrightarrow> event_tests k e = (replicate k True, e)"
  by (induction k) (simp_all add: event_test_inactive)

lemma event_tests_complete:
  assumes "event_state e = PFUNC_ACTIVE_COMPLETE" and "num_waiters e \<noteq> 0"
  shows "event_tests k e =
     (replicate k True,
      if k < unat (num_waiters e) then e\<lparr>num_waiters := num_waiters e - of_nat k\<rparr>
      else \<lparr>event_state = PFUNC_INACTIVE, num_waiters = 0\<rparr>)"
  using assms
proof (induction k arbitrary: e)
  case 0
  then show ?case by (simp add: unat_gt_0)
next
  case (Suc k)
  show ?case
  proof (cases "num_waiters e = 1")
    case True
    with Suc.prems show ?thesis
      by (simp add: event_test_complete event_tests_inactive)
  next
    case False
    let ?e = "e\<lparr>num_waiters := num_waiters e - 1\<rparr>"
    have "unat (num_waiters e - 1) = unat (num_waiters e) - 1"
      using Suc.prems(2) by (simp add: pf_word)
    moreover have "num_waiters e - 1 \<noteq> 0" using False by simp
    ultimately show ?thesis
      using Suc.prems False Suc.IH [of ?e]
      by (auto simp: event_test_complete algebra_simps)
  qed
qed

text \<open>The wait counts down too, but compares with zero: the last waiter leaves the event complete.\<close>

lemma event_waits_complete:
  assumes "event_state e = PFUNC_ACTIVE_COMPLETE" and "k \<le> unat (num_waiters e)"
  shows "event_waits k e = Some (e\<lparr>num_waiters := num_waiters e - of_nat k\<rparr>)"
  using assms
proof (induction k arbitrary: e)
  case 0
  then show ?case by simp
next
  case (Suc k)
  let ?e = "e\<lparr>num_waiters := num_waiters e - 1\<rparr>"
  have nz: "num_waiters e \<noteq> 0" using Suc.prems(2) by auto
  then have "unat (num_waiters e - 1) = unat (num_waiters e) - 1" by (simp add: pf_word)
  moreover have "event_wait e = Some ?e"
    using Suc.prems(1) nz
    by (simp add: event_wait_def wait_after_wake_def wait_count_def event_consts
        pfunc_fetch_and_add_32_def lock_xadd_def)
  ultimately show ?case
    using Suc.prems Suc.IH [of ?e] by (simp add: algebra_simps)
qed

section \<open>Waiting and notifying as a machine\<close>

text \<open>The threads of the machine are those below \<open>N\<close>.\<close>

datatype wait_pc = WOutside | WCheck | WFutex | WAsleep | WCount | WStore | WReturned

datatype notify_pc = NRunning | NStore | NWake | NDone

record event_sys =
  ev :: event
  evq :: "tid list"
  wpc :: "tid \<Rightarrow> wait_pc"
  npc :: notify_pc

definition event_start :: "u32 \<Rightarrow> event_sys" where
  "event_start n = \<lparr>ev = event_reset n event_base, evq = [], wpc = (\<lambda>_. WOutside), npc = NRunning\<rparr>"

fun wait_step :: "tid \<Rightarrow> event \<Rightarrow> tid list \<Rightarrow> wait_pc \<Rightarrow> (wait_pc \<times> event \<times> tid list) option" where
  "wait_step t e q WCheck =
     Some (if event_state e = PFUNC_ACTIVE_INCOMPLETE then WFutex else WCount, e, q)"
| "wait_step t e q WFutex =
     (case futex_wait (event_state e) PFUNC_ACTIVE_INCOMPLETE t q of (sleeps, q') \<Rightarrow>
        Some (if sleeps then WAsleep else WCount, e, q'))"
| "wait_step t e q WCount =
     (case wait_count e of (old, e') \<Rightarrow> Some (if old = 0 then WStore else WReturned, e', q))"
| "wait_step t e q WStore = Some (WReturned, e\<lparr>event_state := PFUNC_INACTIVE\<rparr>, q)"
| "wait_step t e q _ = None"

datatype event_action =
    CallWait tid
  | WaitStep tid
  | WaitInterrupt tid
  | CallNotify
  | NotifyStore
  | NotifyWake "tid list"

fun event_do :: "bool \<Rightarrow> nat \<Rightarrow> event_action \<Rightarrow> event_sys \<Rightarrow> event_sys option" where
  "event_do signals N (CallWait t) s =
     (if t < N \<and> wpc s t = WOutside then Some (s\<lparr>wpc := (wpc s)(t := WCheck)\<rparr>) else None)"
| "event_do signals N (WaitStep t) s =
     (case wait_step t (ev s) (evq s) (wpc s t) of
        None \<Rightarrow> None
      | Some (pc, e, q) \<Rightarrow> Some (s\<lparr>ev := e, evq := q, wpc := (wpc s)(t := pc)\<rparr>))"
| "event_do signals N (WaitInterrupt t) s =
     (if signals \<and> wpc s t = WAsleep
      then Some (s\<lparr>evq := futex_interrupt t (evq s), wpc := (wpc s)(t := WCount)\<rparr>) else None)"
| "event_do signals N CallNotify s =
     (if npc s = NRunning then Some (s\<lparr>npc := NStore\<rparr>) else None)"
| "event_do signals N NotifyStore s =
     (if npc s = NStore then Some (s\<lparr>ev := waitable_notify (ev s), npc := NWake\<rparr>) else None)"
| "event_do signals N (NotifyWake ws) s =
     (if npc s = NWake
      then (case futex_wake (evq s) INT_MAX ws of
              None \<Rightarrow> None
            | Some q \<Rightarrow> Some (s\<lparr>evq := q, npc := NDone,
                                wpc := (\<lambda>u. if u \<in> set ws then WCount else wpc s u)\<rparr>))
      else None)"

definition event_queue_inv :: "nat \<Rightarrow> event_sys \<Rightarrow> bool" where
  "event_queue_inv N s \<longleftrightarrow>
     distinct (evq s) \<and> (\<forall>t. t \<in> set (evq s) \<longleftrightarrow> wpc s t = WAsleep) \<and>
     (\<forall>t. wpc s t \<noteq> WOutside \<longrightarrow> t < N) \<and>
     (npc s \<in> {NWake, NDone} \<longrightarrow> event_state (ev s) \<noteq> PFUNC_ACTIVE_INCOMPLETE) \<and>
     (npc s = NDone \<longrightarrow> evq s = [])"

definition event_done_inv :: "event_sys \<Rightarrow> bool" where
  "event_done_inv s \<longleftrightarrow>
     (event_state (ev s) = PFUNC_ACTIVE_INCOMPLETE \<longleftrightarrow> npc s \<in> {NRunning, NStore}) \<and>
     (\<forall>t. wpc s t \<in> {WCount, WStore, WReturned} \<longrightarrow>
          event_state (ev s) \<noteq> PFUNC_ACTIVE_INCOMPLETE)"

lemma wait_count_state [simp]: "event_state (snd (wait_count e)) = event_state e"
  by (simp add: wait_count_def split: prod.splits)

fun_cases wait_stepE: "wait_step t e q pc = Some r"

lemma queue_bound:
  assumes "event_queue_inv N s"
  shows "length (evq s) \<le> N"
proof -
  have "set (evq s) \<subseteq> {..<N}" using assms by (force simp: event_queue_inv_def)
  from card_mono [OF _ this] show ?thesis
    using assms by (simp add: event_queue_inv_def distinct_card)
qed

lemma wait_step_queue_inv:
  assumes "event_queue_inv N s" and "wait_step t (ev s) (evq s) (wpc s t) = Some (pc, e, q)"
  shows "event_queue_inv N (s\<lparr>ev := e, evq := q, wpc := (wpc s)(t := pc)\<rparr>)"
  using assms(2)
  by (rule wait_stepE)
     (use assms(1) in \<open>auto simp: event_queue_inv_def futex_wait_def wait_count_def event_consts
        split: if_splits prod.splits\<close>)

lemma wait_step_done_inv:
  assumes "event_done_inv s" and "wait_step t (ev s) (evq s) (wpc s t) = Some (pc, e, q)"
  shows "event_done_inv (s\<lparr>ev := e, evq := q, wpc := (wpc s)(t := pc)\<rparr>)"
  using assms(2)
  by (rule wait_stepE)
     (use assms(1) in \<open>auto simp: event_done_inv_def futex_wait_def wait_count_def event_consts
        split: if_splits prod.splits\<close>)

lemma wake_queue_inv:
  assumes "event_queue_inv N s" and "npc s = NWake" and "N \<le> INT_MAX"
    and "futex_wake (evq s) INT_MAX ws = Some q"
  shows "event_queue_inv N (s\<lparr>evq := q, npc := NDone,
           wpc := (\<lambda>u. if u \<in> set ws then WCount else wpc s u)\<rparr>)"
proof -
  have "q = []"
    using assms queue_bound [OF assms(1)]
    by (intro futex_wake_all [OF assms(4)]) (auto simp: event_queue_inv_def)
  moreover from this have "set ws = set (evq s)"
    using futex_wake_SomeD [OF assms(4)] by auto
  ultimately show ?thesis
    using assms(1,2) by (auto simp: event_queue_inv_def)
qed

lemma event_do_queue_inv:
  assumes "event_queue_inv N s" and "N \<le> INT_MAX" and "event_do signals N a s = Some s'"
  shows "event_queue_inv N s'"
proof (cases a)
  case (NotifyWake ws)
  with assms show ?thesis by (auto split: if_splits option.splits intro: wake_queue_inv)
next
  case (WaitStep t)
  with assms show ?thesis by (auto split: option.splits intro: wait_step_queue_inv)
qed (use assms in \<open>auto simp: event_queue_inv_def futex_interrupt_def event_consts
       split: if_splits\<close>)

lemma event_do_done_inv:
  assumes "event_done_inv s" and "event_do False N a s = Some s'"
  shows "event_done_inv s'"
proof (cases a)
  case (WaitStep t)
  with assms show ?thesis by (auto split: option.splits intro: wait_step_done_inv)
qed (use assms in \<open>auto simp: event_done_inv_def event_consts split: if_splits option.splits\<close>)

lemma event_start_queue_inv: "event_queue_inv N (event_start n)"
  by (simp add: event_queue_inv_def event_start_def)

lemma event_start_done_inv: "event_done_inv (event_start n)"
  by (simp add: event_done_inv_def event_start_def)

interpretation evq: invariant_system "\<lambda>s. \<exists>n. s = event_start n" "step_of (event_do signals N)"
  "\<lambda>s. N \<le> INT_MAX \<longrightarrow> event_queue_inv N s" for signals N
  by unfold_locales (auto elim!: step_ofE intro: event_start_queue_inv event_do_queue_inv)

interpretation evd: invariant_system "\<lambda>s. \<exists>n. s = event_start n" "step_of (event_do False N)"
  event_done_inv for N
  by unfold_locales (auto elim!: step_ofE intro: event_start_done_inv event_do_done_inv)

section \<open>The pthread variant of \<open>wait\<close>\<close>

text \<open>
  The calls on \<open>lck\<close> and \<open>cnd\<close> in the order the code makes them, given the two values
  that it reads from \<open>event_state\<close>: only the first call stands under the first \<open>if\<close>.
\<close>

datatype lock_call = MutexLock | CondWait | MutexUnlock

definition pthread_wait_calls :: "u32 \<Rightarrow> u32 \<Rightarrow> lock_call list" where
  "pthread_wait_calls first_read second_read =
     (if first_read = PFUNC_ACTIVE_INCOMPLETE then [MutexLock] else []) @
     (if PFUNC_ACTIVE_INCOMPLETE = second_read then [CondWait] else []) @
     [MutexUnlock]"

text \<open>\<open>notify\<close> of the pthread variant stores the state first and then broadcasts under the lock.\<close>

datatype notify_call = NLock | NBroadcast | NUnlock

definition pthread_notify :: "event \<Rightarrow> event \<times> notify_call list" where
  "pthread_notify e = (waitable_notify e, [NLock, NBroadcast, NUnlock])"

text \<open>
  The discipline of the two objects: lock a mutex that is not held, wait and unlock only
  while holding it.
\<close>

fun lock_discipline :: "bool \<Rightarrow> lock_call list \<Rightarrow> bool" where
  "lock_discipline held [] = (\<not> held)"
| "lock_discipline held (MutexLock # cs) = (\<not> held \<and> lock_discipline True cs)"
| "lock_discipline held (CondWait # cs) = (held \<and> lock_discipline True cs)"
| "lock_discipline held (MutexUnlock # cs) = (held \<and> lock_discipline False cs)"

section \<open>Properties\<close>

text \<open>
  Life cycle of a tested event. After \<open>reset (n)\<close> every test fails; after \<open>notify\<close>
  every test succeeds; the first \<open>n\<close> of them count the waiters down and the \<open>n\<close>th,
  no earlier one, makes the event inactive again.
\<close>

theorem event_test_life_cycle:
  assumes "n \<noteq> 0"
  shows "\<not> fst (event_test (event_reset n e)) \<and>
         event_tests k (testable_notify (event_reset n e)) =
           (replicate k True,
            if k < unat n then \<lparr>event_state = PFUNC_ACTIVE_COMPLETE, num_waiters = n - of_nat k\<rparr>
            else \<lparr>event_state = PFUNC_INACTIVE, num_waiters = 0\<rparr>)"
proof -
  have eq: "testable_notify (event_reset n e) =
              \<lparr>event_state = PFUNC_ACTIVE_COMPLETE, num_waiters = n\<rparr>"
    by (cases e) (simp add: testable_notify_def event_reset_def)
  show ?thesis
    unfolding eq using assms by (simp add: event_tests_complete event_test_incomplete)
qed

theorem event_test_life_cycle_witness:
  "event_tests 2 (testable_notify (event_reset 3 event_base)) =
     (replicate 2 True, \<lparr>event_state = PFUNC_ACTIVE_COMPLETE, num_waiters = 1\<rparr>) \<and>
   event_tests 4 (testable_notify (event_reset 3 event_base)) =
     (replicate 4 True, \<lparr>event_state = PFUNC_INACTIVE, num_waiters = 0\<rparr>)"
proof -
  have "(3 :: u32) \<noteq> 0" by simp
  note life = event_test_life_cycle [OF this, THEN conjunct2, of _ event_base]
  show ?thesis unfolding life by simp
qed

text \<open>
  The waitable event never becomes inactive through its waiters. After \<open>reset (n)\<close>,
  \<open>notify\<close> and all \<open>n\<close> waits the event is still \<open>COMPLETE\<close> with no waiter left,
  whereas \<open>n\<close> tests make it \<open>INACTIVE\<close>; the comparison of \<open>wait\<close> is off by one.
\<close>

theorem event_wait_leaves_complete:
  assumes "n \<noteq> 0"
  shows "event_waits (unat n) (waitable_notify (event_reset n e)) =
           Some \<lparr>event_state = PFUNC_ACTIVE_COMPLETE, num_waiters = 0\<rparr> \<and>
         snd (event_tests (unat n) (waitable_notify (event_reset n e))) =
           \<lparr>event_state = PFUNC_INACTIVE, num_waiters = 0\<rparr>"
proof -
  have eq: "waitable_notify (event_reset n e) =
              \<lparr>event_state = PFUNC_ACTIVE_COMPLETE, num_waiters = n\<rparr>"
    by (cases e) (simp add: waitable_notify_def event_reset_def pfunc_fetch_and_store_32_def
        lock_xchg_def)
  show ?thesis
    unfolding eq using assms by (simp add: event_waits_complete event_tests_complete)
qed

theorem event_wait_leaves_complete_witness:
  "event_waits 1 (waitable_notify (event_reset 1 event_base)) =
     Some \<lparr>event_state = PFUNC_ACTIVE_COMPLETE, num_waiters = 0\<rparr>"
  using event_wait_leaves_complete [of 1 event_base] by simp

text \<open>
  C35: nobody is left asleep. However many threads wait and whatever the interleaving,
  signals included, once the notifying thread has made its wake-up call no thread sleeps
  on the event, and none can go to sleep on it any more.
\<close>

theorem event_nobody_left_asleep:
  assumes "reaches (step_of (event_do signals N)) (event_start n) s"
    and "N \<le> INT_MAX" and "npc s = NDone"
  shows "evq s = [] \<and> (\<forall>t. wpc s t \<noteq> WAsleep) \<and>
         (\<forall>t e q. wait_step t (ev s) (evq s) (wpc s t) \<noteq> Some (WAsleep, e, q))"
proof -
  have inv: "event_queue_inv N s"
    using evq.reach_inv [OF _ assms(1)] assms(2) by auto
  have "wait_step t (ev s) (evq s) (wpc s t) \<noteq> Some (WAsleep, e, q)" for t e q
    using inv assms(3) by (cases "wpc s t") (auto simp: event_queue_inv_def split: prod.splits)
  with inv assms(3) show ?thesis by (auto simp: event_queue_inv_def)
qed

definition notified_run :: "event_action list" where
  "notified_run =
     [CallWait 0, WaitStep 0, WaitStep 0, CallWait 1, WaitStep 1, CallNotify, NotifyStore,
      NotifyWake [0], WaitStep 0, WaitStep 1, WaitStep 1]"

lemma notified_run_result:
  "\<exists>s. reaches (step_of (event_do False 2)) (event_start 2) s \<and> npc s = NDone \<and>
       wpc s 0 = WReturned \<and> wpc s 1 = WReturned"
proof -
  have "\<exists>s. run_events (event_do False 2) notified_run (event_start 2) = Some s \<and>
       npc s = NDone \<and> wpc s 0 = WReturned \<and> wpc s 1 = WReturned"
    by (simp add: notified_run_def event_start_def event_reset_def event_base_def event_consts
        futex_wake_def INT_MAX_def waitable_notify_def wait_count_def pf_defs)
  then show ?thesis by (blast intro: run_events_reaches)
qed

theorem event_nobody_left_asleep_witness:
  "\<exists>s. reaches (step_of (event_do False 2)) (event_start 2) s \<and> npc s = NDone \<and> evq s = []"
proof -
  obtain s where "reaches (step_of (event_do False 2)) (event_start 2) s" and "npc s = NDone"
    using notified_run_result by blast
  with event_nobody_left_asleep [of False 2 2 s] show ?thesis by (auto simp: INT_MAX_def)
qed

text \<open>
  As long as no signal interrupts the system call, \<open>wait\<close> returns only after the
  task's completion has been stored.
\<close>

theorem event_wait_after_completion:
  assumes "reaches (step_of (event_do False N)) (event_start n) s" and "wpc s t = WReturned"
  shows "npc s \<in> {NWake, NDone} \<and> event_state (ev s) \<noteq> PFUNC_ACTIVE_INCOMPLETE"
proof -
  have "event_done_inv s" using evd.reach_inv [OF _ assms(1)] by auto
  with assms(2) show ?thesis by (cases "npc s") (auto simp: event_done_inv_def)
qed

theorem event_wait_after_completion_witness:
  "\<exists>s. reaches (step_of (event_do False 2)) (event_start 2) s \<and> wpc s 0 = WReturned \<and>
       npc s \<in> {NWake, NDone}"
proof -
  obtain s where "reaches (step_of (event_do False 2)) (event_start 2) s"
    and "wpc s 0 = WReturned" using notified_run_result by blast
  with event_wait_after_completion [of 2 2 s 0] show ?thesis by blast
qed

text \<open>
  With a signal it does not. \<open>wait\<close> calls \<open>futex_wait\<close> once and does not look at
  the state again, so a state is reachable in which \<open>wait\<close> has returned while the task
  is still running.
\<close>

theorem event_wait_returns_early:
  "\<exists>s. reaches (step_of (event_do True 1)) (event_start 1) s \<and> wpc s 0 = WReturned \<and>
       npc s = NRunning \<and> event_state (ev s) = PFUNC_ACTIVE_INCOMPLETE"
proof -
  have "\<exists>s. run_events (event_do True 1)
          [CallWait 0, WaitStep 0, WaitStep 0, WaitInterrupt 0, WaitStep 0] (event_start 1) = Some s \<and>
       wpc s 0 = WReturned \<and> npc s = NRunning \<and> event_state (ev s) = PFUNC_ACTIVE_INCOMPLETE"
    by (simp add: event_start_def event_reset_def event_base_def event_consts wait_count_def pf_defs)
  then show ?thesis by (blast intro: run_events_reaches)
qed

text \<open>
  The pthread \<open>wait\<close> keeps the discipline of its mutex exactly when its first read
  finds the task incomplete; on a task that is already complete it unlocks a mutex it has
  not locked.
\<close>

theorem pthread_wait_discipline:
  "lock_discipline False (pthread_wait_calls first_read second_read) \<longleftrightarrow>
     first_read = PFUNC_ACTIVE_INCOMPLETE"
  by (simp add: pthread_wait_calls_def)

end
