(* ===== verification/Barrier_Spec.thy ===== *)
theory Barrier_Spec
  imports Pfunc_Prelude
begin

text \<open>
  What a barrier for \<open>N\<close> threads promises, whatever its implementation: a thread leaves
  its \<open>k\<close>th barrier only after all \<open>N\<close> threads have entered their \<open>k\<close>th. The
  barriers of PFunc, \<^verbatim>\<open>group::barrier_steal\<close> and the two variants of
  \<^verbatim>\<open>detail::barrier\<close>, are shown to implement this machine.
\<close>

record barrier_spec =
  entries :: "tid \<Rightarrow> nat"
  exits :: "tid \<Rightarrow> nat"

definition barrier_spec_start :: barrier_spec where
  "barrier_spec_start = \<lparr>entries = (\<lambda>_. 0), exits = (\<lambda>_. 0)\<rparr>"

inductive barrier_spec_step :: "nat \<Rightarrow> barrier_spec \<Rightarrow> barrier_spec \<Rightarrow> bool" for N where
  enter: "t < N \<Longrightarrow> entries s t = exits s t \<Longrightarrow>
     barrier_spec_step N s (s\<lparr>entries := (entries s)(t := Suc (entries s t))\<rparr>)"
| leave: "t < N \<Longrightarrow> entries s t = Suc (exits s t) \<Longrightarrow> \<forall>u<N. entries s t \<le> entries s u \<Longrightarrow>
     barrier_spec_step N s (s\<lparr>exits := (exits s)(t := Suc (exits s t))\<rparr>)"

inductive_cases barrier_spec_stepE: "barrier_spec_step N s t"

definition barrier_spec_inv :: "nat \<Rightarrow> barrier_spec \<Rightarrow> bool" where
  "barrier_spec_inv N s \<longleftrightarrow>
     (\<forall>t<N. exits s t \<le> entries s t \<and> entries s t \<le> Suc (exits s t)) \<and>
     (\<forall>t<N. \<forall>u<N. exits s t \<le> entries s u)"

interpretation barrier: invariant_system "\<lambda>s. s = barrier_spec_start" "barrier_spec_step N"
  "barrier_spec_inv N" for N
proof unfold_locales
  show "s = barrier_spec_start \<Longrightarrow> barrier_spec_inv N s" for s
    by (simp add: barrier_spec_inv_def barrier_spec_start_def)
  show "barrier_spec_inv N t" if "barrier_spec_inv N s" and "barrier_spec_step N s t" for s t
    using that(2,1)
  proof (cases rule: barrier_spec_step.cases)
    case (enter u)
    have "exits s v \<le> Suc (entries s u)" if "v < N" for v
      using that enter(2) \<open>barrier_spec_inv N s\<close> by (simp add: barrier_spec_inv_def le_SucI)
    with enter that(1) show ?thesis by (auto simp: barrier_spec_inv_def le_SucI)
  next
    case (leave u)
    with that(1) show ?thesis by (auto simp: barrier_spec_inv_def)
  qed
qed

text \<open>Two threads are never more than one barrier apart.\<close>

lemma barrier_spec_apart:
  "barrier_spec_inv N s \<Longrightarrow> t < N \<Longrightarrow> u < N \<Longrightarrow> exits s t \<le> Suc (exits s u)"
  by (meson barrier_spec_inv_def le_trans)

end
