(* ===== verification/Barrier.thy ===== *)
theory Barrier
  imports Barrier_Spec Atomics Futex
begin

text \<open>
  The start-up barrier of \<^verbatim>\<open>pfunc/barrier.hpp\<close> in its futex variant, as a machine: any
  number of threads call it over and over, every access to \<open>barrier_phase\<close> and
  \<open>barrier_count\<close> and every system call is one action, and signals may end the system
  call of a sleeper. It refines the abstract barrier of \<open>Barrier_Spec\<close>.
\<close>

section \<open>State and code\<close>

definition BARRIER_MAX_SPINS :: nat where "BARRIER_MAX_SPINS = 2000000"

datatype bar_pc =
    BOut
  | BRead               \<comment> \<open>about to read the phase\<close>
  | BDec u32            \<comment> \<open>about to decrement the count; holds \<open>my_phase\<close>\<close>
  | BReset              \<comment> \<open>last thread: about to reset the count\<close>
  | BFlip               \<comment> \<open>about to toggle the phase\<close>
  | BWake               \<comment> \<open>about to wake the sleepers\<close>
  | BWait u32           \<comment> \<open>at the condition of the while loop\<close>
  | BSpin u32 nat       \<comment> \<open>in the spin loop\<close>
  | BSleep u32          \<comment> \<open>about to call \<open>futex_wait\<close>\<close>
  | BAsleep u32

record bar_cell =
  bar_size :: u32
  bar_phase :: u32
  bar_count :: u32

definition bar_default :: bar_cell where
  "bar_default = \<lparr>bar_size = 0, bar_phase = 0, bar_count = 0\<rparr>"

definition bar_initialize :: "u32 \<Rightarrow> bar_cell \<Rightarrow> bar_cell" where
  "bar_initialize n b = b\<lparr>bar_size := n, bar_count := n\<rparr>"

record bar_sys =
  cell :: bar_cell
  bpc :: "tid \<Rightarrow> bar_pc"
  sleepers :: "tid list"
  rounds :: nat                  \<comment> \<open>ghost: how often the phase was toggled\<close>
  bspec :: barrier_spec          \<comment> \<open>ghost: the barriers entered and left\<close>

definition bar_start :: "u32 \<Rightarrow> bar_sys" where
  "bar_start n = \<lparr>cell = bar_initialize n bar_default, bpc = (\<lambda>_. BOut), sleepers = [],
     rounds = 0, bspec = barrier_spec_start\<rparr>"

definition bar_goto :: "tid \<Rightarrow> bar_pc \<Rightarrow> bar_sys \<Rightarrow> bar_sys" where
  "bar_goto t pc s = s\<lparr>bpc := (bpc s)(t := pc)\<rparr>"

definition bar_leave :: "tid \<Rightarrow> bar_sys \<Rightarrow> bar_sys" where
  "bar_leave t s = s\<lparr>bpc := (bpc s)(t := BOut),
     bspec := (bspec s)\<lparr>exits := (exits (bspec s))(t := Suc (exits (bspec s) t))\<rparr>\<rparr>"

datatype bar_action = BarEnter tid | BarStep tid | BarWake tid "tid list" | BarInterrupt tid

fun woken :: "bar_pc \<Rightarrow> bar_pc" where
  "woken (BAsleep p) = BWait p"
| "woken pc = pc"

fun bar_event :: "bar_action \<Rightarrow> bar_sys \<Rightarrow> bar_sys option" where
  "bar_event (BarEnter t) s =
     (if t < unat (bar_size (cell s)) \<and> bpc s t = BOut
      then Some (s\<lparr>bpc := (bpc s)(t := BRead),
                   bspec := (bspec s)\<lparr>entries := (entries (bspec s))
                                        (t := Suc (entries (bspec s) t))\<rparr>\<rparr>)
      else None)"
| "bar_event (BarStep t) s =
     (case bpc s t of
        BRead \<Rightarrow> Some (bar_goto t (BDec (bar_phase (cell s))) s)
      | BDec p \<Rightarrow>
          (case pfunc_fetch_and_add_32 (bar_count (cell s)) (- 1) of (old, c) \<Rightarrow>
             Some (bar_goto t (if 1 = old then BReset else BWait p)
                     (s\<lparr>cell := (cell s)\<lparr>bar_count := c\<rparr>\<rparr>)))
      | BReset \<Rightarrow> Some (bar_goto t BFlip (s\<lparr>cell := (cell s)\<lparr>bar_count := bar_size (cell s)\<rparr>\<rparr>))
      | BFlip \<Rightarrow> Some (bar_goto t BWake
                   (s\<lparr>cell := (cell s)\<lparr>bar_phase := not (bar_phase (cell s))\<rparr>,
                      rounds := Suc (rounds s)\<rparr>))
      | BWait p \<Rightarrow> Some (if bar_phase (cell s) = p then bar_goto t (BSpin p 0) s else bar_leave t s)
      | BSpin p i \<Rightarrow> Some (bar_goto t (if i < BARRIER_MAX_SPINS \<and> p = bar_phase (cell s)
                                      then BSpin p (Suc i) else BSleep p) s)
      | BSleep p \<Rightarrow>
          (case futex_wait (bar_phase (cell s)) p t (sleepers s) of (sleeps, q) \<Rightarrow>
             Some (bar_goto t (if sleeps then BAsleep p else BWait p) (s\<lparr>sleepers := q\<rparr>)))
      | _ \<Rightarrow> None)"
| "bar_event (BarWake t ws) s =
     (if bpc s t = BWake
      then (case futex_wake (sleepers s) INT_MAX ws of
              None \<Rightarrow> None
            | Some q \<Rightarrow> Some (bar_leave t (s\<lparr>sleepers := q,
                          bpc := (\<lambda>u. if u \<in> set ws then woken (bpc s u) else bpc s u)\<rparr>)))
      else None)"
| "bar_event (BarInterrupt t) s =
     (case bpc s t of
        BAsleep p \<Rightarrow> Some (bar_goto t (BWait p) (s\<lparr>sleepers := futex_interrupt t (sleepers s)\<rparr>))
      | _ \<Rightarrow> None)"

abbreviation bar_step :: "bar_sys \<Rightarrow> bar_sys \<Rightarrow> bool" where
  "bar_step \<equiv> step_of bar_event"

section \<open>The invariant\<close>

text \<open>The phase after \<open>r\<close> toggles, and what a place says about the thread's counters.\<close>

definition phase_of :: "nat \<Rightarrow> u32" where
  "phase_of r = (if even r then 0 else - 1)"

fun waits_for :: "bar_pc \<Rightarrow> u32 option" where
  "waits_for (BWait p) = Some p"
| "waits_for (BSpin p _) = Some p"
| "waits_for (BSleep p) = Some p"
| "waits_for (BAsleep p) = Some p"
| "waits_for _ = None"

definition bar_arrived :: "u32 \<Rightarrow> bar_pc \<Rightarrow> bool" where
  "bar_arrived p pc \<longleftrightarrow> pc = BReset \<or> pc = BFlip \<or> waits_for pc = Some p"

definition wait_ok :: "nat \<Rightarrow> u32 \<Rightarrow> nat \<Rightarrow> nat \<Rightarrow> bool" where
  "wait_ok r p e x \<longleftrightarrow> e = Suc x \<and> (x = r \<and> p = phase_of r \<or> Suc x = r \<and> p = phase_of x)"

fun bar_place :: "nat \<Rightarrow> bar_pc \<Rightarrow> nat \<Rightarrow> nat \<Rightarrow> bool" where
  "bar_place r BOut e x = (e = r \<and> x = r)"
| "bar_place r BRead e x = (e = Suc r \<and> x = r)"
| "bar_place r (BDec p) e x = (e = Suc r \<and> x = r \<and> p = phase_of r)"
| "bar_place r BReset e x = (e = Suc r \<and> x = r)"
| "bar_place r BFlip e x = (e = Suc r \<and> x = r)"
| "bar_place r BWake e x = (e = r \<and> Suc x = r)"
| "bar_place r (BWait p) e x = wait_ok r p e x"
| "bar_place r (BSpin p _) e x = wait_ok r p e x"
| "bar_place r (BSleep p) e x = wait_ok r p e x"
| "bar_place r (BAsleep p) e x = wait_ok r p e x"

definition bar_arrivals :: "bar_sys \<Rightarrow> tid set" where
  "bar_arrivals s = {t. t < unat (bar_size (cell s)) \<and> bar_arrived (bar_phase (cell s)) (bpc s t)}"

definition last_ones :: "bar_sys \<Rightarrow> tid set" where
  "last_ones s = {t. bpc s t = BReset \<or> bpc s t = BFlip}"

definition bar_places_ok :: "bar_sys \<Rightarrow> bool" where
  "bar_places_ok s \<longleftrightarrow>
     bar_phase (cell s) = phase_of (rounds s) \<and>
     (\<forall>t. if t < unat (bar_size (cell s))
          then bar_place (rounds s) (bpc s t) (entries (bspec s) t) (exits (bspec s) t)
          else bpc s t = BOut)"

definition bar_count_ok :: "bar_sys \<Rightarrow> bool" where
  "bar_count_ok s \<longleftrightarrow>
     (if \<exists>t. bpc s t = BFlip
      then bar_count (cell s) = bar_size (cell s)
      else unat (bar_count (cell s)) + card (bar_arrivals s) = unat (bar_size (cell s))) \<and>
     (if card (bar_arrivals s) = unat (bar_size (cell s)) \<and> bar_size (cell s) \<noteq> 0
      then \<exists>t. last_ones s = {t} else last_ones s = {})"

definition bar_sleep_ok :: "bar_sys \<Rightarrow> bool" where
  "bar_sleep_ok s \<longleftrightarrow>
     distinct (sleepers s) \<and> (\<forall>t. t \<in> set (sleepers s) \<longleftrightarrow> (\<exists>p. bpc s t = BAsleep p)) \<and>
     ((\<exists>t p. bpc s t = BAsleep p \<and> p \<noteq> bar_phase (cell s)) \<longrightarrow> (\<exists>u. bpc s u = BWake))"

definition bar_inv :: "u32 \<Rightarrow> bar_sys \<Rightarrow> bool" where
  "bar_inv n s \<longleftrightarrow> bar_size (cell s) = n \<and> bar_places_ok s \<and> bar_count_ok s"

lemma phase_of_Suc [simp]: "not (phase_of r) = phase_of (Suc r)"
  by (simp add: phase_of_def)

lemma phase_of_neq [simp]: "phase_of (Suc r) \<noteq> phase_of r" "phase_of r \<noteq> phase_of (Suc r)"
  by (auto simp: phase_of_def)

lemma wait_ok_current [simp]: "wait_ok r (phase_of r) e x \<longleftrightarrow> e = Suc r \<and> x = r"
  by (auto simp: wait_ok_def)

lemma bar_goto_sel [simp]:
  "cell (bar_goto t pc s) = cell s" "bpc (bar_goto t pc s) = (bpc s)(t := pc)"
  "sleepers (bar_goto t pc s) = sleepers s" "rounds (bar_goto t pc s) = rounds s"
  "bspec (bar_goto t pc s) = bspec s"
  by (simp_all add: bar_goto_def)

lemma bar_leave_sel [simp]:
  "cell (bar_leave t s) = cell s" "bpc (bar_leave t s) = (bpc s)(t := BOut)"
  "sleepers (bar_leave t s) = sleepers s" "rounds (bar_leave t s) = rounds s"
  "entries (bspec (bar_leave t s)) = entries (bspec s)"
  "exits (bspec (bar_leave t s)) = (exits (bspec s))(t := Suc (exits (bspec s) t))"
  by (simp_all add: bar_leave_def)

lemma bar_initialize_sel [simp]:
  "bar_size (bar_initialize n b) = n" "bar_count (bar_initialize n b) = n"
  "bar_phase (bar_initialize n b) = bar_phase b"
  by (simp_all add: bar_initialize_def)

lemma bar_start_inv: "bar_inv n (bar_start n)"
  by (auto simp: bar_inv_def bar_start_def bar_places_ok_def bar_count_ok_def bar_arrivals_def
      bar_arrived_def last_ones_def bar_default_def barrier_spec_start_def phase_of_def unat_eq_0)

lemma finite_bar_arrivals [simp]: "finite (bar_arrivals s)"
  by (simp add: bar_arrivals_def)

lemma bar_place_facts:
  assumes "bar_inv n s" and "t < unat n"
  shows "bar_place (rounds s) (bpc s t) (entries (bspec s) t) (exits (bspec s) t)"
  using assms by (simp add: bar_inv_def bar_places_ok_def)

lemma bar_phase_fact: "bar_inv n s \<Longrightarrow> bar_phase (cell s) = phase_of (rounds s)"
  by (simp add: bar_inv_def bar_places_ok_def)

lemma bar_place_thread:
  assumes "bar_inv n s" and "bpc s t \<noteq> BOut"
  shows "t < unat n"
  using assms by (auto simp: bar_inv_def bar_places_ok_def split: if_splits dest!: spec [of _ t])

lemma bar_card_le: "bar_inv n s \<Longrightarrow> card (bar_arrivals s) \<le> unat n"
proof -
  assume "bar_inv n s"
  then have "bar_arrivals s \<subseteq> {..<unat n}" by (auto simp: bar_arrivals_def bar_inv_def)
  from card_mono [OF _ this] show ?thesis by simp
qed

text \<open>Moves that neither count nor toggle.\<close>

lemma bar_quiet:
  assumes inv: "bar_inv n s" and cell: "cell s' = cell s" and pcs: "bpc s' = (bpc s)(t := pc)"
    and same: "bar_arrived (bar_phase (cell s)) pc = bar_arrived (bar_phase (cell s)) (bpc s t)"
    and last: "pc \<notin> {BReset, BFlip}" "bpc s t \<notin> {BReset, BFlip}"
  shows "bar_count_ok s'"
proof -
  have "bar_arrivals s' = bar_arrivals s"
    using cell pcs same by (auto simp: bar_arrivals_def)
  moreover have "last_ones s' = last_ones s"
    using pcs last by (auto simp: last_ones_def)
  moreover have "(\<exists>u. bpc s' u = BFlip) = (\<exists>u. bpc s u = BFlip)"
    using pcs last by (metis fun_upd_apply insert_iff)
  moreover have "bar_count_ok s" using inv by (simp add: bar_inv_def)
  ultimately show ?thesis unfolding bar_count_ok_def by (simp only: cell)
qed

lemma bar_place_move:
  assumes inv: "bar_inv n s" and tN: "t < unat n"
    and cell: "bar_size (cell s') = n" "bar_phase (cell s') = bar_phase (cell s)"
    and "rounds s' = rounds s" and "bpc s' = (bpc s)(t := pc)"
    and "\<And>u. u \<noteq> t \<Longrightarrow> entries (bspec s') u = entries (bspec s) u"
    and "\<And>u. u \<noteq> t \<Longrightarrow> exits (bspec s') u = exits (bspec s) u"
    and "bar_place (rounds s) pc (entries (bspec s') t) (exits (bspec s') t)"
  shows "bar_places_ok s'"
  unfolding bar_places_ok_def
proof (intro conjI allI)
  show "bar_phase (cell s') = phase_of (rounds s')"
    using assms(4,5) bar_phase_fact [OF inv] by simp
  fix u
  have old: "if u < unat n
    then bar_place (rounds s) (bpc s u) (entries (bspec s) u) (exits (bspec s) u)
    else bpc s u = BOut"
    using inv by (auto simp: bar_inv_def bar_places_ok_def)
  show "if u < unat (bar_size (cell s'))
        then bar_place (rounds s') (bpc s' u) (entries (bspec s') u) (exits (bspec s') u)
        else bpc s' u = BOut"
    using old assms(3,5-9) tN by (cases "u = t") simp_all
qed

text \<open>The decrement: the thread that reads 1 is the last one, and there is no other last one.\<close>

lemma bar_decrement:
  assumes inv: "bar_inv n s" and t: "bpc s t = BDec p"
    and s': "s' = bar_goto t (if 1 = bar_count (cell s) then BReset else BWait p)
                   (s\<lparr>cell := (cell s)\<lparr>bar_count := bar_count (cell s) - 1\<rparr>\<rparr>)"
  shows "bar_count_ok s'"
proof -
  let ?c = "bar_count (cell s)"
  have tN: "t < unat n" using bar_place_thread [OF inv, of t] t by simp
  have size: "bar_size (cell s) = n" using inv by (simp add: bar_inv_def)
  have p: "p = bar_phase (cell s)"
    using bar_place_facts [OF inv tN] bar_phase_fact [OF inv] t by simp
  have "t \<notin> bar_arrivals s" using t by (simp add: bar_arrivals_def bar_arrived_def)
  moreover have "bar_arrivals s \<subseteq> {..<unat n}" using size by (auto simp: bar_arrivals_def)
  ultimately have "bar_arrivals s \<subset> {..<unat n}" using tN by auto
  from psubset_card_mono [OF _ this] have less: "card (bar_arrivals s) < unat n" by simp
  then have none: "last_ones s = {}" and noflip: "bpc s u \<noteq> BFlip" for u
    using inv size by (auto simp: bar_inv_def bar_count_ok_def last_ones_def)
  then have count: "unat ?c + card (bar_arrivals s) = unat n"
    using inv size by (auto simp: bar_inv_def bar_count_ok_def)
  with less have c0: "?c \<noteq> 0" by auto
  have "bar_arrivals s' = insert t (bar_arrivals s)"
    using tN p size by (auto simp: s' bar_arrivals_def bar_arrived_def)
  with \<open>t \<notin> bar_arrivals s\<close> have card: "card (bar_arrivals s') = Suc (card (bar_arrivals s))"
    by simp
  have c1: "unat (?c - 1) = unat ?c - 1" by (rule unat_minus_one32 [OF c0])
  have one: "?c = 1 \<longleftrightarrow> card (bar_arrivals s') = unat n"
    using count card by (auto simp flip: unat_is_1_32)
  have last: "last_ones s' = (if ?c = 1 then {t} else {})"
    using none by (auto simp: s' last_ones_def)
  have sel: "bar_size (cell s') = n" "bar_count (cell s') = ?c - 1" "bpc s' u \<noteq> BFlip" for u
    using noflip size by (auto simp: s')
  have "n \<noteq> 0" using tN by auto
  moreover have "unat (?c - 1) + card (bar_arrivals s') = unat n"
    using c1 count card unat_gt_0 [of ?c] c0 by linarith
  ultimately show ?thesis
    using one last sel by (simp add: bar_count_ok_def)
qed

lemma bar_reset:
  assumes inv: "bar_inv n s" and t: "bpc s t = BReset"
    and s': "s' = bar_goto t BFlip (s\<lparr>cell := (cell s)\<lparr>bar_count := bar_size (cell s)\<rparr>\<rparr>)"
  shows "bar_count_ok s'"
proof -
  have arr: "bar_arrivals s' = bar_arrivals s"
    using t by (auto simp: s' bar_arrivals_def bar_arrived_def)
  have last: "last_ones s' = last_ones s" using t by (auto simp: s' last_ones_def)
  have "bar_count_ok s" using inv by (simp add: bar_inv_def)
  moreover have "bpc s' t = BFlip" "bar_size (cell s') = bar_size (cell s)"
    "bar_count (cell s') = bar_size (cell s)" by (simp_all add: s')
  ultimately show ?thesis by (auto simp: bar_count_ok_def arr last)
qed

text \<open>When the phase is toggled, all other threads wait for it.\<close>

lemma bar_flip_all:
  assumes inv: "bar_inv n s" and t: "bpc s t = BFlip" and u: "u \<noteq> t" "u < unat n"
  shows "waits_for (bpc s u) = Some (phase_of (rounds s))" and "bpc s u \<notin> {BReset, BFlip}"
proof -
  have size: "bar_size (cell s) = n" using inv by (simp add: bar_inv_def)
  have "t \<in> last_ones s" using t by (simp add: last_ones_def)
  then have full: "card (bar_arrivals s) = unat n" and "last_ones s = {t}"
    using inv size by (auto simp: bar_inv_def bar_count_ok_def split: if_splits)
  then have not_last: "bpc s u \<noteq> BReset" "bpc s u \<noteq> BFlip"
    using u(1) by (auto simp: last_ones_def)
  have "bar_arrivals s = {..<unat n}"
    using full size by (intro card_subset_eq) (auto simp: bar_arrivals_def)
  with u(2) have "u \<in> bar_arrivals s" by simp
  with not_last bar_phase_fact [OF inv]
  show "waits_for (bpc s u) = Some (phase_of (rounds s))" "bpc s u \<notin> {BReset, BFlip}"
    by (auto simp: bar_arrivals_def bar_arrived_def)
qed

lemma waits_place:
  "waits_for pc = Some (phase_of r) \<Longrightarrow> bar_place r pc e x \<Longrightarrow> bar_place (Suc r) pc e x"
  by (cases pc) (auto simp: wait_ok_def)

lemma bar_flip:
  assumes inv: "bar_inv n s" and t: "bpc s t = BFlip"
    and s': "s' = bar_goto t BWake
                   (s\<lparr>cell := (cell s)\<lparr>bar_phase := not (bar_phase (cell s))\<rparr>,
                      rounds := Suc (rounds s)\<rparr>)"
  shows "bar_inv n s'"
proof -
  have tN: "t < unat n" using bar_place_thread [OF inv, of t] t by simp
  note others = bar_flip_all [OF inv t]
  have size: "bar_size (cell s) = n" using inv by (simp add: bar_inv_def)
  have out: "\<not> u < unat n \<Longrightarrow> bpc s u = BOut" for u
    using inv by (auto simp: bar_inv_def bar_places_ok_def)
  have ph: "bar_phase (cell s) = phase_of (rounds s)" by (rule bar_phase_fact [OF inv])
  have "u \<notin> bar_arrivals s'" for u
    using others [of u] size ph by (cases "u = t") (auto simp: s' bar_arrivals_def bar_arrived_def)
  then have arr: "bar_arrivals s' = {}" by blast
  have "bpc s' u \<notin> {BReset, BFlip}" for u
    using others(2) [of u] out [of u] by (cases "u = t"; cases "u < unat n") (auto simp: s')
  then have none: "last_ones s' = {}" and noflip: "bpc s' u \<noteq> BFlip" for u
    by (auto simp: last_ones_def)
  have "\<exists>t. bpc s t = BFlip" using t by blast
  then have "bar_count (cell s) = n"
    using inv size by (simp add: bar_inv_def bar_count_ok_def)
  then have sel: "bar_count (cell s') = n" "bar_size (cell s') = n" using size by (simp_all add: s')
  have "n \<noteq> 0" using tN by auto
  then have "bar_count_ok s'" using sel none noflip by (simp add: bar_count_ok_def arr unat_eq_0)
  moreover have "bar_place (Suc (rounds s)) (bpc s' u) (entries (bspec s) u) (exits (bspec s) u)"
    if "u < unat n" for u
    using bar_place_facts [OF inv that] others(1) [OF _ that] t
    by (cases "u = t") (auto simp: s' intro: waits_place)
  then have "bar_places_ok s'"
    using ph out size tN by (auto simp: bar_places_ok_def s')
  ultimately show ?thesis using sel by (simp add: bar_inv_def)
qed

lemma bar_enter_inv:
  assumes inv: "bar_inv n s" and tN: "t < unat n" and out: "bpc s t = BOut"
  shows "bar_inv n (s\<lparr>bpc := (bpc s)(t := BRead),
             bspec := (bspec s)\<lparr>entries := (entries (bspec s))(t := Suc (entries (bspec s) t))\<rparr>\<rparr>)"
    (is "bar_inv n ?s'")
proof -
  have size: "bar_size (cell s) = n" using inv by (simp add: bar_inv_def)
  have "bar_count_ok ?s'"
    using out by (intro bar_quiet [OF inv, where t = t]) (auto simp: bar_arrived_def)
  moreover have "bar_places_ok ?s'"
    using bar_place_facts [OF inv tN] size out
    by (intro bar_place_move [OF inv tN, where pc = BRead]) auto
  ultimately show ?thesis using size by (simp add: bar_inv_def)
qed

text \<open>Everything else a thread does in the barrier: it moves between places that agree.\<close>

lemma bar_move_inv:
  assumes inv: "bar_inv n s" and tN: "t < unat n"
    and s': "cell s' = cell s" "rounds s' = rounds s" "bpc s' = (bpc s)(t := pc)"
      "bspec s' = bspec s"
    and same: "bar_arrived (bar_phase (cell s)) pc = bar_arrived (bar_phase (cell s)) (bpc s t)"
    and last: "pc \<notin> {BReset, BFlip}" "bpc s t \<notin> {BReset, BFlip}"
    and place: "bar_place (rounds s) pc (entries (bspec s) t) (exits (bspec s) t)"
  shows "bar_inv n s'"
proof -
  have size: "bar_size (cell s) = n" using inv by (simp add: bar_inv_def)
  have "bar_count_ok s'" by (rule bar_quiet [OF inv s'(1,3) same last])
  moreover have "bar_places_ok s'"
    using size s' place by (intro bar_place_move [OF inv tN, where pc = pc]) auto
  ultimately show ?thesis using size s'(1) by (simp add: bar_inv_def)
qed

lemma bar_leave_inv:
  assumes inv: "bar_inv n s" and tN: "t < unat n"
    and away: "\<not> bar_arrived (bar_phase (cell s)) (bpc s t)"
    and place: "entries (bspec s) t = rounds s" "Suc (exits (bspec s) t) = rounds s"
  shows "bar_inv n (bar_leave t s)"
proof -
  have size: "bar_size (cell s) = n" using inv by (simp add: bar_inv_def)
  have "bpc s t \<notin> {BReset, BFlip}" using away by (auto simp: bar_arrived_def)
  then have "bar_count_ok (bar_leave t s)"
    using away by (intro bar_quiet [OF inv, where t = t and pc = BOut]) (auto simp: bar_arrived_def)
  moreover have "bar_places_ok (bar_leave t s)"
    using size place by (intro bar_place_move [OF inv tN, where pc = BOut]) auto
  ultimately show ?thesis using size by (simp add: bar_inv_def)
qed

lemma bar_step_inv:
  assumes inv: "bar_inv n s" and ev: "bar_event (BarStep t) s = Some s'"
  shows "bar_inv n s'"
proof -
  have tN: "t < unat n" using bar_place_thread [OF inv, of t] ev by (auto split: bar_pc.splits)
  have size: "bar_size (cell s) = n" using inv by (simp add: bar_inv_def)
  have ph: "bar_phase (cell s) = phase_of (rounds s)" by (rule bar_phase_fact [OF inv])
  note place = bar_place_facts [OF inv tN]
  show ?thesis
  proof (cases "bpc s t")
    case BRead
    with ev place ph show ?thesis
      by (intro bar_move_inv [OF inv tN, where pc = "BDec (bar_phase (cell s))"])
         (auto simp: bar_arrived_def)
  next
    case (BDec p)
    with ev have s': "s' = bar_goto t (if 1 = bar_count (cell s) then BReset else BWait p)
        (s\<lparr>cell := (cell s)\<lparr>bar_count := bar_count (cell s) - 1\<rparr>\<rparr>)"
      by (simp add: pf_defs)
    have "bar_count_ok s'" by (rule bar_decrement [OF inv BDec s'])
    moreover have "bar_places_ok s'"
      using place BDec size
      by (intro bar_place_move [OF inv tN,
            where pc = "if 1 = bar_count (cell s) then BReset else BWait p"])
         (auto simp: s' wait_ok_def)
    ultimately show ?thesis using size by (simp add: bar_inv_def s')
  next
    case BReset
    with ev have s': "s' = bar_goto t BFlip (s\<lparr>cell := (cell s)\<lparr>bar_count := bar_size (cell s)\<rparr>\<rparr>)"
      by simp
    have "bar_count_ok s'" by (rule bar_reset [OF inv BReset s'])
    moreover have "bar_places_ok s'"
      using place BReset size by (intro bar_place_move [OF inv tN, where pc = BFlip]) (auto simp: s')
    ultimately show ?thesis using size by (simp add: bar_inv_def s')
  next
    case BFlip
    with ev show ?thesis by (intro bar_flip [OF inv BFlip]) simp
  next
    case (BWait p)
    show ?thesis
    proof (cases "bar_phase (cell s) = p")
      case True
      with ev BWait place show ?thesis
        by (intro bar_move_inv [OF inv tN, where pc = "BSpin p 0"]) (auto simp: bar_arrived_def)
    next
      case False
      with ev BWait place ph show ?thesis
        by (auto simp: bar_arrived_def wait_ok_def intro!: bar_leave_inv [OF inv tN])
    qed
  next
    case (BSpin p i)
    with ev place show ?thesis
      by (intro bar_move_inv [OF inv tN, where pc = "if i < BARRIER_MAX_SPINS \<and>
            p = bar_phase (cell s) then BSpin p (Suc i) else BSleep p"])
         (auto simp: bar_arrived_def)
  next
    case (BSleep p)
    with ev place show ?thesis
      by (intro bar_move_inv [OF inv tN, where pc = "if bar_phase (cell s) = p then BAsleep p
            else BWait p"])
         (auto simp: bar_arrived_def futex_wait_def split: if_splits)
  qed (use ev in simp_all)
qed

lemma woken_waits [simp]: "waits_for (woken pc) = waits_for pc"
  by (cases pc) simp_all

lemma woken_other [simp]:
  "woken pc = BReset \<longleftrightarrow> pc = BReset" "woken pc = BFlip \<longleftrightarrow> pc = BFlip"
  "woken pc = BOut \<longleftrightarrow> pc = BOut" "woken pc = BWake \<longleftrightarrow> pc = BWake"
  "woken pc \<noteq> BAsleep p"
  by (cases pc; simp)+

lemma woken_place [simp]: "bar_place r (woken pc) e x = bar_place r pc e x"
  by (cases pc) simp_all

lemma bar_woken_inv:
  assumes inv: "bar_inv n s"
  shows "bar_inv n (s\<lparr>sleepers := q, bpc := (\<lambda>u. if u \<in> W then woken (bpc s u) else bpc s u)\<rparr>)"
    (is "bar_inv n ?s'")
proof -
  have pc: "bpc ?s' = (\<lambda>u. if u \<in> W then woken (bpc s u) else bpc s u)" by simp
  have "bar_arrivals ?s' = bar_arrivals s"
    by (simp add: bar_arrivals_def bar_arrived_def)
  moreover have "last_ones ?s' = last_ones s" by (simp add: last_ones_def)
  moreover have "(\<exists>u. bpc ?s' u = BFlip) = (\<exists>u. bpc s u = BFlip)"
    by (simp add: if_distrib [of "\<lambda>x. x = BFlip"])
  moreover have "bar_count_ok s" using inv by (simp add: bar_inv_def)
  moreover have cell: "cell ?s' = cell s" by simp
  ultimately have "bar_count_ok ?s'" unfolding bar_count_ok_def by (simp only: cell)
  moreover have "bar_places_ok ?s'"
    using inv by (simp add: bar_inv_def bar_places_ok_def)
  ultimately show ?thesis using inv by (simp add: bar_inv_def)
qed

lemma bar_event_inv:
  assumes inv: "bar_inv n s" and ev: "bar_event a s = Some s'"
  shows "bar_inv n s'"
proof (cases a)
  case (BarEnter t)
  have "bar_size (cell s) = n" using inv by (simp add: bar_inv_def)
  with BarEnter ev bar_enter_inv [OF inv, of t] show ?thesis by (auto split: if_splits)
next
  case (BarStep t)
  with ev bar_step_inv [OF inv, of t s'] show ?thesis by simp
next
  case (BarWake t ws)
  with ev obtain q where t: "bpc s t = BWake" and s': "s' = bar_leave t (s\<lparr>sleepers := q,
      bpc := (\<lambda>u. if u \<in> set ws then woken (bpc s u) else bpc s u)\<rparr>)" (is "_ = bar_leave t ?s1")
    by (auto split: if_splits option.splits)
  have inv1: "bar_inv n ?s1" by (rule bar_woken_inv [OF inv])
  have tN: "t < unat n" using bar_place_thread [OF inv, of t] t by simp
  from bar_place_facts [OF inv tN] t show ?thesis
    unfolding s' by (intro bar_leave_inv [OF inv1 tN]) (simp_all add: bar_arrived_def)
next
  case (BarInterrupt t)
  with ev obtain p where t: "bpc s t = BAsleep p"
    and s': "s' = bar_goto t (BWait p) (s\<lparr>sleepers := futex_interrupt t (sleepers s)\<rparr>)"
    by (auto split: bar_pc.splits)
  have tN: "t < unat n" using bar_place_thread [OF inv, of t] t by simp
  from bar_place_facts [OF inv tN] t show ?thesis
    unfolding s'
    by (intro bar_move_inv [OF inv tN, where pc = "BWait p"]) (auto simp: bar_arrived_def)
qed

section \<open>Sleepers\<close>

lemma bar_sleep_move:
  assumes "bar_sleep_ok s" and "bpc s' = (bpc s)(t := pc)" and "sleepers s' = sleepers s"
    and "bar_phase (cell s') = bar_phase (cell s) \<or> pc = BWake"
    and "\<And>p. pc \<noteq> BAsleep p" and "\<And>p. bpc s t \<noteq> BAsleep p" and "bpc s t \<noteq> BWake"
  shows "bar_sleep_ok s'"
proof -
  have asleep: "bpc s' u = BAsleep p \<longleftrightarrow> bpc s u = BAsleep p" for u p
    using assms(2,5,6) by auto
  have "bpc s u = BWake \<Longrightarrow> bpc s' u = BWake" for u using assms(2,7) by auto
  moreover have "pc = BWake \<Longrightarrow> bpc s' t = BWake" using assms(2) by simp
  ultimately show ?thesis
    using assms(1,3,4) by (auto simp: bar_sleep_ok_def asleep)
qed

lemma bar_sleep_update:
  assumes "bar_sleep_ok s" and pcs: "bpc s' = (bpc s)(t := pc)"
    and "bar_phase (cell s') = bar_phase (cell s)" and "bpc s t \<noteq> BWake"
    and "distinct (sleepers s')" and "\<And>u. u \<in> set (sleepers s') \<longleftrightarrow> (\<exists>p. bpc s' u = BAsleep p)"
    and "\<And>p. pc = BAsleep p \<Longrightarrow> p = bar_phase (cell s)"
  shows "bar_sleep_ok s'"
  unfolding bar_sleep_ok_def
proof (intro conjI impI allI)
  assume "\<exists>u q. bpc s' u = BAsleep q \<and> q \<noteq> bar_phase (cell s')"
  then have "\<exists>u q. bpc s u = BAsleep q \<and> q \<noteq> bar_phase (cell s)"
    using assms(3,7) by (auto simp: pcs split: if_splits)
  then obtain u where "bpc s u = BWake" using assms(1) by (auto simp: bar_sleep_ok_def)
  with assms(4) show "\<exists>u. bpc s' u = BWake" by (intro exI [of _ u]) (auto simp: pcs)
qed (use assms(5,6) in auto)

lemma bar_sleepers_bound:
  assumes "bar_inv n s" and "bar_sleep_ok s"
  shows "length (sleepers s) \<le> unat n"
proof -
  have "set (sleepers s) \<subseteq> {..<unat n}"
    using assms bar_place_thread [OF assms(1)] by (force simp: bar_sleep_ok_def)
  from card_mono [OF _ this] show ?thesis
    using assms(2) by (simp add: bar_sleep_ok_def distinct_card)
qed

lemma bar_wake_sleep_ok:
  assumes inv: "bar_inv n s" and ok: "bar_sleep_ok s" and N: "unat n \<le> INT_MAX"
    and wake: "futex_wake (sleepers s) INT_MAX ws = Some q"
    and s': "s' = bar_leave t (s\<lparr>sleepers := q,
                     bpc := (\<lambda>u. if u \<in> set ws then woken (bpc s u) else bpc s u)\<rparr>)"
  shows "bar_sleep_ok s'"
proof -
  have "q = []"
    using bar_sleepers_bound [OF inv ok] N ok
    by (intro futex_wake_all [OF wake]) (auto simp: bar_sleep_ok_def)
  moreover from this have "set ws = set (sleepers s)" using futex_wake_SomeD [OF wake] by auto
  then have "bpc s' u \<noteq> BAsleep p" for u p
    using ok by (auto simp: s' bar_sleep_ok_def)
  ultimately show ?thesis by (auto simp: bar_sleep_ok_def s')
qed

lemma bar_event_sleep_ok:
  assumes inv: "bar_inv n s" and ok: "bar_sleep_ok s" and N: "unat n \<le> INT_MAX"
    and ev: "bar_event a s = Some s'"
  shows "bar_sleep_ok s'"
proof (cases a)
  case (BarEnter t)
  with ev show ?thesis
    by (intro bar_sleep_move [OF ok, where t = t and pc = BRead]) (auto split: if_splits)
next
  case (BarStep t)
  show ?thesis
  proof (cases "bpc s t")
    case (BSleep p)
    with BarStep ev
    have s': "cell s' = cell s" "sleepers s' = (if bar_phase (cell s) = p then sleepers s @ [t] else sleepers s)"
      "bpc s' = (bpc s)(t := if bar_phase (cell s) = p then BAsleep p else BWait p)"
      by (auto simp: futex_wait_def split: if_splits)
    show ?thesis
      using ok BSleep by (intro bar_sleep_update [OF ok s'(3)])
        (auto simp: s' bar_sleep_ok_def split: if_splits)
  next
    case (BDec p)
    with BarStep ev show ?thesis
      by (intro bar_sleep_move [OF ok, where t = t
            and pc = "if 1 = bar_count (cell s) then BReset else BWait p"]) (auto simp: pf_defs)
  qed (use BarStep ev in \<open>auto split: if_splits intro!: bar_sleep_move [OF ok, where t = t]\<close>)
next
  case (BarWake t ws)
  with ev show ?thesis
    by (auto split: if_splits option.splits intro: bar_wake_sleep_ok [OF inv ok N])
next
  case (BarInterrupt t)
  with ev obtain p where t: "bpc s t = BAsleep p"
    and s': "s' = bar_goto t (BWait p) (s\<lparr>sleepers := futex_interrupt t (sleepers s)\<rparr>)"
    by (auto split: bar_pc.splits)
  then have pcs: "bpc s' = (bpc s)(t := BWait p)" by simp
  show ?thesis
    using ok t by (intro bar_sleep_update [OF ok pcs])
      (auto simp: s' bar_sleep_ok_def futex_interrupt_def)
qed

lemma bar_start_sleep_ok: "bar_sleep_ok (bar_start n)"
  by (simp add: bar_sleep_ok_def bar_start_def)

section \<open>Refinement\<close>

lemma bar_entered: "bar_inv n s \<Longrightarrow> u < unat n \<Longrightarrow> rounds s \<le> entries (bspec s) u"
  using bar_place_facts [of n s u] by (cases "bpc s u") (auto simp: wait_ok_def)

lemma bar_event_exits:
  assumes "bar_event a s = Some s'" and "bspec s' \<noteq> bspec s" and "\<nexists>t. a = BarEnter t"
  shows "\<exists>t. (bpc s t = BWake \<or> (\<exists>p. bpc s t = BWait p \<and> p \<noteq> bar_phase (cell s))) \<and>
     bspec s' = (bspec s)\<lparr>exits := (exits (bspec s))(t := Suc (exits (bspec s) t))\<rparr>"
proof (cases a)
  case (BarStep t)
  with assms show ?thesis
    by (intro exI [of _ t]) (auto simp: bar_leave_def pf_defs split: bar_pc.splits if_splits prod.splits)
next
  case (BarWake t ws)
  with assms show ?thesis
    by (intro exI [of _ t]) (auto simp: bar_leave_def split: if_splits option.splits)
qed (use assms in \<open>auto split: bar_pc.splits\<close>)

lemma bar_event_spec:
  assumes inv: "bar_inv n s" and ev: "bar_event a s = Some s'"
  shows "bspec s' = bspec s \<or> barrier_spec_step (unat n) (bspec s) (bspec s')"
proof (cases "\<exists>t. a = BarEnter t")
  case True
  with ev inv obtain t where t: "t < unat n" "bpc s t = BOut"
    and s': "bspec s' = (bspec s)\<lparr>entries := (entries (bspec s))(t := Suc (entries (bspec s) t))\<rparr>"
    by (auto simp: bar_inv_def split: if_splits)
  from bar_place_facts [OF inv t(1)] t(2) show ?thesis
    unfolding s' by (intro disjI2 barrier_spec_step.enter t(1)) simp
next
  case False
  show ?thesis
  proof (cases "bspec s' = bspec s")
    case False
    from bar_event_exits [OF ev this \<open>\<nexists>t. a = BarEnter t\<close>] obtain t
      where out: "bpc s t = BWake \<or> (\<exists>p. bpc s t = BWait p \<and> p \<noteq> bar_phase (cell s))"
        and s': "bspec s' = (bspec s)\<lparr>exits := (exits (bspec s))(t := Suc (exits (bspec s) t))\<rparr>"
      by blast
    have tN: "t < unat n" using bar_place_thread [OF inv, of t] out by auto
    have "entries (bspec s) t = Suc (exits (bspec s) t)" "entries (bspec s) t = rounds s"
      using bar_place_facts [OF inv tN] out bar_phase_fact [OF inv] by (auto simp: wait_ok_def)
    with bar_entered [OF inv] show ?thesis
      unfolding s' by (intro disjI2 barrier_spec_step.leave tN) auto
  qed simp
qed

interpretation startup: simulation "\<lambda>s. s = bar_start n" bar_step
  "\<lambda>s. bar_inv n s \<and> (unat n \<le> INT_MAX \<longrightarrow> bar_sleep_ok s)" "barrier_spec_step (unat n)" bspec for n
  by unfold_locales
     (auto elim!: step_ofE intro: bar_start_inv bar_start_sleep_ok bar_event_inv bar_event_sleep_ok
       dest: bar_event_spec)

section \<open>A barrier everybody has entered can be completed\<close>

fun bar_left :: "bar_pc \<Rightarrow> nat" where
  "bar_left BOut = 0"
| "bar_left BRead = 9"
| "bar_left (BDec _) = 8"
| "bar_left BReset = 7"
| "bar_left BFlip = 6"
| "bar_left BWake = 5"
| "bar_left (BWait _) = 1"
| "bar_left (BSpin _ _) = 4"
| "bar_left (BSleep _) = 3"
| "bar_left (BAsleep _) = 2"

definition bar_work :: "u32 \<Rightarrow> bar_sys \<Rightarrow> nat" where
  "bar_work n s = (\<Sum>t<unat n. bar_left (bpc s t))"

lemma bar_work_less:
  assumes "t < unat n" and "\<And>u. bar_left (bpc s' u) \<le> bar_left (bpc s u)"
    and "bar_left (bpc s' t) < bar_left (bpc s t)"
  shows "bar_work n s' < bar_work n s"
  unfolding bar_work_def using assms by (intro sum_strict_mono_ex1) auto

text \<open>A thread at a place where it does not wait for others gets on, the waker included.\<close>

lemma bar_thread_gets_on:
  assumes "t < unat n" and "bpc s t \<notin> {BOut, BWake}"
    and "waits_for (bpc s t) \<noteq> Some (bar_phase (cell s))" and "\<And>p. bpc s t \<noteq> BAsleep p"
  shows "\<exists>s'. bar_step s s' \<and> bar_work n s' < bar_work n s \<and> entries (bspec s') = entries (bspec s)"
proof -
  have "\<exists>s' pc. bar_event (BarStep t) s = Some s' \<and> bpc s' = (bpc s)(t := pc) \<and>
          bar_left pc < bar_left (bpc s t) \<and> entries (bspec s') = entries (bspec s)"
    using assms(2-4) by (cases "bpc s t") (auto simp: pf_defs)
  then obtain s' pc where ev: "bar_event (BarStep t) s = Some s'" and pc: "bpc s' = (bpc s)(t := pc)"
    "bar_left pc < bar_left (bpc s t)" and "entries (bspec s') = entries (bspec s)" by blast
  moreover have "bar_work n s' < bar_work n s"
    using pc by (intro bar_work_less [OF assms(1)]) auto
  ultimately show ?thesis by (blast intro: step_of.event)
qed

lemma woken_left: "bar_left (woken pc) \<le> bar_left pc"
  by (cases pc) simp_all

lemma bar_waker_gets_on:
  assumes inv: "bar_inv n s" and ok: "bar_sleep_ok s" and N: "unat n \<le> INT_MAX"
    and t: "bpc s t = BWake"
  shows "\<exists>s'. bar_step s s' \<and> bar_work n s' < bar_work n s \<and> entries (bspec s') = entries (bspec s)"
proof -
  let ?ws = "sleepers s"
  let ?s1 = "s\<lparr>sleepers := filter (\<lambda>t. t \<notin> set ?ws) (sleepers s),
     bpc := (\<lambda>u. if u \<in> set ?ws then woken (bpc s u) else bpc s u)\<rparr>"
  have tN: "t < unat n" using bar_place_thread [OF inv, of t] t by simp
  have "futex_wake (sleepers s) INT_MAX ?ws = Some (filter (\<lambda>t. t \<notin> set ?ws) (sleepers s))"
    using bar_sleepers_bound [OF inv ok] N ok by (auto simp: futex_wake_def bar_sleep_ok_def)
  with t have "bar_event (BarWake t ?ws) s = Some (bar_leave t ?s1)" by simp
  moreover have "bar_work n (bar_leave t ?s1) < bar_work n s"
    using t by (intro bar_work_less [OF tN]) (auto simp: woken_left)
  moreover have "entries (bspec (bar_leave t ?s1)) = entries (bspec s)" by simp
  ultimately show ?thesis by (blast intro: step_of.event)
qed

lemma bar_somebody_gets_on:
  assumes inv: "bar_inv n s" and ok: "bar_sleep_ok s" and N: "unat n \<le> INT_MAX"
    and in_step: "\<forall>t<unat n. entries (bspec s) t = Suc r"
    and u: "u < unat n" "bpc s u \<noteq> BOut"
  shows "\<exists>s'. bar_step s s' \<and> bar_work n s' < bar_work n s \<and> entries (bspec s') = entries (bspec s)"
proof (cases "\<exists>t. bpc s t = BWake")
  case True
  then show ?thesis using bar_waker_gets_on [OF inv ok N] by blast
next
  case False
  let ?ph = "bar_phase (cell s)"
  have current: "bpc s t = BAsleep p \<Longrightarrow> p = ?ph" for t p
    using ok False by (auto simp: bar_sleep_ok_def)
  show ?thesis
  proof (cases "\<exists>t<unat n. bpc s t \<noteq> BOut \<and> waits_for (bpc s t) \<noteq> Some ?ph")
    case True
    then obtain t where "t < unat n" "bpc s t \<noteq> BOut" "waits_for (bpc s t) \<noteq> Some ?ph" by blast
    with False current show ?thesis by (intro bar_thread_gets_on) fastforce+
  next
    case stuck: False
    have size: "bar_size (cell s) = n" using inv by (simp add: bar_inv_def)
    have ph: "?ph = phase_of (rounds s)" by (rule bar_phase_fact [OF inv])
    have waiting: "entries (bspec s) t = Suc (rounds s)"
      if "t < unat n" "waits_for (bpc s t) = Some ?ph" for t
      using bar_place_facts [OF inv that(1)] that(2) ph by (cases "bpc s t") auto
    have "waits_for (bpc s u) = Some ?ph" using stuck u by blast
    with waiting [of u] u(1) in_step have r: "rounds s = r" by simp
    have all: "waits_for (bpc s t) = Some ?ph" if "t < unat n" for t
    proof (cases "bpc s t = BOut")
      case True
      with bar_place_facts [OF inv that] in_step that r show ?thesis by simp
    next
      case False
      with stuck that show ?thesis by blast
    qed
    then have "bar_arrivals s = {..<unat n}"
      using size by (auto simp: bar_arrivals_def bar_arrived_def)
    moreover have "n \<noteq> 0" using u(1) by auto
    ultimately obtain t where "last_ones s = {t}"
      using inv size by (auto simp: bar_inv_def bar_count_ok_def)
    then have "t \<in> last_ones s" by simp
    then have last: "bpc s t = BReset \<or> bpc s t = BFlip" by (simp add: last_ones_def)
    then have "t < unat n" using bar_place_thread [OF inv, of t] by auto
    with all last show ?thesis by force
  qed
qed

lemma bar_completes:
  assumes "bar_inv n s \<and> (unat n \<le> INT_MAX \<longrightarrow> bar_sleep_ok s)" and N: "unat n \<le> INT_MAX"
    and "\<forall>t<unat n. entries (bspec s) t = Suc r"
  shows "\<exists>s'. reaches bar_step s s' \<and> entries (bspec s') = entries (bspec s) \<and>
              (\<forall>t<unat n. bpc s' t = BOut)"
  using assms(1,3)
proof (induction "bar_work n s" arbitrary: s rule: less_induct)
  case less
  show ?case
  proof (cases "\<forall>t<unat n. bpc s t = BOut")
    case True
    then show ?thesis by (blast intro: reaches.here)
  next
    case False
    then obtain u where u: "u < unat n" "bpc s u \<noteq> BOut" by blast
    have ok: "bar_inv n s" "bar_sleep_ok s" using less.prems(1) N by auto
    from bar_somebody_gets_on [OF ok N less.prems(2) u] obtain s'
      where s': "bar_step s s'" "bar_work n s' < bar_work n s"
        "entries (bspec s') = entries (bspec s)" by blast
    with less.hyps [OF s'(2) startup.step_inv [OF less.prems(1) s'(1)]] less.prems(2) obtain t
      where "reaches bar_step s' t" "entries (bspec t) = entries (bspec s)"
        "\<forall>u<unat n. bpc t u = BOut" by auto
    with s'(1) show ?thesis by (blast intro: reaches_trans reaches_one)
  qed
qed

section \<open>Properties\<close>

text \<open>
  C23: the start-up barrier is a barrier. For any number \<open>n\<close> of threads, every interleaving
  of its accesses, wake-ups and interrupted system calls is a run of the abstract barrier;
  in particular no thread has left more often than every thread has entered.
\<close>

theorem startup_barrier_refines:
  assumes "reaches bar_step (bar_start n) s"
  shows "reaches (barrier_spec_step (unat n)) barrier_spec_start (bspec s) \<and>
         (\<forall>t<unat n. \<forall>u<unat n. exits (bspec s) t \<le> entries (bspec s) u)"
proof -
  have "bspec (bar_start n) = barrier_spec_start" by (simp add: bar_start_def)
  with startup.sim_reach [OF refl assms]
  have run: "reaches (barrier_spec_step (unat n)) barrier_spec_start (bspec s)" by simp
  with barrier.reach_inv [OF refl run] show ?thesis by (simp add: barrier_spec_inv_def)
qed

text \<open>Thread 0 sleeps, thread 1 comes last and wakes it.\<close>

definition startup_run :: "bar_action list" where
  "startup_run =
     [BarEnter 0, BarStep 0, BarStep 0, BarStep 0,
      BarEnter 1, BarStep 1, BarStep 1, BarStep 1, BarStep 1, BarStep 0, BarStep 0,
      BarWake 1 [], BarStep 0]"

theorem startup_barrier_refines_witness:
  "\<exists>s. reaches bar_step (bar_start 2) s \<and> exits (bspec s) 0 = 1 \<and> exits (bspec s) 1 = 1 \<and>
       reaches (barrier_spec_step 2) barrier_spec_start (bspec s)"
proof -
  have "\<exists>s. run_events bar_event startup_run (bar_start 2) = Some s \<and>
            exits (bspec s) 0 = 1 \<and> exits (bspec s) 1 = 1"
    by (simp add: startup_run_def bar_start_def bar_initialize_def bar_default_def bar_goto_def
        bar_leave_def barrier_spec_start_def pf_defs)
  then obtain s where s: "reaches bar_step (bar_start 2) s"
    and "exits (bspec s) 0 = 1" "exits (bspec s) 1 = 1" by (blast intro: run_events_reaches)
  with startup_barrier_refines [OF s] show ?thesis by auto
qed

text \<open>
  The start-up barrier loses no wake-up. From every reachable state in which all
  threads have entered it equally often, wherever they spin or sleep, a state can be
  reached, without anybody entering again, in which all of them have left it.
\<close>

theorem startup_barrier_completes:
  assumes "reaches bar_step (bar_start n) s" and "unat n \<le> INT_MAX"
    and "\<forall>t<unat n. entries (bspec s) t = Suc r"
  shows "\<exists>s'. reaches bar_step s s' \<and> (\<forall>t<unat n. bpc s' t = BOut \<and> exits (bspec s') t = Suc r)"
proof -
  note inv = startup.reach_inv [OF refl assms(1)]
  from bar_completes [OF inv assms(2,3)] obtain s'
    where s': "reaches bar_step s s'" "entries (bspec s') = entries (bspec s)"
      "\<forall>t<unat n. bpc s' t = BOut" by blast
  have "bar_inv n s'" using startup.steps_inv [OF s'(1) inv] by blast
  from bar_place_facts [OF this] s' assms(3) show ?thesis
    by (intro exI [of _ s']) fastforce
qed

theorem startup_barrier_completes_witness:
  "\<exists>s s'. reaches bar_step (bar_start 2) s \<and> bpc s 0 = BWait 0 \<and> bpc s 1 = BRead \<and>
          reaches bar_step s s' \<and> (\<forall>t<2. bpc s' t = BOut \<and> exits (bspec s') t = 1)"
proof -
  have "\<exists>s. run_events bar_event [BarEnter 0, BarStep 0, BarStep 0, BarEnter 1] (bar_start 2) = Some s \<and>
            bpc s 0 = BWait 0 \<and> bpc s 1 = BRead \<and> (\<forall>t<2. entries (bspec s) t = 1)"
    by (auto simp: bar_start_def bar_initialize_def bar_default_def bar_goto_def
        barrier_spec_start_def pf_defs less_2_cases_iff)
  then obtain s where s: "reaches bar_step (bar_start 2) s"
    and l: "bpc s 0 = BWait 0" "bpc s 1 = BRead" and e: "\<forall>t<2. entries (bspec s) t = 1"
    by (blast intro: run_events_reaches)
  from e have "\<forall>t<unat (2::u32). entries (bspec s) t = Suc 0" by simp
  from startup_barrier_completes [OF s _ this] l s show ?thesis by (auto simp: INT_MAX_def)
qed

end
