(* ===== verification/Group.thy ===== *)
theory Group
  imports Exceptions Mutex Barrier_Spec
begin

text \<open>
  The groups of \<^verbatim>\<open>pfunc/group.hpp\<close>: the record, the operations that hand out ranks,
  and the two barriers. \<open>barrier_steal\<close> takes the group's lock with \<open>lock\<close>, which the
  theory \<open>Mutex\<close> shows to be a lock, and is given as a machine over that lock;
  \<open>barrier_spin\<close> takes it with \<open>trylock\<close>, and is given as a machine over the
  mutex word.
\<close>

section \<open>The record and its operations\<close>

record group =
  barrier_phase :: bool
  barrier_count :: u32
  rank_token :: u32
  group_id :: u32
  group_size :: u32
  type_of_barrier :: u32

definition group_default :: group where
  "group_default = \<lparr>barrier_phase = False, barrier_count = 0, rank_token = 0, group_id = 0,
     group_size = 0, type_of_barrier = barrier_code BARRIER_SPIN\<rparr>"

definition group_make2 :: "u32 \<Rightarrow> u32 \<Rightarrow> group" where
  "group_make2 gid gsize = \<lparr>barrier_phase = False, barrier_count = 0, rank_token = 0,
     group_id = gid, group_size = gsize, type_of_barrier = barrier_code BARRIER_SPIN\<rparr>"

definition group_make3 :: "u32 \<Rightarrow> u32 \<Rightarrow> u32 \<Rightarrow> group" where
  "group_make3 gid gsize barr = \<lparr>barrier_phase = False, barrier_count = 0, rank_token = 0,
     group_id = gid, group_size = gsize, type_of_barrier = barr\<rparr>"

definition join_group :: "group \<Rightarrow> u32 \<times> group" where
  "join_group g = (case pfunc_fetch_and_add_32 (rank_token g) 1 of (r, v) \<Rightarrow>
                     (r, g\<lparr>rank_token := v\<rparr>))"

definition leave_group :: "group \<Rightarrow> group" where
  "leave_group g = g\<lparr>rank_token := snd (pfunc_fetch_and_add_32 (rank_token g) (- 1))\<rparr>"

definition group_get_id :: "group \<Rightarrow> u32" where "group_get_id g = group_id g"
definition group_get_size :: "group \<Rightarrow> u32" where "group_get_size g = group_size g"
definition group_get_barrier :: "group \<Rightarrow> u32" where "group_get_barrier g = type_of_barrier g"
definition group_set_id :: "u32 \<Rightarrow> group \<Rightarrow> group" where "group_set_id v g = g\<lparr>group_id := v\<rparr>"
definition group_set_size :: "u32 \<Rightarrow> group \<Rightarrow> group" where
  "group_set_size v g = g\<lparr>group_size := v\<rparr>"
definition group_set_barrier :: "u32 \<Rightarrow> group \<Rightarrow> group" where
  "group_set_barrier v g = g\<lparr>type_of_barrier := v\<rparr>"

definition group_eq :: "group \<Rightarrow> group \<Rightarrow> bool" where
  "group_eq one two \<longleftrightarrow> group_size one = group_size two \<and> group_id one = group_id two"

text \<open>\<open>barrier\<close> dispatches on the type; a group of at most one task has no barrier.\<close>

datatype barrier_call = NoBarrier | CallSpin | CallSteal

definition group_barrier :: "group \<Rightarrow> barrier_call" where
  "group_barrier g =
     (if group_size g > 1
      then (if barrier_code BARRIER_SPIN = type_of_barrier g then CallSpin
            else if barrier_code BARRIER_STEAL = type_of_barrier g then CallSteal
            else NoBarrier)
      else NoBarrier)"

text \<open>Several tasks that join one after the other.\<close>

fun join_all :: "nat \<Rightarrow> group \<Rightarrow> u32 list \<times> group" where
  "join_all 0 g = ([], g)"
| "join_all (Suc n) g =
     (case join_group g of (r, g') \<Rightarrow> (case join_all n g' of (rs, g'') \<Rightarrow> (r # rs, g'')))"

lemma join_all_tickets:
  "join_all n g = (fst (tickets n (rank_token g)), g\<lparr>rank_token := snd (tickets n (rank_token g))\<rparr>)"
  by (induction n arbitrary: g) (auto simp: join_group_def split: prod.splits)

lemma leave_join: "snd (join_group (leave_group g)) = g" "leave_group (snd (join_group g)) = g"
  by (simp_all add: join_group_def leave_group_def pfunc_fetch_and_add_32_def lock_xadd_def)

section \<open>The stealing barrier as a machine\<close>

text \<open>
  The places of \<open>barrier_steal\<close>; \<open>my_phase\<close> is the argument. The ghost fields count
  the barriers each thread has entered and left and how often the phase was toggled.
\<close>

datatype steal_pc =
    GOut
  | GLock                 \<comment> \<open>in \<open>group_lock.lock ()\<close>\<close>
  | GIn                   \<comment> \<open>lock held\<close>
  | GGot bool             \<comment> \<open>\<open>my_phase\<close> read\<close>
  | GLast                 \<comment> \<open>\<open>barrier_count == group_size\<close>\<close>
  | GFlip                 \<comment> \<open>\<open>barrier_count\<close> reset\<close>
  | GUnlockLast           \<comment> \<open>phase toggled\<close>
  | GMore bool            \<comment> \<open>not the last one, lock still held\<close>
  | GSpin bool            \<comment> \<open>waiting for the phase to change\<close>

record steal_sys =
  grp :: group
  owner :: "tid option"
  gpc :: "tid \<Rightarrow> steal_pc"
  flips :: nat
  gspec :: barrier_spec

definition steal_start :: "u32 \<Rightarrow> steal_sys" where
  "steal_start n = \<lparr>grp = group_make3 0 n (barrier_code BARRIER_STEAL), owner = None,
     gpc = (\<lambda>_. GOut), flips = 0, gspec = barrier_spec_start\<rparr>"

datatype steal_action = Enter tid | Step tid

definition steal_goto :: "tid \<Rightarrow> steal_pc \<Rightarrow> steal_sys \<Rightarrow> steal_sys" where
  "steal_goto t pc s = s\<lparr>gpc := (gpc s)(t := pc)\<rparr>"

definition steal_leave :: "tid \<Rightarrow> steal_sys \<Rightarrow> steal_sys" where
  "steal_leave t s = s\<lparr>gpc := (gpc s)(t := GOut),
     gspec := (gspec s)\<lparr>exits := (exits (gspec s))(t := Suc (exits (gspec s) t))\<rparr>\<rparr>"

fun steal_event :: "steal_action \<Rightarrow> steal_sys \<Rightarrow> steal_sys option" where
  "steal_event (Enter t) s =
     (if t < unat (group_size (grp s)) \<and> gpc s t = GOut
      then Some (s\<lparr>gpc := (gpc s)(t := GLock),
                   gspec := (gspec s)\<lparr>entries := (entries (gspec s))
                                        (t := Suc (entries (gspec s) t))\<rparr>\<rparr>)
      else None)"
| "steal_event (Step t) s =
     (case gpc s t of
        GOut \<Rightarrow> None
      | GLock \<Rightarrow> (if owner s = None then Some (steal_goto t GIn (s\<lparr>owner := Some t\<rparr>)) else None)
      | GIn \<Rightarrow> Some (steal_goto t (GGot (barrier_phase (grp s))) s)
      | GGot p \<Rightarrow>
          (let n = barrier_count (grp s) + 1
           in Some (steal_goto t (if n = group_size (grp s) then GLast else GMore p)
                      (s\<lparr>grp := (grp s)\<lparr>barrier_count := n\<rparr>\<rparr>)))
      | GLast \<Rightarrow> Some (steal_goto t GFlip (s\<lparr>grp := (grp s)\<lparr>barrier_count := 0\<rparr>\<rparr>))
      | GFlip \<Rightarrow> Some (steal_goto t GUnlockLast
                  (s\<lparr>grp := (grp s)\<lparr>barrier_phase := \<not> barrier_phase (grp s)\<rparr>,
                     flips := Suc (flips s)\<rparr>))
      | GUnlockLast \<Rightarrow> Some (steal_leave t (s\<lparr>owner := None\<rparr>))
      | GMore p \<Rightarrow> Some (steal_goto t (GSpin p) (s\<lparr>owner := None\<rparr>))
      | GSpin p \<Rightarrow> (if p = barrier_phase (grp s) then Some s else Some (steal_leave t s)))"

abbreviation steal_step :: "steal_sys \<Rightarrow> steal_sys \<Rightarrow> bool" where
  "steal_step \<equiv> step_of steal_event"

fun owns :: "steal_pc \<Rightarrow> bool" where
  "owns GOut = False" | "owns GLock = False" | "owns (GSpin _) = False" | "owns _ = True"

text \<open>Counted in \<open>barrier_count\<close> for the round that phase \<open>p\<close> belongs to.\<close>

fun arrived :: "bool \<Rightarrow> steal_pc \<Rightarrow> bool" where
  "arrived p (GMore q) = (q = p)"
| "arrived p (GSpin q) = (q = p)"
| "arrived p GLast = True"
| "arrived p GFlip = True"
| "arrived p _ = False"

text \<open>What a place says about the thread's counters \<open>e\<close> and \<open>x\<close> in round \<open>r\<close>.\<close>

fun place_ok :: "nat \<Rightarrow> steal_pc \<Rightarrow> nat \<Rightarrow> nat \<Rightarrow> bool" where
  "place_ok r GOut e x = (e = r \<and> x = r)"
| "place_ok r (GGot p) e x = (e = Suc r \<and> x = r \<and> p = odd r)"
| "place_ok r (GMore p) e x = (e = Suc r \<and> x = r \<and> p = odd r)"
| "place_ok r (GSpin p) e x = (e = Suc x \<and> (if p = odd r then x = r else Suc x = r))"
| "place_ok r GUnlockLast e x = (e = r \<and> Suc x = r)"
| "place_ok r _ e x = (e = Suc r \<and> x = r)"

definition arrivals :: "steal_sys \<Rightarrow> tid set" where
  "arrivals s = {t. t < unat (group_size (grp s)) \<and> arrived (barrier_phase (grp s)) (gpc s t)}"

definition steal_lock_ok :: "steal_sys \<Rightarrow> bool" where
  "steal_lock_ok s \<longleftrightarrow> (\<forall>t. owner s = Some t \<longleftrightarrow> owns (gpc s t))"

definition steal_places_ok :: "steal_sys \<Rightarrow> bool" where
  "steal_places_ok s \<longleftrightarrow>
     barrier_phase (grp s) = odd (flips s) \<and>
     (\<forall>t. if t < unat (group_size (grp s))
          then place_ok (flips s) (gpc s t) (entries (gspec s) t) (exits (gspec s) t)
          else gpc s t = GOut)"

definition steal_count_ok :: "steal_sys \<Rightarrow> bool" where
  "steal_count_ok s \<longleftrightarrow>
     (if \<exists>t. gpc s t = GFlip
      then barrier_count (grp s) = 0 \<and> card (arrivals s) = unat (group_size (grp s))
      else unat (barrier_count (grp s)) = card (arrivals s)) \<and>
     ((\<exists>t. gpc s t \<in> {GLast, GFlip}) \<longleftrightarrow>
       card (arrivals s) = unat (group_size (grp s)) \<and> group_size (grp s) \<noteq> 0)"

definition steal_inv :: "u32 \<Rightarrow> steal_sys \<Rightarrow> bool" where
  "steal_inv n s \<longleftrightarrow> group_size (grp s) = n \<and>
     steal_lock_ok s \<and> steal_places_ok s \<and> steal_count_ok s"

lemma steal_goto_sel [simp]:
  "grp (steal_goto t pc s) = grp s" "owner (steal_goto t pc s) = owner s"
  "gpc (steal_goto t pc s) = (gpc s)(t := pc)" "flips (steal_goto t pc s) = flips s"
  "gspec (steal_goto t pc s) = gspec s"
  by (simp_all add: steal_goto_def)

lemma steal_leave_sel [simp]:
  "grp (steal_leave t s) = grp s" "owner (steal_leave t s) = owner s"
  "gpc (steal_leave t s) = (gpc s)(t := GOut)" "flips (steal_leave t s) = flips s"
  "entries (gspec (steal_leave t s)) = entries (gspec s)"
  "exits (gspec (steal_leave t s)) = (exits (gspec s))(t := Suc (exits (gspec s) t))"
  by (simp_all add: steal_leave_def)

lemma arrivals_cong:
  "grp s' = grp s \<Longrightarrow> gpc s' = gpc s \<Longrightarrow> arrivals s' = arrivals s"
  by (simp add: arrivals_def)

lemma finite_arrivals [simp]: "finite (arrivals s)"
  by (simp add: arrivals_def)

lemma card_arrivals_le: "card (arrivals s) \<le> unat (group_size (grp s))"
proof -
  have "arrivals s \<subseteq> {..<unat (group_size (grp s))}" by (auto simp: arrivals_def)
  from card_mono [OF _ this] show ?thesis by simp
qed

lemma owns_unique: "steal_lock_ok s \<Longrightarrow> owns (gpc s t) \<Longrightarrow> owns (gpc s u) \<Longrightarrow> u = t"
  by (metis option.inject steal_lock_ok_def)

text \<open>Moves that neither count nor toggle, and do not touch the places of the last thread.\<close>

lemma quiet_count_ok:
  assumes "steal_count_ok s" and "grp s' = grp s" and "gpc s' = (gpc s)(t := pc)"
    and "arrived (barrier_phase (grp s)) pc = arrived (barrier_phase (grp s)) (gpc s t)"
    and "pc \<notin> {GLast, GFlip}" and "gpc s t \<notin> {GLast, GFlip}"
  shows "steal_count_ok s'"
proof -
  have "arrivals s' = arrivals s"
    using assms(2-4) by (auto simp: arrivals_def)
  moreover have "(gpc s' u = GFlip) = (gpc s u = GFlip)" "(gpc s' u = GLast) = (gpc s u = GLast)" for u
    using assms(3,5,6) by auto
  ultimately show ?thesis
    using assms(1,2) by (simp add: steal_count_ok_def)
qed

lemma count_step:
  assumes inv: "steal_inv n s" and t: "gpc s t = GGot p"
    and s': "s' = steal_goto t (if barrier_count (grp s) + 1 = group_size (grp s) then GLast
                                else GMore p)
                   (s\<lparr>grp := (grp s)\<lparr>barrier_count := barrier_count (grp s) + 1\<rparr>\<rparr>)"
  shows "steal_count_ok s'"
proof -
  let ?N = "unat (group_size (grp s))"
  have own: "owns (gpc s t)" and tN: "t < ?N" and p: "p = barrier_phase (grp s)"
    using inv t
    by (auto simp: steal_inv_def steal_places_ok_def split: if_splits dest!: spec [of _ t])
  have alone: "gpc s u \<noteq> GFlip" "gpc s u \<noteq> GLast" for u
    using inv t owns_unique [OF _ own, of u] by (auto simp: steal_inv_def)
  then have count: "unat (barrier_count (grp s)) = card (arrivals s)"
    and less: "card (arrivals s) \<noteq> ?N"
    using inv tN by (auto simp: steal_inv_def steal_count_ok_def)
  with card_arrivals_le [of s] have lt: "card (arrivals s) < ?N" by linarith
  have new: "arrivals s' = insert t (arrivals s)"
    using tN p by (auto simp: s' arrivals_def)
  have "t \<notin> arrivals s" using t by (simp add: arrivals_def)
  then have card: "card (arrivals s') = Suc (card (arrivals s))" by (simp add: new)
  have "unat (barrier_count (grp s) + 1) = Suc (card (arrivals s))"
    using lt count unat_less_32 [of "group_size (grp s)"] by (simp add: unat_plus_one32)
  moreover from this have "barrier_count (grp s) + 1 = group_size (grp s) \<longleftrightarrow>
      card (arrivals s') = ?N"
    by (metis card word_unat_eq_iff)
  moreover have "group_size (grp s') = group_size (grp s)"
    "barrier_count (grp s') = barrier_count (grp s) + 1"
    "gpc s' u = GLast \<longleftrightarrow> u = t \<and> barrier_count (grp s) + 1 = group_size (grp s)"
    "gpc s' u \<noteq> GFlip" for u
    using alone by (simp_all add: s')
  ultimately show ?thesis
    using tN by (auto simp: steal_count_ok_def card)
qed

lemma reset_step:
  assumes inv: "steal_inv n s" and t: "gpc s t = GLast"
    and s': "s' = steal_goto t GFlip (s\<lparr>grp := (grp s)\<lparr>barrier_count := 0\<rparr>\<rparr>)"
  shows "steal_count_ok s'"
proof -
  have arr: "arrivals s' = arrivals s" using t by (auto simp: arrivals_def s')
  have "card (arrivals s) = unat (group_size (grp s)) \<and> group_size (grp s) \<noteq> 0"
    using inv t by (auto simp: steal_count_ok_def steal_inv_def)
  moreover have "gpc s' t = GFlip" "grp s' = (grp s)\<lparr>barrier_count := 0\<rparr>" by (simp_all add: s')
  ultimately show ?thesis by (auto simp: steal_count_ok_def arr)
qed

text \<open>When the phase is toggled, everybody else spins.\<close>

lemma flip_all_arrived:
  assumes inv: "steal_inv n s" and t: "gpc s t = GFlip" and u: "u \<noteq> t"
    and uN: "u < unat n"
  shows "gpc s u = GSpin (barrier_phase (grp s))"
proof -
  let ?A = "{..<unat n}"
  have "arrivals s = ?A"
  proof (rule card_subset_eq)
    show "arrivals s \<subseteq> ?A" using inv by (auto simp: arrivals_def steal_inv_def)
    show "card (arrivals s) = card ?A"
      using inv t by (auto simp: steal_inv_def steal_count_ok_def)
  qed simp
  with uN have "arrived (barrier_phase (grp s)) (gpc s u)" by (auto simp: arrivals_def)
  moreover have "\<not> owns (gpc s u)"
    using inv t u owns_unique [of s t u] by (auto simp: steal_inv_def)
  ultimately show ?thesis by (cases "gpc s u") auto
qed

lemma flip_step:
  assumes inv: "steal_inv n s" and t: "gpc s t = GFlip"
    and s': "s' = steal_goto t GUnlockLast
                   (s\<lparr>grp := (grp s)\<lparr>barrier_phase := \<not> barrier_phase (grp s)\<rparr>,
                      flips := Suc (flips s)\<rparr>)"
  shows "steal_count_ok s'" and "steal_places_ok s'"
proof -
  have tN: "t < unat n"
    using inv t by (auto simp: steal_inv_def steal_places_ok_def split: if_splits dest!: spec [of _ t])
  have spin: "u \<noteq> t \<Longrightarrow> u < unat n \<Longrightarrow> gpc s u = GSpin (barrier_phase (grp s))" for u
    by (rule flip_all_arrived [OF inv t])
  have out: "\<not> u < unat n \<Longrightarrow> gpc s u = GOut" for u
    using inv by (auto simp: steal_inv_def steal_places_ok_def)
  have size: "group_size (grp s) = n" using inv by (simp add: steal_inv_def)
  have "u \<notin> arrivals s'" for u
    using spin [of u] size by (cases "u = t") (auto simp: arrivals_def s')
  then have "arrivals s' = {}" by blast
  moreover have "gpc s' u \<notin> {GLast, GFlip}" for u
    using spin [of u] out [of u] by (cases "u < unat n") (auto simp: s')
  moreover have "n \<noteq> 0" using tN by auto
  moreover have "barrier_count (grp s) = 0"
    using inv t by (simp add: steal_inv_def steal_count_ok_def) (metis (full_types))
  ultimately show "steal_count_ok s'"
    using size by (auto simp: steal_count_ok_def s' unat_eq_0)
  have place: "place_ok (flips s) (gpc s u) (entries (gspec s) u) (exits (gspec s) u)"
    if "u < unat n" for u
    using inv that by (auto simp: steal_inv_def steal_places_ok_def)
  have ph: "barrier_phase (grp s) = odd (flips s)"
    using inv by (simp add: steal_inv_def steal_places_ok_def)
  have "place_ok (Suc (flips s)) (gpc s' u) (entries (gspec s) u) (exits (gspec s) u)"
    if "u < unat n" for u
    using place [OF that] spin [OF _ that] ph t by (cases "u = t") (auto simp: s')
  then show "steal_places_ok s'"
    using ph out size tN by (auto simp: steal_places_ok_def s')
qed

text \<open>Moves that change only the place and the counters of one thread keep all places right.\<close>

lemma place_move:
  assumes inv: "steal_inv n s" and tN: "t < unat n"
    and "group_size (grp s') = n" and "barrier_phase (grp s') = barrier_phase (grp s)"
    and "flips s' = flips s" and "gpc s' = (gpc s)(t := pc)"
    and "\<And>u. u \<noteq> t \<Longrightarrow> entries (gspec s') u = entries (gspec s) u"
    and "\<And>u. u \<noteq> t \<Longrightarrow> exits (gspec s') u = exits (gspec s) u"
    and "place_ok (flips s) (gpc s t) (entries (gspec s) t) (exits (gspec s) t) \<Longrightarrow>
         barrier_phase (grp s) = odd (flips s) \<Longrightarrow>
         place_ok (flips s) pc (entries (gspec s') t) (exits (gspec s') t)"
  shows "steal_places_ok s'"
  unfolding steal_places_ok_def
proof (intro conjI allI)
  have old: "steal_places_ok s" and size: "group_size (grp s) = n"
    using inv by (simp_all add: steal_inv_def)
  then show "barrier_phase (grp s') = odd (flips s')"
    using assms(4,5) by (simp add: steal_places_ok_def)
  fix u
  show "if u < unat (group_size (grp s'))
        then place_ok (flips s') (gpc s' u) (entries (gspec s') u) (exits (gspec s') u)
        else gpc s' u = GOut"
  proof (cases "u = t")
    case True
    have "place_ok (flips s) (gpc s t) (entries (gspec s) t) (exits (gspec s) t)"
      using old size tN by (simp add: steal_places_ok_def)
    moreover have "barrier_phase (grp s) = odd (flips s)"
      using old by (simp add: steal_places_ok_def)
    ultimately show ?thesis using True assms(3,5,6) tN by (simp add: assms(9))
  next
    case False
    moreover have "if u < unat n
        then place_ok (flips s) (gpc s u) (entries (gspec s) u) (exits (gspec s) u)
        else gpc s u = GOut"
      using old size by (auto simp: steal_places_ok_def)
    ultimately show ?thesis
      by (simp add: assms(3,5-8))
  qed
qed

lemma place_thread:
  "steal_inv n s \<Longrightarrow> gpc s t \<noteq> GOut \<Longrightarrow> t < unat n"
  by (auto simp: steal_inv_def steal_places_ok_def split: if_splits dest!: spec [of _ t])

lemma place_facts:
  assumes "steal_inv n s" and "t < unat n"
  shows "place_ok (flips s) (gpc s t) (entries (gspec s) t) (exits (gspec s) t)"
    and "barrier_phase (grp s) = odd (flips s)"
  using assms by (auto simp: steal_inv_def steal_places_ok_def)

lemma enter_inv:
  assumes inv: "steal_inv n s" and "t < unat n" and "gpc s t = GOut"
  shows "steal_inv n (s\<lparr>gpc := (gpc s)(t := GLock),
             gspec := (gspec s)\<lparr>entries := (entries (gspec s))(t := Suc (entries (gspec s) t))\<rparr>\<rparr>)"
    (is "steal_inv n ?s'")
proof -
  have parts: "steal_lock_ok s" "steal_count_ok s" using inv by (simp_all add: steal_inv_def)
  have "steal_count_ok ?s'"
    using assms(3) by (intro quiet_count_ok [OF parts(2), where t = t]) (auto simp: steal_inv_def)
  moreover have "steal_places_ok ?s'"
    using assms place_facts [OF inv assms(2)]
    by (intro place_move [OF inv assms(2), where pc = GLock]) (auto simp: steal_inv_def)
  moreover have "steal_lock_ok ?s'"
    using inv assms(3) by (auto simp: steal_inv_def steal_lock_ok_def)
  ultimately show ?thesis using inv by (simp add: steal_inv_def)
qed

lemma steal_lock_keep:
  "steal_lock_ok s \<Longrightarrow> owner s' = owner s \<Longrightarrow> gpc s' = (gpc s)(t := pc) \<Longrightarrow>
   owns pc = owns (gpc s t) \<Longrightarrow> steal_lock_ok s'"
  by (auto simp: steal_lock_ok_def)

lemma steal_lock_take:
  "steal_lock_ok s \<Longrightarrow> owner s = None \<Longrightarrow> owner s' = Some t \<Longrightarrow> gpc s' = (gpc s)(t := pc) \<Longrightarrow>
   owns pc \<Longrightarrow> steal_lock_ok s'"
  by (auto simp: steal_lock_ok_def)

lemma steal_lock_drop:
  "steal_lock_ok s \<Longrightarrow> owns (gpc s t) \<Longrightarrow> owner s' = None \<Longrightarrow> gpc s' = (gpc s)(t := pc) \<Longrightarrow>
   \<not> owns pc \<Longrightarrow> steal_lock_ok s'"
  by (auto simp: steal_lock_ok_def) (metis option.inject)

lemma steal_step_inv:
  assumes inv: "steal_inv n s" and "steal_event (Step t) s = Some s'"
  shows "steal_inv n s'"
proof -
  have tN: "gpc s t \<noteq> GOut \<Longrightarrow> t < unat n" by (rule place_thread [OF inv])
  have parts: "steal_lock_ok s" "steal_count_ok s" "group_size (grp s) = n"
    using inv by (simp_all add: steal_inv_def)
  have keep: "group_size (grp s') = n"
    using assms parts(3) by (auto simp: Let_def split: steal_pc.splits if_splits)
  have lock: "steal_lock_ok s'"
    using assms(2) parts(1)
    by (auto simp: Let_def split: steal_pc.splits if_splits
        intro: steal_lock_keep [of s _ t] steal_lock_take [of s _ t] steal_lock_drop [of s t])
  have places: "steal_places_ok s'"
  proof (cases "gpc s t = GFlip")
    case True
    with assms show ?thesis by (intro flip_step(2) [OF inv True]) simp
  next
    case False
    with assms(2) tN keep show ?thesis
      by (auto simp: Let_def split: steal_pc.splits if_splits intro!: place_move [OF inv])
  qed
  have count: "steal_count_ok s'"
  proof (cases "gpc s t")
    case (GGot p)
    with assms(2) show ?thesis by (intro count_step [OF inv GGot]) (simp add: Let_def)
  next
    case GLast
    with assms(2) show ?thesis by (intro reset_step [OF inv GLast]) simp
  next
    case GFlip
    with assms(2) show ?thesis by (intro flip_step(1) [OF inv GFlip]) simp
  qed (use assms(2) parts place_facts [OF inv, of t] tN in
        \<open>auto split: if_splits intro!: quiet_count_ok [OF parts(2), where t = t]\<close>)
  show ?thesis using keep lock places count by (simp add: steal_inv_def)
qed

lemma steal_event_inv:
  assumes inv: "steal_inv n s" and ev: "steal_event a s = Some s'"
  shows "steal_inv n s'"
proof (cases a)
  case (Enter t)
  have "group_size (grp s) = n" using inv by (simp add: steal_inv_def)
  with Enter ev enter_inv [OF inv, of t] show ?thesis by (auto split: if_splits)
next
  case (Step t)
  with ev steal_step_inv [OF inv, of t s'] show ?thesis by simp
qed

lemma steal_start_inv: "steal_inv n (steal_start n)"
  by (auto simp: steal_inv_def steal_start_def steal_lock_ok_def steal_places_ok_def
      steal_count_ok_def arrivals_def group_make3_def barrier_spec_start_def unat_eq_0)

lemma steal_event_spec:
  assumes inv: "steal_inv n s" and ev: "steal_event a s = Some s'"
  shows "gspec s' = gspec s \<or> barrier_spec_step (unat n) (gspec s) (gspec s')"
proof (cases a)
  case (Enter t)
  with ev inv have t: "t < unat n" "gpc s t = GOut"
    and s': "gspec s' = (gspec s)\<lparr>entries := (entries (gspec s))(t := Suc (entries (gspec s) t))\<rparr>"
    by (auto simp: steal_inv_def split: if_splits)
  from place_facts [OF inv t(1)] t(2) show ?thesis
    unfolding s' by (intro disjI2 barrier_spec_step.enter t(1)) simp
next
  case (Step t)
  show ?thesis
  proof (cases "gspec s' = gspec s")
    case False
    with ev Step have out: "gpc s t = GUnlockLast \<or> (\<exists>p. gpc s t = GSpin p \<and> p \<noteq> barrier_phase (grp s))"
      and s': "gspec s' = (gspec s)\<lparr>exits := (exits (gspec s))(t := Suc (exits (gspec s) t))\<rparr>"
      by (auto simp: Let_def steal_leave_def split: steal_pc.splits if_splits)
    from out have tN: "t < unat n" using place_thread [OF inv] by auto
    have "flips s \<le> entries (gspec s) u" if "u < unat n" for u
      using place_facts [OF inv that] by (cases "gpc s u") (auto split: if_splits)
    with place_facts [OF inv tN] out show ?thesis
      unfolding s' by (intro disjI2 barrier_spec_step.leave tN) (auto split: if_splits)
  qed simp
qed

interpretation steal: simulation "\<lambda>s. s = steal_start n" steal_step "steal_inv n"
  "barrier_spec_step (unat n)" gspec for n
proof unfold_locales
  fix s t
  show "s = steal_start n \<Longrightarrow> steal_inv n s" by (simp add: steal_start_inv)
  show "steal_inv n s \<Longrightarrow> steal_step s t \<Longrightarrow> steal_inv n t"
    by (auto elim: step_ofE intro: steal_event_inv)
  show "steal_inv n s \<Longrightarrow> steal_step s t \<Longrightarrow>
        gspec t = gspec s \<or> barrier_spec_step (unat n) (gspec s) (gspec t)"
    by (auto elim: step_ofE dest: steal_event_spec)
qed

section \<open>A barrier everybody has entered can be completed\<close>

fun steps_left :: "steal_pc \<Rightarrow> nat" where
  "steps_left GOut = 0"
| "steps_left GLock = 8"
| "steps_left GIn = 7"
| "steps_left (GGot _) = 6"
| "steps_left GLast = 5"
| "steps_left GFlip = 4"
| "steps_left GUnlockLast = 3"
| "steps_left (GMore _) = 5"
| "steps_left (GSpin _) = 1"

definition work_left :: "u32 \<Rightarrow> steal_sys \<Rightarrow> nat" where
  "work_left n s = (\<Sum>t<unat n. steps_left (gpc s t))"

lemma work_left_less:
  assumes "t < unat n" and "gpc s' = (gpc s)(t := pc)" and "steps_left pc < steps_left (gpc s t)"
  shows "work_left n s' < work_left n s"
  unfolding work_left_def
proof (rule sum_strict_mono_ex1)
  show "\<forall>u\<in>{..<unat n}. steps_left (gpc s' u) \<le> steps_left (gpc s u)"
    using assms(2,3) by auto
  show "\<exists>u\<in>{..<unat n}. steps_left (gpc s' u) < steps_left (gpc s u)"
    using assms by auto
qed simp

text \<open>A thread that neither waits for the lock nor spins in vain gets on.\<close>

lemma thread_gets_on:
  assumes "t < unat n" and "gpc s t \<noteq> GOut" and "gpc s t = GLock \<Longrightarrow> owner s = None"
    and "gpc s t \<noteq> GSpin (barrier_phase (grp s))"
  shows "\<exists>s'. steal_event (Step t) s = Some s' \<and> work_left n s' < work_left n s \<and>
              entries (gspec s') = entries (gspec s)"
proof -
  have "\<exists>s' pc. steal_event (Step t) s = Some s' \<and> gpc s' = (gpc s)(t := pc) \<and>
          steps_left pc < steps_left (gpc s t) \<and> entries (gspec s') = entries (gspec s)"
    using assms(2-4) by (cases "gpc s t") (auto simp: Let_def)
  then show ?thesis using work_left_less [OF assms(1)] by blast
qed

lemma somebody_gets_on:
  assumes inv: "steal_inv n s" and in_step: "\<forall>t<unat n. entries (gspec s) t = Suc r"
    and u: "u < unat n" "gpc s u \<noteq> GOut"
  shows "\<exists>s'. steal_step s s' \<and> work_left n s' < work_left n s \<and>
              entries (gspec s') = entries (gspec s)"
proof -
  let ?ph = "barrier_phase (grp s)"
  have "\<exists>t<unat n. gpc s t \<noteq> GOut \<and> (gpc s t = GLock \<longrightarrow> owner s = None) \<and> gpc s t \<noteq> GSpin ?ph"
  proof (cases "owner s")
    case (Some t)
    then have own: "owns (gpc s t)" using inv by (auto simp: steal_inv_def steal_lock_ok_def)
    then have "t < unat n" using place_thread [OF inv, of t] by (cases "gpc s t") auto
    with own show ?thesis by (intro exI [of _ t]) auto
  next
    case None
    then have free: "\<not> owns (gpc s t)" for t
      using inv by (simp add: steal_inv_def steal_lock_ok_def)
    show ?thesis
    proof (rule ccontr)
      assume stuck: "\<not> ?thesis"
      then have spin: "gpc s t = GOut \<or> gpc s t = GSpin ?ph" if "t < unat n" for t
        using None that by auto
      then have "gpc s u = GSpin ?ph" using u by blast
      then have r: "flips s = r"
        using place_facts [OF inv u(1)] in_step u(1) by simp
      have all: "gpc s t = GSpin ?ph" if "t < unat n" for t
        using spin [OF that] place_facts(1) [OF inv that] in_step that r by auto
      have "group_size (grp s) = n" using inv by (simp add: steal_inv_def)
      moreover from this all have "arrivals s = {..<unat n}" by (auto simp: arrivals_def)
      ultimately have "\<exists>t. gpc s t \<in> {GLast, GFlip}"
        using inv u by (auto simp: steal_inv_def steal_count_ok_def)
      then show False using free by (metis empty_iff insert_iff owns.simps(6,7))
    qed
  qed
  then obtain t where "t < unat n" "gpc s t \<noteq> GOut" "gpc s t = GLock \<longrightarrow> owner s = None"
    "gpc s t \<noteq> GSpin ?ph" by blast
  from thread_gets_on [OF this(1,2) _ this(4)] this(3) show ?thesis
    by (blast intro: step_of.event)
qed

lemma barrier_completes:
  assumes "steal_inv n s" and "\<forall>t<unat n. entries (gspec s) t = Suc r"
  shows "\<exists>s'. reaches steal_step s s' \<and> entries (gspec s') = entries (gspec s) \<and>
              (\<forall>t<unat n. gpc s' t = GOut)"
  using assms
proof (induction "work_left n s" arbitrary: s rule: less_induct)
  case less
  show ?case
  proof (cases "\<forall>t<unat n. gpc s t = GOut")
    case True
    then show ?thesis by (blast intro: reaches.here)
  next
    case False
    then obtain u where "u < unat n" "gpc s u \<noteq> GOut" by blast
    from somebody_gets_on [OF less.prems this] obtain s'
      where s': "steal_step s s'" "work_left n s' < work_left n s"
        "entries (gspec s') = entries (gspec s)" by blast
    have "steal_inv n s'" using s'(1) less.prems(1) by (rule steal.step_inv [rotated])
    with less.hyps [OF s'(2)] less.prems(2) s'(3) obtain t
      where "reaches steal_step s' t" "entries (gspec t) = entries (gspec s)"
        "\<forall>u<unat n. gpc t u = GOut" by auto
    with s'(1) show ?thesis by (blast intro: reaches_trans reaches_one)
  qed
qed

section \<open>The spinning barrier as a machine\<close>

text \<open>
  \<open>barrier_spin\<close> leaves its first loop when \<open>trylock\<close> returns true. The increment and
  the comparison of \<open>barrier_count\<close> are separate accesses, since the field is volatile
  and the code believes that it holds the lock.
\<close>

datatype spin_pc =
    POut
  | PTry                  \<comment> \<open>at \<open>while (!group_lock.trylock ())\<close>\<close>
  | PPhase                \<comment> \<open>out of the loop\<close>
  | PLoad bool            \<comment> \<open>\<open>my_phase\<close> read\<close>
  | PStore bool u32       \<comment> \<open>\<open>barrier_count\<close> read\<close>
  | PTest bool            \<comment> \<open>\<open>barrier_count\<close> incremented\<close>
  | PReset                \<comment> \<open>the last one\<close>
  | PFlip
  | PUnlockLast
  | PMore bool            \<comment> \<open>not the last one\<close>
  | PSpin bool

record spin_sys =
  sgrp :: group
  slock :: u32
  spc :: "tid \<Rightarrow> spin_pc"

definition spin_start :: "u32 \<Rightarrow> spin_sys" where
  "spin_start n = \<lparr>sgrp = group_make2 0 n, slock = PFUNC_MUTEX_FREE, spc = (\<lambda>_. POut)\<rparr>"

definition spin_goto :: "tid \<Rightarrow> spin_pc \<Rightarrow> spin_sys \<Rightarrow> spin_sys" where
  "spin_goto t pc s = s\<lparr>spc := (spc s)(t := pc)\<rparr>"

definition spin_unlock :: "spin_sys \<Rightarrow> spin_sys" where
  "spin_unlock s = s\<lparr>slock := snd (mutex_unlock_step (slock s))\<rparr>"

datatype spin_action = SpinEnter tid | SpinStep tid

fun spin_event :: "spin_action \<Rightarrow> spin_sys \<Rightarrow> spin_sys option" where
  "spin_event (SpinEnter t) s =
     (if t < unat (group_size (sgrp s)) \<and> spc s t = POut then Some (spin_goto t PTry s) else None)"
| "spin_event (SpinStep t) s =
     (case spc s t of
        POut \<Rightarrow> None
      | PTry \<Rightarrow> (case mutex_trylock pfunc_compare_and_swap_32 (slock s) of (got, v) \<Rightarrow>
                  Some (spin_goto t (if \<not> got then PTry else PPhase) (s\<lparr>slock := v\<rparr>)))
      | PPhase \<Rightarrow> Some (spin_goto t (PLoad (barrier_phase (sgrp s))) s)
      | PLoad p \<Rightarrow> Some (spin_goto t (PStore p (barrier_count (sgrp s))) s)
      | PStore p c \<Rightarrow> Some (spin_goto t (PTest p) (s\<lparr>sgrp := (sgrp s)\<lparr>barrier_count := c + 1\<rparr>\<rparr>))
      | PTest p \<Rightarrow> Some (spin_goto t (if barrier_count (sgrp s) = group_size (sgrp s)
                                      then PReset else PMore p) s)
      | PReset \<Rightarrow> Some (spin_goto t PFlip (s\<lparr>sgrp := (sgrp s)\<lparr>barrier_count := 0\<rparr>\<rparr>))
      | PFlip \<Rightarrow> Some (spin_goto t PUnlockLast
                   (s\<lparr>sgrp := (sgrp s)\<lparr>barrier_phase := \<not> barrier_phase (sgrp s)\<rparr>\<rparr>))
      | PUnlockLast \<Rightarrow> Some (spin_goto t POut (spin_unlock s))
      | PMore p \<Rightarrow> Some (spin_goto t (PSpin p) (spin_unlock s))
      | PSpin p \<Rightarrow> Some (if p = barrier_phase (sgrp s) then s else spin_goto t POut s))"

abbreviation spin_step :: "spin_sys \<Rightarrow> spin_sys \<Rightarrow> bool" where
  "spin_step \<equiv> step_of spin_event"

text \<open>Everybody is in the barrier and waits for a phase that nobody will change.\<close>

definition spin_stuck :: "spin_sys \<Rightarrow> bool" where
  "spin_stuck s \<longleftrightarrow> (\<forall>t. if t < unat (group_size (sgrp s))
                        then spc s t = PSpin (barrier_phase (sgrp s)) else spc s t = POut)"

lemma spin_stuck_event:
  assumes "spin_stuck s" and "spin_event a s = Some s'"
  shows "s' = s"
proof (cases a)
  case (SpinEnter t)
  with assms show ?thesis by (auto simp: spin_stuck_def split: if_splits dest!: spec [of _ t])
next
  case (SpinStep t)
  with assms(1) have "spc s t = PSpin (barrier_phase (sgrp s)) \<or> spc s t = POut"
    by (auto simp: spin_stuck_def split: if_splits dest!: spec [of _ t])
  with SpinStep assms(2) show ?thesis by auto
qed

lemma spin_stuck_steps: "reaches spin_step s s' \<Longrightarrow> spin_stuck s \<Longrightarrow> s' = s"
  by (induction rule: reaches.induct) (auto elim!: step_ofE dest: spin_stuck_event)

text \<open>Two threads whose increments overlap because both have got past \<open>trylock\<close>.\<close>

definition overlap_run :: "spin_action list" where
  "overlap_run =
     [SpinEnter 0, SpinEnter 1, SpinStep 0, SpinStep 0, SpinStep 1,
      SpinStep 0, SpinStep 1, SpinStep 0, SpinStep 1, SpinStep 0, SpinStep 1,
      SpinStep 0, SpinStep 1, SpinStep 0, SpinStep 1]"

section \<open>Properties\<close>


definition barrier_run :: "steal_action list" where
  "barrier_run =
     [Enter 0, Step 0, Step 0, Step 0, Step 0, Enter 1, Step 1, Step 1, Step 1, Step 1, Step 1,
      Step 1, Step 0]"




text \<open>
  The spinning barrier can lock up. For a group of two, a state is reachable in which
  both tasks are in the barrier and no continuation ever changes it: with the inverted
  \<open>trylock\<close> both increments run at once and one of them is lost.
\<close>

theorem barrier_spin_locks_up:
  "\<exists>s. reaches spin_step (spin_start 2) s \<and> spc s 0 = PSpin False \<and> spc s 1 = PSpin False \<and>
       {s'. reaches spin_step s s'} = {s}"
proof -
  have "\<exists>s. run_events spin_event overlap_run (spin_start 2) = Some s \<and>
            spc s 0 = PSpin False \<and> spc s 1 = PSpin False \<and> spin_stuck s"
    by (simp add: overlap_run_def spin_start_def group_make2_def spin_goto_def spin_unlock_def
        mutex_trylock_def x86.cas_eq mutex_consts spin_stuck_def less_2_cases_iff)
  then show ?thesis
    by (blast intro: run_events_reaches reaches.here dest: spin_stuck_steps)
qed

text \<open>
  Ranks. \<open>n\<close> tasks that join a group get the \<open>n\<close> ranks from the token on, wrapping
  at 32 bits, and they are different as long as \<open>n\<close> is at most \<open>2^32\<close>; leaving gives
  the last rank back.
\<close>

theorem join_group_ranks:
  assumes "n \<le> 2 ^ 32"
  shows "fst (join_all n g) = map (\<lambda>i. rank_token g + of_nat i) [0..<n] \<and>
         distinct (fst (join_all n g)) \<and> snd (join_group (leave_group g)) = g"
  using tickets_distinct [OF assms, of "rank_token g"]
  by (simp add: join_all_tickets leave_join tickets_eq)

theorem join_group_ranks_witness:
  "fst (join_all 3 (group_make2 7 3)) = [0, 1, 2] \<and> distinct (fst (join_all 3 (group_make2 7 3)))"
  using join_group_ranks [of 3 "group_make2 7 3"]
  by (simp add: group_make2_def numeral_3_eq_3)

end
