(* ===== verification/Pthread_Barrier.thy ===== *)
theory Pthread_Barrier
  imports Group
begin

text \<open>
  The start-up barrier of \<^verbatim>\<open>barrier.hpp\<close> in its pthread variant, which waits on a condition
  variable, as a machine over a mutex with an owner. \<open>pthread_cond_wait\<close> gives the mutex
  back and blocks in one step, may return at any time, and takes the mutex again before it
  does; \<open>pthread_cond_broadcast\<close> unblocks all that are blocked. The machine is shown to do what
  the work-stealing barrier of \<open>Group\<close> does, and thereby to be a barrier.
\<close>

section \<open>State and code\<close>

text \<open>
  The places of \<open>operator()\<close>; \<open>my_phase\<close> is the last argument. The flag \<open>again\<close> tells whether
  the thread has been blocked before; the code does not look at it.
\<close>

datatype pt_pc =
    QOut | QLock | QIn | QGot bool | QLast | QFlip | QBroadcast | QUnlockLast
  | QLoop bool bool | QWait bool bool | QAsleep bool | QRelock bool | QUnlock bool bool

record pt_sys =
  pt_phase :: bool
  pt_count :: u32
  pt_size :: u32
  pt_owner :: "tid option"
  pt_pcs :: "tid \<Rightarrow> pt_pc"
  pt_flips :: nat
  pt_spec :: barrier_spec

text \<open>The constructor and \<open>initialize\<close>.\<close>

definition pt_start :: "u32 \<Rightarrow> pt_sys" where
  "pt_start n = \<lparr>pt_phase = True, pt_count = 0, pt_size = n, pt_owner = None,
     pt_pcs = (\<lambda>_. QOut), pt_flips = 0, pt_spec = barrier_spec_start\<rparr>"

definition pt_goto :: "tid \<Rightarrow> pt_pc \<Rightarrow> pt_sys \<Rightarrow> pt_sys" where
  "pt_goto t pc s = s\<lparr>pt_pcs := (pt_pcs s)(t := pc)\<rparr>"

definition pt_leave :: "tid \<Rightarrow> pt_sys \<Rightarrow> pt_sys" where
  "pt_leave t s = s\<lparr>pt_pcs := (pt_pcs s)(t := QOut),
     pt_spec := (pt_spec s)\<lparr>exits := (exits (pt_spec s))(t := Suc (exits (pt_spec s) t))\<rparr>\<rparr>"

fun pt_wake :: "pt_pc \<Rightarrow> pt_pc" where
  "pt_wake (QAsleep p) = QRelock p"
| "pt_wake pc = pc"

datatype pt_action = PtEnter tid | PtStep tid

text \<open>A step of a blocked thread is a wake-up without cause, which POSIX allows.\<close>

fun pt_event :: "pt_action \<Rightarrow> pt_sys \<Rightarrow> pt_sys option" where
  "pt_event (PtEnter t) s =
     (if t < unat (pt_size s) \<and> pt_pcs s t = QOut
      then Some (s\<lparr>pt_pcs := (pt_pcs s)(t := QLock),
                   pt_spec := (pt_spec s)\<lparr>entries := (entries (pt_spec s))
                                            (t := Suc (entries (pt_spec s) t))\<rparr>\<rparr>)
      else None)"
| "pt_event (PtStep t) s =
     (case pt_pcs s t of
        QOut \<Rightarrow> None
      | QLock \<Rightarrow> (if pt_owner s = None then Some (pt_goto t QIn (s\<lparr>pt_owner := Some t\<rparr>)) else None)
      | QIn \<Rightarrow> Some (pt_goto t (QGot (pt_phase s)) s)
      | QGot p \<Rightarrow>
          (let n = pt_count s + 1
           in Some (pt_goto t (if n = pt_size s then QLast else QLoop False p) (s\<lparr>pt_count := n\<rparr>)))
      | QLast \<Rightarrow> Some (pt_goto t QFlip (s\<lparr>pt_count := 0\<rparr>))
      | QFlip \<Rightarrow> Some (pt_goto t QBroadcast (s\<lparr>pt_phase := \<not> pt_phase s, pt_flips := Suc (pt_flips s)\<rparr>))
      | QBroadcast \<Rightarrow> Some (pt_goto t QUnlockLast (s\<lparr>pt_pcs := (\<lambda>u. pt_wake (pt_pcs s u))\<rparr>))
      | QUnlockLast \<Rightarrow> Some (pt_leave t (s\<lparr>pt_owner := None\<rparr>))
      | QLoop again p \<Rightarrow> Some (pt_goto t (if p = pt_phase s then QWait again p else QUnlock again p) s)
      | QWait again p \<Rightarrow> Some (pt_goto t (QAsleep p) (s\<lparr>pt_owner := None\<rparr>))
      | QAsleep p \<Rightarrow> Some (pt_goto t (QRelock p) s)
      | QRelock p \<Rightarrow> (if pt_owner s = None then Some (pt_goto t (QLoop True p) (s\<lparr>pt_owner := Some t\<rparr>)) else None)
      | QUnlock again p \<Rightarrow> Some (pt_leave t (s\<lparr>pt_owner := None\<rparr>)))"

abbreviation pt_step :: "pt_sys \<Rightarrow> pt_sys \<Rightarrow> bool" where
  "pt_step \<equiv> step_of pt_event"

section \<open>As the stealing barrier\<close>

text \<open>
  A thread that waits on the condition variable is one that spins: what it does with the
  mutex after it was woken does not count as owning the lock. The phases are inverted.
\<close>

fun pt_holds :: "pt_pc \<Rightarrow> bool" where
  "pt_holds QOut = False" | "pt_holds QLock = False" | "pt_holds (QAsleep p) = False"
| "pt_holds (QRelock p) = False" | "pt_holds _ = True"

fun woken_up :: "pt_pc \<Rightarrow> bool" where
  "woken_up (QLoop again p) = again"
| "woken_up (QWait again p) = again"
| "woken_up (QUnlock again p) = again"
| "woken_up _ = False"

fun pt_pc_abs :: "pt_pc \<Rightarrow> steal_pc" where
  "pt_pc_abs QOut = GOut"
| "pt_pc_abs QLock = GLock"
| "pt_pc_abs QIn = GIn"
| "pt_pc_abs (QGot p) = GGot (\<not> p)"
| "pt_pc_abs QLast = GLast"
| "pt_pc_abs QFlip = GFlip"
| "pt_pc_abs QBroadcast = GUnlockLast"
| "pt_pc_abs QUnlockLast = GUnlockLast"
| "pt_pc_abs (QLoop again p) = (if again then GSpin (\<not> p) else GMore (\<not> p))"
| "pt_pc_abs (QWait again p) = (if again then GSpin (\<not> p) else GMore (\<not> p))"
| "pt_pc_abs (QUnlock again p) = (if again then GSpin (\<not> p) else GMore (\<not> p))"
| "pt_pc_abs (QAsleep p) = GSpin (\<not> p)"
| "pt_pc_abs (QRelock p) = GSpin (\<not> p)"

definition pt_owner_abs :: "pt_sys \<Rightarrow> tid option" where
  "pt_owner_abs s = (case pt_owner s of None \<Rightarrow> None
                     | Some t \<Rightarrow> if woken_up (pt_pcs s t) then None else Some t)"

definition pt_abs :: "pt_sys \<Rightarrow> steal_sys" where
  "pt_abs s = \<lparr>grp = (group_make3 0 (pt_size s) (barrier_code BARRIER_STEAL))
                   \<lparr>barrier_phase := \<not> pt_phase s, barrier_count := pt_count s\<rparr>,
     owner = pt_owner_abs s, gpc = (\<lambda>t. pt_pc_abs (pt_pcs s t)), flips = pt_flips s, gspec = pt_spec s\<rparr>"

text \<open>
  The mutex has one owner; what \<open>QWait\<close> and \<open>QUnlock\<close> know of the phase stays true, because
  only the owner toggles it; a blocked thread whose phase is over is about to be woken.
\<close>

definition pt_lock_ok :: "pt_sys \<Rightarrow> bool" where
  "pt_lock_ok s \<longleftrightarrow> (\<forall>t. pt_owner s = Some t \<longleftrightarrow> pt_holds (pt_pcs s t))"

fun pt_phase_ok :: "bool \<Rightarrow> pt_pc \<Rightarrow> bool" where
  "pt_phase_ok ph (QLoop again p) = (again \<or> p = ph)"
| "pt_phase_ok ph (QGot p) = (p = ph)"
| "pt_phase_ok ph (QWait again p) = (p = ph)"
| "pt_phase_ok ph (QUnlock again p) = (again \<and> p \<noteq> ph)"
| "pt_phase_ok ph _ = True"

definition pt_sleep_ok :: "pt_sys \<Rightarrow> bool" where
  "pt_sleep_ok s \<longleftrightarrow> (\<forall>t. pt_pcs s t = QAsleep (\<not> pt_phase s) \<longrightarrow> (\<exists>u. pt_pcs s u = QBroadcast))"

definition pt_inv :: "u32 \<Rightarrow> pt_sys \<Rightarrow> bool" where
  "pt_inv n s \<longleftrightarrow> pt_lock_ok s \<and> (\<forall>t. pt_phase_ok (pt_phase s) (pt_pcs s t)) \<and> pt_sleep_ok s \<and>
     steal_inv n (pt_abs s)"

lemma pt_goto_sel [simp]:
  "pt_phase (pt_goto t pc s) = pt_phase s" "pt_count (pt_goto t pc s) = pt_count s"
  "pt_size (pt_goto t pc s) = pt_size s" "pt_owner (pt_goto t pc s) = pt_owner s"
  "pt_pcs (pt_goto t pc s) = (pt_pcs s)(t := pc)" "pt_flips (pt_goto t pc s) = pt_flips s"
  "pt_spec (pt_goto t pc s) = pt_spec s"
  by (simp_all add: pt_goto_def)

lemma pt_leave_sel [simp]:
  "pt_phase (pt_leave t s) = pt_phase s" "pt_count (pt_leave t s) = pt_count s"
  "pt_size (pt_leave t s) = pt_size s" "pt_owner (pt_leave t s) = pt_owner s"
  "pt_pcs (pt_leave t s) = (pt_pcs s)(t := QOut)" "pt_flips (pt_leave t s) = pt_flips s"
  by (simp_all add: pt_leave_def)

lemma pt_wake_simps [simp]:
  "pt_holds (pt_wake pc) = pt_holds pc" "woken_up (pt_wake pc) = woken_up pc"
  "pt_pc_abs (pt_wake pc) = pt_pc_abs pc" "pt_phase_ok ph (pt_wake pc) = pt_phase_ok ph pc"
  "pt_wake pc \<noteq> QAsleep p"
  by (cases pc; simp)+

lemma pt_alone: "pt_lock_ok s \<Longrightarrow> pt_holds (pt_pcs s t) \<Longrightarrow> pt_holds (pt_pcs s u) \<Longrightarrow> u = t"
  by (metis option.inject pt_lock_ok_def)

lemma pt_owner_of: "pt_lock_ok s \<Longrightarrow> pt_holds (pt_pcs s t) \<Longrightarrow> pt_owner s = Some t"
  by (simp add: pt_lock_ok_def)

lemma pt_phase_ok_free: "\<not> pt_holds pc \<Longrightarrow> pt_phase_ok ph pc"
  by (cases pc) auto

text \<open>One step keeps the concrete parts of the invariant.\<close>

lemma pt_lock_drop:
  assumes "pt_lock_ok s" and "pt_holds (pt_pcs s t)" and "pt_owner s' = None"
    and "pt_pcs s' = (pt_pcs s)(t := pc)" and "\<not> pt_holds pc"
  shows "pt_lock_ok s'"
  unfolding pt_lock_ok_def
proof
  fix u
  have "\<not> pt_holds (pt_pcs s u)" if "u \<noteq> t"
    using pt_alone [OF assms(1,2), of u] that by blast
  then show "pt_owner s' = Some u \<longleftrightarrow> pt_holds (pt_pcs s' u)"
    using assms(3-5) by (cases "u = t") auto
qed

lemma pt_lock_step:
  assumes "pt_lock_ok s" and "pt_event a s = Some s'"
  shows "pt_lock_ok s'"
proof (cases a)
  case (PtEnter t)
  with assms show ?thesis by (auto simp: pt_lock_ok_def split: if_splits)
next
  case (PtStep t)
  show ?thesis
  proof (cases "pt_pcs s t")
    case QOut
    with assms PtStep show ?thesis by simp
  next
    case QBroadcast
    then show ?thesis using assms PtStep by (auto simp: pt_lock_ok_def split: if_splits)
  next
    case QUnlockLast
    with assms PtStep show ?thesis by (auto intro: pt_lock_drop [OF assms(1), where t = t])
  next
    case (QWait again p)
    with assms PtStep show ?thesis by (auto intro: pt_lock_drop [OF assms(1), where t = t])
  next
    case (QUnlock again p)
    with assms PtStep show ?thesis by (auto intro: pt_lock_drop [OF assms(1), where t = t])
  qed (use assms PtStep pt_owner_of [of s t] in
       \<open>auto simp: pt_lock_ok_def Let_def split: if_splits dest: spec [of _ t]\<close>)
qed

lemma pt_phase_step:
  assumes "pt_lock_ok s" and "\<forall>t. pt_phase_ok (pt_phase s) (pt_pcs s t)" and "pt_event a s = Some s'"
  shows "\<forall>t. pt_phase_ok (pt_phase s') (pt_pcs s' t)"
proof (cases a)
  case (PtEnter t)
  with assms show ?thesis by (auto split: if_splits)
next
  case (PtStep t)
  have this_ok: "pt_phase_ok (pt_phase s) (pt_pcs s t)" using assms(2) by simp
  show ?thesis
  proof (cases "pt_pcs s t")
    case QFlip
    have "pt_phase_ok ph (pt_pcs s u)" if "u \<noteq> t" for u ph
      using pt_alone [OF assms(1), of t u] that QFlip by (intro pt_phase_ok_free) auto
    with assms PtStep QFlip show ?thesis by auto
  qed (use assms PtStep this_ok in \<open>auto simp: Let_def split: if_splits\<close>)
qed

lemma pt_sleep_keep:
  assumes "pt_sleep_ok s" and "pt_pcs s' = (pt_pcs s)(t := pc)" and "pt_phase s' = pt_phase s"
    and "pt_pcs s t \<noteq> QBroadcast" and "pc \<noteq> QAsleep (\<not> pt_phase s)"
  shows "pt_sleep_ok s'"
  unfolding pt_sleep_ok_def
proof (intro allI impI)
  fix u assume "pt_pcs s' u = QAsleep (\<not> pt_phase s')"
  then have "pt_pcs s u = QAsleep (\<not> pt_phase s)" using assms(2,3,5) by (auto split: if_splits)
  then obtain v where "pt_pcs s v = QBroadcast" using assms(1) by (auto simp: pt_sleep_ok_def)
  with assms(2,4) show "\<exists>v. pt_pcs s' v = QBroadcast" by (intro exI [of _ v]) auto
qed

lemma pt_sleep_step:
  assumes "pt_lock_ok s" and "\<forall>t. pt_phase_ok (pt_phase s) (pt_pcs s t)" and "pt_sleep_ok s"
    and "pt_event a s = Some s'"
  shows "pt_sleep_ok s'"
proof (cases a)
  case (PtEnter t)
  with assms(4) show ?thesis by (auto intro: pt_sleep_keep [OF assms(3)] split: if_splits)
next
  case (PtStep t)
  have this_ok: "pt_phase_ok (pt_phase s) (pt_pcs s t)" using assms(2) by simp
  show ?thesis
  proof (cases "pt_pcs s t")
    case QFlip
    with assms(4) PtStep show ?thesis by (auto simp: pt_sleep_ok_def)
  next
    case QBroadcast
    with assms(4) PtStep show ?thesis by (auto simp: pt_sleep_ok_def split: if_splits)
  qed (use assms(4) PtStep this_ok in
       \<open>auto intro!: pt_sleep_keep [OF assms(3), where t = t] simp: Let_def split: if_splits\<close>)
qed

section \<open>The simulation\<close>

lemma pt_abs_sel [simp]:
  "group_size (grp (pt_abs s)) = pt_size s" "barrier_phase (grp (pt_abs s)) = (\<not> pt_phase s)"
  "barrier_count (grp (pt_abs s)) = pt_count s" "owner (pt_abs s) = pt_owner_abs s"
  "gpc (pt_abs s) t = pt_pc_abs (pt_pcs s t)" "flips (pt_abs s) = pt_flips s" "gspec (pt_abs s) = pt_spec s"
  by (simp_all add: pt_abs_def group_make3_def)

text \<open>A step that the abstraction does not see.\<close>

lemma pt_abs_same:
  assumes "pt_phase s' = pt_phase s" "pt_count s' = pt_count s" "pt_size s' = pt_size s"
    "pt_owner_abs s' = pt_owner_abs s" "\<And>u. pt_pc_abs (pt_pcs s' u) = pt_pc_abs (pt_pcs s u)"
    "pt_flips s' = pt_flips s" "pt_spec s' = pt_spec s"
  shows "pt_abs s' = pt_abs s"
  using assms by (simp add: pt_abs_def)

lemma pt_owner_abs_holds:
  "pt_lock_ok s \<Longrightarrow> pt_holds (pt_pcs s t) \<Longrightarrow>
   pt_owner_abs s = (if woken_up (pt_pcs s t) then None else Some t)"
  by (simp add: pt_owner_abs_def pt_owner_of)

lemma pt_abs_update:
  assumes "\<And>u. u \<noteq> t \<Longrightarrow> pt_pcs s' u = pt_pcs s u"
  shows "(\<lambda>u. pt_pc_abs (pt_pcs s' u)) = (\<lambda>u. pt_pc_abs (pt_pcs s u))(t := pt_pc_abs (pt_pcs s' t))"
  using assms by auto

lemma pt_sim_enter:
  assumes "pt_inv n s" and "pt_event (PtEnter t) s = Some s'"
  shows "steal_event (Enter t) (pt_abs s) = Some (pt_abs s')"
proof -
  have t: "t < unat (pt_size s)" "pt_pcs s t = QOut" using assms(2) by (auto split: if_splits)
  have "pt_owner s \<noteq> Some t" using assms(1) t(2) by (auto simp: pt_inv_def pt_lock_ok_def)
  with assms(2) t show ?thesis
    by (auto simp: pt_abs_def pt_owner_abs_def group_make3_def fun_eq_iff split: option.splits)
qed

text \<open>The steps of the lock holder that the stealing barrier makes too.\<close>

lemma pt_sim_moves:
  assumes inv: "pt_inv n s" and ev: "pt_event (PtStep t) s = Some s'"
    and pc: "pt_pcs s t \<in> {QLock, QIn, QLast, QFlip, QUnlockLast} \<union> range QGot \<union> {QWait False (pt_phase s)} \<union>
      {QUnlock True (\<not> pt_phase s)}"
  shows "steal_event (Step t) (pt_abs s) = Some (pt_abs s')"
proof -
  have lock: "pt_lock_ok s" using inv by (simp add: pt_inv_def)
  have own: "pt_holds (pt_pcs s t) \<Longrightarrow> pt_owner s = Some t" by (rule pt_owner_of [OF lock])
  show ?thesis
    using pc ev own
    by (auto simp: pt_abs_def pt_owner_abs_def pt_goto_def pt_leave_def steal_goto_def steal_leave_def
        group_make3_def fun_eq_iff Let_def split: if_splits)
qed

text \<open>The steps around the condition variable that it does not make.\<close>

lemma pt_sim_hidden:
  assumes inv: "pt_inv n s" and ev: "pt_event (PtStep t) s = Some s'"
    and pc: "pt_pcs s t \<in> {QBroadcast} \<union> range QAsleep \<union> range QRelock \<union>
      {QLoop True p |p. True} \<union> {QLoop False (pt_phase s)} \<union> {QWait True (pt_phase s)}"
  shows "pt_abs s' = pt_abs s"
proof (rule pt_abs_same)
  have lock: "pt_lock_ok s" using inv by (simp add: pt_inv_def)
  have own: "pt_holds (pt_pcs s t) \<Longrightarrow> pt_owner s = Some t" by (rule pt_owner_of [OF lock])
  have free: "\<not> pt_holds (pt_pcs s t) \<Longrightarrow> pt_owner s \<noteq> Some t" using lock by (simp add: pt_lock_ok_def)
  show "pt_owner_abs s' = pt_owner_abs s"
    using pc ev own free by (auto simp: pt_owner_abs_def split: if_splits option.splits)
qed (use pc ev in \<open>auto split: if_splits\<close>)

lemma pt_sim:
  assumes inv: "pt_inv n s" and ev: "pt_event a s = Some s'"
  shows "pt_abs s' = pt_abs s \<or> steal_step (pt_abs s) (pt_abs s')"
proof (cases a)
  case (PtEnter t)
  with pt_sim_enter [OF inv] ev show ?thesis by (blast intro: step_of.event)
next
  case (PtStep t)
  have ok: "pt_phase_ok (pt_phase s) (pt_pcs s t)" using inv by (simp add: pt_inv_def)
  have ev': "pt_event (PtStep t) s = Some s'" using ev PtStep by simp
  consider (out) "pt_pcs s t = QOut"
    | (moves) "pt_pcs s t \<in> {QLock, QIn, QLast, QFlip, QUnlockLast} \<union> range QGot \<union>
        {QWait False (pt_phase s)} \<union> {QUnlock True (\<not> pt_phase s)}"
    | (hidden) "pt_pcs s t \<in> {QBroadcast} \<union> range QAsleep \<union> range QRelock \<union>
        {QLoop True p |p. True} \<union> {QLoop False (pt_phase s)} \<union> {QWait True (pt_phase s)}"
    using ok by (cases "pt_pcs s t") auto
  then show ?thesis
  proof cases
    case out
    with ev' show ?thesis by simp
  next
    case moves
    then show ?thesis by (blast intro: step_of.event pt_sim_moves [OF inv ev'])
  next
    case hidden
    then show ?thesis by (intro disjI1 pt_sim_hidden [OF inv ev'])
  qed
qed

lemma pt_event_inv:
  assumes "pt_inv n s" and "pt_event a s = Some s'"
  shows "pt_inv n s'"
proof -
  have "pt_lock_ok s" "\<forall>t. pt_phase_ok (pt_phase s) (pt_pcs s t)" "pt_sleep_ok s" "steal_inv n (pt_abs s)"
    using assms(1) by (simp_all add: pt_inv_def)
  moreover from this have "steal_inv n (pt_abs s')"
    using pt_sim [OF assms] by (auto elim: step_ofE intro: steal_event_inv)
  ultimately show ?thesis
    using pt_lock_step [OF _ assms(2)] pt_phase_step [OF _ _ assms(2)] pt_sleep_step [OF _ _ _ assms(2)]
    by (simp add: pt_inv_def)
qed

lemma pt_start_abs: "pt_abs (pt_start n) = steal_start n"
  by (simp add: pt_abs_def pt_start_def steal_start_def pt_owner_abs_def group_make3_def)

lemma pt_start_inv: "pt_inv n (pt_start n)"
  using steal_start_inv [of n]
  by (simp add: pt_inv_def pt_start_abs) (simp add: pt_start_def pt_lock_ok_def pt_sleep_ok_def)

interpretation pthread: simulation "\<lambda>s. s = pt_start n" pt_step "pt_inv n" steal_step pt_abs for n
proof unfold_locales
  fix s t
  show "s = pt_start n \<Longrightarrow> pt_inv n s" by (simp add: pt_start_inv)
  show "pt_inv n s \<Longrightarrow> pt_step s t \<Longrightarrow> pt_inv n t" by (auto elim: step_ofE intro: pt_event_inv)
  show "pt_inv n s \<Longrightarrow> pt_step s t \<Longrightarrow> pt_abs t = pt_abs s \<or> steal_step (pt_abs s) (pt_abs t)"
    by (auto elim!: step_ofE dest: pt_sim)
qed

section \<open>Property\<close>

text \<open>
  C31: The pthread start-up barrier is a barrier and loses no wake-up. For any number of
  threads every run, spurious wake-ups included, is a run of the abstract barrier; and
  when a thread is blocked although its round is over, the thread that ended the round is
  about to broadcast.
\<close>

theorem pthread_barrier_refines:
  assumes "reaches pt_step (pt_start n) s"
  shows "reaches (barrier_spec_step (unat n)) barrier_spec_start (pt_spec s) \<and>
         (\<forall>t<unat n. \<forall>u<unat n. exits (pt_spec s) t \<le> entries (pt_spec s) u) \<and>
         (\<forall>t p. pt_pcs s t = QAsleep p \<longrightarrow> p = pt_phase s \<or> (\<exists>u. pt_pcs s u = QBroadcast))"
proof -
  have "reaches steal_step (steal_start n) (pt_abs s)"
    using pthread.sim_reach [OF refl assms] by (simp add: pt_start_abs)
  from steal.sim_reach [OF refl this]
  have run: "reaches (barrier_spec_step (unat n)) barrier_spec_start (pt_spec s)"
    by (simp add: steal_start_def)
  moreover have "pt_sleep_ok s" using pthread.reach_inv [OF refl assms] by (simp add: pt_inv_def)
  then have "\<forall>t p. pt_pcs s t = QAsleep p \<longrightarrow> p = pt_phase s \<or> (\<exists>u. pt_pcs s u = QBroadcast)"
    by (auto simp: pt_sleep_ok_def)
  ultimately show ?thesis
    using barrier.reach_inv [OF refl run] by (simp add: barrier_spec_inv_def)
qed

definition pthread_run :: "pt_action list" where
  "pthread_run =
     [PtEnter 0, PtStep 0, PtStep 0, PtStep 0, PtStep 0, PtStep 0, PtEnter 1, PtStep 1, PtStep 1, PtStep 1,
      PtStep 1, PtStep 1, PtStep 1, PtStep 1, PtStep 0, PtStep 0, PtStep 0]"

theorem pthread_barrier_refines_witness:
  "\<exists>s. reaches pt_step (pt_start 2) s \<and> exits (pt_spec s) 0 = 1 \<and> exits (pt_spec s) 1 = 1 \<and>
       reaches (barrier_spec_step 2) barrier_spec_start (pt_spec s)"
proof -
  have "\<exists>s. run_events pt_event pthread_run (pt_start 2) = Some s \<and>
            exits (pt_spec s) 0 = 1 \<and> exits (pt_spec s) 1 = 1"
    by (simp add: pthread_run_def pt_start_def pt_goto_def pt_leave_def barrier_spec_start_def Let_def)
  then obtain s where s: "reaches pt_step (pt_start 2) s"
    and x: "exits (pt_spec s) 0 = 1" "exits (pt_spec s) 1 = 1"
    by (blast intro: run_events_reaches)
  with pthread_barrier_refines [OF s] show ?thesis by auto
qed

end
