(* ===== verification/Pthread_Event.thy ===== *)
theory Pthread_Event
  imports Event
begin

text \<open>
  The waitable event of \<^verbatim>\<open>event.hpp\<close> in its variant with a mutex and a condition variable: any
  number of threads in \<open>wait\<close> and one in \<open>notify\<close>, with one step per call and per access to
  the event. The \<open>if\<close> at the head of \<open>wait\<close> has no braces, so \<open>unlock\<close> and \<open>cnd.wait\<close> can be
  called without the mutex. POSIX leaves undefined what happens then; \<open>pe_undefined\<close>
  records it, and the machine goes on as mutexes do that do not check their owner.
\<close>

section \<open>State and code\<close>

text \<open>The flag of a place of \<open>wait\<close> says whether this thread has called \<open>lck.lock ()\<close>.\<close>

datatype pe_pc =
    EOut | EFirst | ELock | ESecond bool | ECondWait bool | EAsleep | ERelock | EUnlock bool | ECount
  | EInactive | EDone

datatype pe_notify = PNStore | PNTake | PNWake | PNDrop | PNDone

datatype pe_owner = Nobody | Notifier | Waiter tid

record pe_sys =
  pe_event :: event
  pe_owner_of :: pe_owner
  pe_notifier :: pe_notify
  pe_pcs :: "tid \<Rightarrow> pe_pc"
  pe_undefined :: bool

definition pe_start :: "u32 \<Rightarrow> pe_sys" where
  "pe_start n = \<lparr>pe_event = event_reset n event_base, pe_owner_of = Nobody, pe_notifier = PNStore,
     pe_pcs = (\<lambda>_. EOut), pe_undefined = False\<rparr>"

definition pe_goto :: "tid \<Rightarrow> pe_pc \<Rightarrow> pe_sys \<Rightarrow> pe_sys" where
  "pe_goto t pc s = s\<lparr>pe_pcs := (pe_pcs s)(t := pc)\<rparr>"

fun pe_wake :: "pe_pc \<Rightarrow> pe_pc" where
  "pe_wake EAsleep = ERelock" | "pe_wake pc = pc"

text \<open>The mutex is given back, by \<open>unlock\<close> or by \<open>pthread_cond_wait\<close>, held or not.\<close>

definition pe_give_back :: "tid \<Rightarrow> pe_sys \<Rightarrow> pe_sys" where
  "pe_give_back t s = s\<lparr>pe_undefined := pe_undefined s \<or> pe_owner_of s \<noteq> Waiter t, pe_owner_of := Nobody\<rparr>"

fun pe_wait_step :: "tid \<Rightarrow> pe_pc \<Rightarrow> pe_sys \<Rightarrow> pe_sys option" where
  "pe_wait_step t EFirst s =
     Some (pe_goto t (if event_state (pe_event s) = PFUNC_ACTIVE_INCOMPLETE then ELock else ESecond False) s)"
| "pe_wait_step t ELock s =
     (if pe_owner_of s = Nobody then Some (pe_goto t (ESecond True) (s\<lparr>pe_owner_of := Waiter t\<rparr>)) else None)"
| "pe_wait_step t (ESecond locked) s =
     Some (pe_goto t (if event_state (pe_event s) = PFUNC_ACTIVE_INCOMPLETE then ECondWait locked else EUnlock locked) s)"
| "pe_wait_step t (ECondWait locked) s = Some (pe_goto t EAsleep (pe_give_back t s))"
| "pe_wait_step t ERelock s =
     (if pe_owner_of s = Nobody then Some (pe_goto t (EUnlock True) (s\<lparr>pe_owner_of := Waiter t\<rparr>)) else None)"
| "pe_wait_step t (EUnlock locked) s = Some (pe_goto t ECount (pe_give_back t s))"
| "pe_wait_step t ECount s =
     (case wait_count (pe_event s) of (old, e) \<Rightarrow>
        Some (pe_goto t (if 0 = old then EInactive else EDone) (s\<lparr>pe_event := e\<rparr>)))"
| "pe_wait_step t EInactive s =
     Some (pe_goto t EDone (s\<lparr>pe_event := (pe_event s)\<lparr>event_state := PFUNC_INACTIVE\<rparr>\<rparr>))"
| "pe_wait_step t _ s = None"

fun pe_notify_step :: "pe_notify \<Rightarrow> pe_sys \<Rightarrow> pe_sys option" where
  "pe_notify_step PNStore s = Some (s\<lparr>pe_event := waitable_notify (pe_event s), pe_notifier := PNTake\<rparr>)"
| "pe_notify_step PNTake s =
     (if pe_owner_of s = Nobody then Some (s\<lparr>pe_owner_of := Notifier, pe_notifier := PNWake\<rparr>) else None)"
| "pe_notify_step PNWake s = Some (s\<lparr>pe_pcs := (\<lambda>u. pe_wake (pe_pcs s u)), pe_notifier := PNDrop\<rparr>)"
| "pe_notify_step PNDrop s =
     Some (s\<lparr>pe_undefined := pe_undefined s \<or> pe_owner_of s \<noteq> Notifier, pe_owner_of := Nobody, pe_notifier := PNDone\<rparr>)"
| "pe_notify_step PNDone s = None"

text \<open>\<open>PeSpurious\<close> is a wake-up of the condition variable without cause.\<close>

datatype pe_action = PeWait tid | PeStep tid | PeNotify | PeSpurious tid

fun pe_step_event :: "pe_action \<Rightarrow> pe_sys \<Rightarrow> pe_sys option" where
  "pe_step_event (PeWait t) s = (if pe_pcs s t = EOut then Some (pe_goto t EFirst s) else None)"
| "pe_step_event (PeStep t) s = pe_wait_step t (pe_pcs s t) s"
| "pe_step_event PeNotify s = pe_notify_step (pe_notifier s) s"
| "pe_step_event (PeSpurious t) s = (if pe_pcs s t = EAsleep then Some (pe_goto t ERelock s) else None)"

abbreviation pe_step :: "pe_sys \<Rightarrow> pe_sys \<Rightarrow> bool" where
  "pe_step \<equiv> step_of pe_step_event"

section \<open>While the mutex is used as it should be\<close>

fun pe_holds :: "pe_pc \<Rightarrow> bool" where
  "pe_holds (ESecond locked) = locked" | "pe_holds (ECondWait locked) = locked"
| "pe_holds (EUnlock locked) = locked" | "pe_holds _ = False"

definition pe_owner_ok :: "pe_sys \<Rightarrow> bool" where
  "pe_owner_ok s \<longleftrightarrow> (\<forall>t. pe_owner_of s = Waiter t \<longleftrightarrow> pe_holds (pe_pcs s t)) \<and>
     (pe_owner_of s = Notifier \<longleftrightarrow> pe_notifier s = PNWake \<or> pe_notifier s = PNDrop)"

text \<open>
  A thread that has seen the task incomplete under the mutex, and is about to block, holds
  the notifier up; a thread that is blocked has its broadcast still to come.
\<close>

definition pe_wait_ok :: "pe_sys \<Rightarrow> bool" where
  "pe_wait_ok s \<longleftrightarrow>
     (pe_notifier s \<noteq> PNStore \<longrightarrow> event_state (pe_event s) \<noteq> PFUNC_ACTIVE_INCOMPLETE) \<and>
     (\<forall>t. pe_pcs s t = ECondWait True \<longrightarrow> pe_notifier s = PNStore \<or> pe_notifier s = PNTake) \<and>
     (\<forall>t. pe_pcs s t = ESecond False \<longrightarrow> event_state (pe_event s) \<noteq> PFUNC_ACTIVE_INCOMPLETE) \<and>
     (\<forall>t. pe_pcs s t \<noteq> ECondWait False) \<and>
     (\<forall>t. pe_pcs s t = EAsleep \<longrightarrow> pe_notifier s \<noteq> PNDrop \<and> pe_notifier s \<noteq> PNDone)"

definition pe_inv :: "pe_sys \<Rightarrow> bool" where
  "pe_inv s \<longleftrightarrow> (\<not> pe_undefined s \<longrightarrow> pe_owner_ok s \<and> pe_wait_ok s)"

lemma pe_goto_sel [simp]:
  "pe_event (pe_goto t pc s) = pe_event s" "pe_owner_of (pe_goto t pc s) = pe_owner_of s"
  "pe_notifier (pe_goto t pc s) = pe_notifier s" "pe_undefined (pe_goto t pc s) = pe_undefined s"
  "pe_pcs (pe_goto t pc s) = (pe_pcs s)(t := pc)"
  by (simp_all add: pe_goto_def)

lemma pe_give_back_sel [simp]:
  "pe_event (pe_give_back t s) = pe_event s" "pe_owner_of (pe_give_back t s) = Nobody"
  "pe_notifier (pe_give_back t s) = pe_notifier s" "pe_pcs (pe_give_back t s) = pe_pcs s"
  "pe_undefined (pe_give_back t s) \<longleftrightarrow> pe_undefined s \<or> pe_owner_of s \<noteq> Waiter t"
  by (simp_all add: pe_give_back_def)

lemma pe_wake_simps [simp]:
  "pe_holds (pe_wake pc) = pe_holds pc" "pe_wake pc \<noteq> EAsleep"
  "pe_wake pc = ESecond l \<longleftrightarrow> pc = ESecond l" "pe_wake pc = ECondWait l \<longleftrightarrow> pc = ECondWait l"
  by (cases pc; simp)+

lemma pe_alone: "pe_owner_ok s \<Longrightarrow> pe_holds (pe_pcs s t) \<Longrightarrow> pe_holds (pe_pcs s u) \<Longrightarrow> u = t"
  unfolding pe_owner_ok_def by (metis pe_owner.inject)

lemma pe_wait_owner:
  assumes "pe_owner_ok s" and "pe_wait_step t (pe_pcs s t) s = Some s'" and "\<not> pe_undefined s'"
  shows "pe_owner_ok s'"
proof -
  have own: "pe_owner_of s = Waiter u \<longleftrightarrow> pe_holds (pe_pcs s u)"
    "pe_owner_of s = Notifier \<longleftrightarrow> pe_notifier s = PNWake \<or> pe_notifier s = PNDrop" for u
    using assms(1) by (auto simp: pe_owner_ok_def)
  obtain pc where pcs: "pe_pcs s' = (pe_pcs s)(t := pc)" and same: "pe_notifier s' = pe_notifier s"
    and moves: "pe_owner_of s' = Waiter t \<and> pe_owner_of s = Nobody \<and> pe_holds pc \<or>
      pe_owner_of s' = Nobody \<and> pe_owner_of s = Waiter t \<and> \<not> pe_holds pc \<or>
      pe_owner_of s' = pe_owner_of s \<and> pe_holds pc = pe_holds (pe_pcs s t)"
    using assms(2,3) by (cases "pe_pcs s t") (auto split: if_splits prod.splits)
  have "pe_owner_of s' = Waiter u \<longleftrightarrow> pe_holds (pe_pcs s' u)" for u
    unfolding pcs
    by (rule owner_step [of "pe_owner_of s" Waiter pe_holds "pe_pcs s", OF own(1)]) (use own(1) [of t] moves in auto)
  with own(2) moves show ?thesis unfolding pe_owner_ok_def same by auto
qed

lemma pe_notify_owner:
  assumes "pe_owner_ok s" and "pe_notify_step (pe_notifier s) s = Some s'" and "\<not> pe_undefined s'"
  shows "pe_owner_ok s'"
  using assms by (cases "pe_notifier s") (auto simp: pe_owner_ok_def split: if_splits)

lemma incomplete_values:
  "PFUNC_INACTIVE \<noteq> PFUNC_ACTIVE_INCOMPLETE" "PFUNC_ACTIVE_COMPLETE \<noteq> PFUNC_ACTIVE_INCOMPLETE"
  by (simp_all add: pf_defs)

lemma waitable_state: "event_state (waitable_notify e) = PFUNC_ACTIVE_COMPLETE"
  by (simp add: waitable_notify_def pf_defs)

text \<open>One thread moves on.\<close>

lemma pe_wait_ok_goto:
  assumes "pe_wait_ok s" and "pe_pcs s' = (pe_pcs s)(t := pc)" and "pe_notifier s' = pe_notifier s"
    and "event_state (pe_event s') = event_state (pe_event s) \<or> event_state (pe_event s') \<noteq> PFUNC_ACTIVE_INCOMPLETE"
    and "pc = ECondWait True \<Longrightarrow> pe_notifier s = PNStore \<or> pe_notifier s = PNTake"
    and "pc = ESecond False \<Longrightarrow> event_state (pe_event s') \<noteq> PFUNC_ACTIVE_INCOMPLETE"
    and "pc \<noteq> ECondWait False" and "pc = EAsleep \<Longrightarrow> pe_notifier s \<noteq> PNDrop \<and> pe_notifier s \<noteq> PNDone"
  shows "pe_wait_ok s'"
proof -
  have at: "pe_pcs s' u = (if u = t then pc else pe_pcs s u)" for u using assms(2) by simp
  show ?thesis
    using assms(1) assms(3-8) unfolding pe_wait_ok_def at assms(3) by (simp split: if_splits) metis
qed

lemma pe_wait_wait:
  assumes ok: "pe_wait_ok s" and "pe_wait_step t (pe_pcs s t) s = Some s'"
  shows "pe_wait_ok s'"
proof (cases "pe_pcs s t")
  case (ESecond locked)
  have "pe_notifier s = PNStore" "locked" if "event_state (pe_event s) = PFUNC_ACTIVE_INCOMPLETE"
    using ok that ESecond by (cases locked; auto simp: pe_wait_ok_def)+
  with assms ESecond show ?thesis
    by (auto intro!: pe_wait_ok_goto [OF ok, where t = t] split: if_splits)
next
  case (ECondWait locked)
  with ok have "locked" by (cases locked) (auto simp: pe_wait_ok_def)
  with ok ECondWait have "pe_notifier s = PNStore \<or> pe_notifier s = PNTake" by (auto simp: pe_wait_ok_def)
  with assms ECondWait show ?thesis by (auto intro!: pe_wait_ok_goto [OF ok, where t = t])
next
  case ECount
  have "event_state e = event_state (pe_event s)" if "wait_count (pe_event s) = (old, e)" for old e
    using wait_count_state [of "pe_event s"] that by simp
  with ECount assms show ?thesis
    by (auto intro!: pe_wait_ok_goto [OF ok, where t = t] split: prod.splits if_splits)
qed (use assms in \<open>auto intro!: pe_wait_ok_goto [OF ok, where t = t] simp: incomplete_values split: if_splits\<close>)

lemma pe_notify_wait:
  assumes "pe_wait_ok s" and "pe_owner_ok s" and "pe_notify_step (pe_notifier s) s = Some s'"
  shows "pe_wait_ok s'"
proof (cases "pe_notifier s")
  case PNTake
  have "pe_pcs s t \<noteq> ECondWait True" if "pe_owner_of s = Nobody" for t
    using assms(2) that by (auto simp: pe_owner_ok_def dest: spec [of _ t])
  with PNTake assms show ?thesis by (auto simp: pe_wait_ok_def split: if_splits)
next
  case PNStore
  with assms show ?thesis
    by (auto simp: pe_wait_ok_def waitable_state incomplete_values)
qed (use assms in \<open>auto simp: pe_wait_ok_def\<close>)

lemma pe_undefined_stays:
  assumes "pe_step_event a s = Some s'" and "pe_undefined s"
  shows "pe_undefined s'"
proof (cases a)
  case (PeStep t)
  with assms show ?thesis by (cases "pe_pcs s t") (auto split: if_splits prod.splits)
next
  case PeNotify
  with assms show ?thesis by (cases "pe_notifier s") (auto split: if_splits)
qed (use assms in \<open>auto split: if_splits\<close>)

lemma pe_ok_goto:
  assumes "pe_owner_ok s" and "pe_wait_ok s" and "\<not> pe_holds (pe_pcs s t)" and "pc = EFirst \<or> pc = ERelock"
  shows "pe_owner_ok (pe_goto t pc s) \<and> pe_wait_ok (pe_goto t pc s)"
proof
  have "pe_holds (((pe_pcs s)(t := pc)) u) = pe_holds (pe_pcs s u)" for u using assms(3,4) by auto
  with assms(1) show "pe_owner_ok (pe_goto t pc s)" by (simp add: pe_owner_ok_def del: fun_upd_apply)
  show "pe_wait_ok (pe_goto t pc s)"
    by (rule pe_wait_ok_goto [OF assms(2), where t = t and pc = pc]) (use assms(4) in auto)
qed

lemma pe_event_inv:
  assumes "pe_inv s" and "pe_step_event a s = Some s'"
  shows "pe_inv s'"
  unfolding pe_inv_def
proof
  assume ok': "\<not> pe_undefined s'"
  with pe_undefined_stays [OF assms(2)] have "\<not> pe_undefined s" by blast
  with assms(1) have inv: "pe_owner_ok s" "pe_wait_ok s" by (simp_all add: pe_inv_def)
  show "pe_owner_ok s' \<and> pe_wait_ok s'"
  proof (cases a)
    case (PeWait t)
    with inv assms(2) pe_ok_goto [OF inv, of t] show ?thesis by (auto split: if_splits)
  next
    case (PeStep t)
    with assms(2) have "pe_wait_step t (pe_pcs s t) s = Some s'" by simp
    with inv ok' show ?thesis using pe_wait_owner pe_wait_wait by blast
  next
    case PeNotify
    with assms(2) have "pe_notify_step (pe_notifier s) s = Some s'" by simp
    with inv ok' show ?thesis using pe_notify_owner pe_notify_wait by blast
  next
    case (PeSpurious t)
    with inv assms(2) pe_ok_goto [OF inv, of t] show ?thesis by (auto split: if_splits)
  qed
qed

lemma pe_start_inv: "pe_inv (pe_start n)"
  by (simp add: pe_inv_def pe_start_def pe_owner_ok_def pe_wait_ok_def)

interpretation pte: invariant_system "\<lambda>s. \<exists>n. s = pe_start n" pe_step pe_inv
  by unfold_locales (auto elim!: step_ofE simp: pe_start_inv intro: pe_event_inv)

section \<open>Properties\<close>

text \<open>
  C34: the pthread event loses no wake-up as long as its mutex is used as it should be. When
  \<open>notify\<close> has made its broadcast no thread is blocked in \<open>wait\<close> and none can block any
  more; and the mutex is misused only by a thread whose first look found the task complete.
\<close>

theorem pthread_event_nobody_left_asleep:
  assumes "reaches pe_step (pe_start n) s" and "\<not> pe_undefined s"
  shows "(pe_notifier s = PNDrop \<or> pe_notifier s = PNDone \<longrightarrow>
            pe_pcs s t \<noteq> EAsleep \<and> pe_pcs s t \<noteq> ECondWait locked \<and>
            event_state (pe_event s) \<noteq> PFUNC_ACTIVE_INCOMPLETE) \<and>
         (\<forall>a s'. pe_step_event a s = Some s' \<and> pe_undefined s' \<longrightarrow>
            (\<exists>u. a = PeStep u \<and> pe_pcs s u = EUnlock False))"
proof
  have "pe_inv s" by (rule pte.reach_inv [OF _ assms(1)]) blast
  with assms(2) have ok: "pe_owner_ok s" "pe_wait_ok s" by (simp_all add: pe_inv_def)
  then show "pe_notifier s = PNDrop \<or> pe_notifier s = PNDone \<longrightarrow>
      pe_pcs s t \<noteq> EAsleep \<and> pe_pcs s t \<noteq> ECondWait locked \<and> event_state (pe_event s) \<noteq> PFUNC_ACTIVE_INCOMPLETE"
    by (cases locked) (auto simp: pe_wait_ok_def)
  have "\<exists>u. a = PeStep u \<and> pe_pcs s u = EUnlock False"
    if "pe_step_event a s = Some s'" "pe_undefined s'" for a s'
  proof (cases a)
    case (PeStep u)
    have "pe_pcs s u \<noteq> ECondWait False" "pe_holds (pe_pcs s u) \<Longrightarrow> pe_owner_of s = Waiter u"
      using ok by (simp_all add: pe_wait_ok_def pe_owner_ok_def)
    with PeStep that assms(2) show ?thesis
      by (cases "pe_pcs s u") (auto split: if_splits prod.splits)
  next
    case PeNotify
    with that assms(2) ok show ?thesis by (cases "pe_notifier s") (auto simp: pe_owner_ok_def split: if_splits)
  qed (use that assms(2) in \<open>auto split: if_splits\<close>)
  then show "\<forall>a s'. pe_step_event a s = Some s' \<and> pe_undefined s' \<longrightarrow>
      (\<exists>u. a = PeStep u \<and> pe_pcs s u = EUnlock False)" by blast
qed

definition pthread_event_run :: "pe_action list" where
  "pthread_event_run = [PeWait 0, PeStep 0, PeStep 0, PeStep 0, PeStep 0, PeNotify, PeNotify, PeNotify]"

lemmas pe_run_simps = pe_start_def pe_goto_def pe_give_back_def event_reset_def event_base_def waitable_notify_def
  wait_count_def pf_defs

theorem pthread_event_nobody_left_asleep_witness:
  "\<exists>s. reaches pe_step (pe_start 1) s \<and> pe_pcs s 0 = ERelock \<and> pe_notifier s = PNDrop \<and>
       event_state (pe_event s) \<noteq> PFUNC_ACTIVE_INCOMPLETE"
proof -
  have "\<exists>s. run_events pe_step_event pthread_event_run (pe_start 1) = Some s \<and> \<not> pe_undefined s \<and>
      pe_pcs s 0 = ERelock \<and> pe_notifier s = PNDrop"
    by (simp add: pthread_event_run_def pe_run_simps)
  then obtain s where s: "reaches pe_step (pe_start 1) s" "\<not> pe_undefined s" "pe_pcs s 0 = ERelock"
    "pe_notifier s = PNDrop" by (blast intro: run_events_reaches)
  with pthread_event_nobody_left_asleep [OF s(1,2), of 0 True] show ?thesis by blast
qed

lemma pe_asleep_stays:
  assumes "run_events pe_step_event acts s = Some s'" and "pe_pcs s t = EAsleep" and "pe_notifier s = PNDone"
    and "PeSpurious t \<notin> set acts"
  shows "pe_pcs s' t = EAsleep \<and> pe_notifier s' = PNDone"
  using assms
proof (induction acts arbitrary: s)
  case (Cons a acts)
  then obtain s1 where ev: "pe_step_event a s = Some s1" "run_events pe_step_event acts s1 = Some s'"
    by (auto split: option.splits)
  have "pe_pcs s1 t = EAsleep \<and> pe_notifier s1 = PNDone"
  proof (cases a)
    case (PeStep u)
    with ev(1) Cons.prems show ?thesis
      by (cases "u = t"; cases "pe_pcs s u") (auto split: if_splits prod.splits)
  qed (use ev(1) Cons.prems in \<open>auto split: if_splits\<close>)
  with ev(2) Cons show ?case by simp
qed simp

text \<open>
  The missing braces lose a wake-up. Thread 0 has seen the task incomplete and is
  about to block; thread 1 comes after the task is complete, skips \<open>lock\<close> and unlocks the
  mutex of thread 0; the notifier takes it, broadcasts and returns; then thread 0 blocks,
  and without a spurious wake-up it stays blocked whatever anybody does.
\<close>

theorem pthread_event_lost_wakeup:
  "\<exists>s. reaches pe_step (pe_start 2) s \<and> pe_notifier s = PNDone \<and> pe_pcs s 0 = EAsleep \<and> pe_pcs s 1 = ECount \<and>
       (\<forall>acts s'. run_events pe_step_event acts s = Some s' \<and> PeSpurious 0 \<notin> set acts \<longrightarrow> pe_pcs s' 0 = EAsleep)"
proof -
  let ?run = "[PeWait 0, PeStep 0, PeStep 0, PeStep 0, PeNotify, PeWait 1, PeStep 1, PeStep 1, PeStep 1,
    PeNotify, PeNotify, PeNotify, PeStep 0]"
  have "\<exists>s. run_events pe_step_event ?run (pe_start 2) = Some s \<and> pe_notifier s = PNDone \<and>
      pe_pcs s 0 = EAsleep \<and> pe_pcs s 1 = ECount"
    by (simp add: pe_run_simps)
  then obtain s where "reaches pe_step (pe_start 2) s" "pe_notifier s = PNDone" "pe_pcs s 0 = EAsleep" "pe_pcs s 1 = ECount"
    by (blast intro: run_events_reaches)
  with pe_asleep_stays show ?thesis by blast
qed

theorem pthread_event_lost_wakeup_witness:
  "\<exists>s s'. reaches pe_step (pe_start 2) s \<and> run_events pe_step_event [PeStep 1] s = Some s' \<and> pe_pcs s' 0 = EAsleep"
proof -
  obtain s where s: "reaches pe_step (pe_start 2) s" "pe_pcs s 1 = ECount"
    and stays: "\<And>acts s'. run_events pe_step_event acts s = Some s' \<Longrightarrow> PeSpurious 0 \<notin> set acts \<Longrightarrow> pe_pcs s' 0 = EAsleep"
    using pthread_event_lost_wakeup by blast
  have "\<exists>s'. run_events pe_step_event [PeStep 1] s = Some s'" using s(2) by (simp split: prod.split)
  then obtain s' where run: "run_events pe_step_event [PeStep 1] s = Some s'" by blast
  have "PeSpurious 0 \<notin> set [PeStep 1]" by simp
  from stays [OF run this] s(1) run show ?thesis by blast
qed

end
