(* ===== verification/Windows_Cond.thy ===== *)
theory Windows_Cond
  imports Exceptions
begin

text \<open>
  The condition variable of \<^verbatim>\<open>cond.hpp\<close> for Windows, which is built from a semaphore, an
  event that resets itself and a critical section. A machine in which any number of threads
  lock the mutex, wait, signal and broadcast, with one step for each call and each access to
  shared memory. The clients keep the rule that PFunc's barrier and event keep: \<open>wait\<close> and
  \<open>broadcast\<close> are called with the mutex held; \<open>signal\<close> may be called at any time. Waiting
  for a handle succeeds; the release of a semaphore fails when its maximum would be passed.
\<close>

section \<open>The object\<close>

text \<open>\<open>num_waiters\<close> is an \<open>int\<close>; it is shown below to stay between 0 and the number of threads.\<close>

record win_cond =
  waiters_count :: int
  MAX_COUNT :: int
  num_waiters_lock :: "tid option"
  thread_queue :: int
  all_awake_event :: bool
  was_broadcast :: bool

definition win_cond_new :: win_cond where
  "win_cond_new = \<lparr>waiters_count = 0, MAX_COUNT = 1024, num_waiters_lock = None,
     thread_queue = 0, all_awake_event = False, was_broadcast = False\<rparr>"

text \<open>
  The constructor: whether the semaphore and the event could be created, and what
  \<open>GetLastError\<close> says; \<open>loc\<close> is the file and line that the trace gets. The destructor:
  whether the two handles could be closed; the second is not closed when the first could
  not be.
\<close>

definition win_cond_make :: "string \<Rightarrow> bool \<Rightarrow> bool \<Rightarrow> int \<Rightarrow> win_cond result" where
  "win_cond_make loc semaphore_ok event_ok last_error =
     (if \<not> semaphore_ok
      then Inl (PfuncExn (exception_generic_impl (''pfunc::detail::cond::cond::CreateSemaphore at '' @ loc)
             ''Error in initializing the thread_queue'' last_error))
      else if \<not> event_ok
      then Inl (PfuncExn (exception_generic_impl (''pfunc::detail::cond::cond::CreateEvent at '' @ loc)
             ''Error in initializing the event'' last_error))
      else Inr win_cond_new)"

definition win_cond_destroy :: "string \<Rightarrow> bool \<Rightarrow> bool \<Rightarrow> int \<Rightarrow> unit result" where
  "win_cond_destroy loc queue_closed event_closed last_error =
     (if \<not> queue_closed \<or> \<not> event_closed
      then Inl (PfuncExn (exception_generic_impl (''pfunc::detail::cond::~cond::CloseHandle at '' @ loc)
             ''Error in destroying the condition variable'' last_error))
      else Inr ())"

section \<open>Threads and their code\<close>

text \<open>
  \<open>COut\<close> and \<open>CHold\<close> are the client without and with the mutex; \<open>V\<close> marks the places of
  \<open>wait\<close>, \<open>S\<close> those of \<open>signal\<close>, with whether the caller has the mutex, and \<open>B\<close> those of
  \<open>broadcast\<close>. A thread that has thrown stays where it is.
\<close>

datatype cv_pc =
    COut | CHold
  | VEnter | VInc | VLeave | VRelease | VAsleep | VEnter2 | VDec | VRead | VLeave2 bool | VLast | VMutex
  | SEnter bool | SRead bool | SLeave bool bool | SRelease bool | SThrown bool
  | BEnter | BTest | BRelease | BLeave | BWaitAll | BClear | BLeaveNone | BThrown

record cv_sys = win_cond +
  cv_threads :: nat
  cv_mutex :: "tid option"
  cv_pcs :: "tid \<Rightarrow> cv_pc"

definition cv_start :: "nat \<Rightarrow> cv_sys" where
  "cv_start n = win_cond.extend win_cond_new \<lparr>cv_threads = n, cv_mutex = None, cv_pcs = (\<lambda>_. COut)\<rparr>"

definition cv_goto :: "tid \<Rightarrow> cv_pc \<Rightarrow> cv_sys \<Rightarrow> cv_sys" where
  "cv_goto t pc s = s\<lparr>cv_pcs := (cv_pcs s)(t := pc)\<rparr>"

fun client :: "bool \<Rightarrow> cv_pc" where
  "client has_mutex = (if has_mutex then CHold else COut)"

text \<open>\<open>EnterCriticalSection\<close>: blocks while another thread is inside.\<close>

definition enter_section :: "tid \<Rightarrow> cv_pc \<Rightarrow> cv_sys \<Rightarrow> cv_sys option" where
  "enter_section t pc s =
     (if num_waiters_lock s = None then Some (cv_goto t pc (s\<lparr>num_waiters_lock := Some t\<rparr>)) else None)"

definition leave_section :: "tid \<Rightarrow> cv_pc \<Rightarrow> cv_sys \<Rightarrow> cv_sys option" where
  "leave_section t pc s = Some (cv_goto t pc (s\<lparr>num_waiters_lock := None\<rparr>))"

text \<open>Waiting for the mutex.\<close>

definition take_mutex :: "tid \<Rightarrow> cv_sys \<Rightarrow> cv_sys option" where
  "take_mutex t s =
     (if cv_mutex s = None then Some (cv_goto t CHold (s\<lparr>cv_mutex := Some t\<rparr>)) else None)"

text \<open>\<open>ReleaseSemaphore\<close>: fails, and changes nothing, when the maximum would be passed.\<close>

definition release_semaphore :: "int \<Rightarrow> cv_sys \<Rightarrow> cv_sys option" where
  "release_semaphore k s =
     (if thread_queue s + k \<le> MAX_COUNT s then Some (s\<lparr>thread_queue := thread_queue s + k\<rparr>) else None)"

text \<open>
  \<open>wait\<close>. \<open>SignalObjectAndWait\<close> is two steps: Windows does not promise that nothing
  happens between them.
\<close>

fun cv_wait_step :: "tid \<Rightarrow> cv_pc \<Rightarrow> cv_sys \<Rightarrow> cv_sys option" where
  "cv_wait_step t VEnter s = enter_section t VInc s"
| "cv_wait_step t VInc s = Some (cv_goto t VLeave (s\<lparr>waiters_count := waiters_count s + 1\<rparr>))"
| "cv_wait_step t VLeave s = leave_section t VRelease s"
| "cv_wait_step t VRelease s = Some (cv_goto t VAsleep (s\<lparr>cv_mutex := None\<rparr>))"
| "cv_wait_step t VAsleep s =
     (if 0 < thread_queue s then Some (cv_goto t VEnter2 (s\<lparr>thread_queue := thread_queue s - 1\<rparr>)) else None)"
| "cv_wait_step t VEnter2 s = enter_section t VDec s"
| "cv_wait_step t VDec s = Some (cv_goto t VRead (s\<lparr>waiters_count := waiters_count s - 1\<rparr>))"
| "cv_wait_step t VRead s = Some (cv_goto t (VLeave2 (was_broadcast s \<and> waiters_count s = 0)) s)"
| "cv_wait_step t (VLeave2 last_waiter) s = leave_section t (if last_waiter then VLast else VMutex) s"
| "cv_wait_step t VLast s = Some (cv_goto t VMutex (s\<lparr>all_awake_event := True\<rparr>))"
| "cv_wait_step t VMutex s = take_mutex t s"
| "cv_wait_step t _ s = None"

fun cv_signal_step :: "tid \<Rightarrow> cv_pc \<Rightarrow> cv_sys \<Rightarrow> cv_sys option" where
  "cv_signal_step t (SEnter h) s = enter_section t (SRead h) s"
| "cv_signal_step t (SRead h) s = Some (cv_goto t (SLeave h (0 < waiters_count s)) s)"
| "cv_signal_step t (SLeave h waiters_present) s =
     leave_section t (if waiters_present then SRelease h else client h) s"
| "cv_signal_step t (SRelease h) s =
     (case release_semaphore 1 s of Some s' \<Rightarrow> Some (cv_goto t (client h) s')
      | None \<Rightarrow> Some (cv_goto t (SThrown h) s))"
| "cv_signal_step t _ s = None"

text \<open>\<open>BTest\<close> reads the count and sets \<open>was_broadcast\<close>, both inside the section.\<close>

fun cv_broadcast_step :: "tid \<Rightarrow> cv_pc \<Rightarrow> cv_sys \<Rightarrow> cv_sys option" where
  "cv_broadcast_step t BEnter s = enter_section t BTest s"
| "cv_broadcast_step t BTest s =
     (if 0 < waiters_count s then Some (cv_goto t BRelease (s\<lparr>was_broadcast := True\<rparr>))
      else Some (cv_goto t BLeaveNone s))"
| "cv_broadcast_step t BRelease s =
     (case release_semaphore (waiters_count s) s of Some s' \<Rightarrow> Some (cv_goto t BLeave s')
      | None \<Rightarrow> Some (cv_goto t BThrown s))"
| "cv_broadcast_step t BLeave s = leave_section t BWaitAll s"
| "cv_broadcast_step t BWaitAll s =
     (if all_awake_event s then Some (cv_goto t BClear (s\<lparr>all_awake_event := False\<rparr>)) else None)"
| "cv_broadcast_step t BClear s = Some (cv_goto t CHold (s\<lparr>was_broadcast := False\<rparr>))"
| "cv_broadcast_step t BLeaveNone s = leave_section t CHold s"
| "cv_broadcast_step t _ s = None"

datatype cv_action = CvLock tid | CvUnlock tid | CvWait tid | CvSignal tid | CvBroadcast tid | CvStep tid

fun cv_event :: "cv_action \<Rightarrow> cv_sys \<Rightarrow> cv_sys option" where
  "cv_event (CvLock t) s = (if t < cv_threads s \<and> cv_pcs s t = COut then take_mutex t s else None)"
| "cv_event (CvUnlock t) s =
     (if cv_pcs s t = CHold then Some (cv_goto t COut (s\<lparr>cv_mutex := None\<rparr>)) else None)"
| "cv_event (CvWait t) s = (if cv_pcs s t = CHold then Some (cv_goto t VEnter s) else None)"
| "cv_event (CvSignal t) s =
     (if t < cv_threads s \<and> cv_pcs s t \<in> {COut, CHold} then Some (cv_goto t (SEnter (cv_pcs s t = CHold)) s)
      else None)"
| "cv_event (CvBroadcast t) s = (if cv_pcs s t = CHold then Some (cv_goto t BEnter s) else None)"
| "cv_event (CvStep t) s =
     (case cv_wait_step t (cv_pcs s t) s of Some s' \<Rightarrow> Some s'
      | None \<Rightarrow> (case cv_signal_step t (cv_pcs s t) s of Some s' \<Rightarrow> Some s'
                 | None \<Rightarrow> cv_broadcast_step t (cv_pcs s t) s))"

abbreviation cv_step :: "cv_sys \<Rightarrow> cv_sys \<Rightarrow> bool" where
  "cv_step \<equiv> step_of cv_event"

section \<open>The invariant\<close>

fun has_mutex :: "cv_pc \<Rightarrow> bool" where
  "has_mutex COut = False" | "has_mutex VAsleep = False" | "has_mutex VEnter2 = False"
| "has_mutex VDec = False" | "has_mutex VRead = False" | "has_mutex (VLeave2 l) = False"
| "has_mutex VLast = False" | "has_mutex VMutex = False" | "has_mutex (SEnter h) = h"
| "has_mutex (SRead h) = h" | "has_mutex (SLeave h p) = h" | "has_mutex (SRelease h) = h"
| "has_mutex (SThrown h) = h" | "has_mutex _ = True"

fun in_section :: "cv_pc \<Rightarrow> bool" where
  "in_section VInc = True" | "in_section VLeave = True" | "in_section VDec = True"
| "in_section VRead = True" | "in_section (VLeave2 l) = True" | "in_section (SRead h) = True"
| "in_section (SLeave h p) = True" | "in_section BTest = True" | "in_section BRelease = True"
| "in_section BLeave = True" | "in_section BLeaveNone = True" | "in_section BThrown = True"
| "in_section _ = False"

fun counted :: "cv_pc \<Rightarrow> bool" where
  "counted VLeave = True" | "counted VRelease = True" | "counted VAsleep = True"
| "counted VEnter2 = True" | "counted VDec = True" | "counted _ = False"

fun in_broadcast :: "cv_pc \<Rightarrow> bool" where
  "in_broadcast BRelease = True" | "in_broadcast BLeave = True" | "in_broadcast BWaitAll = True"
| "in_broadcast BClear = True" | "in_broadcast BThrown = True" | "in_broadcast _ = False"

definition cv_mutex_ok :: "cv_sys \<Rightarrow> bool" where
  "cv_mutex_ok s \<longleftrightarrow> (\<forall>t. cv_mutex s = Some t \<longleftrightarrow> has_mutex (cv_pcs s t))"

definition cv_section_ok :: "cv_sys \<Rightarrow> bool" where
  "cv_section_ok s \<longleftrightarrow> (\<forall>t. num_waiters_lock s = Some t \<longleftrightarrow> in_section (cv_pcs s t))"

definition cv_count_ok :: "cv_sys \<Rightarrow> bool" where
  "cv_count_ok s \<longleftrightarrow> (\<forall>t. cv_pcs s t \<noteq> COut \<longrightarrow> t < cv_threads s) \<and>
     waiters_count s = int (card {t. counted (cv_pcs s t)})"

definition cv_flag_ok :: "cv_sys \<Rightarrow> bool" where
  "cv_flag_ok s \<longleftrightarrow> (\<forall>t. in_broadcast (cv_pcs s t) \<longrightarrow> was_broadcast s) \<and>
     (was_broadcast s \<longrightarrow> (\<exists>t. in_broadcast (cv_pcs s t)))"

text \<open>Between two broadcasts nobody sets the event, and it is not set.\<close>

definition last_ones :: "cv_sys \<Rightarrow> tid set" where
  "last_ones s = {u. cv_pcs s u = VLeave2 True \<or> cv_pcs s u = VLast}"

definition cv_idle :: "cv_sys \<Rightarrow> bool" where
  "cv_idle s \<longleftrightarrow> last_ones s = {} \<and> \<not> all_awake_event s"

text \<open>
  While a thread waits in \<open>broadcast\<close> there are waiters left to count down, or the last of
  them is about to see that it is the last, or to set the event, or the event is set.
\<close>

definition cv_waiting :: "cv_sys \<Rightarrow> bool" where
  "cv_waiting s \<longleftrightarrow>
     (if waiters_count s \<noteq> 0 then cv_idle s
      else (\<exists>u. cv_pcs s u = VRead) \<and> cv_idle s \<or>
           (\<forall>u. cv_pcs s u \<noteq> VRead) \<and>
             ((\<exists>u. last_ones s = {u}) \<and> \<not> all_awake_event s \<or> last_ones s = {} \<and> all_awake_event s))"

definition cv_round_ok :: "cv_sys \<Rightarrow> bool" where
  "cv_round_ok s \<longleftrightarrow>
     ((\<exists>t. cv_pcs s t = BWaitAll) \<longrightarrow> cv_waiting s) \<and>
     ((\<forall>t. cv_pcs s t \<noteq> BWaitAll) \<longrightarrow> cv_idle s) \<and>
     (\<forall>t. cv_pcs s t = BRelease \<or> cv_pcs s t = BLeave \<longrightarrow> waiters_count s \<noteq> 0) \<and>
     (\<forall>t. cv_pcs s t = BClear \<or> cv_pcs s t = BLeaveNone \<longrightarrow> waiters_count s = 0) \<and>
     (\<forall>t u. cv_pcs s t = BClear \<longrightarrow> cv_pcs s u \<noteq> VRead)"

text \<open>A broadcast has released the semaphore for everybody who sleeps.\<close>

definition cv_permits_ok :: "cv_sys \<Rightarrow> bool" where
  "cv_permits_ok s \<longleftrightarrow> 0 \<le> thread_queue s \<and>
     (\<forall>t. cv_pcs s t = BLeave \<or> cv_pcs s t = BWaitAll \<longrightarrow>
          int (card {u. cv_pcs s u = VAsleep}) \<le> thread_queue s)"

definition cv_inv :: "nat \<Rightarrow> cv_sys \<Rightarrow> bool" where
  "cv_inv n s \<longleftrightarrow> cv_threads s = n \<and> MAX_COUNT s = 1024 \<and> cv_mutex_ok s \<and> cv_section_ok s \<and> cv_count_ok s \<and>
     cv_flag_ok s \<and> cv_round_ok s \<and> cv_permits_ok s"

lemma cv_goto_sel [simp]:
  "waiters_count (cv_goto t pc s) = waiters_count s" "MAX_COUNT (cv_goto t pc s) = MAX_COUNT s"
  "num_waiters_lock (cv_goto t pc s) = num_waiters_lock s" "thread_queue (cv_goto t pc s) = thread_queue s"
  "all_awake_event (cv_goto t pc s) = all_awake_event s" "was_broadcast (cv_goto t pc s) = was_broadcast s"
  "cv_threads (cv_goto t pc s) = cv_threads s" "cv_mutex (cv_goto t pc s) = cv_mutex s"
  "cv_pcs (cv_goto t pc s) = (cv_pcs s)(t := pc)"
  by (simp_all add: cv_goto_def)

lemmas cv_code = enter_section_def leave_section_def take_mutex_def release_semaphore_def

text \<open>The thread of an action; an action changes nobody else's place.\<close>

fun cv_who :: "cv_action \<Rightarrow> tid" where
  "cv_who (CvLock t) = t" | "cv_who (CvUnlock t) = t" | "cv_who (CvWait t) = t"
| "cv_who (CvSignal t) = t" | "cv_who (CvBroadcast t) = t" | "cv_who (CvStep t) = t"

text \<open>
  What an action does, by the place of its thread: the new place, and the fields it writes.
  The proofs about the machine go through this table.
\<close>

datatype cv_effect = Same | TakeMutex | DropMutex | TakeSection | DropSection | IncWaiters | DecWaiters
  | TakePermit | Permit int | SetAwake | ResetAwake | Flag bool

fun cv_apply :: "tid \<Rightarrow> cv_effect \<Rightarrow> cv_sys \<Rightarrow> cv_sys" where
  "cv_apply t Same s = s"
| "cv_apply t TakeMutex s = s\<lparr>cv_mutex := Some t\<rparr>"
| "cv_apply t DropMutex s = s\<lparr>cv_mutex := None\<rparr>"
| "cv_apply t TakeSection s = s\<lparr>num_waiters_lock := Some t\<rparr>"
| "cv_apply t DropSection s = s\<lparr>num_waiters_lock := None\<rparr>"
| "cv_apply t IncWaiters s = s\<lparr>waiters_count := waiters_count s + 1\<rparr>"
| "cv_apply t DecWaiters s = s\<lparr>waiters_count := waiters_count s - 1\<rparr>"
| "cv_apply t TakePermit s = s\<lparr>thread_queue := thread_queue s - 1\<rparr>"
| "cv_apply t (Permit k) s = s\<lparr>thread_queue := thread_queue s + k\<rparr>"
| "cv_apply t SetAwake s = s\<lparr>all_awake_event := True\<rparr>"
| "cv_apply t ResetAwake s = s\<lparr>all_awake_event := False\<rparr>"
| "cv_apply t (Flag b) s = s\<lparr>was_broadcast := b\<rparr>"

inductive cv_move :: "cv_sys \<Rightarrow> cv_pc \<Rightarrow> cv_effect \<Rightarrow> cv_pc \<Rightarrow> bool" for s where
  lock: "cv_mutex s = None \<Longrightarrow> cv_move s COut TakeMutex CHold"
| unlock: "cv_move s CHold DropMutex COut"
| wait: "cv_move s CHold Same VEnter"
| signal: "pc = COut \<or> pc = CHold \<Longrightarrow> cv_move s pc Same (SEnter (pc = CHold))"
| broadcast: "cv_move s CHold Same BEnter"
| v_enter: "num_waiters_lock s = None \<Longrightarrow> cv_move s VEnter TakeSection VInc"
| v_inc: "cv_move s VInc IncWaiters VLeave"
| v_leave: "cv_move s VLeave DropSection VRelease"
| v_release: "cv_move s VRelease DropMutex VAsleep"
| v_wake: "0 < thread_queue s \<Longrightarrow> cv_move s VAsleep TakePermit VEnter2"
| v_enter2: "num_waiters_lock s = None \<Longrightarrow> cv_move s VEnter2 TakeSection VDec"
| v_dec: "cv_move s VDec DecWaiters VRead"
| v_read: "cv_move s VRead Same (VLeave2 (was_broadcast s \<and> waiters_count s = 0))"
| v_leave2: "cv_move s (VLeave2 l) DropSection (if l then VLast else VMutex)"
| v_last: "cv_move s VLast SetAwake VMutex"
| v_mutex: "cv_mutex s = None \<Longrightarrow> cv_move s VMutex TakeMutex CHold"
| s_enter: "num_waiters_lock s = None \<Longrightarrow> cv_move s (SEnter h) TakeSection (SRead h)"
| s_read: "cv_move s (SRead h) Same (SLeave h (0 < waiters_count s))"
| s_leave: "cv_move s (SLeave h p) DropSection (if p then SRelease h else client h)"
| s_release: "thread_queue s + 1 \<le> MAX_COUNT s \<Longrightarrow> cv_move s (SRelease h) (Permit 1) (client h)"
| s_throw: "MAX_COUNT s < thread_queue s + 1 \<Longrightarrow> cv_move s (SRelease h) Same (SThrown h)"
| b_enter: "num_waiters_lock s = None \<Longrightarrow> cv_move s BEnter TakeSection BTest"
| b_some: "0 < waiters_count s \<Longrightarrow> cv_move s BTest (Flag True) BRelease"
| b_none: "\<not> 0 < waiters_count s \<Longrightarrow> cv_move s BTest Same BLeaveNone"
| b_release: "thread_queue s + waiters_count s \<le> MAX_COUNT s \<Longrightarrow>
    cv_move s BRelease (Permit (waiters_count s)) BLeave"
| b_throw: "MAX_COUNT s < thread_queue s + waiters_count s \<Longrightarrow> cv_move s BRelease Same BThrown"
| b_leave: "cv_move s BLeave DropSection BWaitAll"
| b_woken: "all_awake_event s \<Longrightarrow> cv_move s BWaitAll ResetAwake BClear"
| b_clear: "cv_move s BClear (Flag False) CHold"
| b_leave_none: "cv_move s BLeaveNone DropSection CHold"

lemma cv_wait_move:
  "cv_wait_step t pc s = Some s' \<Longrightarrow> \<exists>e pc'. cv_move s pc e pc' \<and> s' = cv_goto t pc' (cv_apply t e s)"
  by (cases pc; fastforce simp: cv_code intro: cv_move.intros split: if_splits)

lemma cv_signal_move:
  "cv_signal_step t pc s = Some s' \<Longrightarrow> \<exists>e pc'. cv_move s pc e pc' \<and> s' = cv_goto t pc' (cv_apply t e s)"
  by (cases pc; fastforce simp: cv_code simp del: client.simps intro: cv_move.intros split: if_splits)

lemma cv_broadcast_move:
  "cv_broadcast_step t pc s = Some s' \<Longrightarrow> \<exists>e pc'. cv_move s pc e pc' \<and> s' = cv_goto t pc' (cv_apply t e s)"
  by (cases pc; fastforce simp: cv_code intro: cv_move.intros split: if_splits)

lemma move_to_signal: "cv_move s pc e pc' \<Longrightarrow> pc' = SEnter h \<Longrightarrow> pc = COut \<or> pc = CHold"
  by (cases rule: cv_move.cases) (auto split: if_splits)

lemma cv_event_move:
  assumes "cv_event a s = Some s'"
  shows "\<exists>t e pc'. cv_move s (cv_pcs s t) e pc' \<and> s' = cv_goto t pc' (cv_apply t e s) \<and>
           (cv_pcs s t \<noteq> COut \<or> t < cv_threads s) \<and> ((\<exists>h. pc' = SEnter h) \<longrightarrow> a = CvSignal t)"
proof (cases a)
  case (CvLock t)
  with assms have "cv_move s (cv_pcs s t) TakeMutex (CHold)" "s' = cv_goto t (CHold) (cv_apply t TakeMutex s)"
    "cv_pcs s t \<noteq> COut \<or> t < cv_threads s"
    by (auto simp: cv_code intro: cv_move.intros split: if_splits)
  then show ?thesis by blast
next
  case (CvUnlock t)
  with assms have "cv_move s (cv_pcs s t) DropMutex (COut)" "s' = cv_goto t (COut) (cv_apply t DropMutex s)"
    "cv_pcs s t \<noteq> COut \<or> t < cv_threads s"
    by (auto simp: cv_code intro: cv_move.intros split: if_splits)
  then show ?thesis by blast
next
  case (CvWait t)
  with assms have "cv_move s (cv_pcs s t) Same (VEnter)" "s' = cv_goto t (VEnter) (cv_apply t Same s)"
    "cv_pcs s t \<noteq> COut \<or> t < cv_threads s"
    by (auto simp: cv_code intro: cv_move.intros split: if_splits)
  then show ?thesis by blast
next
  case (CvSignal t)
  with assms have "cv_move s (cv_pcs s t) Same (SEnter (cv_pcs s t = CHold))" "s' = cv_goto t (SEnter (cv_pcs s t = CHold)) (cv_apply t Same s)"
    "cv_pcs s t \<noteq> COut \<or> t < cv_threads s"
    by (auto simp: cv_code intro: cv_move.intros split: if_splits)
  then show ?thesis using CvSignal by blast
next
  case (CvBroadcast t)
  with assms have "cv_move s (cv_pcs s t) Same (BEnter)" "s' = cv_goto t (BEnter) (cv_apply t Same s)"
    "cv_pcs s t \<noteq> COut \<or> t < cv_threads s"
    by (auto simp: cv_code intro: cv_move.intros split: if_splits)
  then show ?thesis by blast
next
  case (CvStep t)
  with assms have "cv_wait_step t (cv_pcs s t) s = Some s' \<or> cv_signal_step t (cv_pcs s t) s = Some s' \<or>
    cv_broadcast_step t (cv_pcs s t) s = Some s'" by (auto split: option.splits)
  moreover from this have out: "cv_pcs s t \<noteq> COut" "cv_pcs s t \<noteq> CHold" by auto
  ultimately obtain e pc' where m: "cv_move s (cv_pcs s t) e pc'" "s' = cv_goto t pc' (cv_apply t e s)"
    using cv_wait_move cv_signal_move cv_broadcast_move by blast
  moreover from this out have "\<not> (\<exists>h. pc' = SEnter h)" using move_to_signal by blast
  ultimately show ?thesis using out by blast
qed

lemma cv_apply_sel [simp]:
  "cv_pcs (cv_apply t e s) = cv_pcs s" "cv_threads (cv_apply t e s) = cv_threads s"
  "MAX_COUNT (cv_apply t e s) = MAX_COUNT s"
  "cv_mutex (cv_apply t e s) = (if e = TakeMutex then Some t else if e = DropMutex then None else cv_mutex s)"
  "num_waiters_lock (cv_apply t e s) =
     (if e = TakeSection then Some t else if e = DropSection then None else num_waiters_lock s)"
  "waiters_count (cv_apply t e s) =
     waiters_count s + (if e = IncWaiters then 1 else if e = DecWaiters then - 1 else 0)"
  "thread_queue (cv_apply t e s) =
     thread_queue s + (case e of TakePermit \<Rightarrow> - 1 | Permit k \<Rightarrow> k | _ \<Rightarrow> 0)"
  "all_awake_event (cv_apply t e s) = (if e = SetAwake then True else if e = ResetAwake then False else all_awake_event s)"
  "was_broadcast (cv_apply t e s) = (case e of Flag b \<Rightarrow> b | _ \<Rightarrow> was_broadcast s)"
  by (cases e; simp)+

text \<open>What the table says about each class of places.\<close>

lemma move_mutex:
  "cv_move s pc e pc' \<Longrightarrow>
     (if e = TakeMutex then cv_mutex s = None \<and> has_mutex pc'
      else if e = DropMutex then has_mutex pc \<and> \<not> has_mutex pc' else has_mutex pc' = has_mutex pc)"
  by (cases rule: cv_move.cases) (auto split: if_splits)

lemma move_section:
  "cv_move s pc e pc' \<Longrightarrow>
     (if e = TakeSection then num_waiters_lock s = None \<and> in_section pc'
      else if e = DropSection then in_section pc \<and> \<not> in_section pc' else in_section pc' = in_section pc)"
  by (cases rule: cv_move.cases) (auto split: if_splits)

lemma move_counted:
  "cv_move s pc e pc' \<Longrightarrow>
     (if e = IncWaiters then \<not> counted pc \<and> counted pc'
      else if e = DecWaiters then counted pc \<and> \<not> counted pc' else counted pc' = counted pc)"
  by (cases rule: cv_move.cases) (auto split: if_splits)

lemma move_in_broadcast:
  "cv_move s pc e pc' \<Longrightarrow>
     (case e of Flag b \<Rightarrow> in_broadcast pc' = b | _ \<Rightarrow> in_broadcast pc' = in_broadcast pc) \<and>
     (in_broadcast pc \<longrightarrow> has_mutex pc) \<and> (e = Flag False \<longrightarrow> in_broadcast pc)"
  by (cases rule: cv_move.cases) (auto split: if_splits)

section \<open>The invariant is kept\<close>

lemma cv_alone: "cv_mutex_ok s \<Longrightarrow> has_mutex (cv_pcs s t) \<Longrightarrow> has_mutex (cv_pcs s u) \<Longrightarrow> u = t"
  by (metis cv_mutex_ok_def option.inject)

lemma cv_alone_inside: "cv_section_ok s \<Longrightarrow> in_section (cv_pcs s t) \<Longrightarrow> in_section (cv_pcs s u) \<Longrightarrow> u = t"
  by (metis cv_section_ok_def option.inject)

lemma cv_mutex_step:
  assumes "cv_mutex_ok s" and "cv_move s (cv_pcs s t) e pc'"
  shows "cv_mutex_ok (cv_goto t pc' (cv_apply t e s))"
  unfolding cv_mutex_ok_def
proof
  fix u
  show "cv_mutex (cv_goto t pc' (cv_apply t e s)) = Some u \<longleftrightarrow>
      has_mutex (cv_pcs (cv_goto t pc' (cv_apply t e s)) u)"
    unfolding cv_goto_sel cv_apply_sel
    by (rule owner_step [of "cv_mutex s" Some])
      (use assms(1) move_mutex [OF assms(2)] in \<open>auto simp: cv_mutex_ok_def split: if_splits\<close>)
qed

lemma cv_section_step:
  assumes "cv_section_ok s" and "cv_move s (cv_pcs s t) e pc'"
  shows "cv_section_ok (cv_goto t pc' (cv_apply t e s))"
  unfolding cv_section_ok_def
proof
  fix u
  show "num_waiters_lock (cv_goto t pc' (cv_apply t e s)) = Some u \<longleftrightarrow>
      in_section (cv_pcs (cv_goto t pc' (cv_apply t e s)) u)"
    unfolding cv_goto_sel cv_apply_sel
    by (rule owner_step [of "num_waiters_lock s" Some])
      (use assms(1) move_section [OF assms(2)] in \<open>auto simp: cv_section_ok_def split: if_splits\<close>)
qed

lemma card_split_at:
  "finite {u. P (f u)} \<Longrightarrow> int (card {u. P (f u)}) = int (card {u. P (f u) \<and> u \<noteq> t}) + (if P (f t) then 1 else 0)"
  for P :: "'a \<Rightarrow> bool" and f :: "nat \<Rightarrow> 'a"
proof -
  assume fin: "finite {u. P (f u)}"
  have "{u. P (f u)} = (if P (f t) then insert t {u. P (f u) \<and> u \<noteq> t} else {u. P (f u) \<and> u \<noteq> t})" by auto
  moreover have "card (insert t {u. P (f u) \<and> u \<noteq> t}) = Suc (card {u. P (f u) \<and> u \<noteq> t})"
    using fin by (intro card_insert_disjoint) auto
  ultimately show ?thesis by (cases "P (f t)") simp_all
qed

lemma card_class:
  fixes P :: "'a \<Rightarrow> bool" and f :: "nat \<Rightarrow> 'a"
  assumes "finite {u. P (f u)}"
  shows "int (card {u. P ((f(t := pc)) u)}) =
         int (card {u. P (f u)}) + (if P pc then 1 else 0) - (if P (f t) then 1 else 0)"
proof -
  have "{u. P ((f(t := pc)) u)} \<subseteq> insert t {u. P (f u)}" by auto
  then have fin: "finite {u. P ((f(t := pc)) u)}" using assms by (meson finite_insert finite_subset)
  have "{u. P ((f(t := pc)) u) \<and> u \<noteq> t} = {u. P (f u) \<and> u \<noteq> t}" by auto
  with card_split_at [of P "f(t := pc)" t, OF fin] card_split_at [of P f t, OF assms] show ?thesis by simp
qed

lemma cv_finite:
  assumes "cv_count_ok s" and "\<not> P COut"
  shows "finite {u. P (cv_pcs s u)}"
proof (rule finite_subset)
  show "{u. P (cv_pcs s u)} \<subseteq> {..<cv_threads s}" using assms by (force simp: cv_count_ok_def)
qed simp

lemma cv_count_step:
  assumes "cv_count_ok s" and "cv_move s (cv_pcs s t) e pc'" and "cv_pcs s t \<noteq> COut \<or> t < cv_threads s"
  shows "cv_count_ok (cv_goto t pc' (cv_apply t e s))"
proof -
  have "finite {u. counted (cv_pcs s u)}" using assms(1) by (rule cv_finite) simp
  note card = card_class [of counted "cv_pcs s", OF this, of t pc']
  have "waiters_count (cv_apply t e s) = int (card {u. counted (((cv_pcs s)(t := pc')) u)})"
    unfolding card using assms(1) move_counted [OF assms(2)] by (auto simp: cv_count_ok_def split: if_splits)
  with assms(1,3) show ?thesis by (auto simp: cv_count_ok_def)
qed

lemma in_broadcast_mutex: "in_broadcast pc \<Longrightarrow> has_mutex pc"
  by (cases pc) auto

lemma cv_flag_step:
  assumes "cv_flag_ok s" and "cv_mutex_ok s" and "cv_move s (cv_pcs s t) e pc'"
  shows "cv_flag_ok (cv_goto t pc' (cv_apply t e s))"
proof -
  have one: "u = t" if "in_broadcast (cv_pcs s t)" "in_broadcast (cv_pcs s u)" for u
    using that cv_alone [OF assms(2)] in_broadcast_mutex by blast
  show ?thesis
    using assms(1) move_in_broadcast [OF assms(3)] one
    by (cases e) (auto simp: cv_flag_ok_def split: if_splits)
qed

lemma cv_permits_step:
  assumes "cv_permits_ok s" and "cv_mutex_ok s" and "cv_count_ok s" and move: "cv_move s (cv_pcs s t) e pc'"
  shows "cv_permits_ok (cv_goto t pc' (cv_apply t e s))"
proof -
  let ?asleep = "\<lambda>f. {u. f u = VAsleep}"
  have fin: "finite {u. counted (cv_pcs s u)}" using assms(3) by (rule cv_finite) simp
  have sub: "?asleep (cv_pcs s) \<subseteq> {u. counted (cv_pcs s u)}" by auto
  have le: "int (card (?asleep (cv_pcs s))) \<le> waiters_count s"
    using card_mono [OF fin sub] assms(3) by (simp add: cv_count_ok_def)
  have count: "int (card (?asleep ((cv_pcs s)(t := pc)))) =
      int (card (?asleep (cv_pcs s))) + (if pc = VAsleep then 1 else 0) - (if cv_pcs s t = VAsleep then 1 else 0)" for pc
    using card_class [of "\<lambda>pc. pc = VAsleep" "cv_pcs s" t pc] finite_subset [OF sub fin] by simp
  have one: "u = t" if "has_mutex (cv_pcs s t)" "cv_pcs s u = BLeave \<or> cv_pcs s u = BWaitAll" for u
    using that cv_alone [OF assms(2), of t u] by auto
  have old: "0 \<le> thread_queue s" "\<And>u. cv_pcs s u = BLeave \<or> cv_pcs s u = BWaitAll \<Longrightarrow>
      int (card (?asleep (cv_pcs s))) \<le> thread_queue s"
    using assms(1) by (auto simp: cv_permits_ok_def)
  have "0 \<le> thread_queue (cv_apply t e s)"
    using move old(1) le by (cases rule: cv_move.cases) auto
  moreover have "int (card (?asleep ((cv_pcs s)(t := pc')))) \<le> thread_queue (cv_apply t e s)"
    if u: "((cv_pcs s)(t := pc')) u = BLeave \<or> ((cv_pcs s)(t := pc')) u = BWaitAll" for u
  proof (cases "u = t")
    case True
    with u have "pc' = BLeave \<or> pc' = BWaitAll" by simp
    with move show ?thesis
      unfolding count using old le by (cases rule: cv_move.cases) (auto split: if_splits dest: sym)
  next
    case False
    with u have "cv_pcs s u = BLeave \<or> cv_pcs s u = BWaitAll" by simp
    with old(2) [OF this] one [of u] False have "int (card (?asleep (cv_pcs s))) \<le> thread_queue s"
      "\<not> has_mutex (cv_pcs s t)" by auto
    with move show ?thesis
      unfolding count by (cases rule: cv_move.cases) (auto split: if_splits dest: sym)
  qed
  ultimately show ?thesis unfolding cv_permits_ok_def cv_goto_sel cv_apply_sel(1) by blast
qed

lemma last_ones_goto:
  "last_ones (cv_goto t pc s) =
     (if pc = VLeave2 True \<or> pc = VLast then insert t (last_ones s) else last_ones s - {t})"
  by (auto simp: last_ones_def)

lemma last_ones_update [simp]:
  "last_ones (s\<lparr>waiters_count := k\<rparr>) = last_ones s" "last_ones (s\<lparr>all_awake_event := b\<rparr>) = last_ones s"
  "last_ones (s\<lparr>was_broadcast := b\<rparr>) = last_ones s" "last_ones (s\<lparr>thread_queue := k\<rparr>) = last_ones s"
  "last_ones (s\<lparr>num_waiters_lock := m\<rparr>) = last_ones s" "last_ones (s\<lparr>cv_mutex := m\<rparr>) = last_ones s"
  by (simp_all add: last_ones_def)

text \<open>A move between places that the round does not look at.\<close>

fun quiet :: "cv_pc \<Rightarrow> bool" where
  "quiet VRead = False" | "quiet (VLeave2 l) = (\<not> l)" | "quiet VLast = False"
| "quiet BRelease = False" | "quiet BLeave = False" | "quiet BWaitAll = False" | "quiet BClear = False"
| "quiet BLeaveNone = False" | "quiet _ = True"

lemma cv_round_same:
  assumes "cv_round_ok s" and "waiters_count s' = waiters_count s" and "all_awake_event s' = all_awake_event s"
    and "last_ones s' = last_ones s"
    and same: "\<And>u pc. pc \<in> {VRead, BRelease, BLeave, BWaitAll, BClear, BLeaveNone} \<Longrightarrow>
      cv_pcs s' u = pc \<longleftrightarrow> cv_pcs s u = pc"
  shows "cv_round_ok s'"
proof -
  have "cv_idle s' = cv_idle s" using assms(3,4) by (simp add: cv_idle_def)
  with assms(2-4) have "cv_waiting s' = cv_waiting s" by (simp add: cv_waiting_def same)
  with \<open>cv_idle s' = cv_idle s\<close> assms(1,2) show ?thesis by (simp add: cv_round_ok_def same)
qed

lemma cv_round_quiet:
  assumes "cv_round_ok s" and "quiet (cv_pcs s t)" and "quiet pc'"
    and "waiters_count s' = waiters_count s" and "all_awake_event s' = all_awake_event s"
    and pcs: "cv_pcs s' = (cv_pcs s)(t := pc')"
  shows "cv_round_ok s'"
proof (rule cv_round_same [OF assms(1,4,5)])
  have same: "cv_pcs s' u = pc \<longleftrightarrow> cv_pcs s u = pc" if "\<not> quiet pc" for u pc
    using assms(2,3) pcs that by (cases "u = t") auto
  then show "last_ones s' = last_ones s" by (simp add: last_ones_def)
  show "cv_pcs s' u = pc \<longleftrightarrow> cv_pcs s u = pc"
    if "pc \<in> {VRead, BRelease, BLeave, BWaitAll, BClear, BLeaveNone}" for u pc
    by (rule same) (use that in auto)
qed

text \<open>The other moves, one by one.\<close>

lemma cv_round_inc:
  assumes "cv_round_ok s" and "cv_mutex_ok s" and "cv_count_ok s" and t: "cv_pcs s t = VInc"
  shows "cv_round_ok (cv_goto t VLeave (cv_apply t IncWaiters s))"
proof -
  have none: "\<not> in_broadcast (cv_pcs s u) \<and> cv_pcs s u \<noteq> BLeaveNone" for u
    using cv_alone [OF assms(2), of t u] in_broadcast_mutex [of "cv_pcs s u"] t by auto
  have "cv_pcs s u \<noteq> BRelease \<and> cv_pcs s u \<noteq> BLeave \<and> cv_pcs s u \<noteq> BWaitAll \<and> cv_pcs s u \<noteq> BClear \<and>
      cv_pcs s u \<noteq> BLeaveNone" for u
    using none [of u] by auto
  with assms(1) show ?thesis
    by (auto simp: cv_round_ok_def cv_idle_def last_ones_goto)
qed

lemma cv_round_dec:
  assumes "cv_round_ok s" and "cv_section_ok s" and "cv_count_ok s" and t: "cv_pcs s t = VDec"
  shows "cv_round_ok (cv_goto t VRead (cv_apply t DecWaiters s))"
proof -
  have fin: "finite {u. counted (cv_pcs s u)}" using assms(3) by (rule cv_finite) simp
  have "t \<in> {u. counted (cv_pcs s u)}" using t by simp
  then have "{u. counted (cv_pcs s u)} \<noteq> {}" by blast
  with fin assms(3) have pos: "0 < waiters_count s" by (simp add: cv_count_ok_def card_gt_0_iff)
  have "\<not> in_section (cv_pcs s u)" if "u \<noteq> t" for u
    using cv_alone_inside [OF assms(2), of t u] that t by auto
  then have none: "cv_pcs s u \<noteq> BRelease \<and> cv_pcs s u \<noteq> BLeave \<and> cv_pcs s u \<noteq> BLeaveNone" for u
    using t by (cases "u = t") fastforce+
  have "cv_pcs s u \<noteq> BClear" for u using assms(1) pos by (auto simp: cv_round_ok_def)
  with assms(1) none pos t show ?thesis
    by (auto simp: cv_round_ok_def cv_waiting_def cv_idle_def last_ones_goto split: if_splits)
qed

lemma cv_round_read:
  assumes "cv_round_ok s" and "cv_section_ok s" and "cv_flag_ok s" and t: "cv_pcs s t = VRead"
  shows "cv_round_ok (cv_goto t (VLeave2 (was_broadcast s \<and> waiters_count s = 0)) s)"
proof -
  have inside: "\<not> in_section (cv_pcs s u)" if "u \<noteq> t" for u
    using cv_alone_inside [OF assms(2), of t u] that t by auto
  then have one: "cv_pcs s u = VRead \<longleftrightarrow> u = t" for u using t by (cases "u = t") fastforce+
  have clear: "cv_pcs s u \<noteq> BClear" for u using assms(1) t by (auto simp: cv_round_ok_def)
  have b: "\<exists>u. cv_pcs s u = BWaitAll" if flag: "was_broadcast s"
  proof -
    obtain u where u: "in_broadcast (cv_pcs s u)" using assms(3) flag by (auto simp: cv_flag_ok_def)
    moreover have "u \<noteq> t" using u t by auto
    ultimately show ?thesis using inside [of u] clear [of u] by (cases "cv_pcs s u") auto
  qed
  show ?thesis
  proof (cases "was_broadcast s \<and> waiters_count s = 0")
    case True
    with b assms(1) one have idle: "cv_idle s" by (auto simp: cv_round_ok_def cv_waiting_def)
    obtain u where "cv_pcs s u = BWaitAll" "u \<noteq> t" using b True t by fastforce
    with True idle assms(1) one t show ?thesis
      by (auto simp: cv_round_ok_def cv_waiting_def cv_idle_def last_ones_goto)
  next
    case False
    have "waiters_count s \<noteq> 0" if "cv_pcs s u = BWaitAll" for u
    proof -
      have "in_broadcast (cv_pcs s u)" using that by simp
      then show ?thesis using False assms(3) by (auto simp: cv_flag_ok_def)
    qed
    with False assms(1) t show ?thesis
      by (auto simp: cv_round_ok_def cv_waiting_def cv_idle_def last_ones_goto)
  qed
qed

lemma cv_round_last:
  assumes "cv_round_ok s" and t: "cv_pcs s t = VLast"
  shows "cv_round_ok (cv_goto t VMutex (cv_apply t SetAwake s))"
proof -
  have last: "t \<in> last_ones s" using t by (simp add: last_ones_def)
  then have "\<not> cv_idle s" by (auto simp: cv_idle_def)
  with assms(1) obtain b where b: "cv_pcs s b = BWaitAll" by (auto simp: cv_round_ok_def)
  with assms(1) have "cv_waiting s" by (auto simp: cv_round_ok_def)
  with \<open>\<not> cv_idle s\<close> last have w: "waiters_count s = 0" "\<forall>u. cv_pcs s u \<noteq> VRead" "last_ones s = {t}"
    by (auto simp: cv_waiting_def split: if_splits)
  moreover have "b \<noteq> t" using b t by auto
  ultimately show ?thesis
    using assms(1) b by (auto simp: cv_round_ok_def cv_waiting_def last_ones_goto)
qed

lemma cv_round_broadcast:
  assumes "cv_round_ok s" and "cv_mutex_ok s" and "cv_count_ok s"
    and move: "cv_move s (cv_pcs s t) e pc'"
    and pc: "cv_pcs s t \<in> {BTest, BRelease, BLeave, BWaitAll, BClear, BLeaveNone}"
  shows "cv_round_ok (cv_goto t pc' (cv_apply t e s))"
proof -
  have one: "cv_pcs s u \<notin> {BRelease, BLeave, BWaitAll, BClear, BLeaveNone}" if "u \<noteq> t" for u
    using cv_alone [OF assms(2), of t u] pc that by auto
  have "0 \<le> waiters_count s" using assms(3) by (simp add: cv_count_ok_def)
  show ?thesis
  proof (cases "cv_pcs s t = BWaitAll")
    case True
    with assms(1) have "cv_waiting s" by (auto simp: cv_round_ok_def)
    with True move one show ?thesis
      by (auto simp: cv_round_ok_def cv_waiting_def cv_idle_def last_ones_goto elim: cv_move.cases split: if_splits)
  next
    case False
    with one pc have "\<forall>u. cv_pcs s u \<noteq> BWaitAll" by (metis insertI1 insertI2)
    with assms(1) have "cv_idle s" by (simp add: cv_round_ok_def)
    have count: "cv_pcs s t = BRelease \<or> cv_pcs s t = BLeave \<Longrightarrow> waiters_count s \<noteq> 0"
      using assms(1) by (auto simp: cv_round_ok_def)
    from move show ?thesis
      by (cases rule: cv_move.cases)
        (use one pc count False \<open>cv_idle s\<close> \<open>0 \<le> waiters_count s\<close> in
          \<open>auto simp: cv_round_ok_def cv_waiting_def cv_idle_def last_ones_goto dest: sym\<close>)
  qed
qed

lemma cv_round_leave2:
  assumes "cv_round_ok s" and "cv_pcs s t = VLeave2 True"
  shows "cv_round_ok (cv_goto t VLast (cv_apply t DropSection s))"
proof (rule cv_round_same [OF assms(1)])
  have "t \<in> last_ones s" using assms(2) by (simp add: last_ones_def)
  then show "last_ones (cv_goto t VLast (cv_apply t DropSection s)) = last_ones s"
    by (auto simp: last_ones_goto)
qed (use assms(2) in auto)

lemma client_quiet [simp]: "quiet (client h)" "\<not> counted (client h)" "client h \<noteq> BThrown"
  by (cases h; simp)+

lemma quiet_move:
  assumes "cv_move s pc e pc'" and "pc \<notin> {VInc, VDec, VRead, VLeave2 True, VLast}"
    and "pc \<notin> {BTest, BRelease, BLeave, BWaitAll, BClear, BLeaveNone}"
  shows "quiet pc \<and> quiet pc' \<and> e \<notin> {IncWaiters, DecWaiters, SetAwake, ResetAwake}"
  using assms by (cases rule: cv_move.cases) (auto simp del: client.simps split: if_splits)

lemma cv_round_step:
  assumes inv: "cv_inv n s" and move: "cv_move s (cv_pcs s t) e pc'"
  shows "cv_round_ok (cv_goto t pc' (cv_apply t e s))"
proof -
  have ok: "cv_mutex_ok s" "cv_section_ok s" "cv_count_ok s" "cv_flag_ok s" "cv_round_ok s"
    using inv by (simp_all add: cv_inv_def)
  consider "cv_pcs s t = VInc" | "cv_pcs s t = VDec" | "cv_pcs s t = VRead" | "cv_pcs s t = VLeave2 True"
    | "cv_pcs s t = VLast" | "cv_pcs s t \<in> {BTest, BRelease, BLeave, BWaitAll, BClear, BLeaveNone}"
    | (quiet) "cv_pcs s t \<notin> {VInc, VDec, VRead, VLeave2 True, VLast}"
        "cv_pcs s t \<notin> {BTest, BRelease, BLeave, BWaitAll, BClear, BLeaveNone}"
    by blast
  then show ?thesis
  proof cases
    case 1
    with move have "e = IncWaiters" "pc' = VLeave" by (auto elim: cv_move.cases)
    with cv_round_inc [OF ok(5,1,3) 1] show ?thesis by simp
  next
    case 2
    with move have "e = DecWaiters" "pc' = VRead" by (auto elim: cv_move.cases)
    with cv_round_dec [OF ok(5,2,3) 2] show ?thesis by simp
  next
    case 3
    with move have "e = Same" "pc' = VLeave2 (was_broadcast s \<and> waiters_count s = 0)"
      by (auto elim: cv_move.cases)
    with cv_round_read [OF ok(5,2,4) 3] show ?thesis by simp
  next
    case 4
    with move have "e = DropSection" "pc' = VLast" by (auto elim: cv_move.cases)
    with cv_round_leave2 [OF ok(5) 4] show ?thesis by simp
  next
    case 5
    with move have "e = SetAwake" "pc' = VMutex" by (auto elim: cv_move.cases)
    with cv_round_last [OF ok(5) 5] show ?thesis by simp
  next
    case 6
    with cv_round_broadcast [OF ok(5,1,3) move] show ?thesis by simp
  next
    case quiet
    with quiet_move [OF move] cv_round_quiet [OF ok(5), of t pc'] show ?thesis by simp
  qed
qed

lemma cv_inv_move:
  assumes "cv_inv n s" and "cv_move s (cv_pcs s t) e pc'" and "cv_pcs s t \<noteq> COut \<or> t < cv_threads s"
  shows "cv_inv n (cv_goto t pc' (cv_apply t e s))"
  using assms cv_round_step [OF assms(1,2)]
  by (simp add: cv_inv_def cv_mutex_step cv_section_step cv_count_step cv_flag_step cv_permits_step)

lemma cv_start_inv: "cv_inv n (cv_start n)"
  by (simp add: cv_inv_def cv_start_def win_cond.defs win_cond_new_def cv_mutex_ok_def cv_section_ok_def cv_count_ok_def
      cv_flag_ok_def cv_round_ok_def cv_idle_def last_ones_def cv_permits_ok_def)

interpretation win: invariant_system "\<lambda>s. s = cv_start n" cv_step "cv_inv n" for n
proof unfold_locales
  fix s t
  show "s = cv_start n \<Longrightarrow> cv_inv n s" by (simp add: cv_start_inv)
  show "cv_inv n s \<Longrightarrow> cv_step s t \<Longrightarrow> cv_inv n t"
    by (auto elim!: step_ofE dest!: cv_event_move intro: cv_inv_move)
qed

section \<open>A broadcast comes back\<close>

text \<open>How many steps a thread is from having made way for the broadcast.\<close>

fun cv_rank :: "cv_pc \<Rightarrow> nat" where
  "cv_rank VAsleep = 6" | "cv_rank VEnter2 = 5" | "cv_rank VDec = 4" | "cv_rank VRead = 3"
| "cv_rank (VLeave2 l) = 2" | "cv_rank VLast = 1" | "cv_rank (SRead h) = 2" | "cv_rank (SLeave h p) = 1"
| "cv_rank BWaitAll = 2" | "cv_rank BClear = 1" | "cv_rank _ = 0"

definition cv_measure :: "cv_sys \<Rightarrow> nat" where
  "cv_measure s = (\<Sum>u<cv_threads s. cv_rank (cv_pcs s u))"

lemma client_rank [simp]: "cv_rank (client h) = 0"
  by (cases h) auto

text \<open>A step of \<open>u\<close> towards the end of the broadcast of \<open>t\<close>.\<close>

definition cv_closer :: "tid \<Rightarrow> tid \<Rightarrow> cv_sys \<Rightarrow> bool" where
  "cv_closer t u s \<longleftrightarrow> (\<exists>pc' s'. cv_event (CvStep u) s = Some s' \<and> cv_pcs s' = (cv_pcs s)(u := pc') \<and>
     cv_rank pc' < cv_rank (cv_pcs s u) \<and> (u = t \<longrightarrow> pc' = BClear))"

lemma cv_closer_section:
  assumes "in_section (cv_pcs s u)" and "\<not> has_mutex (cv_pcs s u)" and "u \<noteq> t"
  shows "cv_closer t u s"
  using assms by (cases "cv_pcs s u") (auto simp: cv_closer_def cv_code split: if_splits)

lemma cv_closer_counted:
  assumes inv: "cv_inv n s" and t: "cv_pcs s t = BWaitAll" and u: "counted (cv_pcs s u)"
    and free: "num_waiters_lock s = None"
  shows "cv_closer t u s"
proof -
  have out: "\<not> in_section (cv_pcs s u)" using inv free by (auto simp: cv_inv_def cv_section_ok_def)
  have "u \<noteq> t" using t u by auto
  then have "\<not> has_mutex (cv_pcs s u)" using cv_alone [of s t u] inv t by (auto simp: cv_inv_def)
  with u out consider "cv_pcs s u = VAsleep" | "cv_pcs s u = VEnter2" by (cases "cv_pcs s u") auto
  then show ?thesis
  proof cases
    case 1
    have "finite {v. cv_pcs s v = VAsleep}" using inv by (intro cv_finite) (auto simp: cv_inv_def)
    then have "0 < card {v. cv_pcs s v = VAsleep}" using 1 by (auto simp: card_gt_0_iff)
    moreover have "int (card {v. cv_pcs s v = VAsleep}) \<le> thread_queue s"
      using inv t by (auto simp: cv_inv_def cv_permits_ok_def)
    ultimately have "0 < thread_queue s" by linarith
    with 1 \<open>u \<noteq> t\<close> show ?thesis by (auto simp: cv_closer_def)
  next
    case 2
    with free \<open>u \<noteq> t\<close> show ?thesis by (auto simp: cv_closer_def cv_code)
  qed
qed

lemma cv_progress:
  assumes inv: "cv_inv n s" and t: "cv_pcs s t = BWaitAll"
  shows "\<exists>u. cv_closer t u s"
proof (cases "num_waiters_lock s")
  case (Some c)
  have "in_section (cv_pcs s c)" "c \<noteq> t" using inv t Some by (auto simp: cv_inv_def cv_section_ok_def)
  moreover have "\<not> has_mutex (cv_pcs s c)"
    using cv_alone [of s t c] inv t \<open>c \<noteq> t\<close> by (auto simp: cv_inv_def)
  ultimately show ?thesis by (blast intro: cv_closer_section)
next
  case None
  have out: "\<not> in_section (cv_pcs s u)" for u using inv None by (auto simp: cv_inv_def cv_section_ok_def)
  have waiting: "cv_waiting s" using inv t by (auto simp: cv_inv_def cv_round_ok_def)
  show ?thesis
  proof (cases "waiters_count s = 0")
    case False
    have "waiters_count s = int (card {u. counted (cv_pcs s u)})" using inv by (simp add: cv_inv_def cv_count_ok_def)
    with False have "{u. counted (cv_pcs s u)} \<noteq> {}" by fastforce
    then show ?thesis using cv_closer_counted [OF inv t _ None] by blast
  next
    case True
    have "cv_pcs s u \<noteq> VRead" for u using out [of u] by auto
    with waiting True have "(\<exists>u. last_ones s = {u}) \<or> all_awake_event s" by (auto simp: cv_waiting_def)
    moreover have "cv_pcs s u = VLast" if "last_ones s = {u}" for u
    proof -
      have "u \<in> last_ones s" using that by simp
      moreover have "cv_pcs s u \<noteq> VLeave2 True" using out [of u] by auto
      ultimately show ?thesis by (simp add: last_ones_def)
    qed
    ultimately consider u where "cv_pcs s u = VLast" | "all_awake_event s" by blast
    then show ?thesis
    proof cases
      case 1
      then have "cv_closer t u s" using t by (auto simp: cv_closer_def)
      then show ?thesis by blast
    next
      case 2
      then have "cv_closer t t s" using t by (auto simp: cv_closer_def)
      then show ?thesis by blast
    qed
  qed
qed

lemma cv_measure_less:
  assumes "cv_pcs s' = (cv_pcs s)(u := pc')" and "cv_threads s' = cv_threads s" and "u < cv_threads s"
    and "cv_rank pc' < cv_rank (cv_pcs s u)"
  shows "cv_measure s' < cv_measure s"
  unfolding cv_measure_def assms(2)
  by (rule sum_strict_mono_ex1) (use assms in auto)

lemma cv_broadcast_returns:
  assumes "cv_inv n s" and "cv_pcs s t = BWaitAll"
  shows "\<exists>s'. reaches cv_step s s' \<and> cv_pcs s' t = BClear"
  using assms
proof (induction "cv_measure s" arbitrary: s rule: less_induct)
  case less
  obtain u pc' s' where ev: "cv_event (CvStep u) s = Some s'" and pcs: "cv_pcs s' = (cv_pcs s)(u := pc')"
    and rank: "cv_rank pc' < cv_rank (cv_pcs s u)" and t: "u = t \<longrightarrow> pc' = BClear"
    using cv_progress [OF less.prems] by (auto simp: cv_closer_def)
  have step: "cv_step s s'" using ev by (rule step_of.event)
  then have inv: "cv_inv n s'" by (rule win.step_inv [OF less.prems(1)])
  show ?case
  proof (cases "u = t")
    case True
    with pcs t have "cv_pcs s' t = BClear" by simp
    with step show ?thesis by (blast intro: reaches_one)
  next
    case False
    have "cv_pcs s u \<noteq> COut" using rank by auto
    with less.prems(1) have "u < cv_threads s" by (auto simp: cv_inv_def cv_count_ok_def)
    moreover have "cv_threads s' = cv_threads s" using inv less.prems(1) by (simp add: cv_inv_def)
    ultimately have "cv_measure s' < cv_measure s" using cv_measure_less [OF pcs _ _ rank] by simp
    moreover have "cv_pcs s' t = BWaitAll" using pcs False less.prems(2) by simp
    ultimately obtain s'' where "reaches cv_step s' s''" "cv_pcs s'' t = BClear"
      using less.hyps inv by blast
    with step show ?thesis by (blast intro: reaches_trans reaches_one)
  qed
qed

lemma cv_nobody_asleep:
  assumes "cv_inv n s" and "cv_pcs s t = BClear \<or> cv_pcs s t = BLeaveNone"
  shows "cv_pcs s u \<noteq> VAsleep"
proof
  assume u: "cv_pcs s u = VAsleep"
  have fin: "finite {v. counted (cv_pcs s v)}" using assms(1) by (intro cv_finite) (auto simp: cv_inv_def)
  have "u \<in> {v. counted (cv_pcs s v)}" using u by simp
  with fin have "0 < card {v. counted (cv_pcs s v)}" by (metis card_gt_0_iff empty_iff)
  with assms show False by (auto simp: cv_inv_def cv_round_ok_def cv_count_ok_def)
qed

section \<open>Without signals\<close>

text \<open>
  PFunc never calls \<open>signal\<close>. Then the semaphore has exactly the permits of the broadcast in
  progress, and everybody who has been woken is gone before the next one begins.
\<close>

definition cv_releasing :: "cv_sys \<Rightarrow> bool" where
  "cv_releasing s \<longleftrightarrow> (\<exists>t. cv_pcs s t = BLeave \<or> cv_pcs s t = BWaitAll)"

fun no_signal :: "cv_pc \<Rightarrow> bool" where
  "no_signal (SEnter h) = False" | "no_signal (SRead h) = False" | "no_signal (SLeave h p) = False"
| "no_signal (SRelease h) = False" | "no_signal (SThrown h) = False" | "no_signal BThrown = False"
| "no_signal _ = True"

definition cv_exact :: "nat \<Rightarrow> cv_sys \<Rightarrow> bool" where
  "cv_exact n s \<longleftrightarrow> cv_inv n s \<and> (\<forall>t. no_signal (cv_pcs s t)) \<and>
     (if cv_releasing s then thread_queue s = int (card {u. cv_pcs s u = VAsleep})
      else thread_queue s = 0 \<and> (\<forall>u. cv_pcs s u \<noteq> VEnter2 \<and> cv_pcs s u \<noteq> VDec))"

lemma cv_count_le:
  assumes "cv_inv n s"
  shows "waiters_count s \<le> int n"
proof -
  have "{u. counted (cv_pcs s u)} \<subseteq> {..<n}"
    using assms by (force simp: cv_inv_def cv_count_ok_def)
  from card_mono [OF _ this] assms show ?thesis by (simp add: cv_inv_def cv_count_ok_def)
qed

text \<open>When the semaphore is released, everybody who is counted is asleep.\<close>

lemma cv_release_exact:
  assumes "cv_exact n s" and t: "cv_pcs s t = BRelease"
  shows "\<not> cv_releasing s" and "thread_queue s = 0"
    and "waiters_count s = int (card {u. cv_pcs s u = VAsleep})"
proof -
  have inv: "cv_inv n s" using assms(1) by (simp add: cv_exact_def)
  have one: "\<not> has_mutex (cv_pcs s u)" if "u \<noteq> t" for u
    using cv_alone [of s t u] inv t that by (auto simp: cv_inv_def)
  show no: "\<not> cv_releasing s"
  proof
    assume "cv_releasing s"
    then obtain u where u: "cv_pcs s u = BLeave \<or> cv_pcs s u = BWaitAll" by (auto simp: cv_releasing_def)
    then show False using one [of u] t by (cases "u = t") auto
  qed
  with assms(1) have rest: "thread_queue s = 0" "\<forall>u. cv_pcs s u \<noteq> VEnter2 \<and> cv_pcs s u \<noteq> VDec"
    by (simp_all add: cv_exact_def)
  then show "thread_queue s = 0" by simp
  have "counted (cv_pcs s u) \<longleftrightarrow> cv_pcs s u = VAsleep" for u
    using one [of u] rest(2) [rule_format, of u] t by (cases "cv_pcs s u"; cases "u = t") auto
  with inv show "waiters_count s = int (card {u. cv_pcs s u = VAsleep})"
    by (simp add: cv_inv_def cv_count_ok_def)
qed

lemma cv_exact_same:
  assumes "cv_exact n s" and "cv_inv n s'" and "\<forall>u. no_signal (cv_pcs s' u)" and "thread_queue s' = thread_queue s"
    and same: "\<And>u pc. pc \<in> {VAsleep, VEnter2, VDec} \<Longrightarrow> cv_pcs s' u = pc \<longrightarrow> cv_pcs s u = pc"
    and asleep: "\<And>u. cv_pcs s u = VAsleep \<Longrightarrow> cv_pcs s' u = VAsleep"
    and "cv_releasing s' = cv_releasing s"
  shows "cv_exact n s'"
proof -
  have "{u. cv_pcs s' u = VAsleep} = {u. cv_pcs s u = VAsleep}" using same [of VAsleep] asleep by auto
  with assms(1-4,7) same [of VEnter2] same [of VDec] show ?thesis by (auto simp: cv_exact_def)
qed

lemma cv_releasing_goto:
  assumes "pc' \<notin> {BLeave, BWaitAll}" and "cv_pcs s t \<notin> {BLeave, BWaitAll}"
  shows "cv_releasing (cv_goto t pc' (cv_apply t e s)) = cv_releasing s"
  using assms by (auto simp: cv_releasing_def)

lemma cv_exact_plain_move:
  assumes "cv_move s pc e pc'" and "pc \<notin> {VAsleep, VEnter2, VRelease, BRelease, BLeave, BWaitAll}"
    and "no_signal pc"
  shows "pc' \<notin> {VAsleep, VEnter2, VDec, BLeave, BWaitAll} \<and> (\<forall>k. e \<noteq> Permit k) \<and> e \<noteq> TakePermit"
  using assms by (cases rule: cv_move.cases) auto

lemma cv_no_signal_move:
  assumes "cv_exact n s" and "n \<le> 1024" and "cv_move s (cv_pcs s t) e pc'" and "\<And>h. pc' \<noteq> SEnter h"
  shows "no_signal (((cv_pcs s)(t := pc')) u)"
proof (cases "u = t")
  case True
  have "no_signal (cv_pcs s t)" "cv_inv n s" using assms(1) by (simp_all add: cv_exact_def)
  moreover have "waiters_count s \<le> int n" by (rule cv_count_le [OF \<open>cv_inv n s\<close>])
  moreover have "MAX_COUNT s = 1024" using \<open>cv_inv n s\<close> by (simp add: cv_inv_def)
  moreover have "cv_pcs s t = BRelease \<Longrightarrow> thread_queue s = 0" by (rule cv_release_exact [OF assms(1)])
  ultimately have "no_signal pc'"
    using assms(2-4) by (cases rule: cv_move.cases [OF assms(3)]) auto
  with True show ?thesis by simp
next
  case False
  with assms(1) show ?thesis by (simp add: cv_exact_def)
qed

lemma cv_not_releasing:
  assumes "cv_inv n s" and "has_mutex (cv_pcs s t)" and "cv_pcs s t \<notin> {BLeave, BWaitAll}"
  shows "\<not> cv_releasing s"
proof
  assume "cv_releasing s"
  then obtain u where "cv_pcs s u = BLeave \<or> cv_pcs s u = BWaitAll" by (auto simp: cv_releasing_def)
  with cv_alone [of s t u] assms show False by (auto simp: cv_inv_def)
qed

lemma cv_exact_move:
  assumes ex: "cv_exact n s" and n: "n \<le> 1024" and move: "cv_move s (cv_pcs s t) e pc'"
    and start: "cv_pcs s t \<noteq> COut \<or> t < cv_threads s" and signal: "\<And>h. pc' \<noteq> SEnter h"
  shows "cv_exact n (cv_goto t pc' (cv_apply t e s))"
proof -
  let ?s = "cv_goto t pc' (cv_apply t e s)"
  have inv: "cv_inv n s" and quiet: "no_signal (cv_pcs s t)" using ex by (simp_all add: cv_exact_def)
  have inv': "cv_inv n ?s" by (rule cv_inv_move [OF inv move start])
  have quiet': "\<forall>u. no_signal (cv_pcs ?s u)" using cv_no_signal_move [OF ex n move signal] by simp
  have asleep: "int (card {u. cv_pcs ?s u = VAsleep}) = int (card {u. cv_pcs s u = VAsleep}) +
      (if pc' = VAsleep then 1 else 0) - (if cv_pcs s t = VAsleep then 1 else 0)"
  proof -
    have "finite {u. cv_pcs s u = VAsleep}" using inv by (intro cv_finite) (auto simp: cv_inv_def)
    from card_class [of "\<lambda>pc. pc = VAsleep" "cv_pcs s", OF this, of t pc'] show ?thesis by simp
  qed
  consider "cv_pcs s t = VAsleep" | "cv_pcs s t = VEnter2" | "cv_pcs s t = VRelease" | "cv_pcs s t = BRelease"
    | "cv_pcs s t = BLeave" | "cv_pcs s t = BWaitAll"
    | (plain) "cv_pcs s t \<notin> {VAsleep, VEnter2, VRelease, BRelease, BLeave, BWaitAll}" by blast
  then show ?thesis
  proof cases
    case 1
    with move have m: "e = TakePermit" "pc' = VEnter2" "0 < thread_queue s" by (auto elim: cv_move.cases)
    with ex have "cv_releasing s" by (auto simp: cv_exact_def split: if_splits)
    with 1 m have "cv_releasing ?s" by (subst cv_releasing_goto) simp_all
    with \<open>cv_releasing s\<close> inv' quiet' ex m asleep 1 show ?thesis by (auto simp: cv_exact_def simp del: fun_upd_apply cv_goto_sel(9))
  next
    case 2
    with move have m: "e = TakeSection" "pc' = VDec" by (auto elim: cv_move.cases)
    with ex 2 have "cv_releasing s" by (auto simp: cv_exact_def split: if_splits)
    with 2 m have "cv_releasing ?s" by (subst cv_releasing_goto) simp_all
    with \<open>cv_releasing s\<close> inv' quiet' ex m asleep 2 show ?thesis by (simp add: cv_exact_def)
  next
    case 3
    with move have m: "e = DropMutex" "pc' = VAsleep" by (auto elim: cv_move.cases)
    have "\<not> cv_releasing s" using cv_not_releasing [OF inv, of t] 3 by simp
    moreover from this 3 m have "\<not> cv_releasing ?s" by (subst cv_releasing_goto) simp_all
    ultimately show ?thesis using inv' quiet' ex m by (auto simp: cv_exact_def)
  next
    case 4
    have "pc' \<noteq> BThrown" using quiet' [rule_format, of t] by auto
    with 4 move have m: "e = Permit (waiters_count s)" "pc' = BLeave" by (auto elim: cv_move.cases)
    then have "cv_releasing ?s" by (auto simp: cv_releasing_def)
    with cv_release_exact [OF ex 4] inv' quiet' m asleep 4 show ?thesis by (simp add: cv_exact_def)
  next
    case 5
    with move have m: "e = DropSection" "pc' = BWaitAll" by (auto elim: cv_move.cases)
    with 5 have "cv_releasing s" "cv_releasing ?s" by (auto simp: cv_releasing_def)
    with ex inv' quiet' m asleep 5 show ?thesis by (simp add: cv_exact_def)
  next
    case 6
    with move have m: "e = ResetAwake" "pc' = BClear" by (auto elim: cv_move.cases)
    have clear: "cv_pcs ?s t = BClear" using m by simp
    have "\<not> counted (cv_pcs ?s u)" for u
    proof -
      have "finite {v. counted (cv_pcs ?s v)}" using inv' by (intro cv_finite) (auto simp: cv_inv_def)
      moreover have "waiters_count ?s = 0" using inv' clear by (auto simp: cv_inv_def cv_round_ok_def simp del: cv_goto_sel)
      ultimately show ?thesis using inv' by (auto simp: cv_inv_def cv_count_ok_def simp del: cv_goto_sel)
    qed
    then have none: "cv_pcs ?s u \<notin> {VAsleep, VEnter2, VDec}" for u by (metis counted.simps(3-5) empty_iff insert_iff)
    then have empty: "{u. cv_pcs ?s u = VAsleep} = {}" by blast
    have "cv_releasing s" using 6 by (auto simp: cv_releasing_def)
    with ex asleep 6 m empty have "thread_queue s = 0" by (simp add: cv_exact_def del: cv_goto_sel(9))
    moreover have "\<not> cv_releasing ?s" using cv_not_releasing [OF inv', of t] clear by simp
    ultimately show ?thesis using inv' quiet' none m by (simp add: cv_exact_def del: cv_goto_sel(9)) 
  next
    case plain
    note facts = cv_exact_plain_move [OF move plain quiet]
    show ?thesis
    proof (rule cv_exact_same [OF ex inv' quiet'])
      show "thread_queue ?s = thread_queue s" using facts by (auto split: cv_effect.split)
      show "cv_releasing ?s = cv_releasing s" using facts plain by (intro cv_releasing_goto) auto
    qed (use facts plain in \<open>auto split: if_splits\<close>)
  qed
qed

lemma cv_exact_event:
  assumes "cv_exact n s" and "n \<le> 1024" and "cv_event a s = Some s'" and "\<And>t. a \<noteq> CvSignal t"
  shows "cv_exact n s'"
proof -
  obtain t e pc' where m: "cv_move s (cv_pcs s t) e pc'" "s' = cv_goto t pc' (cv_apply t e s)"
    "cv_pcs s t \<noteq> COut \<or> t < cv_threads s" "(\<exists>h. pc' = SEnter h) \<longrightarrow> a = CvSignal t"
    using cv_event_move [OF assms(3)] by blast
  with assms(4) have "pc' \<noteq> SEnter h" for h by blast
  with cv_exact_move [OF assms(1,2) m(1,3)] m(2) show ?thesis by simp
qed

lemma cv_exact_run:
  assumes "run_events cv_event acts s = Some s'" and "cv_exact n s" and "n \<le> 1024"
    and "\<And>a t. a \<in> set acts \<Longrightarrow> a \<noteq> CvSignal t"
  shows "cv_exact n s'"
  using assms
proof (induction acts arbitrary: s)
  case (Cons a acts)
  then obtain s1 where "cv_event a s = Some s1" "run_events cv_event acts s1 = Some s'" by (auto split: option.splits)
  with Cons cv_exact_event [OF Cons.prems(2,3), of a s1] show ?case by auto
qed simp

lemma cv_start_exact: "cv_exact n (cv_start n)"
  using cv_start_inv [of n]
  by (simp add: cv_exact_def cv_start_def win_cond.defs win_cond_new_def cv_releasing_def)

section \<open>Properties\<close>

text \<open>
  C32: a broadcast of the Windows condition variable reaches everybody. Whatever signals
  were sent before, a thread that has released the semaphore and waits for the last one to
  wake up can always come back, and when a broadcast is about to come back nobody is
  asleep any more and the event is as it was.
\<close>

theorem win_broadcast_wakes_all:
  assumes "reaches cv_step (cv_start n) s"
  shows "(\<forall>t u. cv_pcs s t = BClear \<or> cv_pcs s t = BLeaveNone \<longrightarrow>
            cv_pcs s u \<noteq> VAsleep \<and> \<not> all_awake_event s) \<and>
         (\<forall>t. cv_pcs s t = BWaitAll \<longrightarrow> (\<exists>s'. reaches cv_step s s' \<and> cv_pcs s' t = BClear))"
proof -
  have inv: "cv_inv n s" by (rule win.reach_inv [OF refl assms])
  have "\<not> all_awake_event s" if "cv_pcs s t = BClear \<or> cv_pcs s t = BLeaveNone" for t
  proof -
    have "cv_pcs s u \<noteq> BWaitAll" for u
      using that cv_alone [of s t u] inv by (auto simp: cv_inv_def)
    with inv show ?thesis by (simp add: cv_inv_def cv_round_ok_def cv_idle_def)
  qed
  with cv_nobody_asleep [OF inv] cv_broadcast_returns [OF inv] show ?thesis by blast
qed

definition win_run :: "cv_action list" where
  "win_run = [CvLock 0, CvWait 0, CvStep 0, CvStep 0, CvStep 0, CvStep 0,
     CvLock 1, CvBroadcast 1, CvStep 1, CvStep 1, CvStep 1, CvStep 1]"

theorem win_broadcast_wakes_all_witness:
  "\<exists>s. reaches cv_step (cv_start 2) s \<and> cv_pcs s 0 = VAsleep \<and> cv_pcs s 1 = BWaitAll \<and>
       (\<exists>s'. reaches cv_step s s' \<and> cv_pcs s' 1 = BClear)"
proof -
  have "\<exists>s. run_events cv_event win_run (cv_start 2) = Some s \<and> cv_pcs s 0 = VAsleep \<and> cv_pcs s 1 = BWaitAll"
    by (simp add: win_run_def cv_start_def win_cond.defs win_cond_new_def cv_goto_def cv_code)
  then obtain s where s: "reaches cv_step (cv_start 2) s" and pcs: "cv_pcs s 0 = VAsleep" "cv_pcs s 1 = BWaitAll"
    by (blast intro: run_events_reaches)
  with win_broadcast_wakes_all [OF s] show ?thesis by blast
qed

text \<open>
  C33: without signals, which PFunc never sends, and with at most 1024 threads no broadcast
  fails, and the semaphore has a permit only while a broadcast is in progress: nobody who
  waits is woken without one.
\<close>

theorem win_broadcast_never_fails:
  assumes "run_events cv_event acts (cv_start n) = Some s" and "n \<le> 1024"
    and "\<And>a t. a \<in> set acts \<Longrightarrow> a \<noteq> CvSignal t"
  shows "cv_pcs s t \<noteq> BThrown \<and>
         (0 < thread_queue s \<longrightarrow> (\<exists>u. cv_pcs s u = BLeave \<or> cv_pcs s u = BWaitAll))"
proof -
  have "cv_exact n s" by (rule cv_exact_run [OF assms(1) cv_start_exact assms(2,3)])
  then have "no_signal (cv_pcs s t)" "0 < thread_queue s \<Longrightarrow> cv_releasing s"
    by (auto simp: cv_exact_def split: if_splits)
  then show ?thesis by (auto simp: cv_releasing_def)
qed

theorem win_broadcast_never_fails_witness:
  "\<exists>s. run_events cv_event win_run (cv_start 2) = Some s \<and> cv_pcs s 1 \<noteq> BThrown \<and>
       (\<exists>u. cv_pcs s u = BLeave \<or> cv_pcs s u = BWaitAll)"
proof -
  have "\<exists>s. run_events cv_event win_run (cv_start 2) = Some s \<and> 0 < thread_queue s"
    by (simp add: win_run_def cv_start_def win_cond.defs win_cond_new_def cv_goto_def cv_code)
  then obtain s where run: "run_events cv_event win_run (cv_start 2) = Some s" and "0 < thread_queue s" by blast
  moreover have "a \<noteq> CvSignal t" if "a \<in> set win_run" for a t using that by (auto simp: win_run_def)
  ultimately show ?thesis using win_broadcast_never_fails [OF run, of 1] by auto
qed

section \<open>A broadcast that fails\<close>

text \<open>Thread 0 is asleep; thread 1 has signalled \<open>k\<close> times.\<close>

definition cv_signalled :: "int \<Rightarrow> cv_sys" where
  "cv_signalled k = win_cond.extend (win_cond_new\<lparr>waiters_count := 1, thread_queue := k\<rparr>)
     \<lparr>cv_threads = 2, cv_mutex = None, cv_pcs = (\<lambda>_. COut)(0 := VAsleep)\<rparr>"

lemmas cv_run_simps = win_cond.defs win_cond_new_def cv_goto_def cv_code cv_signalled_def

lemma cv_signalled_more:
  assumes "k < 1024"
  shows "reaches cv_step (cv_signalled k) (cv_signalled (k + 1))"
proof (rule run_events_reaches)
  show "run_events cv_event [CvSignal 1, CvStep 1, CvStep 1, CvStep 1, CvStep 1] (cv_signalled k) =
      Some (cv_signalled (k + 1))"
    using assms by (simp add: cv_run_simps fun_upd_twist fun_upd_idem)
qed

lemma cv_signalled_reached: "k \<le> 1024 \<Longrightarrow> reaches cv_step (cv_start 2) (cv_signalled (int k))"
proof (induction k)
  case 0
  have "run_events cv_event [CvLock 0, CvWait 0, CvStep 0, CvStep 0, CvStep 0, CvStep 0] (cv_start 2) =
      Some (cv_signalled 0)"
    by (simp add: cv_run_simps cv_start_def)
  then show ?case unfolding int_ops(1) by (rule run_events_reaches)
next
  case (Suc k)
  then have "reaches cv_step (cv_signalled (int k)) (cv_signalled (int k + 1))" by (intro cv_signalled_more) simp
  with Suc show ?case by (simp add: add.commute reaches_trans)
qed

lemma cv_thrown_stays:
  assumes "reaches cv_step s s'" and "cv_pcs s t = BThrown"
  shows "cv_pcs s' t = BThrown"
  using assms
proof (induction rule: reaches.induct)
  case (more s u v)
  then obtain a where "cv_event a u = Some v" by (auto elim: step_ofE)
  from cv_event_move [OF this] obtain w e pc' where
    m: "cv_move u (cv_pcs u w) e pc'" "v = cv_goto w pc' (cv_apply w e u)" by blast
  have "w \<noteq> t"
  proof
    assume "w = t"
    with m(1) more show False by (auto elim: cv_move.cases)
  qed
  with m(2) more show ?case by simp
qed

text \<open>
  After 1024 signals that found a waiter which has not run yet a broadcast fails, and
  then it leaves with the critical section: from then on every wait, signal and broadcast
  of any other thread blocks for ever.
\<close>

theorem win_broadcast_can_lock_up:
  "\<exists>s. reaches cv_step (cv_start 2) s \<and> cv_pcs s 1 = BThrown \<and>
       (\<forall>s'. reaches cv_step s s' \<longrightarrow> num_waiters_lock s' = Some 1 \<and> cv_mutex s' = Some 1)"
proof -
  have "\<exists>s. run_events cv_event [CvLock 1, CvBroadcast 1, CvStep 1, CvStep 1, CvStep 1] (cv_signalled 1024) = Some s \<and>
      cv_pcs s 1 = BThrown"
    by (simp add: cv_run_simps)
  then obtain s where "reaches cv_step (cv_signalled 1024) s" and pc: "cv_pcs s 1 = BThrown"
    by (blast intro: run_events_reaches)
  moreover have "reaches cv_step (cv_start 2) (cv_signalled 1024)" using cv_signalled_reached [of 1024] by simp
  ultimately have s: "reaches cv_step (cv_start 2) s" by (blast intro: reaches_trans)
  have "num_waiters_lock s' = Some 1 \<and> cv_mutex s' = Some 1" if "reaches cv_step s s'" for s'
  proof -
    have "cv_inv 2 s'" using reaches_trans [OF that s] by (rule win.reach_inv [OF refl])
    with cv_thrown_stays [OF that pc] show ?thesis
      by (simp add: cv_inv_def cv_mutex_ok_def cv_section_ok_def)
  qed
  with s pc show ?thesis by blast
qed

theorem win_broadcast_can_lock_up_witness:
  "\<exists>s. reaches cv_step (cv_start 2) s \<and> num_waiters_lock s = Some 1 \<and> cv_event (CvStep 1) s = None"
proof -
  obtain s where s: "reaches cv_step (cv_start 2) s" "cv_pcs s 1 = BThrown"
    and later: "\<And>s'. reaches cv_step s s' \<Longrightarrow> num_waiters_lock s' = Some 1"
    using win_broadcast_can_lock_up by blast
  from later [OF reaches.here] s show ?thesis by auto
qed

end
