(* ===== verification/Os_Sync.thy ===== *)
theory Os_Sync
  imports Mutex Exceptions
begin

text \<open>
  The wrappers of the calls of the operating system: the mutex of \<^verbatim>\<open>mutex.hpp\<close> in its pthread
  and Windows variants, the condition variable of \<^verbatim>\<open>cond.hpp\<close> in its pthread variant, and
  the functions of \<^verbatim>\<open>thread.hpp\<close> that join threads and count processors on systems other
  than Linux. A call of the system is its result, an argument of the wrapper; \<open>loc\<close> is what
  \<open>FILE_AND_LINE ()\<close> adds to the trace, and \<open>last_error\<close> what \<open>GetLastError\<close> returns.
\<close>

definition os_throw :: "string \<Rightarrow> string \<Rightarrow> int \<Rightarrow> 'a result" where
  "os_throw trace what code = Inl (PfuncExn (exception_generic_impl trace what code))"

text \<open>The \<open>if (error) throw\<close> after a pthread call, and the test for success of the Windows calls.\<close>

definition check_error :: "string \<Rightarrow> string \<Rightarrow> int \<Rightarrow> unit result" where
  "check_error trace what error = (if error \<noteq> 0 then os_throw trace what error else Inr ())"

definition check_ok :: "string \<Rightarrow> string \<Rightarrow> bool \<Rightarrow> int \<Rightarrow> unit result" where
  "check_ok trace what ok last_error = (if \<not> ok then os_throw trace what last_error else Inr ())"

section \<open>The pthread mutex\<close>

text \<open>The numbers of Linux.\<close>

definition EBUSY :: int where "EBUSY = 16"

definition pthread_mutex_make :: "string \<Rightarrow> int \<Rightarrow> unit result" where
  "pthread_mutex_make loc error =
     check_error (''pfunc::detail::mutex::mutex::pthread_mutex_init at '' @ loc) ''Error initializing the mutex'' error"

definition pthread_mutex_end :: "string \<Rightarrow> int \<Rightarrow> unit result" where
  "pthread_mutex_end loc error =
     check_error (''pfunc::detail::mutex::mutex::pthread_mutex_destroy at '' @ loc) ''Error destroying the mutex'' error"

definition pthread_lock :: "string \<Rightarrow> int \<Rightarrow> unit result" where
  "pthread_lock loc error =
     check_error (''pfunc::detail::mutex::mutex::pthread_mutex_lock at '' @ loc) ''Error locking the mutex'' error"

definition pthread_unlock :: "string \<Rightarrow> int \<Rightarrow> unit result" where
  "pthread_unlock loc error =
     check_error (''pfunc::detail::mutex::mutex::pthread_mutex_unlock at '' @ loc) ''Error unlocking the mutex'' error"

text \<open>\<open>trylock\<close> calls \<open>pthread_mutex_lock\<close>, and \<open>error\<close> is its result.\<close>

definition pthread_trylock :: "string \<Rightarrow> int \<Rightarrow> bool result" where
  "pthread_trylock loc error =
     (if 0 = error then Inr True
      else if EBUSY = error then Inr False
      else os_throw (''pfunc::detail::mutex::mutex::pthread_mutex_trylock at '' @ loc)
             ''Error trying to lock the mutex'' error)"

section \<open>The Windows mutex\<close>

definition WAIT_OBJECT_0 :: int where "WAIT_OBJECT_0 = 0"
definition WAIT_TIMEOUT :: int where "WAIT_TIMEOUT = 258"

text \<open>\<open>handle\<close> is \<open>None\<close> for \<open>NULL\<close>.\<close>

definition win_mutex_make :: "string \<Rightarrow> nat option \<Rightarrow> int \<Rightarrow> nat result" where
  "win_mutex_make loc handle last_error =
     (case handle of
        None \<Rightarrow> os_throw (''pfunc::detail::mutex::mutex::CreateMutex at '' @ loc) ''Error initializing the mutex'' last_error
      | Some mtx \<Rightarrow> Inr mtx)"

definition win_mutex_end :: "string \<Rightarrow> bool \<Rightarrow> int \<Rightarrow> unit result" where
  "win_mutex_end loc ok last_error =
     check_ok (''pfunc::detail::mutex::mutex::CloseHandle at '' @ loc) ''Error destroying the mutex'' ok last_error"

definition win_lock :: "string \<Rightarrow> int \<Rightarrow> int \<Rightarrow> unit result" where
  "win_lock loc error last_error =
     check_ok (''pfunc::detail::mutex::lock::WaitForSingleObject at '' @ loc) ''Error locking the mutex''
       (WAIT_OBJECT_0 = error) last_error"

definition win_trylock :: "string \<Rightarrow> int \<Rightarrow> int \<Rightarrow> bool result" where
  "win_trylock loc ret_val last_error =
     (if ret_val = WAIT_OBJECT_0 then Inr True
      else if ret_val = WAIT_TIMEOUT then Inr False
      else os_throw (''pfunc::detail::mutex::lock::WaitForSingleObject at '' @ loc) ''Error locking the mutex'' last_error)"

definition win_unlock :: "string \<Rightarrow> bool \<Rightarrow> int \<Rightarrow> unit result" where
  "win_unlock loc ok last_error =
     check_ok (''pfunc::detail::mutex::lock::ReleaseMutex at '' @ loc) ''Error unlocking the mutex'' ok last_error"

section \<open>The pthread condition variable\<close>

definition pthread_cond_make :: "string \<Rightarrow> int \<Rightarrow> unit result" where
  "pthread_cond_make loc error =
     check_error (''pfunc::detail::cond::cond::pthread_cond_init at '' @ loc)
       ''Error in initializing the condition variable'' error"

definition pthread_cond_end :: "string \<Rightarrow> int \<Rightarrow> unit result" where
  "pthread_cond_end loc error =
     check_error (''pfunc::detail::cond::~cond::pthread_cond_destroy at '' @ loc)
       ''Error in destroying the condition variable'' error"

definition cond_wait_wrapper :: "string \<Rightarrow> int \<Rightarrow> unit result" where
  "cond_wait_wrapper loc error =
     check_error (''pfunc::detail::cond::wait::pthread_cond_wait at '' @ loc)
       ''Error in waiting for the condition variable'' error"

definition cond_signal_wrapper :: "string \<Rightarrow> int \<Rightarrow> unit result" where
  "cond_signal_wrapper loc error =
     check_error (''pfunc::detail::cond::signal::pthread_cond_signal at '' @ loc)
       ''Error in signaling the condition variable'' error"

definition cond_broadcast_wrapper :: "string \<Rightarrow> int \<Rightarrow> unit result" where
  "cond_broadcast_wrapper loc error =
     check_error (''pfunc::detail::cond::broadcast::pthread_cond_signal at '' @ loc)
       ''Error in broadcasting the condition variable'' error"

section \<open>Threads\<close>

definition pthread_join_thread :: "int \<Rightarrow> unit result" where
  "pthread_join_thread error =
     check_error ''pfunc::detail::thread::join_thread::pthread_join'' ''Could not join on the thread'' error"

text \<open>
  \<open>get_num_procs\<close> on Darwin, from the result of \<open>sysctl\<close> and the number it stored, and on
  a system that PFunc does not know; \<open>set_affinity\<close> does nothing on either.
\<close>

definition darwin_get_num_procs :: "int \<Rightarrow> int \<Rightarrow> int result" where
  "darwin_get_num_procs error num_procs =
     (if error \<noteq> 0
      then os_throw ''pfunc::detail::thread::get_num_procs:'' ''Could not get the number of processors'' error
      else Inr num_procs)"

definition unknown_get_num_procs :: "int result" where
  "unknown_get_num_procs = Inr 0"

section \<open>Facts\<close>

lemmas wrapper_defs = os_throw_def check_error_def check_ok_def pthread_mutex_make_def pthread_mutex_end_def
  pthread_lock_def pthread_unlock_def pthread_trylock_def win_mutex_make_def win_mutex_end_def win_lock_def
  win_trylock_def win_unlock_def pthread_cond_make_def pthread_cond_end_def cond_wait_wrapper_def
  cond_signal_wrapper_def cond_broadcast_wrapper_def pthread_join_thread_def darwin_get_num_procs_def

text \<open>A failure of the system is reported with its number; success is silent.\<close>

lemma check_error_result:
  "check_error trace what error = Inr () \<longleftrightarrow> error = 0"
  "check_error trace what error = Inl (PfuncExn e) \<Longrightarrow> error_code e = error \<and> error_trace e = trace"
  by (auto simp: wrapper_defs exception_generic_impl_def split: if_splits)

text \<open>
  \<open>trylock\<close> should take a free mutex and say so, and say no when it is held. Over a
  system whose \<open>pthread_mutex_lock\<close> blocks while the mutex is held and whose
  \<open>WaitForSingleObject\<close> with no time to wait times out, only the Windows variant does: the
  pthread variant blocks instead of saying no, and the futex variant says the opposite.
\<close>

theorem trylock_variants:
  assumes lock: "\<And>held. mutex_lock_call held = (if held then None else Some 0)"
    and wait: "\<And>held. wait_call held = (if held then WAIT_TIMEOUT else WAIT_OBJECT_0)"
  shows "win_trylock loc (wait_call held) last_error = Inr (\<not> held) \<and>
         map_option (pthread_trylock loc) (mutex_lock_call held) = (if held then None else Some (Inr True)) \<and>
         fst (mutex_trylock pfunc_compare_and_swap_32 v) = (v \<noteq> PFUNC_MUTEX_FREE)"
  using lock wait
  by (simp add: win_trylock_def pthread_trylock_def WAIT_OBJECT_0_def WAIT_TIMEOUT_def mutex_trylock_def x86.cas_eq)

theorem trylock_variants_witness:
  "win_trylock [] (if True then WAIT_TIMEOUT else WAIT_OBJECT_0) 0 = Inr False \<and>
   map_option (pthread_trylock []) (if True then None else Some 0) = None \<and>
   fst (mutex_trylock pfunc_compare_and_swap_32 PFUNC_MUTEX_LOCKED)"
  using trylock_variants [of "\<lambda>held. if held then None else Some 0"
      "\<lambda>held. if held then WAIT_TIMEOUT else WAIT_OBJECT_0" "[]" True 0 PFUNC_MUTEX_LOCKED]
  by (simp add: mutex_consts)

end
