(* ===== verification/Utilities.thy ===== *)
theory Utilities
  imports Complex_Main Pfunc_Prelude
begin

text \<open>
  \<open>get_closest_power_of_2\<close> of \<^verbatim>\<open>utility.h\<close>: the loop doubles an \<open>int\<close> until it is not below
  \<open>n\<close>. Shifting a 1 into the sign bit wraps around, as compilers do it (the standard leaves
  it undefined). The loop need not end, so it is a partial function: \<open>None\<close> if it does not.
  The random numbers and the clock are functions of what \<open>rand\<close> and the clock of the system give,
  as rational numbers: the rounding of \<open>double\<close> is left out.
\<close>

partial_function (option) power_loop :: "u32 \<Rightarrow> u32 \<Rightarrow> u32 option" where
  "power_loop n closest =
     (if closest <s n then power_loop n (push_bit 1 closest) else Some closest)"

definition get_closest_power_of_2 :: "u32 \<Rightarrow> u32 option" where
  "get_closest_power_of_2 n = power_loop n 1"

lemma power_loop_step:
  "closest <s n \<Longrightarrow> power_loop n closest = power_loop n (push_bit 1 closest)"
  "\<not> closest <s n \<Longrightarrow> power_loop n closest = Some closest"
  by (subst power_loop.simps, simp)+

lemma sint_power [pf_word]: "k \<le> 30 \<Longrightarrow> sint (2 ^ k :: u32) = 2 ^ k"
proof -
  assume "k \<le> 30"
  moreover have "\<forall>k\<in>set [0..<31]. sint (2 ^ k :: u32) = 2 ^ k" by code_simp
  ultimately show ?thesis by auto
qed

lemma push_power: "push_bit 1 (2 ^ k :: u32) = 2 ^ Suc k"
  by (simp add: push_bit_eq_mult)

text \<open>From \<open>2 ^ k\<close> below the result the loop reaches it.\<close>

lemma power_loop_reaches:
  assumes "k \<le> j" and "j \<le> 30" and "n \<le>s 2 ^ j" and "\<And>i. i < j \<Longrightarrow> 2 ^ i <s n"
  shows "power_loop n (2 ^ k) = Some (2 ^ j)"
  using assms(1)
proof (induction rule: inc_induct)
  case base
  have "\<not> 2 ^ j <s n" using assms(3) by (simp add: word_sle_eq word_sless_alt)
  then show ?case by (rule power_loop_step)
next
  case (step k)
  have "2 ^ k <s n" using step.hyps assms(4) by blast
  from power_loop_step(1) [OF this, unfolded push_power] step.IH show ?case by (rule trans)
qed

text \<open>Once the value has become 0 the loop never ends.\<close>

lemma power_loop_zero:
  assumes "power_loop n closest = Some r"
  shows "0 <s n \<longrightarrow> closest \<noteq> 0"
proof (rule power_loop.raw_induct [where P = "\<lambda>n closest r. 0 <s n \<longrightarrow> closest \<noteq> 0", OF _ assms])
  fix loop n closest r
  assume "\<And>n closest r. loop n closest = Some r \<Longrightarrow> 0 <s n \<longrightarrow> closest \<noteq> 0"
    and "(if closest <s n then loop n (push_bit 1 closest) else Some closest) = Some r"
  then show "0 <s n \<longrightarrow> closest \<noteq> 0" by (cases "closest = 0") (fastforce split: if_splits)+
qed

lemma power_loop_overflow:
  assumes "2 ^ 30 <s n" and "k \<le> 31"
  shows "power_loop n (2 ^ k) = None"
proof -
  have n: "2 ^ 30 < sint n" using assms(1) by (simp add: word_sless_alt sint_power)
  have zero: "power_loop n 0 = None"
  proof (cases "power_loop n 0")
    case (Some r)
    have "0 <s n" using n by (simp add: word_sless_alt)
    with power_loop_zero [OF Some] show ?thesis by simp
  qed
  have top: "power_loop n (2 ^ 31) = None"
  proof -
    have "(2 ^ 31 :: u32) <s n" using n by (simp add: word_sless_alt)
    moreover have "push_bit 1 (2 ^ 31 :: u32) = 0" by (simp add: push_bit_eq_mult)
    ultimately show ?thesis using zero by (metis power_loop_step(1))
  qed
  from assms(2) show ?thesis
  proof (induction rule: inc_induct)
    case base
    show ?case by (rule top)
  next
    case (step k)
    have "(2::int) ^ k \<le> 2 ^ 30" using step.hyps by (intro power_increasing) auto
    then have "(2 ^ k :: u32) <s n" using n step.hyps by (simp add: word_sless_alt sint_power)
    from power_loop_step(1) [OF this, unfolded push_power] step.IH show ?case by (rule trans)
  qed
qed

text \<open>
  \<open>get_closest_power_of_2\<close> returns exactly for arguments up to \<open>2 ^ 30\<close>, and then the
  least power of two that is not below its argument (1 for arguments that are not
  positive); for every greater argument the value overflows to 0 and the loop never ends.
\<close>

theorem closest_power_of_2:
  "(if n \<le>s 2 ^ 30
    then \<exists>j\<le>30. get_closest_power_of_2 n = Some (2 ^ j) \<and> n \<le>s 2 ^ j \<and> (\<forall>i<j. 2 ^ i <s n)
    else get_closest_power_of_2 n = None)"
proof (cases "n \<le>s 2 ^ 30")
  case True
  define j where "j = (LEAST j. n \<le>s 2 ^ j)"
  have "n \<le>s 2 ^ j" "j \<le> 30" unfolding j_def by (rule LeastI [of "\<lambda>j. n \<le>s 2 ^ j", OF True], rule Least_le [of "\<lambda>j. n \<le>s 2 ^ j", OF True])
  moreover have less: "2 ^ i <s n" if "i < j" for i
    using not_less_Least [of i "\<lambda>j. n \<le>s 2 ^ j"] that by (simp add: j_def word_sle_eq word_sless_alt)
  moreover have "power_loop n (2 ^ 0) = Some (2 ^ j)"
    using power_loop_reaches [of 0 j n] \<open>n \<le>s 2 ^ j\<close> \<open>j \<le> 30\<close> less by simp
  ultimately show ?thesis using True by (auto simp: get_closest_power_of_2_def)
next
  case False
  then have "2 ^ 30 <s n" by (simp add: word_sle_eq word_sless_alt)
  from power_loop_overflow [OF this, of 0] False show ?thesis by (simp add: get_closest_power_of_2_def)
qed

theorem closest_power_of_2_witness:
  "(\<exists>j\<le>30. get_closest_power_of_2 3 = Some (2 ^ j) \<and> 3 \<le>s (2 ^ j :: u32)) \<and>
   get_closest_power_of_2 (2 ^ 30 + 1) = None"
proof -
  have "(3 :: u32) \<le>s 2 ^ 30" "\<not> (2 ^ 30 + 1 :: u32) \<le>s 2 ^ 30" by (simp_all add: word_sle_eq)
  with closest_power_of_2 [of 3] closest_power_of_2 [of "2 ^ 30 + 1"] show ?thesis by auto
qed

section \<open>Random numbers and the clock\<close>

definition get_next_rand :: "int \<Rightarrow> int \<Rightarrow> rat" where
  "get_next_rand RAND_MAX rand = of_int rand / of_int RAND_MAX"

text \<open>The three variants of \<open>micro_time\<close>: \<open>FILETIME\<close> has two words, \<open>timeval\<close> seconds and microseconds.\<close>

definition win_micro_time :: "u32 \<Rightarrow> u32 \<Rightarrow> rat" where
  "win_micro_time dwLowDateTime dwHighDateTime =
     of_int (uint (word_cat dwHighDateTime dwLowDateTime :: u64)) * (1 / 10 ^ 7)"

definition unix_micro_time :: "int \<Rightarrow> int \<Rightarrow> rat" where
  "unix_micro_time tv_sec tv_usec = of_int tv_sec + of_int tv_usec * (1 / 10 ^ 6)"

definition other_micro_time :: rat where
  "other_micro_time = 0"

text \<open>
  The comment promises a number in \<open>(0, 1]\<close>. It is in \<open>[0, 1]\<close>, and 0 exactly when \<open>rand\<close> gives 0.
\<close>

theorem next_rand_range:
  assumes "0 \<le> r" and "r \<le> RAND_MAX" and "0 < RAND_MAX"
  shows "0 \<le> get_next_rand RAND_MAX r \<and> get_next_rand RAND_MAX r \<le> 1 \<and> (get_next_rand RAND_MAX r = 0 \<longleftrightarrow> r = 0)"
  using assms by (simp add: get_next_rand_def)

text \<open>
  The clock counts seconds, and a difference of two readings is the time between them: the
  number of ticks of 100 nanoseconds, or of microseconds.
\<close>

theorem micro_time_elapsed:
  "win_micro_time l' h' - win_micro_time l h =
     of_int (uint (word_cat h' l' :: u64) - uint (word_cat h l :: u64)) / 10 ^ 7"
  "unix_micro_time s' u' - unix_micro_time s u = of_int ((s' * 10 ^ 6 + u') - (s * 10 ^ 6 + u)) / 10 ^ 6"
  by (simp_all add: win_micro_time_def unix_micro_time_def field_simps)

end
