(* ===== verification/Perf.thy ===== *)
theory Perf
  imports Pfunc_Prelude
begin

text \<open>
  The performance counters of \<^verbatim>\<open>perf.hpp\<close>. The PAPI library is a parameter: a record of what
  its calls return. The set of events that \<open>create_events\<close> builds is the list of what was
  added to it. Messages on the console are left out.
\<close>

definition PAPI_OK :: int where "PAPI_OK = 0"

record papi =
  papi_initialized :: bool
  papi_library_ok :: bool
  papi_thread_init :: int
  papi_num_hwctrs :: int
  papi_query_event :: "int \<Rightarrow> int"
  papi_multiplex_init :: int
  papi_create_eventset :: int
  papi_set_multiplex :: int
  papi_add_event :: "int \<Rightarrow> int"
  papi_start :: "int list \<Rightarrow> int"
  papi_stop :: "int list \<Rightarrow> int"

record perf =
  event_codes :: "int list"
  num_events :: int

text \<open>The loop of the fifth step, which returns at the first event that is not supported.\<close>

fun events_supported :: "papi \<Rightarrow> int list \<Rightarrow> bool" where
  "events_supported lib [] = True"
| "events_supported lib (c # cs) = (if PAPI_OK \<noteq> papi_query_event lib c then False else events_supported lib cs)"

text \<open>The codes are stored first, whatever comes of the rest.\<close>

definition perf_initialize :: "papi \<Rightarrow> int list \<Rightarrow> int \<Rightarrow> bool \<times> perf" where
  "perf_initialize lib codes n =
     (let p = \<lparr>event_codes = take (nat n) codes, num_events = n\<rparr>
      in (if \<not> papi_initialized lib \<and> \<not> papi_library_ok lib then False
          else if PAPI_OK \<noteq> papi_thread_init lib then False
          else if \<not> events_supported lib (event_codes p) then False
          else if n > papi_num_hwctrs lib \<and> PAPI_OK \<noteq> papi_multiplex_init lib then False
          else True, p))"

text \<open>\<open>None\<close> stands for the result -1.\<close>

fun add_events :: "papi \<Rightarrow> int list \<Rightarrow> int list \<Rightarrow> int list option" where
  "add_events lib [] event_set = Some event_set"
| "add_events lib (c # cs) event_set =
     (if PAPI_OK \<noteq> papi_add_event lib c then None else add_events lib cs (event_set @ [c]))"

definition create_events :: "papi \<Rightarrow> perf \<Rightarrow> int list option" where
  "create_events lib p =
     (if PAPI_OK \<noteq> papi_create_eventset lib then None
      else if num_events p > papi_num_hwctrs lib \<and> PAPI_OK \<noteq> papi_set_multiplex lib then None
      else add_events lib (event_codes p) [])"

definition start_events :: "papi \<Rightarrow> int list \<Rightarrow> bool" where
  "start_events lib event_set = (PAPI_OK = papi_start lib event_set)"

definition stop_events :: "papi \<Rightarrow> int list \<Rightarrow> bool" where
  "stop_events lib event_set = (PAPI_OK = papi_stop lib event_set)"

definition perf_get_num_events :: "perf \<Rightarrow> int" where
  "perf_get_num_events p = num_events p"

lemma events_supported_iff: "events_supported lib cs \<longleftrightarrow> (\<forall>c\<in>set cs. papi_query_event lib c = PAPI_OK)"
  by (induction cs) auto

lemma add_events_iff:
  "add_events lib cs es = (if \<forall>c\<in>set cs. papi_add_event lib c = PAPI_OK then Some (es @ cs) else None)"
  by (induction cs arbitrary: es) auto

text \<open>
  When counting could be initialised and every supported event can be added, the set that
  each worker creates holds exactly the events asked for, in their order.
\<close>

theorem perf_counts_events_asked_for:
  assumes "perf_initialize lib codes n = (True, p)" and "n = int (length codes)"
    and "papi_create_eventset lib = PAPI_OK" and "papi_set_multiplex lib = PAPI_OK"
    and "\<And>c. papi_query_event lib c = PAPI_OK \<Longrightarrow> papi_add_event lib c = PAPI_OK"
  shows "create_events lib p = Some codes"
proof -
  have p: "event_codes p = codes" "events_supported lib codes"
    using assms(1,2) by (auto simp: perf_initialize_def Let_def split: if_splits)
  with assms(3-5) show ?thesis by (auto simp: create_events_def add_events_iff events_supported_iff)
qed

theorem perf_counts_events_asked_for_witness:
  "\<exists>lib p. perf_initialize lib [7, 9] 2 = (True, p) \<and> create_events lib p = Some [7, 9]"
proof -
  let ?lib = "\<lparr>papi_initialized = True, papi_library_ok = True, papi_thread_init = 0, papi_num_hwctrs = 1,
    papi_query_event = (\<lambda>_. 0), papi_multiplex_init = 0, papi_create_eventset = 0, papi_set_multiplex = 0,
    papi_add_event = (\<lambda>_. 0), papi_start = (\<lambda>_. 0), papi_stop = (\<lambda>_. 0)\<rparr>"
  obtain p where p: "perf_initialize ?lib [7, 9] 2 = (True, p)"
    by (simp add: perf_initialize_def PAPI_OK_def Let_def)
  from perf_counts_events_asked_for [OF p] have "create_events ?lib p = Some [7, 9]" by (simp add: PAPI_OK_def)
  with p show ?thesis by blast
qed

end
