(* ===== verification/Task.thy ===== *)
theory Task
  imports Exceptions Event Group
begin

text \<open>
  Attributes (\<^verbatim>\<open>pfunc/attribute.hpp\<close>) and tasks (\<^verbatim>\<open>pfunc/task.hpp\<close>): the records, their
  accessors, and the operations \<open>set_group\<close>, \<open>reset_completion\<close>, \<open>run\<close>, \<open>notify\<close>,
  \<open>test\<close>, \<open>wait\<close> and \<open>shallow_copy\<close> with every early return and exception. A task
  refers to its group by pointer, so the groups are passed along. The priority type of
  the attribute and its smallest value are parameters, as in the C++ template.
\<close>

section \<open>Attributes\<close>

definition QUEUE_CURRENT_THREAD :: u32 where "QUEUE_CURRENT_THREAD = 0xFFFF"
definition PFUNC_DEFAULT_TASK_LEVEL :: u32 where "PFUNC_DEFAULT_TASK_LEVEL = 0"

record 'p attribute =
  queue_number :: u32
  priority :: 'p
  waiters :: u32
  is_nested :: bool
  grouped :: bool
  level :: u32

definition attribute_make :: "'p \<Rightarrow> bool \<Rightarrow> bool \<Rightarrow> 'p attribute" where
  "attribute_make prio_min nested join =
     \<lparr>queue_number = QUEUE_CURRENT_THREAD, priority = prio_min, waiters = 1,
      is_nested = nested, grouped = join, level = PFUNC_DEFAULT_TASK_LEVEL\<rparr>"

definition get_queue_number :: "'p attribute \<Rightarrow> u32" where "get_queue_number a = queue_number a"
definition get_priority :: "'p attribute \<Rightarrow> 'p" where "get_priority a = priority a"
definition get_num_waiters :: "'p attribute \<Rightarrow> u32" where "get_num_waiters a = waiters a"
definition get_nested :: "'p attribute \<Rightarrow> bool" where "get_nested a = is_nested a"
definition get_grouped :: "'p attribute \<Rightarrow> bool" where "get_grouped a = grouped a"
definition get_level :: "'p attribute \<Rightarrow> u32" where "get_level a = level a"

definition set_queue_number :: "u32 \<Rightarrow> 'p attribute \<Rightarrow> 'p attribute" where
  "set_queue_number q a = a\<lparr>queue_number := q\<rparr>"
definition set_priority :: "'p \<Rightarrow> 'p attribute \<Rightarrow> 'p attribute" where
  "set_priority p a = a\<lparr>priority := p\<rparr>"
definition set_num_waiters :: "u32 \<Rightarrow> 'p attribute \<Rightarrow> 'p attribute" where
  "set_num_waiters n a = a\<lparr>waiters := n\<rparr>"
definition set_nested :: "bool \<Rightarrow> 'p attribute \<Rightarrow> 'p attribute" where
  "set_nested b a = a\<lparr>is_nested := b\<rparr>"
definition set_grouped :: "bool \<Rightarrow> 'p attribute \<Rightarrow> 'p attribute" where
  "set_grouped b a = a\<lparr>grouped := b\<rparr>"
definition set_level :: "u32 \<Rightarrow> 'p attribute \<Rightarrow> 'p attribute" where
  "set_level l a = a\<lparr>level := l\<rparr>"

definition attribute_less :: "('p \<Rightarrow> 'p \<Rightarrow> bool) \<Rightarrow> 'p attribute \<Rightarrow> 'p attribute \<Rightarrow> bool" where
  "attribute_less cmp one two = cmp (priority one) (priority two)"

lemmas attr_getters [pf_defs] = get_queue_number_def get_priority_def get_num_waiters_def
  get_nested_def get_grouped_def get_level_def

section \<open>Tasks\<close>

type_synonym func_ptr = nat
type_synonym groups = "group_ptr \<Rightarrow> group"

record 'p task =
  attr :: "'p attribute"
  tgroup :: "group_ptr option"
  gsize :: u32
  grank :: u32
  func :: "func_ptr option"
  testing_compl :: event
  waiting_compl :: event
  texcept :: "pfunc_exception option"

definition task_default :: "'p \<Rightarrow> 'p task" where
  "task_default prio_min =
     \<lparr>attr = attribute_make prio_min True False, tgroup = None, gsize = 0, grank = 0, func = None,
      testing_compl = event_base, waiting_compl = event_base, texcept = None\<rparr>"

text \<open>The constructor with three arguments initialises \<open>func\<close> with \<open>NULL\<close> as well.\<close>

definition task_make :: "'p attribute \<Rightarrow> group_ptr option \<Rightarrow> func_ptr option \<Rightarrow> 'p task" where
  "task_make a g f =
     \<lparr>attr = a, tgroup = g, gsize = 0, grank = 0, func = None,
      testing_compl = event_base, waiting_compl = event_base, texcept = None\<rparr>"

definition task_get_attr :: "'p task \<Rightarrow> 'p attribute" where "task_get_attr t = attr t"
definition task_get_group :: "'p task \<Rightarrow> group_ptr option" where "task_get_group t = tgroup t"
definition task_get_size :: "'p task \<Rightarrow> u32" where "task_get_size t = gsize t"
definition task_get_rank :: "'p task \<Rightarrow> u32" where "task_get_rank t = grank t"
definition task_set_attr :: "'p attribute \<Rightarrow> 'p task \<Rightarrow> 'p task" where
  "task_set_attr a t = t\<lparr>attr := a\<rparr>"
definition task_set_func :: "func_ptr option \<Rightarrow> 'p task \<Rightarrow> 'p task" where
  "task_set_func f t = t\<lparr>func := f\<rparr>"

definition task_less :: "('p \<Rightarrow> 'p \<Rightarrow> bool) \<Rightarrow> 'p task \<Rightarrow> 'p task \<Rightarrow> bool" where
  "task_less cmp one two = attribute_less cmp (attr one) (attr two)"

definition task_set_group :: "group_ptr \<Rightarrow> 'p task \<times> groups \<Rightarrow> 'p task \<times> groups" where
  "task_set_group g = (\<lambda>(t, gs).
     let t = t\<lparr>tgroup := Some g\<rparr>
     in if \<not> get_grouped (attr t) then (t, gs)
        else (case join_group (gs g) of (rank, grp') \<Rightarrow>
                (t\<lparr>gsize := group_get_size (gs g), grank := rank\<rparr>, gs(g := grp'))))"

definition task_reset_completion :: "u32 \<Rightarrow> 'p task \<Rightarrow> 'p task" where
  "task_reset_completion nwait t =
     (if get_nested (attr t)
      then t\<lparr>testing_compl := event_reset nwait (testing_compl t), texcept := None\<rparr>
      else t\<lparr>waiting_compl := event_reset nwait (waiting_compl t), texcept := None\<rparr>)"

text \<open>\<open>run\<close>; the argument is what the functor does: return, or throw something.\<close>

definition task_run :: "string \<Rightarrow> unit result \<Rightarrow> 'p task \<Rightarrow> 'p task" where
  "task_run loc outcome t =
     t\<lparr>texcept := pfunc_catch_and_store (trace_site ''task'' ''run'' loc) (texcept t) outcome\<rparr>"

definition task_notify :: "'p task \<Rightarrow> unit result \<times> 'p task" where
  "task_notify t =
     (case pfunc_check_and_rethrow (texcept t) of
        Inl x \<Rightarrow> (Inl x, t)
      | Inr _ \<Rightarrow>
          (Inr (), if get_nested (attr t) then t\<lparr>testing_compl := testable_notify (testing_compl t)\<rparr>
                   else t\<lparr>waiting_compl := waitable_notify (waiting_compl t)\<rparr>))"

text \<open>\<open>grp->leave_group ()\<close>; \<open>set_group\<close> has stored the pointer.\<close>

definition task_leave :: "'p task \<Rightarrow> groups \<Rightarrow> groups" where
  "task_leave t gs = (case tgroup t of None \<Rightarrow> gs | Some g \<Rightarrow> gs(g := leave_group (gs g)))"

definition task_test :: "'p task \<times> groups \<Rightarrow> bool result \<times> 'p task \<times> groups" where
  "task_test = (\<lambda>(t, gs).
     case pfunc_check_and_rethrow (texcept t) of
       Inl x \<Rightarrow> (Inl x, t, gs)
     | Inr _ \<Rightarrow>
         (case (if get_nested (attr t)
                then (case event_test (testing_compl t) of (b, e) \<Rightarrow> (b, t\<lparr>testing_compl := e\<rparr>))
                else (case event_test (waiting_compl t) of (b, e) \<Rightarrow> (b, t\<lparr>waiting_compl := e\<rparr>)))
          of (b, t') \<Rightarrow> (Inr b, t', if b \<and> get_grouped (attr t) then task_leave t gs else gs)))"

text \<open>
  \<open>wait\<close>. \<open>progress\<close> is the task manager's \<open>progress_wait\<close> on the testable event, \<open>None\<close>
  if it does not return; \<open>None\<close> also stands for a blocking \<open>wait\<close> that has to block.
\<close>

definition task_wait ::
  "string \<Rightarrow> (event \<Rightarrow> event result option) \<Rightarrow> 'p task \<times> groups \<Rightarrow>
   (unit result \<times> 'p task \<times> groups) option" where
  "task_wait loc progress = (\<lambda>(t, gs).
     case pfunc_check_and_rethrow (texcept t) of
       Inl x \<Rightarrow> Some (Inl x, t, gs)
     | Inr _ \<Rightarrow>
         (case (if get_nested (attr t)
                then map_option (map_sum id (\<lambda>e. t\<lparr>testing_compl := e\<rparr>)) (progress (testing_compl t))
                else map_option (\<lambda>e. Inr (t\<lparr>waiting_compl := e\<rparr>)) (event_wait (waiting_compl t)))
          of None \<Rightarrow> None
           | Some (Inr t') \<Rightarrow>
               Some (Inr (), t', if get_grouped (attr t') then task_leave t' gs else gs)
           | Some (Inl x) \<Rightarrow>
               (case pfunc_catch_and_rethrow (trace_site ''task'' ''run'' loc) (texcept t) (Inl x) of
                  (r, ex) \<Rightarrow> Some (r, t\<lparr>texcept := ex\<rparr>, gs))))"

text \<open>\<open>barrier\<close> of the task calls \<open>barrier\<close> of its group.\<close>

definition task_barrier :: "'p task \<Rightarrow> groups \<Rightarrow> barrier_call option" where
  "task_barrier t gs = map_option (\<lambda>g. group_barrier (gs g)) (tgroup t)"

definition task_shallow_copy :: "'p task \<Rightarrow> 'p task \<Rightarrow> 'p task" where
  "task_shallow_copy other t =
     t\<lparr>attr := attr other, tgroup := tgroup other, gsize := gsize other, grank := grank other\<rparr>"

text \<open>The head of the long \<open>spawn_task\<close>: what it stores in the task before the \<open>put\<close>.\<close>

definition task_prepare ::
  "'p attribute \<Rightarrow> group_ptr \<Rightarrow> func_ptr \<Rightarrow> 'p task \<times> groups \<Rightarrow> 'p task \<times> groups" where
  "task_prepare a g f = (\<lambda>(t, gs).
     case task_set_group g (task_set_attr a t, gs) of (t1, gs1) \<Rightarrow>
       (task_reset_completion (get_num_waiters a) (task_set_func (Some f) t1), gs1))"

text \<open>A number of tests of one task, by whichever waiters.\<close>

fun task_tests :: "nat \<Rightarrow> 'p task \<times> groups \<Rightarrow> bool result list \<times> 'p task \<times> groups" where
  "task_tests 0 tg = ([], tg)"
| "task_tests (Suc k) tg =
     (case task_test tg of (r, tg') \<Rightarrow> (case task_tests k tg' of (rs, tg'') \<Rightarrow> (r # rs, tg'')))"

section \<open>Lemmas\<close>

text \<open>The event that the task's attribute selects.\<close>

definition task_event :: "'p task \<Rightarrow> event" where
  "task_event t = (if is_nested (attr t) then testing_compl t else waiting_compl t)"

text \<open>What no operation on a prepared task changes.\<close>

definition same_job :: "'p task \<Rightarrow> 'p task \<Rightarrow> bool" where
  "same_job t t' \<longleftrightarrow> attr t' = attr t \<and> tgroup t' = tgroup t \<and> func t' = func t \<and>
     gsize t' = gsize t \<and> grank t' = grank t"

lemma same_job_trans: "same_job t u \<Longrightarrow> same_job u v \<Longrightarrow> same_job t v"
  by (simp add: same_job_def)

lemma task_prepare_facts:
  assumes "task_prepare a g f (t, gs) = (t', gs')"
  shows "attr t' = a" and "tgroup t' = Some g" and "func t' = Some f" and "texcept t' = None"
    and "event_state (task_event t') = PFUNC_ACTIVE_INCOMPLETE"
    and "num_waiters (task_event t') = waiters a"
    and "grouped a \<Longrightarrow> gsize t' = group_size (gs g) \<and> grank t' = rank_token (gs g) \<and>
           gs' = gs(g := snd (join_group (gs g)))"
    and "\<not> grouped a \<Longrightarrow> gsize t' = gsize t \<and> grank t' = grank t \<and> gs' = gs"
  using assms
  by (auto simp: task_prepare_def task_set_group_def task_set_attr_def task_set_func_def pf_defs
      task_reset_completion_def task_event_def event_reset_def join_group_def Let_def
      group_get_size_def split: if_splits prod.splits)

lemma task_run_facts:
  "same_job t (task_run loc out t)" "task_event (task_run loc out t) = task_event t"
  by (simp_all add: same_job_def task_run_def task_event_def)

lemma task_run_ok [simp]: "texcept (task_run loc (Inr ()) t) = texcept t"
  by (simp add: task_run_def)

lemma task_run_throws: "\<exists>e. texcept (task_run loc (Inl x) t) = Some e"
  by (cases x) (simp_all add: task_run_def)

lemma task_notify_ok:
  assumes "texcept t = None"
  shows "\<exists>t'. task_notify t = (Inr (), t') \<and> same_job t t' \<and> texcept t' = None \<and>
           event_state (task_event t') = PFUNC_ACTIVE_COMPLETE"
  using assms
  by (auto simp: task_notify_def pfunc_check_and_rethrow_def same_job_def task_event_def pf_defs)

lemma task_test_incomplete:
  assumes "texcept t = None" and "event_state (task_event t) = PFUNC_ACTIVE_INCOMPLETE"
  shows "task_test (t, gs) = (Inr False, t, gs)"
  using assms
  by (auto simp: task_test_def pfunc_check_and_rethrow_def task_event_def pf_defs
      event_test_def split: if_splits)

lemma event_test_not_incomplete:
  "event_state e \<noteq> PFUNC_ACTIVE_INCOMPLETE \<Longrightarrow>
   fst (event_test e) \<and> event_state (snd (event_test e)) \<noteq> PFUNC_ACTIVE_INCOMPLETE"
  by (auto simp: event_test_def event_consts split: prod.splits)

lemma task_test_done:
  assumes "texcept t = None" and "event_state (task_event t) \<noteq> PFUNC_ACTIVE_INCOMPLETE"
  shows "\<exists>t'. task_test (t, gs) = (Inr True, t', if grouped (attr t) then task_leave t gs else gs) \<and>
           same_job t t' \<and> texcept t' = None \<and>
           event_state (task_event t') \<noteq> PFUNC_ACTIVE_INCOMPLETE"
proof (cases "is_nested (attr t)")
  case True
  with assms event_test_not_incomplete [of "testing_compl t"] show ?thesis
    by (cases "event_test (testing_compl t)")
       (simp add: task_test_def pfunc_check_and_rethrow_def same_job_def task_event_def attr_getters)
next
  case False
  with assms event_test_not_incomplete [of "waiting_compl t"] show ?thesis
    by (cases "event_test (waiting_compl t)")
       (simp add: task_test_def pfunc_check_and_rethrow_def same_job_def task_event_def attr_getters)
qed

lemma task_tests_done:
  assumes "texcept t = None" and "event_state (task_event t) \<noteq> PFUNC_ACTIVE_INCOMPLETE"
  shows "\<exists>t'. task_tests k (t, gs) =
           (replicate k (Inr True), t', if grouped (attr t) then (task_leave t ^^ k) gs else gs)"
  using assms
proof (induction k arbitrary: t gs)
  case 0
  show ?case by simp
next
  case (Suc k)
  from task_test_done [OF Suc.prems, of gs] obtain t1
    where t1: "task_test (t, gs) = (Inr True, t1, if grouped (attr t) then task_leave t gs else gs)"
      "same_job t t1" "texcept t1 = None"
      "event_state (task_event t1) \<noteq> PFUNC_ACTIVE_INCOMPLETE" by blast
  have "task_leave t1 = task_leave t" "attr t1 = attr t"
    using t1(2) by (auto simp: task_leave_def same_job_def)
  moreover obtain t2 where "task_tests k (t1, if grouped (attr t) then task_leave t gs else gs) =
      (replicate k (Inr True), t2, if grouped (attr t1)
         then (task_leave t1 ^^ k) (if grouped (attr t) then task_leave t gs else gs)
         else if grouped (attr t) then task_leave t gs else gs)"
    using Suc.IH [OF t1(3,4)] by blast
  ultimately show ?case using t1(1) by (simp add: funpow_swap1)
qed

lemma leaves_token:
  "tgroup t = Some g \<Longrightarrow>
   rank_token ((task_leave t ^^ k) gs g) = rank_token (gs g) - of_nat k"
  by (induction k)
     (auto simp: task_leave_def leave_group_def pf_defs algebra_simps)

lemma task_tests_throw:
  assumes "texcept t = Some e"
  shows "task_tests k (t, gs) = (replicate k (Inl (PfuncExn e)), t, gs)"
  by (induction k)
     (use assms in \<open>auto simp: task_test_def pfunc_check_and_rethrow_def\<close>)

section \<open>Properties\<close>

text \<open>The life of a task up to its notification, and \<open>k\<close> tests afterwards.\<close>

definition task_life ::
  "string \<Rightarrow> 'p attribute \<Rightarrow> group_ptr \<Rightarrow> func_ptr \<Rightarrow> unit result \<Rightarrow> nat \<Rightarrow> 'p task \<times> groups \<Rightarrow>
   unit result \<times> bool result list \<times> 'p task \<times> groups" where
  "task_life loc a g f out k tg =
     (case task_prepare a g f tg of (t, gs) \<Rightarrow>
        (case task_notify (task_run loc out t) of (r, t') \<Rightarrow> (r, task_tests k (t', gs))))"

text \<open>
  A task completes. Whatever the task and its groups were before, right after
  \<open>spawn_task\<close> has prepared it a test fails and changes nothing; once a functor that
  returns normally has been run and notified, every one of any number of tests succeeds.
  The task carries the rank and size of its group exactly when its attribute is grouped.
\<close>

theorem task_completes:
  "(case task_prepare a g f (t, gs) of (t', gs') \<Rightarrow>
      task_test (t', gs') = (Inr False, t', gs') \<and> func t' = Some f \<and>
      (if grouped a then gsize t' = group_size (gs g) \<and> grank t' = rank_token (gs g)
       else gsize t' = gsize t \<and> grank t' = grank t)) \<and>
   fst (task_life loc a g f (Inr ()) k (t, gs)) = Inr () \<and>
   fst (snd (task_life loc a g f (Inr ()) k (t, gs))) = replicate k (Inr True)"
proof -
  obtain t1 gs1 where prep: "task_prepare a g f (t, gs) = (t1, gs1)"
    by (cases "task_prepare a g f (t, gs)")
  note facts = task_prepare_facts [OF prep]
  have "texcept (task_run loc (Inr ()) t1) = None" using facts(4) by simp
  from task_notify_ok [OF this] obtain t2 where t2: "task_notify (task_run loc (Inr ()) t1) = (Inr (), t2)"
    "texcept t2 = None" "event_state (task_event t2) = PFUNC_ACTIVE_COMPLETE" by blast
  from t2(3) have "event_state (task_event t2) \<noteq> PFUNC_ACTIVE_INCOMPLETE" by (simp add: event_consts)
  from task_tests_done [OF t2(2) this, of k gs1] obtain t3 gs3
    where "task_tests k (t2, gs1) = (replicate k (Inr True), t3, gs3)" by blast
  then show ?thesis
    using facts(3,7,8) t2(1) task_test_incomplete [OF facts(4,5)]
    by (simp add: task_life_def prep)
qed

text \<open>
  Every successful test of a grouped task leaves the group, although the task joined
  it once: after \<open>k\<close> tests the token that hands out the ranks is at its old value plus one
  minus \<open>k\<close>, so with two waiters the next task that joins gets a rank that was never free.
\<close>

theorem grouped_task_leaves_per_test:
  assumes "grouped a"
  shows "rank_token (snd (snd (snd (task_life loc a g f (Inr ()) k (t, gs)))) g) =
           rank_token (gs g) + 1 - of_nat k"
proof -
  obtain t1 gs1 where prep: "task_prepare a g f (t, gs) = (t1, gs1)"
    by (cases "task_prepare a g f (t, gs)")
  note facts = task_prepare_facts [OF prep]
  have "texcept (task_run loc (Inr ()) t1) = None" using facts(4) by simp
  from task_notify_ok [OF this] obtain t2 where t2: "task_notify (task_run loc (Inr ()) t1) = (Inr (), t2)"
    "same_job (task_run loc (Inr ()) t1) t2"
    "texcept t2 = None" "event_state (task_event t2) = PFUNC_ACTIVE_COMPLETE" by blast
  from t2(4) have inc: "event_state (task_event t2) \<noteq> PFUNC_ACTIVE_INCOMPLETE"
    by (simp add: event_consts)
  have "same_job t1 t2" using task_run_facts(1) t2(2) by (rule same_job_trans)
  then have job: "attr t2 = a" "tgroup t2 = Some g" using facts(1,2) by (simp_all add: same_job_def)
  have "rank_token (gs1 g) = rank_token (gs g) + 1"
    using facts(7) assms by (simp add: join_group_def pf_defs)
  with task_tests_done [OF t2(3) inc, of k gs1] leaves_token [OF job(2), of k gs1] show ?thesis
    using assms job by (auto simp: task_life_def prep t2(1))
qed

theorem grouped_task_leaves_per_test_witness:
  "rank_token (snd (snd (snd (task_life ''f:1'' (set_grouped True (set_num_waiters 2
     (attribute_make (0::int) True False))) 5 9 (Inr ()) 2
     (task_default 0, (\<lambda>_. group_make2 1 4))))) 5) = - 1"
proof -
  have "grouped (set_grouped True (set_num_waiters 2 (attribute_make (0::int) True False)))"
    by (simp add: set_grouped_def)
  from grouped_task_leaves_per_test [OF this, of "''f:1''" 5 9 2 "task_default 0" "\<lambda>_. group_make2 1 4"]
  show ?thesis by (simp add: group_make2_def)
qed

text \<open>
  A task whose functor throws is never notified. \<open>notify\<close> rethrows the stored
  exception before it touches the completion event, so the event stays incomplete, the
  exception goes to the worker that ran the task, and every later test throws it too.
\<close>

theorem task_that_throws_is_not_notified:
  "\<exists>e. fst (task_life loc a g f (Inl x) k (t, gs)) = Inl (PfuncExn e) \<and>
       fst (snd (task_life loc a g f (Inl x) k (t, gs))) = replicate k (Inl (PfuncExn e)) \<and>
       event_state (task_event (fst (snd (snd (task_life loc a g f (Inl x) k (t, gs)))))) =
         PFUNC_ACTIVE_INCOMPLETE"
proof -
  obtain t1 gs1 where prep: "task_prepare a g f (t, gs) = (t1, gs1)"
    by (cases "task_prepare a g f (t, gs)")
  obtain e where e: "texcept (task_run loc (Inl x) t1) = Some e" using task_run_throws by blast
  then have "task_notify (task_run loc (Inl x) t1) = (Inl (PfuncExn e), task_run loc (Inl x) t1)"
    by (simp add: task_notify_def pfunc_check_and_rethrow_def)
  then show ?thesis
    using task_prepare_facts(5) [OF prep]
    by (simp add: task_life_def prep task_tests_throw [OF e] task_run_facts)
qed

end
