(* ===== verification/Task_Queues.thy ===== *)
theory Task_Queues
  imports Pfunc_Prelude
begin

text \<open>
  The task queues of \<^verbatim>\<open>pfunc/task_queue_set.hpp\<close> and its four specialisations in
  \<^verbatim>\<open>fifo.hpp\<close>, \<^verbatim>\<open>lifo.hpp\<close>, \<^verbatim>\<open>cilk.hpp\<close> and \<^verbatim>\<open>prio.hpp\<close>. \<open>test_and_get\<close> and
  \<open>put\<close> run under the lock of their queue and are single operations here. An index out of
  range, undefined in C++, gives \<open>None\<close>. What the four have in common is the locale
  \<open>queue_policy\<close>; what their users may rely on is the locale \<open>task_queue\<close>.
\<close>

section \<open>State\<close>

record 'v queue_set =
  queues :: "'v list list"
  num_queues :: u32

text \<open>\<open>TaskPredicatePair\<close>: which tasks may be taken from the own queue and which stolen.\<close>

record 'v pred_pair =
  own_pred :: "'v \<Rightarrow> bool"
  steal_pred :: "'v \<Rightarrow> bool"

definition queue_set_make :: "u32 \<Rightarrow> 'v queue_set" where
  "queue_set_make n = \<lparr>queues = replicate (unat n) [], num_queues = n\<rparr>"

definition set_queue :: "u32 \<Rightarrow> 'v list \<Rightarrow> 'v queue_set \<Rightarrow> 'v queue_set" where
  "set_queue i q s = s\<lparr>queues := (queues s)[unat i := q]\<rparr>"

text \<open>\<open>data[queue_num].queue\<close>\<close>

definition get_queue :: "u32 \<Rightarrow> 'v queue_set \<Rightarrow> 'v list option" where
  "get_queue i s = (if unat i < length (queues s) then Some (queues s ! unat i) else None)"

definition may_take :: "'v pred_pair \<Rightarrow> bool \<Rightarrow> 'v \<Rightarrow> bool" where
  "may_take cnd own v = (if own then own_pred cnd v else steal_pred cnd v)"

text \<open>
  The loop of \<open>get\<close>, with \<open>k\<close> attempts left. The attempts are counted in \<open>int\<close>, so a
  number of queues of \<open>2^31\<close> or more gives no attempt at all.
\<close>

fun get_loop ::
  "(u32 \<Rightarrow> bool \<Rightarrow> 'v queue_set \<Rightarrow> ('v option \<times> 'v queue_set) option) \<Rightarrow> u32 \<Rightarrow> nat \<Rightarrow> u32 \<Rightarrow>
   'v queue_set \<Rightarrow> ('v option \<times> 'v queue_set) option" where
  "get_loop test queue_num 0 i s = Some (None, s)"
| "get_loop test queue_num (Suc k) i s =
     (let real_i = i mod num_queues s
      in case test real_i (real_i = queue_num) s of
           None \<Rightarrow> None
         | Some (Some task, s') \<Rightarrow> Some (Some task, s')
         | Some (None, s') \<Rightarrow> get_loop test queue_num k (i + 1) s')"

definition attempts :: "u32 \<Rightarrow> nat" where
  "attempts n = nat (sint n)"

section \<open>The four policies\<close>

subsection \<open>FIFO\<close>

definition fifo_test_and_get ::
  "'v pred_pair \<Rightarrow> u32 \<Rightarrow> bool \<Rightarrow> 'v queue_set \<Rightarrow> ('v option \<times> 'v queue_set) option" where
  "fifo_test_and_get cnd queue_num own s =
     (case get_queue queue_num s of
        None \<Rightarrow> None
      | Some queue \<Rightarrow>
          Some (if queue \<noteq> [] \<and> (if own then own_pred cnd (hd queue) else steal_pred cnd (hd queue))
                then (Some (hd queue), set_queue queue_num (tl queue) s) else (None, s)))"

definition fifo_get ::
  "u32 \<Rightarrow> 'v pred_pair \<Rightarrow> 'v queue_set \<Rightarrow> ('v option \<times> 'v queue_set) option" where
  "fifo_get queue_num cnd s =
     get_loop (fifo_test_and_get cnd) queue_num (attempts (num_queues s)) queue_num s"

definition fifo_put :: "u32 \<Rightarrow> 'v \<Rightarrow> 'v queue_set \<Rightarrow> 'v queue_set option" where
  "fifo_put queue_num v s =
     map_option (\<lambda>queue. set_queue queue_num (queue @ [v]) s) (get_queue queue_num s)"

subsection \<open>LIFO\<close>

text \<open>The head of the list is the top of the stack.\<close>

definition lifo_test_and_get ::
  "'v pred_pair \<Rightarrow> u32 \<Rightarrow> bool \<Rightarrow> 'v queue_set \<Rightarrow> ('v option \<times> 'v queue_set) option" where
  "lifo_test_and_get cnd queue_num own s =
     (case get_queue queue_num s of
        None \<Rightarrow> None
      | Some queue \<Rightarrow>
          Some (if queue \<noteq> [] \<and> (if own then own_pred cnd (hd queue) else steal_pred cnd (hd queue))
                then (Some (hd queue), set_queue queue_num (tl queue) s) else (None, s)))"

definition lifo_get ::
  "u32 \<Rightarrow> 'v pred_pair \<Rightarrow> 'v queue_set \<Rightarrow> ('v option \<times> 'v queue_set) option" where
  "lifo_get queue_num cnd s =
     get_loop (lifo_test_and_get cnd) queue_num (attempts (num_queues s)) queue_num s"

definition lifo_put :: "u32 \<Rightarrow> 'v \<Rightarrow> 'v queue_set \<Rightarrow> 'v queue_set option" where
  "lifo_put queue_num v s =
     map_option (\<lambda>queue. set_queue queue_num (v # queue) s) (get_queue queue_num s)"

subsection \<open>Cilk\<close>

definition cilk_test_and_get_front ::
  "'v pred_pair \<Rightarrow> u32 \<Rightarrow> 'v queue_set \<Rightarrow> ('v option \<times> 'v queue_set) option" where
  "cilk_test_and_get_front cnd queue_num s =
     (case get_queue queue_num s of
        None \<Rightarrow> None
      | Some queue \<Rightarrow>
          Some (if queue \<noteq> [] \<and> own_pred cnd (hd queue)
                then (Some (hd queue), set_queue queue_num (tl queue) s) else (None, s)))"

definition cilk_test_and_get_back ::
  "'v pred_pair \<Rightarrow> u32 \<Rightarrow> 'v queue_set \<Rightarrow> ('v option \<times> 'v queue_set) option" where
  "cilk_test_and_get_back cnd queue_num s =
     (case get_queue queue_num s of
        None \<Rightarrow> None
      | Some queue \<Rightarrow>
          Some (if queue \<noteq> [] \<and> steal_pred cnd (last queue)
                then (Some (last queue), set_queue queue_num (butlast queue) s) else (None, s)))"

definition cilk_get ::
  "u32 \<Rightarrow> 'v pred_pair \<Rightarrow> 'v queue_set \<Rightarrow> ('v option \<times> 'v queue_set) option" where
  "cilk_get queue_num cnd s =
     get_loop (\<lambda>real_i own. if own then cilk_test_and_get_front cnd real_i
                            else cilk_test_and_get_back cnd real_i)
       queue_num (attempts (num_queues s)) queue_num s"

definition cilk_put :: "u32 \<Rightarrow> 'v \<Rightarrow> 'v queue_set \<Rightarrow> 'v queue_set option" where
  "cilk_put queue_num v s =
     map_option (\<lambda>queue. set_queue queue_num (v # queue) s) (get_queue queue_num s)"

subsection \<open>Priorities\<close>

text \<open>
  \<open>std::priority_queue\<close>: the top is an element that the comparison puts before no other.
  Which one among equals is left open by the standard; here it is the one put last.
\<close>

fun prio_top :: "('v \<Rightarrow> 'v \<Rightarrow> bool) \<Rightarrow> 'v list \<Rightarrow> 'v" where
  "prio_top cmp (x # y # zs) =
     (let m = prio_top cmp (y # zs) in if cmp x m then m else x)"
| "prio_top cmp xs = hd xs"

definition prio_test_and_get ::
  "('v \<Rightarrow> 'v \<Rightarrow> bool) \<Rightarrow> 'v pred_pair \<Rightarrow> u32 \<Rightarrow> bool \<Rightarrow> 'v queue_set \<Rightarrow>
   ('v option \<times> 'v queue_set) option" where
  "prio_test_and_get cmp cnd queue_num own s =
     (case get_queue queue_num s of
        None \<Rightarrow> None
      | Some queue \<Rightarrow>
          (let top = prio_top cmp queue
           in Some (if queue \<noteq> [] \<and> (if own then own_pred cnd top else steal_pred cnd top)
                    then (Some top, set_queue queue_num (remove1 top queue) s) else (None, s))))"

definition prio_get ::
  "('v \<Rightarrow> 'v \<Rightarrow> bool) \<Rightarrow> u32 \<Rightarrow> 'v pred_pair \<Rightarrow> 'v queue_set \<Rightarrow> ('v option \<times> 'v queue_set) option"
where
  "prio_get cmp queue_num cnd s =
     get_loop (prio_test_and_get cmp cnd) queue_num (attempts (num_queues s)) queue_num s"

definition prio_put :: "u32 \<Rightarrow> 'v \<Rightarrow> 'v queue_set \<Rightarrow> 'v queue_set option" where
  "prio_put queue_num v s =
     map_option (\<lambda>queue. set_queue queue_num (v # queue) s) (get_queue queue_num s)"

section \<open>What the policies have in common\<close>

definition queues_ok :: "'v queue_set \<Rightarrow> bool" where
  "queues_ok s \<longleftrightarrow> length (queues s) = unat (num_queues s) \<and> num_queues s \<noteq> 0 \<and>
     unat (num_queues s) < 2 ^ 31"

definition content :: "'v queue_set \<Rightarrow> 'v multiset" where
  "content s = (\<Sum>q\<leftarrow>queues s. mset q)"

text \<open>What \<open>test_and_get\<close> amounts to when \<open>pop own\<close> says which task a queue offers.\<close>

definition test_pop ::
  "(bool \<Rightarrow> 'v list \<Rightarrow> ('v \<times> 'v list) option) \<Rightarrow> 'v pred_pair \<Rightarrow> u32 \<Rightarrow> bool \<Rightarrow> 'v queue_set \<Rightarrow>
   ('v option \<times> 'v queue_set) option" where
  "test_pop pop cnd i own s =
     map_option (\<lambda>queue. case pop own queue of
        Some (v, rest) \<Rightarrow> if may_take cnd own v then (Some v, set_queue i rest s) else (None, s)
      | None \<Rightarrow> (None, s)) (get_queue i s)"

text \<open>Queue \<open>i\<close> has a task for a thread whose own queue is \<open>queue_num\<close>.\<close>

definition offers ::
  "(bool \<Rightarrow> 'v list \<Rightarrow> ('v \<times> 'v list) option) \<Rightarrow> 'v pred_pair \<Rightarrow> u32 \<Rightarrow> 'v queue_set \<Rightarrow> u32 \<Rightarrow>
   'v \<Rightarrow> 'v list \<Rightarrow> bool" where
  "offers pop cnd queue_num s i v rest \<longleftrightarrow>
     unat i < length (queues s) \<and> pop (i = queue_num) (queues s ! unat i) = Some (v, rest) \<and>
     may_take cnd (i = queue_num) v"

lemma attempts_small: "unat n < 2 ^ 31 \<Longrightarrow> attempts n = unat n"
proof -
  assume "unat n < 2 ^ 31"
  then have "int (unat n) < int (2 ^ 31)" by (simp only: of_nat_less_iff)
  then have "uint n < 2 ^ 31" by simp
  then have "signed_take_bit 31 (uint n) = uint n"
    by (intro signed_take_bit_int_eq_self order_trans [OF _ uint_ge_0]) simp_all
  then have "sint n = uint n" by (simp add: sint_uint)
  then show ?thesis by (simp add: attempts_def)
qed

lemma mset_list_update:
  "i < length qs \<Longrightarrow> (\<Sum>q\<leftarrow>qs[i := q]. mset q) + mset (qs ! i) = (\<Sum>q\<leftarrow>qs. mset q) + mset q"
  by (induction qs arbitrary: i) (auto simp: nth_Cons split: nat.splits)

lemma content_set_queue:
  "unat i < length (queues s) \<Longrightarrow>
   content (set_queue i q s) + mset (queues s ! unat i) = content s + mset q"
  by (simp add: content_def set_queue_def mset_list_update)

lemma set_queue_sel [simp]:
  "num_queues (set_queue i q s) = num_queues s"
  "length (queues (set_queue i q s)) = length (queues s)"
  "queues_ok (set_queue i q s) = queues_ok s"
  by (simp_all add: set_queue_def queues_ok_def)

lemma queues_ok_make: "n \<noteq> 0 \<Longrightarrow> unat n < 2 ^ 31 \<Longrightarrow> queues_ok (queue_set_make n)"
  by (simp add: queues_ok_def queue_set_make_def)

lemma content_make [simp]: "content (queue_set_make n) = {#}"
proof -
  have "(\<Sum>q\<leftarrow>replicate m []. mset q) = {#}" for m by (induction m) simp_all
  then show ?thesis by (simp add: content_def queue_set_make_def)
qed

lemma real_i_in_range: "queues_ok s \<Longrightarrow> unat (i mod num_queues s) < length (queues s)"
  by (simp add: queues_ok_def unat_mod_distrib unat_gt_0)

text \<open>The attempts of \<open>get\<close> visit every queue.\<close>

lemma unat_visit:
  "unat q + j < 2 ^ 32 \<Longrightarrow> unat ((q + of_nat j) mod n :: u32) = (unat q + j) mod unat n"
  by (simp add: unat_mod_distrib unat_word_ariths unat_of_nat take_bit_eq_mod)

lemma sum_below_32: "a < n + n \<Longrightarrow> n < 2 ^ 31 \<Longrightarrow> a < (2::nat) ^ 32"
  by simp

lemma visits_all:
  assumes "unat q < unat n" and "unat (n::u32) < 2 ^ 31" and "unat r < unat n"
  shows "\<exists>j<unat n. (q + of_nat j) mod n = r"
proof -
  let ?j = "(unat r + unat n - unat q) mod unat n"
  have "n \<noteq> 0" using assms(1) by auto
  then have less: "?j < unat n" by (simp add: unat_gt_0)
  have "(unat q + ?j) mod unat n = (unat q + (unat r + unat n - unat q)) mod unat n"
    by (simp add: mod_add_right_eq)
  also have "\<dots> = unat r" using assms by simp
  finally have "(unat q + ?j) mod unat n = unat r" .
  moreover have "unat q + ?j < 2 ^ 32"
    using add_strict_mono [OF assms(1) less] assms(2) by (rule sum_below_32)
  ultimately have "unat ((q + of_nat ?j) mod n) = unat r" by (simp add: unat_visit)
  then have "(q + of_nat ?j) mod n = r" by (simp add: word_unat_eq_iff)
  with less show ?thesis by blast
qed

section \<open>The interface of a policy\<close>

text \<open>
  A policy says how a queue is extended and which of its tasks it offers to its owner or
  to a thief; neither loses or invents a task.
\<close>

locale queue_policy =
  fixes push :: "'v \<Rightarrow> 'v list \<Rightarrow> 'v list"
    and pop :: "bool \<Rightarrow> 'v list \<Rightarrow> ('v \<times> 'v list) option"
  assumes push_mset: "mset (push v q) = add_mset v (mset q)"
    and pop_mset: "pop own q = Some (v, rest) \<Longrightarrow> mset q = add_mset v (mset rest)"
    and pop_nonempty: "q \<noteq> [] \<Longrightarrow> pop own q \<noteq> None"
begin

definition accepts :: "'v pred_pair \<Rightarrow> u32 \<Rightarrow> 'v queue_set \<Rightarrow> u32 \<Rightarrow> bool" where
  "accepts cnd queue_num s i \<longleftrightarrow> (\<exists>v rest. offers pop cnd queue_num s i v rest)"

lemma test_pop_cases:
  assumes "unat i < length (queues s)"
  shows "(test_pop pop cnd i (i = q) s = Some (None, s) \<and> \<not> accepts cnd q s i) \<or>
         (\<exists>v rest. test_pop pop cnd i (i = q) s = Some (Some v, set_queue i rest s) \<and>
                   offers pop cnd q s i v rest)"
  using assms
  by (auto simp: test_pop_def accepts_def offers_def get_queue_def split: option.splits)

lemma offers_content:
  assumes "offers pop cnd q s i v rest"
  shows "content s = add_mset v (content (set_queue i rest s))"
proof -
  have i: "unat i < length (queues s)"
    and "mset (queues s ! unat i) = add_mset v (mset rest)"
    using assms by (auto simp: offers_def dest: pop_mset)
  with content_set_queue [OF i, of rest] show ?thesis by simp
qed

text \<open>The loop: it finds nothing and no queue it visits accepts, or it takes the first offer.\<close>

lemma get_loop_cases:
  assumes "queues_ok s"
  shows "(get_loop (test_pop pop cnd) q k i s = Some (None, s) \<and>
            (\<forall>j<k. \<not> accepts cnd q s ((i + of_nat j) mod num_queues s))) \<or>
         (\<exists>j<k. \<exists>v rest.
            get_loop (test_pop pop cnd) q k i s =
              Some (Some v, set_queue ((i + of_nat j) mod num_queues s) rest s) \<and>
            offers pop cnd q s ((i + of_nat j) mod num_queues s) v rest \<and>
            (\<forall>j'<j. \<not> accepts cnd q s ((i + of_nat j') mod num_queues s)))"
proof (induction k arbitrary: i)
  case 0
  show ?case by simp
next
  case (Suc k)
  let ?r = "i mod num_queues s"
  have range: "unat ?r < length (queues s)" by (rule real_i_in_range [OF assms])
  have shift: "i + 1 + of_nat j = i + of_nat (Suc j)" for j by (simp add: algebra_simps)
  from test_pop_cases [OF range, of cnd q] show ?case
  proof (elim disjE exE conjE)
    fix v rest
    assume "test_pop pop cnd ?r (?r = q) s = Some (Some v, set_queue ?r rest s)"
      and "offers pop cnd q s ?r v rest"
    then show ?thesis by (intro disjI2 exI [of _ 0]) (auto simp: Let_def)
  next
    assume none: "test_pop pop cnd ?r (?r = q) s = Some (None, s)" and no: "\<not> accepts cnd q s ?r"
    then have loop: "get_loop (test_pop pop cnd) q (Suc k) i s =
        get_loop (test_pop pop cnd) q k (i + 1) s" by (simp add: Let_def)
    show ?thesis
      using Suc.IH [of "i + 1", unfolded shift]
    proof (elim disjE exE conjE)
      assume "get_loop (test_pop pop cnd) q k (i + 1) s = Some (None, s)"
        and "\<forall>j<k. \<not> accepts cnd q s ((i + of_nat (Suc j)) mod num_queues s)"
      with no show ?thesis unfolding loop by (auto simp: less_Suc_eq_0_disj)
    next
      fix j v rest
      assume "j < k"
        and "get_loop (test_pop pop cnd) q k (i + 1) s =
              Some (Some v, set_queue ((i + of_nat (Suc j)) mod num_queues s) rest s)"
        and "offers pop cnd q s ((i + of_nat (Suc j)) mod num_queues s) v rest"
        and "\<forall>j'<j. \<not> accepts cnd q s ((i + of_nat (Suc j')) mod num_queues s)"
      with no show ?thesis
        unfolding loop by (intro disjI2 exI [of _ "Suc j"]) (auto simp: less_Suc_eq_0_disj)
    qed
  qed
qed

definition policy_get ::
  "u32 \<Rightarrow> 'v pred_pair \<Rightarrow> 'v queue_set \<Rightarrow> ('v option \<times> 'v queue_set) option" where
  "policy_get q cnd s = get_loop (test_pop pop cnd) q (attempts (num_queues s)) q s"

definition policy_put :: "u32 \<Rightarrow> 'v \<Rightarrow> 'v queue_set \<Rightarrow> 'v queue_set option" where
  "policy_put q v s = map_option (\<lambda>queue. set_queue q (push v queue) s) (get_queue q s)"

text \<open>
  \<open>get\<close> for a thread whose own queue exists: nothing, and no queue accepts; or the offer
  of the own queue if it accepts, or else the offer of some other queue.
\<close>

lemma get_cases:
  assumes ok: "queues_ok s" and q: "unat q < unat (num_queues s)"
  shows "(policy_get q cnd s = Some (None, s) \<and>
            (\<forall>i. unat i < unat (num_queues s) \<longrightarrow> \<not> accepts cnd q s i)) \<or>
         (\<exists>i v rest. policy_get q cnd s = Some (Some v, set_queue i rest s) \<and>
            offers pop cnd q s i v rest \<and> (accepts cnd q s q \<longrightarrow> i = q))"
proof -
  let ?n = "num_queues s"
  have small: "unat ?n < 2 ^ 31" using ok by (simp add: queues_ok_def)
  then have att: "attempts ?n = unat ?n" by (rule attempts_small)
  have self: "q mod ?n = q" using q by (simp add: word_unat_eq_iff unat_mod_distrib)
  have all: "\<exists>j<unat ?n. (q + of_nat j) mod ?n = i" if "unat i < unat ?n" for i
    by (rule visits_all [OF q small that])
  show ?thesis
    using get_loop_cases [OF ok, of cnd q "attempts ?n" q,
        folded policy_get_def, unfolded att]
  proof (elim disjE exE conjE)
    assume "policy_get q cnd s = Some (None, s)"
      and "\<forall>j<unat ?n. \<not> accepts cnd q s ((q + of_nat j) mod ?n)"
    then show ?thesis using all by metis
  next
    fix j v rest
    assume j: "policy_get q cnd s = Some (Some v, set_queue ((q + of_nat j) mod ?n) rest s)"
      "offers pop cnd q s ((q + of_nat j) mod ?n) v rest"
      "\<forall>j'<j. \<not> accepts cnd q s ((q + of_nat j') mod ?n)"
    have "(q + of_nat j) mod ?n = q" if "accepts cnd q s q"
    proof (cases j)
      case (Suc m)
      then have "\<not> accepts cnd q s ((q + of_nat 0) mod ?n)" using j(3) by blast
      with that self show ?thesis by simp
    qed (simp add: self)
    with j(1,2) show ?thesis by blast
  qed
qed

lemma put_content:
  assumes "queues_ok s" and "unat q < unat (num_queues s)"
  shows "\<exists>s'. policy_put q v s = Some s' \<and> queues_ok s' \<and> num_queues s' = num_queues s \<and>
           content s' = add_mset v (content s)"
proof -
  have i: "unat q < length (queues s)" using assms by (simp add: queues_ok_def)
  with content_set_queue [OF i, of "push v (queues s ! unat q)"] assms(1) show ?thesis
    by (simp add: policy_put_def get_queue_def push_mset)
qed

end

section \<open>The interface of the task queues\<close>

text \<open>
  What the task manager relies on: a \<open>put\<close> or a \<open>get\<close> of a thread whose own queue exists
  is defined, a \<open>put\<close> adds its task to the bag of queued tasks, a \<open>get\<close> takes one task
  that one of its predicates allows, or nothing.
\<close>

locale task_queue =
  fixes put :: "u32 \<Rightarrow> 'v \<Rightarrow> 'q \<Rightarrow> 'q option"
    and get :: "u32 \<Rightarrow> 'v pred_pair \<Rightarrow> 'q \<Rightarrow> ('v option \<times> 'q) option"
    and size_of :: "'q \<Rightarrow> u32"
    and ok :: "'q \<Rightarrow> bool"
    and bag :: "'q \<Rightarrow> 'v multiset"
  assumes put_ok: "ok s \<Longrightarrow> unat i < unat (size_of s) \<Longrightarrow>
      \<exists>s'. put i v s = Some s' \<and> ok s' \<and> size_of s' = size_of s \<and> bag s' = add_mset v (bag s)"
    and get_ok: "ok s \<Longrightarrow> unat i < unat (size_of s) \<Longrightarrow>
      \<exists>r s'. get i cnd s = Some (r, s') \<and> ok s' \<and> size_of s' = size_of s \<and>
        (case r of None \<Rightarrow> s' = s
         | Some v \<Rightarrow> bag s = add_mset v (bag s') \<and> (own_pred cnd v \<or> steal_pred cnd v))"

text \<open>A sequence of operations by any threads; what the \<open>get\<close>s return, in order.\<close>

datatype 'v queue_op = Put u32 'v | Get u32 "'v pred_pair"

fun op_queue :: "'v queue_op \<Rightarrow> u32" where
  "op_queue (Put i v) = i"
| "op_queue (Get i cnd) = i"

fun op_puts :: "'v queue_op list \<Rightarrow> 'v list" where
  "op_puts [] = []"
| "op_puts (Put i v # ops) = v # op_puts ops"
| "op_puts (Get i cnd # ops) = op_puts ops"

fun run_queue ::
  "(u32 \<Rightarrow> 'v \<Rightarrow> 'q \<Rightarrow> 'q option) \<Rightarrow> (u32 \<Rightarrow> 'v pred_pair \<Rightarrow> 'q \<Rightarrow> ('v option \<times> 'q) option) \<Rightarrow>
   'v queue_op list \<Rightarrow> 'q \<Rightarrow> ('v list \<times> 'q) option" where
  "run_queue put get [] s = Some ([], s)"
| "run_queue put get (Put i v # ops) s =
     (case put i v s of None \<Rightarrow> None | Some s' \<Rightarrow> run_queue put get ops s')"
| "run_queue put get (Get i cnd # ops) s =
     (case get i cnd s of None \<Rightarrow> None
      | Some (r, s') \<Rightarrow>
          map_option (\<lambda>(vs, u). (case r of None \<Rightarrow> vs | Some v \<Rightarrow> v # vs, u))
            (run_queue put get ops s'))"

context task_queue
begin

lemma run_queue_conserves:
  assumes "ok s" and "list_all (\<lambda>p. unat (op_queue p) < unat (size_of s)) ops"
  shows "\<exists>vs s'. run_queue put get ops s = Some (vs, s') \<and> ok s' \<and>
           mset (op_puts ops) + bag s = mset vs + bag s'"
  using assms
proof (induction ops arbitrary: s)
  case Nil
  then show ?case by simp
next
  case (Cons p ops)
  show ?case
  proof (cases p)
    case (Put i v)
    with Cons.prems put_ok [of s i v] obtain s1
      where s1: "put i v s = Some s1" "ok s1" "size_of s1 = size_of s" "bag s1 = add_mset v (bag s)"
      by auto
    with Cons.prems Cons.IH [OF s1(2)] Put show ?thesis by auto
  next
    case (Get i cnd)
    with Cons.prems get_ok [of s i cnd] obtain r s1
      where s1: "get i cnd s = Some (r, s1)" "ok s1" "size_of s1 = size_of s"
        and r: "case r of None \<Rightarrow> s1 = s | Some v \<Rightarrow> bag s = add_mset v (bag s1) \<and>
                  (own_pred cnd v \<or> steal_pred cnd v)"
      by auto
    from Cons.prems s1(3) Cons.IH [OF s1(2)] obtain vs s2
      where "run_queue put get ops s1 = Some (vs, s2)" "ok s2"
        "mset (op_puts ops) + bag s1 = mset vs + bag s2" by auto
    with r s1(1) Get show ?thesis by (cases r) auto
  qed
qed

end

text \<open>Every policy provides this interface.\<close>

sublocale queue_policy \<subseteq> taskq: task_queue policy_put policy_get num_queues queues_ok content
proof
  fix s :: "'v queue_set" and i :: u32 and v :: 'v and cnd :: "'v pred_pair"
  assume ok: "queues_ok s" and i: "unat i < unat (num_queues s)"
  show "\<exists>s'. policy_put i v s = Some s' \<and> queues_ok s' \<and> num_queues s' = num_queues s \<and>
          content s' = add_mset v (content s)"
    by (rule put_content [OF ok i])
  show "\<exists>r s'. policy_get i cnd s = Some (r, s') \<and> queues_ok s' \<and> num_queues s' = num_queues s \<and>
        (case r of None \<Rightarrow> s' = s
         | Some v \<Rightarrow> content s = add_mset v (content s') \<and> (own_pred cnd v \<or> steal_pred cnd v))"
    using get_cases [OF ok i, of cnd]
  proof (elim disjE exE conjE)
    fix j v rest
    assume "policy_get i cnd s = Some (Some v, set_queue j rest s)" and offer: "offers pop cnd i s j v rest"
    then show ?thesis
      using ok offers_content [OF offer] by (auto simp: offers_def may_take_def split: if_splits)
  qed (use ok in simp)
qed

section \<open>The four policies provide it\<close>

definition head_pop :: "bool \<Rightarrow> 'v list \<Rightarrow> ('v \<times> 'v list) option" where
  "head_pop own q = (case q of [] \<Rightarrow> None | v # rest \<Rightarrow> Some (v, rest))"

definition cilk_pop :: "bool \<Rightarrow> 'v list \<Rightarrow> ('v \<times> 'v list) option" where
  "cilk_pop own q = (if q = [] then None else if own then Some (hd q, tl q)
                     else Some (last q, butlast q))"

definition prio_pop :: "('v \<Rightarrow> 'v \<Rightarrow> bool) \<Rightarrow> bool \<Rightarrow> 'v list \<Rightarrow> ('v \<times> 'v list) option" where
  "prio_pop cmp own q = (if q = [] then None
                         else Some (prio_top cmp q, remove1 (prio_top cmp q) q))"

lemma prio_top_in: "q \<noteq> [] \<Longrightarrow> prio_top cmp q \<in> set q"
  by (induction cmp q rule: prio_top.induct) (auto simp: Let_def)

lemma mset_butlast: "q \<noteq> [] \<Longrightarrow> mset q = add_mset (last q) (mset (butlast q))"
  by (metis append_butlast_last_id mset_append mset.simps union_mset_add_mset_right add.right_neutral)

lemma mset_hd_tl: "q \<noteq> [] \<Longrightarrow> mset q = add_mset (hd q) (mset (tl q))"
  by (cases q) simp_all

interpretation fifo: queue_policy "\<lambda>v q. q @ [v]" head_pop
  by unfold_locales (auto simp: head_pop_def split: list.splits)

interpretation lifo: queue_policy "(#)" head_pop
  by unfold_locales (auto simp: head_pop_def split: list.splits)

interpretation cilk: queue_policy "(#)" cilk_pop
  by unfold_locales (auto simp: cilk_pop_def intro: mset_butlast mset_hd_tl split: if_splits)

interpretation prio: queue_policy "(#)" "prio_pop cmp" for cmp :: "'v \<Rightarrow> 'v \<Rightarrow> bool"
  by unfold_locales (auto simp: prio_pop_def prio_top_in split: if_splits)

lemma fifo_test_pop: "fifo_test_and_get cnd = test_pop head_pop cnd"
  by (auto simp: fun_eq_iff fifo_test_and_get_def test_pop_def head_pop_def may_take_def
      split: option.splits list.splits)

lemma lifo_test_pop: "lifo_test_and_get cnd = test_pop head_pop cnd"
  by (auto simp: fun_eq_iff lifo_test_and_get_def test_pop_def head_pop_def may_take_def
      split: option.splits list.splits)

lemma cilk_test_pop:
  "(\<lambda>i own. if own then cilk_test_and_get_front cnd i else cilk_test_and_get_back cnd i) =
   test_pop cilk_pop cnd"
  by (auto simp: fun_eq_iff cilk_test_and_get_front_def cilk_test_and_get_back_def test_pop_def
      cilk_pop_def may_take_def split: option.splits)

lemma prio_test_pop: "prio_test_and_get cmp cnd = test_pop (prio_pop cmp) cnd"
  by (auto simp: fun_eq_iff prio_test_and_get_def test_pop_def prio_pop_def may_take_def Let_def
      split: option.splits)

lemma fifo_is_policy: "fifo_get = fifo.policy_get" "fifo_put = fifo.policy_put"
  by (intro ext, simp add: fifo_get_def fifo.policy_get_def fifo_test_pop)
     (intro ext, simp add: fifo_put_def fifo.policy_put_def)

lemma lifo_is_policy: "lifo_get = lifo.policy_get" "lifo_put = lifo.policy_put"
  by (intro ext, simp add: lifo_get_def lifo.policy_get_def lifo_test_pop)
     (intro ext, simp add: lifo_put_def lifo.policy_put_def)

lemma cilk_is_policy: "cilk_get = cilk.policy_get" "cilk_put = cilk.policy_put"
  by (intro ext, simp add: cilk_get_def cilk.policy_get_def cilk_test_pop)
     (intro ext, simp add: cilk_put_def cilk.policy_put_def)

lemma prio_is_policy: "prio_get cmp = prio.policy_get cmp" "prio_put = prio.policy_put"
  by (intro ext, simp add: prio_get_def prio.policy_get_def prio_test_pop)
     (intro ext, simp add: prio_put_def prio.policy_put_def)

text \<open>The template parameter of \<open>task_queue_set\<close> picks the specialisation.\<close>

datatype policy = FifoS | LifoS | PrioS | CilkS

definition queue_put :: "policy \<Rightarrow> u32 \<Rightarrow> 'v \<Rightarrow> 'v queue_set \<Rightarrow> 'v queue_set option" where
  "queue_put pol =
     (case pol of FifoS \<Rightarrow> fifo_put | LifoS \<Rightarrow> lifo_put | PrioS \<Rightarrow> prio_put | CilkS \<Rightarrow> cilk_put)"

definition queue_get ::
  "('v \<Rightarrow> 'v \<Rightarrow> bool) \<Rightarrow> policy \<Rightarrow> u32 \<Rightarrow> 'v pred_pair \<Rightarrow> 'v queue_set \<Rightarrow>
   ('v option \<times> 'v queue_set) option" where
  "queue_get cmp pol =
     (case pol of FifoS \<Rightarrow> fifo_get | LifoS \<Rightarrow> lifo_get | PrioS \<Rightarrow> prio_get cmp | CilkS \<Rightarrow> cilk_get)"

text \<open>
  One pass of the loop in \<open>get\<close>, in which \<open>test_and_get\<close> locks, tests and unlocks one queue.
\<close>

definition queue_test ::
  "('v \<Rightarrow> 'v \<Rightarrow> bool) \<Rightarrow> policy \<Rightarrow> 'v pred_pair \<Rightarrow> u32 \<Rightarrow> bool \<Rightarrow> 'v queue_set \<Rightarrow>
   ('v option \<times> 'v queue_set) option" where
  "queue_test cmp pol cnd i own =
     (case pol of
        FifoS \<Rightarrow> fifo_test_and_get cnd i own
      | LifoS \<Rightarrow> lifo_test_and_get cnd i own
      | PrioS \<Rightarrow> prio_test_and_get cmp cnd i own
      | CilkS \<Rightarrow> if own then cilk_test_and_get_front cnd i else cilk_test_and_get_back cnd i)"

definition queue_attempt ::
  "('v \<Rightarrow> 'v \<Rightarrow> bool) \<Rightarrow> policy \<Rightarrow> u32 \<Rightarrow> 'v pred_pair \<Rightarrow> u32 \<Rightarrow> 'v queue_set \<Rightarrow>
   ('v option \<times> 'v queue_set) option" where
  "queue_attempt cmp pol queue_num cnd i s =
     (let real_i = i mod num_queues s in queue_test cmp pol cnd real_i (real_i = queue_num) s)"

interpretation tq: task_queue "queue_put pol" "queue_get cmp pol" num_queues queues_ok content
  for pol and cmp :: "'v \<Rightarrow> 'v \<Rightarrow> bool"
proof (cases pol)
  case FifoS
  then show "task_queue (queue_put pol) (queue_get cmp pol) num_queues queues_ok content"
    by (simp add: queue_put_def queue_get_def fifo_is_policy fifo.taskq.task_queue_axioms)
next
  case LifoS
  then show "task_queue (queue_put pol) (queue_get cmp pol) num_queues queues_ok content"
    by (simp add: queue_put_def queue_get_def lifo_is_policy lifo.taskq.task_queue_axioms)
next
  case PrioS
  then show "task_queue (queue_put pol) (queue_get cmp pol) num_queues queues_ok content"
    by (simp add: queue_put_def queue_get_def prio_is_policy prio.taskq.task_queue_axioms)
next
  case CilkS
  then show "task_queue (queue_put pol) (queue_get cmp pol) num_queues queues_ok content"
    by (simp add: queue_put_def queue_get_def cilk_is_policy cilk.taskq.task_queue_axioms)
qed

text \<open>\<open>put\<close> is defined only on a queue that exists.\<close>

lemma queue_put_defined:
  assumes "queue_put pol q v s = Some s'" and "queues_ok s"
  shows "unat q < unat (num_queues s)"
  using assms
  by (cases pol) (auto simp: queue_put_def fifo_put_def lifo_put_def cilk_put_def prio_put_def
      get_queue_def queues_ok_def split: if_splits)

section \<open>The order of service\<close>

definition any_task :: "'v pred_pair" where
  "any_task = \<lparr>own_pred = (\<lambda>_. True), steal_pred = (\<lambda>_. True)\<rparr>"

text \<open>Queues of which only number \<open>q\<close> has tasks.\<close>

definition only :: "u32 \<Rightarrow> u32 \<Rightarrow> 'v list \<Rightarrow> 'v queue_set" where
  "only n q xs = set_queue q xs (queue_set_make n)"

fun pops :: "(bool \<Rightarrow> 'v list \<Rightarrow> ('v \<times> 'v list) option) \<Rightarrow> bool \<Rightarrow> nat \<Rightarrow> 'v list \<Rightarrow> 'v list" where
  "pops pop own 0 xs = []"
| "pops pop own (Suc k) xs =
     (case pop own xs of None \<Rightarrow> [] | Some (v, rest) \<Rightarrow> v # pops pop own k rest)"

lemma only_facts:
  assumes "unat q < unat n"
  shows "length (queues (only n q xs)) = unat n" "num_queues (only n q xs) = n"
    and "unat i < unat n \<Longrightarrow> queues (only n q xs) ! unat i = (if i = q then xs else [])"
    and "set_queue q ys (only n q xs) = only n q ys"
    and "get_queue q (only n q xs) = Some xs"
  using assms
  by (auto simp: only_def set_queue_def queue_set_make_def get_queue_def nth_list_update
      simp flip: word_unat_eq_iff)

lemma only_ok: "n \<noteq> 0 \<Longrightarrow> unat n < 2 ^ 31 \<Longrightarrow> queues_ok (only n q xs)"
  by (simp add: only_def queues_ok_make)

lemma only_Nil: "only n q [] = queue_set_make n"
  by (simp add: only_def set_queue_def queue_set_make_def)
     (metis length_replicate list_update_id list_update_beyond not_less nth_replicate)

context queue_policy
begin

lemma pop_Nil: "pop own [] = None"
  using pop_mset [of own "[]"] by (cases "pop own []") auto

lemma policy_put_only:
  "unat q < unat n \<Longrightarrow> policy_put q v (only n q xs) = Some (only n q (push v xs))"
  by (simp add: policy_put_def only_facts)

lemma policy_get_only:
  assumes n: "n \<noteq> 0" "unat n < 2 ^ 31" and q: "unat q < unat n" "unat q' < unat n"
    and pop: "pop (q = q') xs = Some (v, rest)"
  shows "policy_get q' any_task (only n q xs) = Some (Some v, only n q rest)"
proof -
  let ?s = "only n q xs"
  have offers: "offers pop any_task q' ?s i w r \<longleftrightarrow> i = q \<and> w = v \<and> r = rest"
    if "unat i < unat n" for i w r
    using that q pop by (auto simp: offers_def only_facts pop_Nil may_take_def any_task_def)
  have "accepts any_task q' ?s q" using q by (auto simp: accepts_def offers)
  show ?thesis
    using get_cases [OF only_ok [OF n, of q xs], of q' any_task,
        unfolded only_facts(1,2) [OF q(1)], OF q(2)]
  proof (elim disjE exE conjE)
    assume "\<forall>i. unat i < unat n \<longrightarrow> \<not> accepts any_task q' ?s i"
    with q \<open>accepts any_task q' ?s q\<close> show ?thesis by blast
  next
    fix i w r
    assume get: "policy_get q' any_task ?s = Some (Some w, set_queue i r ?s)"
      and o: "offers pop any_task q' ?s i w r"
    then have "unat i < unat n" using q by (auto simp: offers_def only_facts)
    with o get show ?thesis using q by (simp add: offers only_facts)
  qed
qed

lemma run_puts:
  "unat q < unat n \<Longrightarrow>
   run_queue policy_put get (map (Put q) vs @ ops) (only n q xs) =
     run_queue policy_put get ops (only n q (fold push vs xs))"
  by (induction vs arbitrary: xs) (simp_all add: policy_put_only)

lemma run_gets:
  assumes "n \<noteq> 0" "unat n < 2 ^ 31" "unat q < unat n" "unat q' < unat n"
  shows "run_queue put policy_get (replicate (length xs) (Get q' any_task)) (only n q xs) =
           Some (pops pop (q = q') (length xs) xs, only n q [])"
proof (induction "length xs" arbitrary: xs)
  case 0
  then show ?case by simp
next
  case (Suc k)
  then have "xs \<noteq> []" by auto
  then obtain v rest where pop: "pop (q = q') xs = Some (v, rest)"
    using pop_nonempty [of xs "q = q'"] by auto
  from pop_mset [OF this] Suc.hyps(2) have "k = length rest"
    by (metis add_diff_cancel_left' plus_1_eq_Suc size_add_mset size_mset)
  from Suc.hyps(1) [OF this] policy_get_only [OF assms pop] pop Suc.hyps(2) \<open>k = length rest\<close>
  show ?case by (simp flip: Suc.hyps(2))
qed

lemma fold_push_length: "length (fold push vs xs) = length vs + length xs"
proof (induction vs arbitrary: xs)
  case (Cons v vs)
  have "length (push v xs) = Suc (length xs)"
    using push_mset [of v xs] by (metis size_add_mset size_mset)
  with Cons show ?case by simp
qed simp

text \<open>All tasks are put into queue \<open>q\<close> and then taken by threads of queue \<open>q'\<close>.\<close>

lemma served:
  assumes "n \<noteq> 0" "unat n < 2 ^ 31" "unat q < unat n" "unat q' < unat n"
  shows "run_queue policy_put policy_get
           (map (Put q) vs @ replicate (length vs) (Get q' any_task)) (queue_set_make n) =
         Some (pops pop (q = q') (length vs) (fold push vs []), queue_set_make n)"
  using run_puts [OF assms(3), of policy_get vs _ "[]"]
    run_gets [OF assms, of policy_put "fold push vs []"]
  by (simp add: fold_push_length only_Nil)

end

lemma rev_from_last: "xs \<noteq> [] \<Longrightarrow> rev xs = last xs # rev (butlast xs)"
  by (metis append_butlast_last_id rev.simps(2) rev_append rev_singleton_conv append_Cons append_Nil)

lemma pops_head: "length xs \<le> k \<Longrightarrow> pops head_pop own k xs = xs"
  by (induction k arbitrary: xs) (auto simp: head_pop_def split: list.splits)

lemma pops_cilk_own: "length xs \<le> k \<Longrightarrow> pops cilk_pop True k xs = xs"
  by (induction k arbitrary: xs) (auto simp: cilk_pop_def)

lemma pops_cilk_thief: "length xs \<le> k \<Longrightarrow> pops cilk_pop False k xs = rev xs"
  by (induction k arbitrary: xs) (auto simp: cilk_pop_def rev_from_last)

lemma fold_snoc: "fold (\<lambda>v q. q @ [v]) vs xs = xs @ vs"
  by (induction vs arbitrary: xs) simp_all

definition strict_weak :: "('v \<Rightarrow> 'v \<Rightarrow> bool) \<Rightarrow> bool" where
  "strict_weak cmp \<longleftrightarrow> (\<forall>x. \<not> cmp x x) \<and> (\<forall>x y. cmp x y \<longrightarrow> \<not> cmp y x) \<and>
     (\<forall>x y z. \<not> cmp x y \<longrightarrow> \<not> cmp y z \<longrightarrow> \<not> cmp x z)"

lemma strict_weak_facts:
  assumes "strict_weak cmp"
  shows "\<not> cmp x x" and "cmp x y \<Longrightarrow> \<not> cmp y x"
    and "\<not> cmp x y \<Longrightarrow> \<not> cmp y z \<Longrightarrow> \<not> cmp x z"
  using assms unfolding strict_weak_def by metis+

lemma prio_top_max:
  assumes "strict_weak cmp" and "y \<in> set q"
  shows "\<not> cmp (prio_top cmp q) y"
  using assms(2)
proof (induction q arbitrary: y rule: induct_list012)
  case (3 x z zs)
  let ?m = "prio_top cmp (z # zs)"
  have rest: "w \<in> set (z # zs) \<Longrightarrow> \<not> cmp ?m w" for w by (rule 3(2))
  show ?case
  proof (cases "cmp x ?m")
    case True
    then have "\<not> cmp ?m x" by (rule strict_weak_facts(2) [OF assms(1)])
    moreover have "prio_top cmp (x # z # zs) = ?m" using True by (simp add: Let_def)
    moreover have "y = x \<or> y \<in> set (z # zs)" using 3(3) by auto
    ultimately show ?thesis using rest by metis
  next
    case False
    have "w \<in> set (z # zs) \<Longrightarrow> \<not> cmp x w" for w
      by (rule strict_weak_facts(3) [OF assms(1) False rest])
    moreover have "\<not> cmp x x" by (rule strict_weak_facts(1) [OF assms(1)])
    moreover have "prio_top cmp (x # z # zs) = x" using False by (simp add: Let_def)
    moreover have "y = x \<or> y \<in> set (z # zs)" using 3(3) by auto
    ultimately show ?thesis by metis
  qed
qed (use strict_weak_facts(1) [OF assms(1)] in auto)

text \<open>Tasks leave a priority queue in order, and none is lost.\<close>

lemma pops_prio_mset:
  "length xs = k \<Longrightarrow> mset (pops (prio_pop cmp) own k xs) = mset xs"
proof (induction k arbitrary: xs)
  case (Suc k)
  then have top: "prio_top cmp xs \<in> set xs" by (intro prio_top_in) auto
  with Suc.prems have "length (remove1 (prio_top cmp xs) xs) = k" by (simp add: length_remove1)
  moreover have "prio_pop cmp own xs = Some (prio_top cmp xs, remove1 (prio_top cmp xs) xs)"
    using top by (auto simp: prio_pop_def)
  ultimately show ?case using Suc.IH top by simp
qed simp

lemma pops_prio:
  assumes "strict_weak cmp" and "length xs = k"
  shows "sorted_wrt (\<lambda>x y. \<not> cmp x y) (pops (prio_pop cmp) own k xs)"
  using assms(2)
proof (induction k arbitrary: xs)
  case (Suc k)
  let ?top = "prio_top cmp xs"
  have "xs \<noteq> []" using Suc.prems by auto
  then have top: "?top \<in> set xs" by (rule prio_top_in)
  with Suc.prems have "length (remove1 ?top xs) = k" by (simp add: length_remove1)
  note IH = Suc.IH [OF this] pops_prio_mset [OF this, of cmp own]
  have "set (pops (prio_pop cmp) own k (remove1 ?top xs)) \<subseteq> set xs"
    using IH(2) set_remove1_subset [of ?top xs] by (metis set_mset_mset)
  then have "\<not> cmp ?top v" if "v \<in> set (pops (prio_pop cmp) own k (remove1 ?top xs))" for v
    using prio_top_max [OF assms(1)] that by blast
  moreover have "prio_pop cmp own xs = Some (?top, remove1 ?top xs)"
    using \<open>xs \<noteq> []\<close> by (simp add: prio_pop_def)
  ultimately show ?case using IH top by auto
qed simp

section \<open>One queue at a time\<close>

text \<open>The task that a queue offers to its owner or to a thief, under each policy.\<close>

definition policy_pop ::
  "('v \<Rightarrow> 'v \<Rightarrow> bool) \<Rightarrow> policy \<Rightarrow> bool \<Rightarrow> 'v list \<Rightarrow> ('v \<times> 'v list) option" where
  "policy_pop cmp pol =
     (case pol of FifoS \<Rightarrow> head_pop | LifoS \<Rightarrow> head_pop | PrioS \<Rightarrow> prio_pop cmp | CilkS \<Rightarrow> cilk_pop)"

lemma queue_test_pop: "queue_test cmp pol cnd i own = test_pop (policy_pop cmp pol) cnd i own"
  by (cases pol) (simp_all add: queue_test_def policy_pop_def fifo_test_pop lifo_test_pop prio_test_pop
      flip: cilk_test_pop)

lemma policy_pop_mset: "policy_pop cmp pol own q = Some (v, rest) \<Longrightarrow> mset q = add_mset v (mset rest)"
  by (cases pol) (auto simp: policy_pop_def intro: fifo.pop_mset lifo.pop_mset cilk.pop_mset prio.pop_mset)

lemma queue_get_cases:
  assumes "queues_ok s" and "unat q < unat (num_queues s)"
  shows "(queue_get cmp pol q cnd s = Some (None, s) \<and>
            (\<nexists>i v rest. offers (policy_pop cmp pol) cnd q s i v rest)) \<or>
         (\<exists>i v rest. queue_get cmp pol q cnd s = Some (Some v, set_queue i rest s) \<and>
            offers (policy_pop cmp pol) cnd q s i v rest \<and>
            ((\<exists>w r. offers (policy_pop cmp pol) cnd q s q w r) \<longrightarrow> i = q))"
proof -
  have range: "unat i < unat (num_queues s)" if "offers pop cnd q s i v rest" for pop i v rest
    using that assms(1) by (simp add: offers_def queues_ok_def)
  show ?thesis
    using fifo.get_cases [OF assms, of cnd] lifo.get_cases [OF assms, of cnd]
      cilk.get_cases [OF assms, of cnd] prio.get_cases [OF assms, of cmp cnd] range
    by (cases pol) (simp_all add: queue_get_def policy_pop_def fifo_is_policy lifo_is_policy
        cilk_is_policy prio_is_policy fifo.accepts_def lifo.accepts_def cilk.accepts_def
        prio.accepts_def; blast)+
qed

lemma queue_get_loop: "queue_get cmp pol q cnd s = get_loop (queue_test cmp pol cnd) q (attempts (num_queues s)) q s"
proof -
  have "(\<lambda>real_i own. if own then cilk_test_and_get_front cnd real_i else cilk_test_and_get_back cnd real_i) =
      (queue_test cmp CilkS cnd)" by (auto simp: queue_test_def fun_eq_iff)
  then show ?thesis
    by (cases pol) (simp_all add: queue_get_def fifo_get_def lifo_get_def prio_get_def cilk_get_def
        queue_test_def [abs_def])
qed

lemma offers_facts:
  assumes "queues_ok s" and "offers (policy_pop cmp pol) cnd q s i v rest"
  shows "content s = add_mset v (content (set_queue i rest s))" "own_pred cnd v \<or> steal_pred cnd v"
proof -
  have i: "unat i < length (queues s)" using assms(2) by (simp add: offers_def)
  from assms(2) have "policy_pop cmp pol (i = q) (queues s ! unat i) = Some (v, rest)" by (simp add: offers_def)
  with content_set_queue [OF i, of rest] policy_pop_mset show "content s = add_mset v (content (set_queue i rest s))"
    by fastforce
  show "own_pred cnd v \<or> steal_pred cnd v" using assms(2) by (auto simp: offers_def may_take_def split: if_splits)
qed

text \<open>An attempt takes what the queue offers.\<close>

lemma queue_attempt_cases:
  assumes "queues_ok s"
  shows "(queue_attempt cmp pol q cnd i s = Some (None, s) \<and>
            (\<nexists>v rest. offers (policy_pop cmp pol) cnd q s (i mod num_queues s) v rest)) \<or>
         (\<exists>v rest. queue_attempt cmp pol q cnd i s = Some (Some v, set_queue (i mod num_queues s) rest s) \<and>
            offers (policy_pop cmp pol) cnd q s (i mod num_queues s) v rest)"
proof -
  have "unat (i mod num_queues s) < length (queues s)"
    using assms real_i_in_range [of s i] by (simp add: queues_ok_def)
  then show ?thesis
    by (auto simp: queue_attempt_def Let_def queue_test_pop test_pop_def offers_def get_queue_def split: option.splits)
qed

section \<open>Properties\<close>

text \<open>
  C6: no task is lost or duplicated. Under every policy, any sequence of \<open>put\<close>s and
  \<open>get\<close>s on a new set of queues, by threads whose queues exist, is defined, and the tasks
  put in are, as a multiset, those got out and those still queued.
\<close>

theorem task_queues_conserve:
  assumes "n \<noteq> 0" and "unat n < 2 ^ 31"
    and "list_all (\<lambda>p. unat (op_queue p) < unat n) ops"
  shows "\<exists>vs s'. run_queue (queue_put pol) (queue_get cmp pol) ops (queue_set_make n) = Some (vs, s') \<and>
           mset (op_puts ops) = mset vs + content s'"
proof -
  have "list_all (\<lambda>p. unat (op_queue p) < unat (num_queues (queue_set_make n :: 'a queue_set))) ops"
    using assms(3) by (simp add: queue_set_make_def)
  from tq.run_queue_conserves [OF queues_ok_make [OF assms(1,2)] this, of pol cmp]
  show ?thesis by auto
qed

theorem task_queues_conserve_witness:
  "\<exists>vs s'. run_queue (queue_put CilkS) (queue_get (<) CilkS)
       [Put 0 (7::nat), Put 1 8, Get 1 any_task, Get 1 any_task] (queue_set_make 2) = Some (vs, s') \<and>
     {#7, 8#} = mset vs + content s'"
  using task_queues_conserve
    [of 2 "[Put 0 (7::nat), Put 1 8, Get 1 any_task, Get 1 any_task]" CilkS "(<)"]
  by simp

text \<open>
  C7: \<open>get\<close> finds a task exactly when there is one. It returns \<open>NULL\<close>, and changes
  nothing, only if no queue offers a task that the predicate allows (the own predicate for
  the own queue, the steal predicate for the others); otherwise it removes just the task
  it returns from the queue that offered it, and that queue is the own one whenever the own
  queue offers something.
\<close>

theorem get_finds_a_task:
  assumes "queues_ok s" and "unat q < unat (num_queues s)"
  shows "case queue_get cmp pol q cnd s of
           None \<Rightarrow> False
         | Some (None, s') \<Rightarrow> s' = s \<and> (\<nexists>i v rest. offers (policy_pop cmp pol) cnd q s i v rest)
         | Some (Some v, s') \<Rightarrow>
             (\<exists>i rest. offers (policy_pop cmp pol) cnd q s i v rest \<and> s' = set_queue i rest s \<and>
                ((\<exists>w r. offers (policy_pop cmp pol) cnd q s q w r) \<longrightarrow> i = q))"
  using queue_get_cases [OF assms, of cmp pol cnd]
proof (elim disjE exE conjE)
  fix i v rest
  assume "queue_get cmp pol q cnd s = Some (Some v, set_queue i rest s)"
    and "offers (policy_pop cmp pol) cnd q s i v rest"
    and "(\<exists>w r. offers (policy_pop cmp pol) cnd q s q w r) \<longrightarrow> i = q"
  then show ?thesis by (simp, blast)
qed simp

theorem get_finds_a_task_witness:
  "queue_get (<) LifoS 1 \<lparr>own_pred = (\<lambda>v. v > (5::nat)), steal_pred = even\<rparr>
     \<lparr>queues = [[4, 5], [3]], num_queues = 2\<rparr> =
     Some (Some 4, \<lparr>queues = [[5], [3]], num_queues = 2\<rparr>)"
proof -
  let ?s = "\<lparr>queues = [[4, 5], [3]], num_queues = 2\<rparr> :: nat queue_set"
  let ?cnd = "\<lparr>own_pred = (\<lambda>v. v > (5::nat)), steal_pred = even\<rparr>"
  have offers: "offers (policy_pop (<) LifoS) ?cnd 1 ?s i v rest \<longleftrightarrow> i = 0 \<and> v = 4 \<and> rest = [5]"
    for i v rest
    by (auto simp: offers_def policy_pop_def head_pop_def may_take_def unat_below_two)
  have "queues_ok ?s" "unat (1::u32) < unat (num_queues ?s)" by (simp_all add: queues_ok_def)
  from get_finds_a_task [OF this, of "(<)" LifoS ?cnd] show ?thesis
    by (auto simp: offers set_queue_def split: option.splits prod.splits)
qed

text \<open>
  C8: the order of service. Tasks put into one queue and then taken by threads of any
  queue come out, under FIFO, in the order in which they went in; under LIFO, in reverse;
  under Cilk, newest first for the owner and oldest first for a thief; under a priority
  policy with a strict weak order, sorted by falling priority.
\<close>

theorem order_of_service:
  assumes "n \<noteq> 0" and "unat n < 2 ^ 31" and "unat q < unat n" and "unat q' < unat n"
  shows "\<exists>vs'. run_queue (queue_put pol) (queue_get cmp pol)
           (map (Put q) vs @ replicate (length vs) (Get q' any_task)) (queue_set_make n) =
             Some (vs', queue_set_make n) \<and>
         (case pol of
            FifoS \<Rightarrow> vs' = vs
          | LifoS \<Rightarrow> vs' = rev vs
          | CilkS \<Rightarrow> vs' = (if q' = q then rev vs else vs)
          | PrioS \<Rightarrow> mset vs' = mset vs \<and>
                     (strict_weak cmp \<longrightarrow> sorted_wrt (\<lambda>x y. \<not> cmp x y) vs'))"
proof (cases pol)
  case FifoS
  with fifo.served [OF assms, of vs] show ?thesis
    by (simp add: queue_put_def queue_get_def fifo_is_policy fold_snoc pops_head)
next
  case LifoS
  with lifo.served [OF assms, of vs] show ?thesis
    by (simp add: queue_put_def queue_get_def lifo_is_policy fold_Cons_rev pops_head)
next
  case CilkS
  with cilk.served [OF assms, of vs] show ?thesis
    by (cases "q = q'") (auto simp: queue_put_def queue_get_def cilk_is_policy fold_Cons_rev
        pops_cilk_own pops_cilk_thief)
next
  case PrioS
  let ?out = "pops (prio_pop cmp) (q = q') (length vs) (rev vs)"
  have "mset ?out = mset vs"
    using pops_prio_mset [of "rev vs" "length vs" cmp "q = q'"] by simp
  with PrioS prio.served [where cmp = cmp and vs = vs, OF assms] pops_prio [of cmp "rev vs" "length vs" "q = q'"]
  show ?thesis
    by (simp add: queue_put_def queue_get_def prio_is_policy fold_Cons_rev)
qed

theorem order_of_service_witness:
  "\<exists>vs'. run_queue (queue_put CilkS) (queue_get (<) CilkS)
     (map (Put 0) [1, 2, 3::nat] @ replicate (length [1, 2, 3::nat]) (Get 1 any_task))
     (queue_set_make 2) = Some (vs', queue_set_make 2) \<and> vs' = [1, 2, 3]"
  using order_of_service [of 2 0 1 CilkS "(<)" "[1, 2, 3::nat]"] by auto

end
