(* ===== verification/Predicates.thy ===== *)
theory Predicates
  imports Task Task_Queues
begin

text \<open>
  The predicate pairs of \<^verbatim>\<open>pfunc/predicate.hpp\<close>: which queued tasks a thread may take at
  a regular scheduling point, while it waits for a task, and while it waits at a group's
  barrier, with the specialisations for the Cilk and the priority policy. Tasks are
  pointers into \<open>tasks\<close>; the task that the thread is executing is given by value, as the
  code copies it from the cache.
\<close>

type_synonym 'p tasks = "task_ptr \<Rightarrow> 'p task"

definition regular_predicate_pair :: "task_ptr pred_pair" where
  "regular_predicate_pair = \<lparr>own_pred = (\<lambda>_. True), steal_pred = (\<lambda>_. True)\<rparr>"

text \<open>\<open>steal_pred\<close> calls \<open>own_pred\<close> in every class.\<close>

definition both_preds :: "(task_ptr \<Rightarrow> bool) \<Rightarrow> task_ptr pred_pair" where
  "both_preds p = \<lparr>own_pred = p, steal_pred = p\<rparr>"

text \<open>\<open>compare_task_ptr\<close>\<close>

definition compare_task_ptr :: "('p \<Rightarrow> 'p \<Rightarrow> bool) \<Rightarrow> 'p task \<Rightarrow> 'p task \<Rightarrow> bool" where
  "compare_task_ptr cmp t1 t2 = cmp (get_priority (task_get_attr t1)) (get_priority (task_get_attr t2))"

definition waiting_own_pred ::
  "('p \<Rightarrow> 'p \<Rightarrow> bool) \<Rightarrow> policy \<Rightarrow> 'p task \<Rightarrow> 'p task \<Rightarrow> bool" where
  "waiting_own_pred cmp pol previous current =
     (case pol of
        CilkS \<Rightarrow> get_level (task_get_attr previous) \<le> get_level (task_get_attr current)
      | PrioS \<Rightarrow> compare_task_ptr cmp previous current
      | _ \<Rightarrow> True)"

definition waiting_predicate_pair ::
  "('p \<Rightarrow> 'p \<Rightarrow> bool) \<Rightarrow> policy \<Rightarrow> 'p tasks \<Rightarrow> 'p task \<Rightarrow> task_ptr pred_pair" where
  "waiting_predicate_pair cmp pol tasks previous =
     both_preds (\<lambda>t. waiting_own_pred cmp pol previous (tasks t))"

definition group_own_pred ::
  "('p \<Rightarrow> 'p \<Rightarrow> bool) \<Rightarrow> policy \<Rightarrow> 'p task \<Rightarrow> 'p task \<Rightarrow> bool" where
  "group_own_pred cmp pol previous current =
     (case pol of
        CilkS \<Rightarrow> get_level (task_get_attr previous) \<le> get_level (task_get_attr current) \<and>
                 task_get_group previous \<noteq> task_get_group current
      | PrioS \<Rightarrow> compare_task_ptr cmp previous current \<and>
                 task_get_group previous \<noteq> task_get_group current
      | _ \<Rightarrow> \<not> (task_get_group previous = task_get_group current))"

definition group_predicate_pair ::
  "('p \<Rightarrow> 'p \<Rightarrow> bool) \<Rightarrow> policy \<Rightarrow> 'p tasks \<Rightarrow> 'p task \<Rightarrow> task_ptr pred_pair" where
  "group_predicate_pair cmp pol tasks previous =
     both_preds (\<lambda>t. group_own_pred cmp pol previous (tasks t))"

lemma both_preds_sel [simp]: "own_pred (both_preds p) = p" "steal_pred (both_preds p) = p"
  by (simp_all add: both_preds_def)

lemma group_pred_group: "group_own_pred cmp pol t u \<Longrightarrow> tgroup t \<noteq> tgroup u"
  by (cases pol) (auto simp: group_own_pred_def task_get_group_def)

lemma group_pred_waiting: "group_own_pred cmp pol t u \<Longrightarrow> waiting_own_pred cmp pol t u"
  by (cases pol) (auto simp: group_own_pred_def waiting_own_pred_def)

lemma waiting_prio:
  "waiting_own_pred cmp PrioS t u \<longleftrightarrow> cmp (priority (attr t)) (priority (attr u))"
  by (simp add: waiting_own_pred_def compare_task_ptr_def task_get_attr_def get_priority_def)

lemma waiting_cilk: "waiting_own_pred cmp CilkS t u \<longleftrightarrow> level (attr t) \<le> level (attr u)"
  by (simp add: waiting_own_pred_def task_get_attr_def get_level_def)

end
