(* ===== verification/Threads.thy ===== *)
theory Threads
  imports Exceptions
begin

text \<open>
  The threads of \<^verbatim>\<open>pfunc/thread.hpp\<close>: the attributes of a thread, the thread-local table
  (the variant with \<open>__thread\<close>, a vector indexed by the thread's number), the argument
  checks of \<open>create_thread\<close>, and the processor count of the Linux variant. The calls to
  the operating system are parameters.
\<close>

section \<open>Attributes and the thread-local table\<close>

definition PFUNC_STACK_MIN :: u32 where "PFUNC_STACK_MIN = 2048 * 2048"
definition PFUNC_STACK_MAX :: u32 where "PFUNC_STACK_MAX = 4096 * 4096"
definition PFUNC_STACK_AVG :: u32 where "PFUNC_STACK_AVG = 2048 * 4096"
definition PFUNC_NO_AFFINITY :: u32 where "PFUNC_NO_AFFINITY = not 0"

record thread_attr =
  stack_size :: u32
  thread_id :: u32
  thread_affinity :: u32
  task_queue_number :: u32

definition thread_attr_make :: "u32 \<Rightarrow> u32 \<Rightarrow> u32 \<Rightarrow> u32 \<Rightarrow> thread_attr" where
  "thread_attr_make stack tid affinity qnum =
     \<lparr>stack_size = stack, thread_id = tid, thread_affinity = affinity, task_queue_number = qnum\<rparr>"

type_synonym tls_table = "thread_attr option list"

definition tls_initialize :: "u32 \<Rightarrow> tls_table" where
  "tls_initialize nthreads = replicate (unat nthreads) None"

definition tls_set :: "u32 \<Rightarrow> thread_attr \<Rightarrow> tls_table \<Rightarrow> tls_table" where
  "tls_set self a tls = tls[unat self := Some a]"

text \<open>\<open>None\<close> for a thread that has no entry: the code dereferences the pointer it gets.\<close>

definition tls_get :: "u32 \<Rightarrow> tls_table \<Rightarrow> thread_attr option" where
  "tls_get self tls = (if unat self < length tls then tls ! unat self else None)"

lemma tls_set_length [simp]: "length (tls_set self a tls) = length tls"
  by (simp add: tls_set_def)

lemma tls_get_set:
  "unat self < length tls \<Longrightarrow> tls_get other (tls_set self a tls) =
     (if other = self then Some a else tls_get other tls)"
  by (auto simp: tls_get_def tls_set_def nth_list_update word_unat_eq_iff)

section \<open>Creating threads\<close>

definition invalid_arg :: "string \<Rightarrow> pfunc_status \<Rightarrow> thrown" where
  "invalid_arg what st =
     PfuncExn (exception_generic_impl ''pfunc::detail::thread::create_thread'' what (status_code st))"

text \<open>
  The calls of the pthread variant, in order, with the description of the exception that
  follows a failure of each; the code throws the error number it got.
\<close>

datatype pthread_call = AttrInit | SetStackSize u64 | SetScope | Create | AttrDestroy

fun call_failed :: "pthread_call \<Rightarrow> string" where
  "call_failed AttrInit = ''Could not initialize the attribute''"
| "call_failed (SetStackSize n) = ''Could not set the stacksize''"
| "call_failed SetScope = ''Could not set thread scope''"
| "call_failed Create = ''Could not create the thread''"
| "call_failed AttrDestroy = ''Could not destroy the attribute''"

fun pthread_calls :: "(pthread_call \<Rightarrow> int) \<Rightarrow> pthread_call list \<Rightarrow> unit result" where
  "pthread_calls os [] = Inr ()"
| "pthread_calls os (c # cs) =
     (if os c \<noteq> 0
      then Inl (PfuncExn (exception_generic_impl
             ''pfunc::detail::thread::create_thread::pthread_attr_init'' (call_failed c) (os c)))
      else pthread_calls os cs)"

definition create_thread ::
  "(pthread_call \<Rightarrow> int) \<Rightarrow> thread_attr option \<Rightarrow> nat option \<Rightarrow> nat option \<Rightarrow> unit result" where
  "create_thread os a start_func start_arg =
     (case a of
        None \<Rightarrow> Inl (invalid_arg ''NULL attribute provided'' PFUNC_INVALID_ATTR)
      | Some ta \<Rightarrow>
          if start_func = None
          then Inl (invalid_arg ''NULL start function for thread'' PFUNC_INVALID_ARGUMENTS)
          else if start_arg = None
          then Inl (invalid_arg ''NULL argument for thread start function'' PFUNC_INVALID_ARGUMENTS)
          else pthread_calls os
                 [AttrInit, SetStackSize (ucast (stack_size ta)), SetScope, Create, AttrDestroy])"

section \<open>Counting processors\<close>

text \<open>
  The loop of \<open>get_num_procs\<close>: bind the thread to processor 0, 1, 2, ... until the call
  fails. It need not end, so it is a partial function.
\<close>

partial_function (option) count_procs :: "(nat \<Rightarrow> int) \<Rightarrow> nat \<Rightarrow> nat option" where
  "count_procs set_affinity n =
     (if 0 > set_affinity n then Some n else count_procs set_affinity (Suc n))"

text \<open>\<open>sched_getaffinity\<close>, the loop, and the call that restores the old affinity.\<close>

definition get_num_procs :: "int \<Rightarrow> (nat \<Rightarrow> int) \<Rightarrow> int \<Rightarrow> nat result option" where
  "get_num_procs get_err set_affinity restore_err =
     (if 0 > get_err
      then Some (Inl (PfuncExn (exception_generic_impl ''pfunc::detail::thread::get_num_procs:''
             ''Could not get the current thread affinities'' get_err)))
      else (case count_procs set_affinity 0 of
              None \<Rightarrow> None
            | Some n \<Rightarrow>
                Some (if restore_err \<noteq> 0
                      then Inl (PfuncExn (exception_generic_impl
                             ''pfunc::detail::thread::get_num_procs:''
                             ''Could not reset the affinities back to the original'' restore_err))
                      else Inr n)))"

definition set_affinity :: "int \<Rightarrow> unit result" where
  "set_affinity err =
     (if err \<noteq> 0
      then Inl (PfuncExn (exception_generic_impl ''pfunc::detail::thread::get_num_procs:''
             ''Could not set thread affinity'' err))
      else Inr ())"

lemma count_procs_first:
  assumes "0 > aff m" and "n \<le> m"
  shows "count_procs aff n = Some (LEAST k. n \<le> k \<and> 0 > aff k)"
  using assms(2)
proof (induction "m - n" arbitrary: n)
  case 0
  with assms(1) have "(LEAST k. n \<le> k \<and> 0 > aff k) = n" by (intro Least_equality) auto
  with 0 assms(1) show ?case by (subst count_procs.simps) simp
next
  case (Suc d)
  show ?case
  proof (cases "0 > aff n")
    case True
    then have "(LEAST k. n \<le> k \<and> 0 > aff k) = n" by (intro Least_equality) auto
    with True show ?thesis by (subst count_procs.simps) simp
  next
    case False
    have "n \<le> k \<and> 0 > aff k \<longleftrightarrow> Suc n \<le> k \<and> 0 > aff k" for k
      using False by (metis Suc_le_eq le_less)
    with False Suc show ?thesis by (subst count_procs.simps) simp
  qed
qed

text \<open>Both threads and processors: each failure is reported with the number it came with.\<close>

lemma pthread_calls_ok: "pthread_calls os cs = Inr () \<longleftrightarrow> (\<forall>c\<in>set cs. os c = 0)"
  by (induction cs) auto

section \<open>Properties\<close>

text \<open>
  \<open>create_thread\<close> succeeds exactly when it has an attribute, a start function and an
  argument and none of the five calls fails; otherwise it throws an exception of PFunc,
  with the code of the missing argument or the error number of a call.
\<close>

theorem create_thread_succeeds:
  "(create_thread os a f arg = Inr () \<longleftrightarrow>
      (\<exists>ta. a = Some ta \<and> f \<noteq> None \<and> arg \<noteq> None \<and>
         list_all (\<lambda>c. os c = 0)
           [AttrInit, SetStackSize (ucast (stack_size ta)), SetScope, Create, AttrDestroy])) \<and>
   (case create_thread os a f arg of Inr _ \<Rightarrow> True
    | Inl x \<Rightarrow> \<exists>e. x = PfuncExn e \<and>
        error_code e \<in> {status_code PFUNC_INVALID_ATTR, status_code PFUNC_INVALID_ARGUMENTS} \<union> range os)"
  by (cases a) (auto simp: create_thread_def invalid_arg_def exception_generic_impl_def)

text \<open>
  \<open>get_num_procs\<close> returns the number of the first processor that the operating system
  refuses, provided it refuses one and the two other calls succeed.
\<close>

theorem get_num_procs_first_refused:
  assumes "0 > aff m" and "0 \<le> get_err"
  shows "get_num_procs get_err aff 0 = Some (Inr (LEAST k. 0 > aff k))"
  using assms count_procs_first [of aff m 0] by (simp add: get_num_procs_def)

theorem get_num_procs_first_refused_witness:
  "get_num_procs 0 (\<lambda>k. if k < 4 then 0 else - 22) 0 = Some (Inr 4)"
proof -
  have "(LEAST k. (0::int) > (if k < 4 then 0 else - 22)) = (4::nat)"
    by (intro Least_equality) (auto split: if_splits)
  with get_num_procs_first_refused [of "\<lambda>k. if k < 4 then 0 else - 22" 4 0] show ?thesis by simp
qed

section \<open>Other systems\<close>

text \<open>
  The Windows variant: \<open>handle\<close> is what \<open>CreateThread\<close> returns for the stack size it is
  given, \<open>None\<close> for \<open>NULL\<close>, and \<open>last_error\<close> is \<open>GetLastError ()\<close>.
\<close>

definition win_create_thread ::
  "(u32 \<Rightarrow> nat option) \<Rightarrow> int \<Rightarrow> thread_attr option \<Rightarrow> nat option \<Rightarrow> nat option \<Rightarrow> nat result" where
  "win_create_thread os last_error a start_func start_arg =
     (case a of
        None \<Rightarrow> Inl (invalid_arg ''NULL attribute provided'' PFUNC_INVALID_ATTR)
      | Some ta \<Rightarrow>
          if start_func = None
          then Inl (invalid_arg ''NULL start function for thread'' PFUNC_INVALID_ARGUMENTS)
          else if start_arg = None
          then Inl (invalid_arg ''NULL argument for thread start function'' PFUNC_INVALID_ARGUMENTS)
          else (case os (stack_size ta) of
                  None \<Rightarrow> Inl (PfuncExn (exception_generic_impl
                    ''pfunc::detail::thread::create_thread::CreateThread'' ''Could not create the thread'' last_error))
                | Some handle \<Rightarrow> Inr handle))"

text \<open>
  Without \<open>__thread\<close> the table is a map from native thread identifiers. Its \<open>operator[]\<close>
  enters a null pointer for an identifier that it does not know.
\<close>

type_synonym tls_map = "nat \<rightharpoonup> thread_attr option"

definition tls_map_set :: "nat \<Rightarrow> thread_attr \<Rightarrow> tls_map \<Rightarrow> tls_map" where
  "tls_map_set native a m = m(native \<mapsto> Some a)"

definition tls_map_get :: "nat \<Rightarrow> tls_map \<Rightarrow> thread_attr option \<times> tls_map" where
  "tls_map_get native m =
     (case m native of Some p \<Rightarrow> (p, m) | None \<Rightarrow> (None, m(native \<mapsto> None)))"

text \<open>
  The two tables answer alike, whatever the native identifiers are, as long as they differ
  and the vector has room.
\<close>

definition tls_same :: "(u32 \<Rightarrow> nat) \<Rightarrow> tls_table \<Rightarrow> tls_map \<Rightarrow> bool" where
  "tls_same native tls m \<longleftrightarrow> (\<forall>i. unat i < length tls \<longrightarrow> tls_get i tls = fst (tls_map_get (native i) m))"

lemma tls_same_start: "tls_same native (tls_initialize n) Map.empty"
  by (simp add: tls_same_def tls_initialize_def tls_get_def tls_map_get_def)

lemma tls_same_set:
  assumes "tls_same native tls m" and "inj native" and "unat self < length tls"
  shows "tls_same native (tls_set self a tls) (tls_map_set (native self) a m)"
  using assms
  by (auto simp: tls_same_def tls_get_set tls_map_set_def tls_map_get_def inj_eq split: option.split)

lemma tls_same_get: "tls_same native tls m \<Longrightarrow> tls_same native tls (snd (tls_map_get k m))"
  by (auto simp: tls_same_def tls_map_get_def split: option.splits)

end
