(* ===== verification/Taskmgr.thy ===== *)
theory Taskmgr
  imports Threads Predicates
begin

text \<open>
  The task manager of \<^verbatim>\<open>pfunc/taskmgr.hpp\<close>: its state, the constructor, the queries about
  the current thread and task, \<open>spawn_task\<close>, and \<open>get_task\<close>. The threads that run its
  work loop are in the theory \<open>Runtime\<close>. An access outside an array, or through the
  missing entry of the thread-local table, is \<open>None\<close>. The counters of PAPI are left out.
\<close>

section \<open>State\<close>

record 'p taskmgr =
  default_attribute :: "'p attribute"
  default_group :: group_ptr
  threads_per_queue :: "u32 list"
  num_threads :: u32
  task_queue :: "task_ptr queue_set"
  thread_data :: "thread_attr list"
  task_cache :: "'p task list"
  thread_start_count :: u32
  tls_attr_map :: tls_table
  thread_state :: "bool list"        \<comment> \<open>cancelled or not\<close>
  task_max_attempts :: u32
  tasks :: "'p tasks"                \<comment> \<open>the memory the users' tasks live in\<close>
  groups_of :: groups                \<comment> \<open>and their groups\<close>

section \<open>The constructor\<close>

fun sum_threads :: "u32 list \<Rightarrow> u32" where
  "sum_threads [] = 0"
| "sum_threads (t # ts) = t + sum_threads ts"

text \<open>
  The two loops that create the threads: \<open>index\<close> counts through all of them, \<open>i\<close> is the
  queue and \<open>j\<close> the thread of that queue.
\<close>

definition queue_threads :: "(u32 \<Rightarrow> u32 \<Rightarrow> u32) option \<Rightarrow> nat \<Rightarrow> u32 \<Rightarrow> nat \<Rightarrow> thread_attr list" where
  "queue_threads affinity index i n =
     map (\<lambda>j. thread_attr_make PFUNC_STACK_MAX (of_nat (index + j))
                (case affinity of None \<Rightarrow> PFUNC_NO_AFFINITY | Some aff \<Rightarrow> aff i (of_nat j)) i) [0..<n]"

fun make_threads :: "(u32 \<Rightarrow> u32 \<Rightarrow> u32) option \<Rightarrow> nat \<Rightarrow> u32 \<Rightarrow> u32 list \<Rightarrow> thread_attr list" where
  "make_threads affinity index i [] = []"
| "make_threads affinity index i (n # ns) =
     queue_threads affinity index i (unat n) @ make_threads affinity (index + unat n) (i + 1) ns"

definition main_thread_attr :: "u32 \<Rightarrow> thread_attr" where
  "main_thread_attr n = thread_attr_make PFUNC_STACK_MAX n 0 0"

text \<open>Every worker enters itself in the table when it starts; here they all have (\<open>Start_Up\<close>).\<close>

definition taskmgr_make ::
  "'p \<Rightarrow> group_ptr \<Rightarrow> u32 list \<Rightarrow> (u32 \<Rightarrow> u32 \<Rightarrow> u32) option \<Rightarrow> 'p tasks \<Rightarrow> groups \<Rightarrow> 'p taskmgr" where
  "taskmgr_make prio_min dflt thds affinity ts gs =
     (let n = sum_threads thds; workers = make_threads affinity 0 0 thds
      in \<lparr>default_attribute = attribute_make prio_min True False,
          default_group = dflt, threads_per_queue = thds, num_threads = n,
          task_queue = queue_set_make (of_nat (length thds)),
          thread_data = workers,
          task_cache = replicate (unat n) (task_default prio_min),
          thread_start_count = n,
          tls_attr_map = fold (\<lambda>a. tls_set (thread_id a) a) workers
                           (tls_set n (main_thread_attr n) (tls_initialize (n + 1))),
          thread_state = replicate (unat n) False,
          task_max_attempts = 2000000,
          tasks = ts, groups_of = gs(dflt := group_default)\<rparr>)"

definition set_max_attempts :: "u32 \<Rightarrow> 'p taskmgr \<Rightarrow> 'p taskmgr" where
  "set_max_attempts n m = m\<lparr>task_max_attempts := n\<rparr>"

definition get_max_attempts :: "'p taskmgr \<Rightarrow> u32" where
  "get_max_attempts m = task_max_attempts m"

definition mgr_num_queues :: "'p taskmgr \<Rightarrow> u32" where
  "mgr_num_queues m = num_queues (task_queue m)"

definition mgr_num_threads :: "'p taskmgr \<Rightarrow> u32" where
  "mgr_num_threads m = num_threads m"

text \<open>The head of the destructor: tell every thread to stop.\<close>

definition cancel_all :: "'p taskmgr \<Rightarrow> 'p taskmgr" where
  "cancel_all m = m\<lparr>thread_state := map (\<lambda>_. True) (thread_state m)\<rparr>"

section \<open>The current thread and task\<close>

text \<open>\<open>self\<close> is \<open>pfunc_thread_self_id\<close> of the calling thread.\<close>

definition current_thread_id :: "u32 \<Rightarrow> 'p taskmgr \<Rightarrow> u32 option" where
  "current_thread_id self m = map_option thread_id (tls_get self (tls_attr_map m))"

definition cache_get :: "u32 \<Rightarrow> 'p taskmgr \<Rightarrow> 'p task option" where
  "cache_get tid m = (if unat tid < length (task_cache m) then Some (task_cache m ! unat tid) else None)"

definition cache_put :: "u32 \<Rightarrow> 'p task \<Rightarrow> 'p taskmgr \<Rightarrow> 'p taskmgr" where
  "cache_put tid t m =
     m\<lparr>task_cache := (task_cache m)[unat tid := task_shallow_copy t (task_cache m ! unat tid)]\<rparr>"

definition current_task :: "u32 \<Rightarrow> 'p taskmgr \<Rightarrow> 'p task option" where
  "current_task self m =
     (case current_thread_id self m of None \<Rightarrow> None | Some tid \<Rightarrow> cache_get tid m)"

definition current_task_group_rank :: "u32 \<Rightarrow> 'p taskmgr \<Rightarrow> u32 option" where
  "current_task_group_rank self m = map_option task_get_rank (current_task self m)"

definition current_task_group_size :: "u32 \<Rightarrow> 'p taskmgr \<Rightarrow> u32 option" where
  "current_task_group_size self m = map_option task_get_size (current_task self m)"

definition current_task_group_barrier :: "u32 \<Rightarrow> 'p taskmgr \<Rightarrow> barrier_call option" where
  "current_task_group_barrier self m =
     (case current_task self m of None \<Rightarrow> None | Some t \<Rightarrow> task_barrier t (groups_of m))"

section \<open>Spawning\<close>

definition spawn_task_full ::
  "policy \<Rightarrow> u32 \<Rightarrow> task_ptr \<Rightarrow> 'p attribute \<Rightarrow> group_ptr \<Rightarrow> func_ptr \<Rightarrow> 'p taskmgr \<Rightarrow> 'p taskmgr option"
where
  "spawn_task_full pol self new_task new_attr new_group new_work m =
     (case task_prepare new_attr new_group new_work (tasks m new_task, groups_of m) of
        (t, gs) \<Rightarrow>
          (case (if QUEUE_CURRENT_THREAD = get_queue_number new_attr
                 then map_option task_queue_number (tls_get self (tls_attr_map m))
                 else Some (get_queue_number new_attr)) of
             None \<Rightarrow> None
           | Some q \<Rightarrow>
               map_option (\<lambda>qs. m\<lparr>tasks := (tasks m)(new_task := t), groups_of := gs, task_queue := qs\<rparr>)
                 (queue_put pol q new_task (task_queue m))))"

definition spawn_task_attr ::
  "policy \<Rightarrow> u32 \<Rightarrow> task_ptr \<Rightarrow> 'p attribute \<Rightarrow> func_ptr \<Rightarrow> 'p taskmgr \<Rightarrow> 'p taskmgr option" where
  "spawn_task_attr pol self new_task new_attr new_work m =
     spawn_task_full pol self new_task new_attr (default_group m) new_work m"

definition spawn_task ::
  "policy \<Rightarrow> u32 \<Rightarrow> task_ptr \<Rightarrow> func_ptr \<Rightarrow> 'p taskmgr \<Rightarrow> 'p taskmgr option" where
  "spawn_task pol self new_task new_work m =
     spawn_task_full pol self new_task (default_attribute m) (default_group m) new_work m"

section \<open>Looking for a task\<close>

text \<open>
  \<open>get_task\<close>, with the world as its state: \<open>compl\<close> is the completion predicate, \<open>get\<close> the
  \<open>get\<close> of the task queues with the thread's queue and predicate, \<open>yield\<close> gives the
  processor away. Other threads act inside these three. The inner loop counts \<open>n\<close>
  attempts down; the outer loop need not end.
\<close>

fun attempt_loop ::
  "('s \<Rightarrow> bool \<times> 's) \<Rightarrow> ('s \<Rightarrow> task_ptr option \<times> 's) \<Rightarrow> nat \<Rightarrow> 's \<Rightarrow> task_ptr option \<times> 's" where
  "attempt_loop compl get 0 s = (None, snd (compl s))"
| "attempt_loop compl get (Suc n) s =
     (case compl s of
        (True, s1) \<Rightarrow> (None, s1)
      | (False, s1) \<Rightarrow>
          (case get s1 of
             (Some t, s2) \<Rightarrow> (Some t, s2)
           | (None, s2) \<Rightarrow> attempt_loop compl get n s2))"

definition half_attempts :: "u32 \<Rightarrow> u32" where
  "half_attempts max_attempts = (if max_attempts div 2 = 0 then 1 else max_attempts div 2)"

partial_function (option) get_task_loop ::
  "('s \<Rightarrow> bool \<times> 's) \<Rightarrow> ('s \<Rightarrow> task_ptr option \<times> 's) \<Rightarrow> ('s \<Rightarrow> 's) \<Rightarrow> u32 \<Rightarrow> u32 \<Rightarrow> 's \<Rightarrow>
   (task_ptr option \<times> 's) option" where
  "get_task_loop compl get yield max_attempts num_attempts s =
     (case attempt_loop compl get (unat num_attempts) s of
        (r, s1) \<Rightarrow>
          (case compl s1 of
             (done, s2) \<Rightarrow>
               if done \<or> r \<noteq> None then Some (r, s2)
               else get_task_loop compl get yield max_attempts (half_attempts max_attempts) (yield s2)))"

definition get_task ::
  "('s \<Rightarrow> bool \<times> 's) \<Rightarrow> ('s \<Rightarrow> task_ptr option \<times> 's) \<Rightarrow> ('s \<Rightarrow> 's) \<Rightarrow> u32 \<Rightarrow> 's \<Rightarrow>
   (task_ptr option \<times> 's) option" where
  "get_task compl get yield max_attempts s =
     get_task_loop compl get yield max_attempts max_attempts s"

text \<open>What the main thread does in \<open>progress_wait\<close>: yield until the test succeeds.\<close>

definition main_progress :: "event \<Rightarrow> event result option" where
  "main_progress e = (case event_test e of (b, e') \<Rightarrow> if b then Some (Inr e') else None)"

section \<open>What the constructor sets up\<close>

definition total_threads :: "u32 list \<Rightarrow> nat" where
  "total_threads thds = (\<Sum>n\<leftarrow>thds. unat n)"

lemma sum_threads_total: "total_threads thds < 2 ^ 32 \<Longrightarrow> unat (sum_threads thds) = total_threads thds"
  by (induction thds) (simp_all add: total_threads_def unat_word_ariths)

lemma queue_threads_facts [simp]:
  "length (queue_threads affinity index i n) = n"
  "map thread_id (queue_threads affinity index i n) = map of_nat [index..<index + n]"
  "map task_queue_number (queue_threads affinity index i n) = replicate n i"
proof -
  show "map thread_id (queue_threads affinity index i n) = map of_nat [index..<index + n]"
    by (auto simp: queue_threads_def thread_attr_make_def comp_def intro!: nth_equalityI)
  show "map task_queue_number (queue_threads affinity index i n) = replicate n i"
    by (simp add: queue_threads_def thread_attr_make_def comp_def map_replicate_const)
qed (simp add: queue_threads_def)

lemma make_threads_length [simp]:
  "length (make_threads affinity index i thds) = total_threads thds"
  by (induction affinity index i thds rule: make_threads.induct) (simp_all add: total_threads_def)

lemma make_threads_ids:
  "map thread_id (make_threads affinity index i thds) =
     map of_nat [index..<index + total_threads thds]"
proof (induction affinity index i thds rule: make_threads.induct)
  case (2 affinity index i n ns)
  have "[index..<index + (unat n + total_threads ns)] =
        [index..<index + unat n] @ [index + unat n..<index + unat n + total_threads ns]"
    using upt_add_eq_append [of index "index + unat n" "total_threads ns"]
    by (simp add: add.assoc)
  with 2 show ?case by (simp add: total_threads_def)
qed (simp add: total_threads_def)

lemma make_threads_queues:
  "map task_queue_number (make_threads affinity index i thds) =
     concat (map (\<lambda>k. replicate (unat (thds ! k)) (i + of_nat k)) [0..<length thds])"
proof (induction affinity index i thds rule: make_threads.induct)
  case (2 affinity index i n ns)
  have "i + 1 + of_nat k = i + of_nat (Suc k)" for k by (simp add: algebra_simps)
  with 2 show ?case by (simp add: map_upt_Suc del: upt_Suc)
qed simp

lemma tls_fold_length [simp]:
  "length (fold (\<lambda>a. tls_set (thread_id a) a) as tls) = length tls"
  by (induction as arbitrary: tls) simp_all

lemma tls_fold_other:
  assumes "\<forall>a\<in>set as. unat (thread_id a) < length tls \<and> thread_id a \<noteq> tid"
  shows "tls_get tid (fold (\<lambda>a. tls_set (thread_id a) a) as tls) = tls_get tid tls"
  using assms by (induction as arbitrary: tls) (auto simp: tls_get_set)

lemma tls_fold:
  assumes "distinct (map thread_id as)" and "\<forall>a\<in>set as. unat (thread_id a) < length tls"
    and "b \<in> set as"
  shows "tls_get (thread_id b) (fold (\<lambda>a. tls_set (thread_id a) a) as tls) = Some b"
  using assms
proof (induction as arbitrary: tls)
  case (Cons a as)
  show ?case
  proof (cases "b = a")
    case True
    have "\<forall>c\<in>set as. unat (thread_id c) < length (tls_set (thread_id a) a tls) \<and>
            thread_id c \<noteq> thread_id b"
      using Cons.prems True by (auto simp: image_iff)
    from tls_fold_other [OF this] True Cons.prems show ?thesis by (simp add: tls_get_set)
  next
    case False
    with Cons show ?thesis by simp
  qed
qed simp

lemma word_upt_distinct: "n \<le> 2 ^ 32 \<Longrightarrow> distinct (map (of_nat :: nat \<Rightarrow> u32) [0..<n])"
  by (auto simp: distinct_map inj_on_def of_nat_inj32)

section \<open>Lemmas on \<open>get_task\<close>\<close>

lemma attempt_loop_result:
  "fst (attempt_loop compl get n s) = Some t \<Longrightarrow> \<exists>s1. fst (get s1) = Some t"
proof (induction n arbitrary: s)
  case (Suc n)
  obtain c s1 where c: "compl s = (c, s1)" by (cases "compl s")
  obtain r s2 where g: "get s1 = (r, s2)" by (cases "get s1")
  from Suc c g show ?case
    by (cases c; cases r) (auto intro: exI [of _ s1])
qed simp

definition found ::
  "('s \<Rightarrow> bool \<times> 's) \<Rightarrow> ('s \<Rightarrow> task_ptr option \<times> 's) \<Rightarrow> task_ptr option \<Rightarrow> 's \<Rightarrow> bool" where
  "found compl get r s' \<longleftrightarrow>
     (case r of None \<Rightarrow> (\<exists>s1. compl s1 = (True, s')) | Some t \<Rightarrow> (\<exists>s1. fst (get s1) = Some t))"

lemma get_task_loop_result:
  "get_task_loop compl get yield m n s = Some rs \<Longrightarrow> found compl get (fst rs) (snd rs)"
proof (rule get_task_loop.raw_induct
    [where P = "\<lambda>compl get yield m n s rs. found compl get (fst rs) (snd rs)"])
  fix loop c g and y :: "'a \<Rightarrow> 'a" and m n :: u32 and s rs
  assume IH: "\<And>c g y m n s rs. loop c g y m n s = Some rs \<Longrightarrow> found c g (fst rs) (snd rs)"
    and step: "(case attempt_loop c g (unat n) s of
        (r, s1) \<Rightarrow>
          (case c s1 of
             (done, s2) \<Rightarrow>
               if done \<or> r \<noteq> None then Some (r, s2)
               else loop c g y m (half_attempts m) (y s2))) = Some rs"
  obtain r s1 where a: "attempt_loop c g (unat n) s = (r, s1)" by fastforce
  obtain d s2 where b: "c s1 = (d, s2)" by fastforce
  show "found c g (fst rs) (snd rs)"
  proof (cases "d \<or> r \<noteq> None")
    case True
    then have rs: "rs = (r, s2)" using step a b by simp
    show ?thesis
    proof (cases r)
      case None
      with True b rs show ?thesis by (auto simp: found_def)
    next
      case (Some t)
      with attempt_loop_result [of c g "unat n" s t] a rs show ?thesis by (simp add: found_def)
    qed
  next
    case False
    with step a b show ?thesis by (auto intro: IH)
  qed
qed

text \<open>A world in which every operation takes time, and the completion test looks at the clock.\<close>

definition timed ::
  "('s \<Rightarrow> nat) \<Rightarrow> nat \<Rightarrow> ('s \<Rightarrow> bool \<times> 's) \<Rightarrow> ('s \<Rightarrow> task_ptr option \<times> 's) \<Rightarrow> ('s \<Rightarrow> 's) \<Rightarrow> bool" where
  "timed clock deadline compl get yield \<longleftrightarrow>
     (\<forall>s. clock s < clock (snd (compl s)) \<and> (deadline \<le> clock s \<longrightarrow> fst (compl s))) \<and>
     (\<forall>s. clock s \<le> clock (snd (get s))) \<and> (\<forall>s. clock s \<le> clock (yield s))"

lemma attempt_loop_clock:
  "timed clock d compl get yield \<Longrightarrow> clock s < clock (snd (attempt_loop compl get n s))"
proof (induction n arbitrary: s)
  case (Suc n)
  obtain c s1 where c: "compl s = (c, s1)" by (cases "compl s")
  obtain r s2 where g: "get s1 = (r, s2)" by (cases "get s1")
  have "clock s < clock s1" "clock s1 \<le> clock s2"
    using Suc.prems c g by (auto simp: timed_def) (metis snd_conv)+
  with Suc.IH [OF Suc.prems, of s2] c g show ?case by (cases c; cases r) auto
qed (simp add: timed_def)

lemma get_task_loop_returns:
  assumes t: "timed clock d compl get yield"
  shows "get_task_loop compl get yield m n s \<noteq> None"
proof (induction "d - clock s" arbitrary: n s rule: less_induct)
  case less
  obtain r s1 where a: "attempt_loop compl get (unat n) s = (r, s1)" by fastforce
  obtain c s2 where b: "compl s1 = (c, s2)" by fastforce
  have "clock s < clock s1" using attempt_loop_clock [OF t, of s "unat n"] a by simp
  also have "clock s1 < clock s2" using t b by (auto simp: timed_def) (metis snd_conv)
  also have "clock s2 \<le> clock (yield s2)" using t by (simp add: timed_def)
  finally have later: "clock s < clock (yield s2)" .
  show ?case
  proof (cases "c \<or> r \<noteq> None")
    case True
    with a b show ?thesis by (subst get_task_loop.simps) simp
  next
    case False
    then have "\<not> d \<le> clock s1" using t b by (auto simp: timed_def)
    with \<open>clock s < clock s1\<close> later have "d - clock (yield s2) < d - clock s" by linarith
    from less [OF this] False a b show ?thesis by (subst get_task_loop.simps) simp
  qed
qed

text \<open>In the table of a new task manager everybody finds his own entry.\<close>

lemma made_entries:
  fixes prio_min :: 'p and dflt affinity ts gs
  assumes "total_threads thds < 2 ^ 32 - 1"
  defines "tls \<equiv> tls_attr_map (taskmgr_make prio_min dflt thds affinity ts gs)"
  shows "a \<in> set (make_threads affinity 0 0 thds) \<Longrightarrow> tls_get (thread_id a) tls = Some a"
    and "tls_get (sum_threads thds) tls = Some (main_thread_attr (sum_threads thds))"
proof -
  let ?N = "total_threads thds" and ?n = "sum_threads thds"
  let ?ws = "make_threads affinity 0 0 thds"
  have N: "unat ?n = ?N" using sum_threads_total assms(1) by simp
  have len: "unat (?n + 1) = Suc ?N"
    using assms(1) N by (simp add: unat_plus_one32)
  let ?tls0 = "tls_set ?n (main_thread_attr ?n) (tls_initialize (?n + 1))"
  have tls0: "length ?tls0 = Suc ?N" by (simp add: tls_initialize_def len)
  have ids: "map thread_id ?ws = map of_nat [0..<?N]" by (simp add: make_threads_ids)
  then have "set (map thread_id ?ws) = of_nat ` {0..<?N}" by simp
  then have below: "\<exists>k<?N. thread_id a = of_nat k" if "a \<in> set ?ws" for a
    using that by (metis (no_types, lifting) atLeastLessThan_iff imageE imageI list.set_map)
  have range: "\<forall>a\<in>set ?ws. unat (thread_id a) < length ?tls0 \<and> thread_id a \<noteq> ?n"
  proof
    fix a assume "a \<in> set ?ws"
    then obtain k where k: "k < ?N" "thread_id a = of_nat k" using below by blast
    then have "unat (thread_id a) = k" using assms(1) by (simp add: unat_of_nat32)
    with k tls0 N show "unat (thread_id a) < length ?tls0 \<and> thread_id a \<noteq> ?n" by auto
  qed
  have "distinct (map thread_id ?ws)"
    unfolding ids using word_upt_distinct [of ?N] assms(1) by simp
  from tls_fold [OF this, of ?tls0] range
  show "a \<in> set ?ws \<Longrightarrow> tls_get (thread_id a) tls = Some a" by (simp add: tls_def taskmgr_make_def Let_def)
  show "tls_get ?n tls = Some (main_thread_attr ?n)"
    using tls_fold_other [OF range] tls0 N
    by (simp add: tls_def taskmgr_make_def Let_def tls_get_set tls_initialize_def len)
qed

section \<open>Properties\<close>

text \<open>
  C27: the constructor numbers the threads. With fewer than \<open>2^32 - 1\<close> threads in all, the
  workers are numbered from 0 in the order of the queues, queue \<open>k\<close> has the number of
  threads asked for, every worker finds its own entry in the thread-local table, and the
  main thread is told the number of threads as its identifier, with which it has no entry
  in the cache of current tasks.
\<close>

theorem constructor_numbers_threads:
  assumes "total_threads thds < 2 ^ 32 - 1"
    and "m = taskmgr_make prio_min dflt thds affinity ts gs"
  shows "map thread_id (thread_data m) = map of_nat [0..<total_threads thds] \<and>
         map task_queue_number (thread_data m) =
           concat (map (\<lambda>k. replicate (unat (thds ! k)) (of_nat k)) [0..<length thds]) \<and>
         (\<forall>a\<in>set (thread_data m). tls_get (thread_id a) (tls_attr_map m) = Some a) \<and>
         current_thread_id (num_threads m) m = Some (of_nat (total_threads thds)) \<and>
         current_task (num_threads m) m = None"
proof -
  let ?N = "total_threads thds" and ?n = "sum_threads thds"
  have N: "unat ?n = ?N" using sum_threads_total assms(1) by simp
  have "of_nat (unat ?n) = ?n" by simp
  with N have n: "?n = of_nat ?N" by simp
  have main: "current_thread_id (num_threads m) m = Some ?n"
    using made_entries(2) [OF assms(1)]
    by (simp add: assms(2) current_thread_id_def main_thread_attr_def thread_attr_make_def)
       (simp add: taskmgr_make_def Let_def)
  moreover have "cache_get ?n m = None"
    by (simp add: assms(2) taskmgr_make_def Let_def cache_get_def N)
  ultimately show ?thesis
    using make_threads_ids [of affinity 0 0 thds] make_threads_queues [of affinity 0 0 thds] n
      made_entries(1) [OF assms(1), of _ affinity prio_min dflt ts gs]
    by (simp add: assms(2) taskmgr_make_def Let_def current_task_def)
qed

theorem constructor_numbers_threads_witness:
  "map task_queue_number (thread_data (taskmgr_make (0::int) 0 [1, 0, 1] None
     (\<lambda>_. task_default 0) (\<lambda>_. group_default))) = [0, 2]"
proof -
  have "total_threads [1, 0, 1] < 2 ^ 32 - 1" by (simp add: total_threads_def)
  from constructor_numbers_threads [OF this refl, of "0::int" 0 None "\<lambda>_. task_default 0"
      "\<lambda>_. group_default", THEN conjunct2, THEN conjunct1]
  show ?thesis by (simp add: upt_rec)
qed

text \<open>
  C26: \<open>get_task\<close> returns. If every test of the completion predicate takes time and the
  predicate holds from some time on, \<open>get_task\<close> ends whatever the queues give and however
  many attempts it is allowed, zero included; and it returns \<open>NULL\<close> only when its last
  test found the predicate true, and otherwise a task that \<open>get\<close> gave it.
\<close>

theorem get_task_returns:
  assumes "timed clock deadline compl get yield"
  shows "\<exists>r s'. get_task compl get yield max_attempts s = Some (r, s') \<and>
           (case r of None \<Rightarrow> (\<exists>s1. compl s1 = (True, s'))
            | Some t \<Rightarrow> (\<exists>s1. fst (get s1) = Some t))"
proof -
  obtain rs where rs: "get_task compl get yield max_attempts s = Some rs"
    using get_task_loop_returns [OF assms, of max_attempts max_attempts s]
    by (auto simp: get_task_def)
  from get_task_loop_result [of compl get yield max_attempts max_attempts s rs] rs show ?thesis
    by (cases rs) (auto simp: get_task_def found_def)
qed

theorem get_task_returns_witness:
  "\<exists>s'. get_task (\<lambda>t. (5 \<le> t, Suc t)) (\<lambda>t. (None, t)) Suc 0 (0::nat) = Some (None, s')"
proof -
  have "timed id 5 (\<lambda>t. (5 \<le> t, Suc t)) (\<lambda>t. (None, t)) Suc"
    by (simp add: timed_def)
  from get_task_returns [OF this, of 0 0] show ?thesis
    by (auto split: option.splits)
qed

text \<open>
  A wait takes two waiters off. When \<open>progress_wait\<close> looks for a task and finds the
  event it waits for complete, \<open>get_task\<close> tests the event twice, so a single wait counts
  two of the event's waiters down.
\<close>

theorem get_task_tests_twice:
  assumes "n \<noteq> 0"
  shows "get_task event_test get yield max_attempts
           \<lparr>event_state = PFUNC_ACTIVE_COMPLETE, num_waiters = n\<rparr> =
         Some (None, if 2 < unat n then \<lparr>event_state = PFUNC_ACTIVE_COMPLETE, num_waiters = n - 2\<rparr>
                     else \<lparr>event_state = PFUNC_INACTIVE, num_waiters = 0\<rparr>)"
proof -
  let ?e = "\<lparr>event_state = PFUNC_ACTIVE_COMPLETE, num_waiters = n\<rparr>"
  have once: "attempt_loop event_test get k ?e = (None, snd (event_test ?e))" for k
    by (cases k) (simp_all add: event_test_complete)
  have two: "n - 1 - 1 = n - 2" by simp
  have "2 < unat n \<longleftrightarrow> n \<noteq> 1 \<and> n - 1 \<noteq> 1"
    using assms unat_minus_one32 [OF assms] unat_is_1_32 [of n] unat_is_1_32 [of "n - 1"]
      unat_gt_0 [of n] by auto
  then show ?thesis
    unfolding get_task_def
    by (subst get_task_loop.simps)
       (simp add: once event_test_complete event_test_inactive two)
qed

theorem get_task_tests_twice_witness:
  "get_task event_test (\<lambda>e. (None, e)) id 10 \<lparr>event_state = PFUNC_ACTIVE_COMPLETE, num_waiters = 3\<rparr> =
     Some (None, \<lparr>event_state = PFUNC_ACTIVE_COMPLETE, num_waiters = 1\<rparr>)"
  using get_task_tests_twice [of 3 "\<lambda>e. (None, e)" id 10] by simp

end
