(* ===== verification/Runtime.thy ===== *)
theory Runtime
  imports Taskmgr
begin

text \<open>
  The task manager at work: any number of workers in the work loop, in \<open>progress_wait\<close> and
  in \<open>progress_barrier\<close> of \<^verbatim>\<open>pfunc/taskmgr.hpp\<close>, and the main thread. A worker's C++
  stack is a list of frames, innermost first. What a functor does is up to its author: it
  may spawn, wait, test, call the barrier, return or throw, in any order. One action is
  one attempt to get a task from one queue, one test of a completion event, or one call. Between
  the queues of one \<open>get\<close>, and between its attempts and the tests of the event in \<open>get_task\<close>,
  other threads may act; so these are separate actions, that may come in any order. Ghost fields record which tasks were spawned, started
  and finished.
\<close>

section \<open>State\<close>

text \<open>
  A running functor, with a copy of its task taken when it started; a wait for a task, with
  the \<open>current_task\<close> that \<open>progress_wait\<close> saved; the work-stealing barrier, inside
  \<open>progress_barrier\<close> with the \<open>current_task\<close> it saved.
\<close>

datatype 'p frame =
    Run task_ptr "'p task"
  | Wait task_ptr "'p task"
  | Barr "'p task option"

record 'p runtime =
  mgr :: "'p taskmgr"
  stacks :: "u32 \<Rightarrow> 'p frame list"
  left_loop :: "u32 \<Rightarrow> bool"            \<comment> \<open>the worker has left its work loop\<close>
  terminated :: bool                     \<comment> \<open>by \<open>std::terminate\<close>\<close>
  spawned :: "task_ptr multiset"
  started :: "task_ptr multiset"
  finished :: "task_ptr multiset"

definition runtime_start :: "'p taskmgr \<Rightarrow> 'p runtime" where
  "runtime_start m = \<lparr>mgr = m, stacks = (\<lambda>_. []), left_loop = (\<lambda>_. False), terminated = False,
     spawned = {#}, started = {#}, finished = {#}\<rparr>"

definition is_worker :: "u32 \<Rightarrow> 'p runtime \<Rightarrow> bool" where
  "is_worker w r \<longleftrightarrow> unat w < unat (num_threads (mgr r)) \<and> \<not> left_loop r w"

definition in_functor :: "u32 \<Rightarrow> 'p runtime \<Rightarrow> bool" where
  "in_functor w r \<longleftrightarrow> is_worker w r \<and> (case stacks r w of Run t c # fs \<Rightarrow> True | _ \<Rightarrow> False)"

definition cached :: "u32 \<Rightarrow> 'p runtime \<Rightarrow> 'p task" where
  "cached w r = task_cache (mgr r) ! unat w"

definition store_task :: "task_ptr \<Rightarrow> 'p task \<Rightarrow> 'p runtime \<Rightarrow> 'p runtime" where
  "store_task u t r = r\<lparr>mgr := (mgr r)\<lparr>tasks := (tasks (mgr r))(u := t)\<rparr>\<rparr>"

definition store_groups :: "groups \<Rightarrow> 'p runtime \<Rightarrow> 'p runtime" where
  "store_groups gs r = r\<lparr>mgr := (mgr r)\<lparr>groups_of := gs\<rparr>\<rparr>"

definition set_stack :: "u32 \<Rightarrow> 'p frame list \<Rightarrow> 'p runtime \<Rightarrow> 'p runtime" where
  "set_stack w fs r = r\<lparr>stacks := (stacks r)(w := fs)\<rparr>"

definition set_cache :: "u32 \<Rightarrow> 'p task \<Rightarrow> 'p runtime \<Rightarrow> 'p runtime" where
  "set_cache w t r = r\<lparr>mgr := cache_put w t (mgr r)\<rparr>"

section \<open>Steps of a thread\<close>

text \<open>
  One attempt of worker \<open>w\<close> to get a task, from queue \<open>i\<close> modulo their number: one pass of
  the loop of \<open>get\<close>, a critical section that \<open>Locked_Queues\<close> shows to be a single step. Its stack becomes \<open>fs\<close> below the task:
  set the cache and run it; or there is none. Between two attempts of one \<open>get\<close> others may
  act, and the order in which the queues are tried is left open.
\<close>

definition try_task ::
  "('p \<Rightarrow> 'p \<Rightarrow> bool) \<Rightarrow> policy \<Rightarrow> u32 \<Rightarrow> u32 \<Rightarrow> task_ptr pred_pair \<Rightarrow> 'p frame list \<Rightarrow> 'p runtime \<Rightarrow>
   (bool \<times> 'p runtime) option" where
  "try_task cmp pol w i cnd fs r =
     (case tls_get w (tls_attr_map (mgr r)) of
        None \<Rightarrow> None
      | Some a \<Rightarrow>
          (case queue_attempt (\<lambda>t u. compare_task_ptr cmp (tasks (mgr r) t) (tasks (mgr r) u)) pol
                  (task_queue_number a) cnd i (task_queue (mgr r)) of
             None \<Rightarrow> None
           | Some (None, qs) \<Rightarrow> Some (False, r\<lparr>mgr := (mgr r)\<lparr>task_queue := qs\<rparr>\<rparr>)
           | Some (Some t, qs) \<Rightarrow>
               Some (True,
                 set_stack w (Run t (tasks (mgr r) t) # fs)
                   (set_cache w (tasks (mgr r) t)
                     (r\<lparr>mgr := (mgr r)\<lparr>task_queue := qs\<rparr>, started := add_mset t (started r)\<rparr>)))))"

text \<open>The end of \<open>wait\<close> of a nested task: \<open>get_task\<close> has tested the event twice.\<close>

definition wait_returns :: "'p task \<times> groups \<Rightarrow> ('p task \<times> groups) option" where
  "wait_returns = (\<lambda>(t, gs).
     case event_test (testing_compl t) of
       (False, _) \<Rightarrow> None
     | (True, e1) \<Rightarrow>
         (let t' = t\<lparr>testing_compl := snd (event_test e1)\<rparr>
          in Some (t', if get_grouped (attr t') then task_leave t' gs else gs)))"

text \<open>
  The functor of \<open>t\<close> ends and \<open>notify\<close> follows. If that throws, the exception leaves the
  work loop and the start function of the thread, which nothing catches; or it leaves \<open>progress_wait\<close> or \<open>progress_barrier\<close> before the cache is
  reset and arrives in the functor below; \<open>task::wait\<close> stores it in the task waited for.
\<close>

definition finish_task ::
  "string \<Rightarrow> u32 \<Rightarrow> task_ptr \<Rightarrow> unit result \<Rightarrow> 'p frame list \<Rightarrow> 'p runtime \<Rightarrow> 'p runtime" where
  "finish_task loc w t out fs r =
     (case task_notify (task_run loc out (tasks (mgr r) t)) of
        (res, t') \<Rightarrow>
          (let r1 = store_task t t' (r\<lparr>finished := add_mset t (finished r)\<rparr>)
           in case (res, fs) of
                (Inr _, Wait u c # fs') \<Rightarrow> set_stack w fs (set_cache w c r1)
              | (Inr _, Barr (Some c) # fs') \<Rightarrow> set_stack w (Barr None # fs') (set_cache w c r1)
              | (Inr _, _) \<Rightarrow> set_stack w fs r1
              | (Inl x, Wait u c # fs') \<Rightarrow>
                  (let u' = tasks (mgr r1) u;
                       x1 = fst (pfunc_catch_and_rethrow (trace_site ''taskmgr'' ''progress_wait'' loc)
                                   None (Inl x :: unit result));
                       ex = snd (pfunc_catch_and_rethrow (trace_site ''task'' ''run'' loc)
                                   (texcept u') x1)
                   in set_stack w fs' (store_task u (u'\<lparr>texcept := ex\<rparr>) r1))
              | (Inl x, Barr b # fs') \<Rightarrow> set_stack w fs' r1
              | (Inl x, _) \<Rightarrow> set_stack w fs (r1\<lparr>terminated := True\<rparr>)))"

section \<open>The machine\<close>

datatype 'p rt_action =
    Spawn u32 task_ptr "'p attribute" group_ptr func_ptr
  | Fetch u32 u32                      \<comment> \<open>an attempt in the work loop\<close>
  | CallWait u32 task_ptr
  | WaitGet u32 u32                    \<comment> \<open>an attempt in \<open>progress_wait\<close>\<close>
  | WaitDone u32                   \<comment> \<open>the completion test there succeeds\<close>
  | CallTest u32 task_ptr
  | CallBarrier u32
  | BarrierGet u32 u32                 \<comment> \<open>the attempt in \<open>progress_barrier\<close>\<close>
  | BarrierDone u32                \<comment> \<open>the phase has changed\<close>
  | Finish u32 "unit result"       \<comment> \<open>the functor returns or throws\<close>
  | Cancel                         \<comment> \<open>the destructor\<close>
  | Exit u32

fun rt_act ::
  "('p \<Rightarrow> 'p \<Rightarrow> bool) \<Rightarrow> policy \<Rightarrow> bool \<Rightarrow> 'p rt_action \<Rightarrow> 'p runtime \<Rightarrow> 'p runtime option" where
  "rt_act cmp pol throws (Spawn w t a g f) r =
     (if in_functor w r \<or> w = num_threads (mgr r)
      then map_option (\<lambda>m. r\<lparr>mgr := m, spawned := add_mset t (spawned r)\<rparr>)
             (spawn_task_full pol w t a g f (mgr r))
      else None)"
| "rt_act cmp pol throws (Fetch w i) r =
     (if is_worker w r \<and> stacks r w = [] \<and> \<not> thread_state (mgr r) ! unat w
      then map_option snd (try_task cmp pol w i regular_predicate_pair [] r) else None)"
| "rt_act cmp pol throws (CallWait w u) r =
     (if in_functor w r \<or> w = num_threads (mgr r)
      then (case task_wait ''task.hpp'' (if w = num_threads (mgr r) then main_progress else (\<lambda>_. None))
                   (tasks (mgr r) u, groups_of (mgr r)) of
              Some (res, t, gs) \<Rightarrow> Some (store_groups gs (store_task u t r))
            | None \<Rightarrow>
                if get_nested (attr (tasks (mgr r) u)) \<and> in_functor w r
                then Some (set_stack w (Wait u (cached w r) # stacks r w) r) else None)
      else None)"
| "rt_act cmp pol throws (WaitGet w i) r =
     (case stacks r w of
        Wait u c # fs \<Rightarrow>
          map_option (\<lambda>(got, r').
              if got
              then store_task u ((tasks (mgr r') u)
                     \<lparr>testing_compl := snd (event_test (testing_compl (tasks (mgr r') u)))\<rparr>) r'
              else r')
            (try_task cmp pol w i (waiting_predicate_pair cmp pol (tasks (mgr r)) c) (Wait u c # fs) r)
      | _ \<Rightarrow> None)"
| "rt_act cmp pol throws (WaitDone w) r =
     (case stacks r w of
        Wait u c # fs \<Rightarrow>
          map_option (\<lambda>(t, gs). set_stack w fs (store_groups gs (store_task u t r)))
            (wait_returns (tasks (mgr r) u, groups_of (mgr r)))
      | _ \<Rightarrow> None)"
| "rt_act cmp pol throws (CallTest w u) r =
     (if in_functor w r \<or> w = num_threads (mgr r)
      then (case task_test (tasks (mgr r) u, groups_of (mgr r)) of
              (res, t, gs) \<Rightarrow> Some (store_groups gs (store_task u t r)))
      else None)"
| "rt_act cmp pol throws (CallBarrier w) r =
     (if in_functor w r \<and> task_barrier (cached w r) (groups_of (mgr r)) = Some CallSteal
      then Some (set_stack w (Barr None # stacks r w) r) else None)"
| "rt_act cmp pol throws (BarrierGet w i) r =
     (case stacks r w of
        Barr None # fs \<Rightarrow>
          map_option (\<lambda>(got, r'). if got then r' else set_stack w (Barr None # fs) r')
            (try_task cmp pol w i (group_predicate_pair cmp pol (tasks (mgr r)) (cached w r))
               (Barr (Some (cached w r)) # fs) r)
      | _ \<Rightarrow> None)"
| "rt_act cmp pol throws (BarrierDone w) r =
     (case stacks r w of Barr None # fs \<Rightarrow> Some (set_stack w fs r) | _ \<Rightarrow> None)"
| "rt_act cmp pol throws (Finish w out) r =
     (case stacks r w of
        Run t c # fs \<Rightarrow>
          if throws \<or> out = Inr () then Some (finish_task ''taskmgr.hpp'' w t out fs r) else None
      | _ \<Rightarrow> None)"
| "rt_act cmp pol throws Cancel r = Some (r\<lparr>mgr := cancel_all (mgr r)\<rparr>)"
| "rt_act cmp pol throws (Exit w) r =
     (if is_worker w r \<and> stacks r w = [] \<and> thread_state (mgr r) ! unat w
      then Some (r\<lparr>left_loop := (left_loop r)(w := True)\<rparr>) else None)"

text \<open>Nothing happens any more after \<open>std::terminate\<close>.\<close>

definition rt_event ::
  "('p \<Rightarrow> 'p \<Rightarrow> bool) \<Rightarrow> policy \<Rightarrow> bool \<Rightarrow> 'p rt_action \<Rightarrow> 'p runtime \<Rightarrow> 'p runtime option" where
  "rt_event cmp pol throws a r = (if terminated r then None else rt_act cmp pol throws a r)"

abbreviation rt_step ::
  "('p \<Rightarrow> 'p \<Rightarrow> bool) \<Rightarrow> policy \<Rightarrow> bool \<Rightarrow> 'p runtime \<Rightarrow> 'p runtime \<Rightarrow> bool" where
  "rt_step cmp pol throws \<equiv> step_of (rt_event cmp pol throws)"

text \<open>A new task manager, with tasks and groups that nobody has used.\<close>

definition fresh :: "'p \<Rightarrow> u32 list \<Rightarrow> groups \<Rightarrow> 'p runtime" where
  "fresh prio_min thds gs =
     runtime_start (taskmgr_make prio_min 0 thds None (\<lambda>_. task_default prio_min) gs)"

section \<open>No task is lost\<close>

fun run_ptrs :: "'p frame list \<Rightarrow> task_ptr multiset" where
  "run_ptrs [] = {#}"
| "run_ptrs (Run t c # fs) = add_mset t (run_ptrs fs)"
| "run_ptrs (f # fs) = run_ptrs fs"

text \<open>The tasks that some worker is executing.\<close>

definition running :: "'p runtime \<Rightarrow> task_ptr multiset" where
  "running r = (\<Sum>w\<in>UNIV. run_ptrs (stacks r w))"

definition tls_ok :: "'p taskmgr \<Rightarrow> bool" where
  "tls_ok m \<longleftrightarrow> (\<forall>w a. tls_get w (tls_attr_map m) = Some a \<longrightarrow>
     unat (task_queue_number a) < unat (num_queues (task_queue m)))"

definition account_inv :: "'p runtime \<Rightarrow> bool" where
  "account_inv r \<longleftrightarrow> queues_ok (task_queue (mgr r)) \<and> tls_ok (mgr r) \<and>
     spawned r = started r + content (task_queue (mgr r)) \<and> started r = finished r + running r"

lemma rt_sel [simp]:
  "mgr (set_stack w fs r) = mgr r" "stacks (set_stack w fs r) = (stacks r)(w := fs)"
  "left_loop (set_stack w fs r) = left_loop r" "spawned (set_stack w fs r) = spawned r"
  "started (set_stack w fs r) = started r" "finished (set_stack w fs r) = finished r"
  "mgr (store_task u t r) = (mgr r)\<lparr>tasks := (tasks (mgr r))(u := t)\<rparr>"
  "stacks (store_task u t r) = stacks r" "left_loop (store_task u t r) = left_loop r"
  "spawned (store_task u t r) = spawned r" "started (store_task u t r) = started r"
  "finished (store_task u t r) = finished r"
  "mgr (store_groups gs r) = (mgr r)\<lparr>groups_of := gs\<rparr>" "stacks (store_groups gs r) = stacks r"
  "left_loop (store_groups gs r) = left_loop r" "spawned (store_groups gs r) = spawned r"
  "started (store_groups gs r) = started r" "finished (store_groups gs r) = finished r"
  "mgr (set_cache w c r) = cache_put w c (mgr r)" "stacks (set_cache w c r) = stacks r"
  "left_loop (set_cache w c r) = left_loop r" "spawned (set_cache w c r) = spawned r"
  "started (set_cache w c r) = started r" "finished (set_cache w c r) = finished r"
  by (simp_all add: set_stack_def store_task_def store_groups_def set_cache_def)

lemma cache_put_sel [simp]:
  "task_queue (cache_put w c m) = task_queue m" "tls_attr_map (cache_put w c m) = tls_attr_map m"
  "tasks (cache_put w c m) = tasks m" "groups_of (cache_put w c m) = groups_of m"
  "num_threads (cache_put w c m) = num_threads m"
  "length (task_cache (cache_put w c m)) = length (task_cache m)"
  by (simp_all add: cache_put_def)

lemma cancel_all_sel [simp]:
  "task_queue (cancel_all m) = task_queue m" "tls_attr_map (cancel_all m) = tls_attr_map m"
  "tasks (cancel_all m) = tasks m" "task_cache (cancel_all m) = task_cache m"
  "num_threads (cancel_all m) = num_threads m"
  by (simp_all add: cancel_all_def)

lemma tls_ok_cong:
  "tls_attr_map m' = tls_attr_map m \<Longrightarrow> num_queues (task_queue m') = num_queues (task_queue m) \<Longrightarrow>
   tls_ok m' = tls_ok m"
  by (simp add: tls_ok_def)

lemma running_cong: "stacks r' = stacks r \<Longrightarrow> running r' = running r"
  by (simp add: running_def)

lemma running_upd:
  assumes "stacks r' = (stacks r)(w := fs)"
  shows "running r' + run_ptrs (stacks r w) = running r + run_ptrs fs"
proof -
  have fin: "finite (UNIV :: u32 set)" by simp
  have "running r' = run_ptrs fs + (\<Sum>v\<in>UNIV - {w}. run_ptrs (stacks r v))"
    unfolding running_def by (subst sum.remove [OF fin UNIV_I, of _ w]) (simp add: assms)
  moreover have "running r = run_ptrs (stacks r w) + (\<Sum>v\<in>UNIV - {w}. run_ptrs (stacks r v))"
    unfolding running_def by (rule sum.remove [OF fin UNIV_I])
  ultimately show ?thesis by (simp add: ac_simps)
qed

text \<open>A step that only moves frames other than \<open>Run\<close> and writes tasks, groups and the cache.\<close>

lemma account_quiet:
  assumes "account_inv r" and "task_queue (mgr r') = task_queue (mgr r)"
    and "tls_attr_map (mgr r') = tls_attr_map (mgr r)"
    and "spawned r' = spawned r" "started r' = started r" "finished r' = finished r"
    and "stacks r' = (stacks r)(w := fs)" and "run_ptrs fs = run_ptrs (stacks r w)"
  shows "account_inv r'"
  using assms running_upd [OF assms(7)] tls_ok_cong [of "mgr r'" "mgr r"]
  by (simp add: account_inv_def)

lemma account_same:
  assumes "account_inv r" and "task_queue (mgr r') = task_queue (mgr r)"
    and "tls_attr_map (mgr r') = tls_attr_map (mgr r)"
    and "spawned r' = spawned r" "started r' = started r" "finished r' = finished r"
    and "stacks r' = stacks r"
  shows "account_inv r'"
  using assms running_cong [OF assms(7)] tls_ok_cong [of "mgr r'" "mgr r"]
  by (simp add: account_inv_def)

text \<open>What one attempt does, given that the queues and the table are in order.\<close>

lemma try_task_cases:
  assumes "queues_ok (task_queue (mgr r))" and "tls_ok (mgr r)"
    and "try_task cmp pol w i cnd fs r = Some (got, r')"
  obtains (none) "\<not> got" "r' = r"
  | (task) t qs where "got" "queues_ok qs" "num_queues qs = num_queues (task_queue (mgr r))"
      "content (task_queue (mgr r)) = add_mset t (content qs)"
      "own_pred cnd t \<or> steal_pred cnd t"
      "r' = set_stack w (Run t (tasks (mgr r) t) # fs)
              (set_cache w (tasks (mgr r) t)
                (r\<lparr>mgr := (mgr r)\<lparr>task_queue := qs\<rparr>, started := add_mset t (started r)\<rparr>))"
proof -
  let ?cmp = "\<lambda>t u. compare_task_ptr cmp (tasks (mgr r) t) (tasks (mgr r) u)"
  let ?s = "task_queue (mgr r)"
  from assms(3) obtain a where a: "tls_get w (tls_attr_map (mgr r)) = Some a"
    by (auto simp: try_task_def split: option.splits)
  from queue_attempt_cases [OF assms(1), of ?cmp pol "task_queue_number a" cnd i] show ?thesis
  proof
    assume "queue_attempt ?cmp pol (task_queue_number a) cnd i ?s = Some (None, ?s) \<and>
      (\<nexists>v rest. offers (policy_pop ?cmp pol) cnd (task_queue_number a) ?s (i mod num_queues ?s) v rest)"
    with a assms(3) show ?thesis by (intro none) (auto simp: try_task_def)
  next
    assume "\<exists>v rest. queue_attempt ?cmp pol (task_queue_number a) cnd i ?s =
        Some (Some v, set_queue (i mod num_queues ?s) rest ?s) \<and>
      offers (policy_pop ?cmp pol) cnd (task_queue_number a) ?s (i mod num_queues ?s) v rest"
    then obtain v rest where x: "queue_attempt ?cmp pol (task_queue_number a) cnd i ?s =
        Some (Some v, set_queue (i mod num_queues ?s) rest ?s)"
      and o: "offers (policy_pop ?cmp pol) cnd (task_queue_number a) ?s (i mod num_queues ?s) v rest" by blast
    from offers_facts [OF assms(1) o] x a assms(1,3) show ?thesis
      by (intro task [of "set_queue (i mod num_queues ?s) rest ?s" v]) (auto simp: try_task_def)
  qed
qed

lemma try_task_account:
  assumes "account_inv r" and "try_task cmp pol w i cnd fs r = Some (got, r')"
    and "run_ptrs fs = run_ptrs (stacks r w)"
  shows "account_inv r'"
proof -
  have ok: "queues_ok (task_queue (mgr r))" "tls_ok (mgr r)" using assms(1) by (auto simp: account_inv_def)
  from ok assms(2) show ?thesis
  proof (cases rule: try_task_cases)
    case none
    with assms(1) show ?thesis by simp
  next
    case (task t qs)
    have st: "stacks r' = (stacks r)(w := Run t (tasks (mgr r) t) # fs)" using task(6) by simp
    have "running r' = add_mset t (running r)"
      using running_upd [OF st] assms(3) by simp
    with task assms(1) tls_ok_cong [of "mgr r'" "mgr r"] show ?thesis
      by (simp add: account_inv_def)
  qed
qed

lemma spawn_account:
  assumes inv: "account_inv r" and "spawn_task_full pol w t a g f (mgr r) = Some m"
  shows "account_inv (r\<lparr>mgr := m, spawned := add_mset t (spawned r)\<rparr>)"
proof -
  from assms(2) obtain q qs x gs where put: "queue_put pol q t (task_queue (mgr r)) = Some qs"
    and m: "m = (mgr r)\<lparr>tasks := (tasks (mgr r))(t := x), groups_of := gs, task_queue := qs\<rparr>"
    by (auto simp: spawn_task_full_def split: option.splits prod.splits)
  have ok: "queues_ok (task_queue (mgr r))" using inv by (simp add: account_inv_def)
  from tq.put_ok [OF ok queue_put_defined [OF put ok], of pol t] put
  have "queues_ok qs" "num_queues qs = num_queues (task_queue (mgr r))"
    "content qs = add_mset t (content (task_queue (mgr r)))" by auto
  moreover have "running (r\<lparr>mgr := m, spawned := add_mset t (spawned r)\<rparr>) = running r"
    by (rule running_cong) simp
  ultimately show ?thesis
    using inv m tls_ok_cong [of m "mgr r"] by (simp add: account_inv_def)
qed

lemma finish_facts:
  "task_queue (mgr (finish_task loc w t out fs r)) = task_queue (mgr r)"
  "tls_attr_map (mgr (finish_task loc w t out fs r)) = tls_attr_map (mgr r)"
  "spawned (finish_task loc w t out fs r) = spawned r"
  "started (finish_task loc w t out fs r) = started r"
  "finished (finish_task loc w t out fs r) = add_mset t (finished r)"
  "\<exists>gs. stacks (finish_task loc w t out fs r) = (stacks r)(w := gs) \<and> run_ptrs gs = run_ptrs fs"
  by (auto simp: finish_task_def Let_def split: prod.splits sum.splits list.splits frame.splits
      option.splits)

lemma finish_account:
  assumes inv: "account_inv r" and st: "stacks r w = Run t c # fs"
  shows "account_inv (finish_task loc w t out fs r)" (is "account_inv ?r'")
proof -
  obtain gs where "stacks ?r' = (stacks r)(w := gs)" "run_ptrs gs = run_ptrs fs"
    using finish_facts(6) by blast
  with running_upd [of ?r' r w gs] st have "add_mset t (running ?r') = running r" by simp
  with inv tls_ok_cong [of "mgr ?r'" "mgr r"] finish_facts(1-5) [of loc w t out fs r] show ?thesis
    by (simp add: account_inv_def)
qed

lemma rt_act_account:
  assumes inv: "account_inv r" and ev: "rt_act cmp pol throws a r = Some r'"
  shows "account_inv r'"
proof (cases a)
  case (Spawn w t a g f)
  with ev inv show ?thesis by (auto split: if_splits intro: spawn_account)
next
  case (Fetch w i)
  with ev inv show ?thesis by (auto split: if_splits intro: try_task_account)
next
  case (CallWait w u)
  with ev inv show ?thesis
    by (auto split: if_splits option.splits intro: account_same account_quiet [of r _ w])
next
  case (WaitGet w i)
  with ev obtain u c fs got r1 where st: "stacks r w = Wait u c # fs"
    and t: "try_task cmp pol w i (waiting_predicate_pair cmp pol (tasks (mgr r)) c) (Wait u c # fs) r =
              Some (got, r1)"
    and r': "r' = (if got then store_task u ((tasks (mgr r1) u)
         \<lparr>testing_compl := snd (event_test (testing_compl (tasks (mgr r1) u)))\<rparr>) r1 else r1)"
    by (auto split: list.splits frame.splits)
  have "account_inv r1" by (rule try_task_account [OF inv t]) (simp add: st)
  with r' show ?thesis by (auto intro: account_same)
next
  case (WaitDone w)
  with ev inv show ?thesis
    by (auto split: list.splits frame.splits intro: account_quiet [of r _ w])
next
  case (CallTest w u)
  with ev inv show ?thesis by (auto split: if_splits prod.splits intro: account_same)
next
  case (CallBarrier w)
  with ev inv show ?thesis by (auto split: if_splits intro: account_quiet [of r _ w])
next
  case (BarrierGet w i)
  with ev obtain fs got r1 where st: "stacks r w = Barr None # fs"
    and t: "try_task cmp pol w i (group_predicate_pair cmp pol (tasks (mgr r)) (cached w r))
              (Barr (Some (cached w r)) # fs) r = Some (got, r1)"
    and r': "r' = (if got then r1 else set_stack w (Barr None # fs) r1)"
    by (auto split: list.splits frame.splits option.splits)
  have ok: "queues_ok (task_queue (mgr r))" "tls_ok (mgr r)" using inv by (auto simp: account_inv_def)
  have inv1: "account_inv r1" by (rule try_task_account [OF inv t]) (simp add: st)
  from ok t show ?thesis
  proof (cases rule: try_task_cases)
    case none
    with r' inv st show ?thesis by (auto intro: account_quiet [of r _ w])
  qed (use r' inv1 in simp)
next
  case (BarrierDone w)
  with ev inv show ?thesis
    by (auto split: list.splits frame.splits option.splits intro: account_quiet [of r _ w])
next
  case (Finish w out)
  with ev inv show ?thesis
    by (auto split: list.splits frame.splits if_splits intro: finish_account)
next
  case Cancel
  with ev inv show ?thesis by (auto intro: account_same)
next
  case (Exit w)
  with ev inv show ?thesis by (auto split: if_splits intro: account_same)
qed

section \<open>The cache and the stack\<close>

definition same_info :: "'p task \<Rightarrow> 'p task \<Rightarrow> bool" where
  "same_info t u \<longleftrightarrow> attr t = attr u \<and> tgroup t = tgroup u \<and> gsize t = gsize u \<and> grank t = grank u"

lemma same_info_refl [simp]: "same_info t t"
  by (simp add: same_info_def)

lemma same_info_copy [simp]: "same_info (task_shallow_copy t u) v = same_info t v"
  by (simp add: same_info_def task_shallow_copy_def)

lemma same_info_sym: "same_info t u \<Longrightarrow> same_info u t"
  by (simp add: same_info_def)

lemma same_info_trans: "same_info t u \<Longrightarrow> same_info u v \<Longrightarrow> same_info t v"
  by (simp add: same_info_def)

text \<open>The innermost running task, and all running tasks of a stack.\<close>

fun runs :: "'p frame list \<Rightarrow> 'p task list" where
  "runs [] = []"
| "runs (Run t c # fs) = c # runs fs"
| "runs (f # fs) = runs fs"

text \<open>
  How the frames of a worker sit on each other: what was saved is the task below, and the
  task above passed the predicate for it.
\<close>

fun frames_ok :: "('p \<Rightarrow> 'p \<Rightarrow> bool) \<Rightarrow> policy \<Rightarrow> 'p frame list \<Rightarrow> bool" where
  "frames_ok cmp pol [] = True"
| "frames_ok cmp pol [Run t c] = True"
| "frames_ok cmp pol (Run t c # Wait u d # Run t' c' # fs) =
     (waiting_own_pred cmp pol d c \<and> same_info d c' \<and> frames_ok cmp pol (Run t' c' # fs))"
| "frames_ok cmp pol (Run t c # Barr (Some d) # Run t' c' # fs) =
     (group_own_pred cmp pol d c \<and> same_info d c' \<and> frames_ok cmp pol (Run t' c' # fs))"
| "frames_ok cmp pol (Wait u d # Run t' c' # fs) =
     (same_info d c' \<and> frames_ok cmp pol (Run t' c' # fs))"
| "frames_ok cmp pol (Barr None # Run t' c' # fs) = frames_ok cmp pol (Run t' c' # fs)"
| "frames_ok cmp pol _ = False"

definition cache_ok :: "u32 \<Rightarrow> 'p runtime \<Rightarrow> bool" where
  "cache_ok w r \<longleftrightarrow>
     (runs (stacks r w) \<noteq> [] \<longrightarrow> same_info (cached w r) (hd (runs (stacks r w))))"

definition stack_inv :: "('p \<Rightarrow> 'p \<Rightarrow> bool) \<Rightarrow> policy \<Rightarrow> 'p runtime \<Rightarrow> bool" where
  "stack_inv cmp pol r \<longleftrightarrow> account_inv r \<and>
     length (task_cache (mgr r)) = unat (num_threads (mgr r)) \<and>
     (\<forall>t. texcept (tasks (mgr r) t) = None) \<and>
     (\<forall>w. (stacks r w \<noteq> [] \<longrightarrow> unat w < unat (num_threads (mgr r))) \<and>
          frames_ok cmp pol (stacks r w) \<and> cache_ok w r)"

lemma cached_set_cache:
  assumes "unat w < length (task_cache (mgr r))"
  shows "cached v (set_cache w c r) = (if v = w then task_shallow_copy c (cached w r) else cached v r)"
  using assms by (simp add: cached_def set_cache_def cache_put_def nth_list_update word_unat_eq_iff)

lemma cached_cong: "task_cache (mgr r') = task_cache (mgr r) \<Longrightarrow> cached w r' = cached w r"
  by (simp add: cached_def)

text \<open>A step that leaves the stacks of all other workers and their cache entries alone.\<close>

lemma stack_inv_move:
  assumes inv: "stack_inv cmp pol r" and acc: "account_inv r'"
    and st: "stacks r' = (stacks r)(w := fs)" and n: "num_threads (mgr r') = num_threads (mgr r)"
    and cache: "length (task_cache (mgr r')) = length (task_cache (mgr r))"
      "\<And>v. v \<noteq> w \<Longrightarrow> cached v r' = cached v r"
    and tasks: "\<And>t. texcept (tasks (mgr r') t) = None"
    and w: "fs \<noteq> [] \<Longrightarrow> unat w < unat (num_threads (mgr r))" "frames_ok cmp pol fs" "cache_ok w r'"
  shows "stack_inv cmp pol r'"
proof -
  have "cache_ok v r'" for v
    using inv w(3) st cache(2) [of v] by (cases "v = w") (auto simp: stack_inv_def cache_ok_def)
  with assms show ?thesis by (auto simp: stack_inv_def)
qed

lemma stack_inv_same:
  assumes inv: "stack_inv cmp pol r" and acc: "account_inv r'"
    and st: "stacks r' = stacks r" and n: "num_threads (mgr r') = num_threads (mgr r)"
    and cache: "task_cache (mgr r') = task_cache (mgr r)"
    and tasks: "\<And>t. texcept (tasks (mgr r') t) = None"
  shows "stack_inv cmp pol r'"
  using assms cached_cong [OF cache] by (simp add: stack_inv_def cache_ok_def)

text \<open>An attempt that got a task: the new frame fits on the stack below.\<close>

lemma try_task_stack:
  assumes inv: "stack_inv cmp pol r" and t: "try_task cmp pol w i cnd fs r = Some (got, r')"
    and acc: "account_inv r'" and w: "unat w < unat (num_threads (mgr r))"
    and fits: "\<And>t. own_pred cnd t \<or> steal_pred cnd t \<Longrightarrow>
                 frames_ok cmp pol (Run t (tasks (mgr r) t) # fs)"
    and "got"
  shows "stack_inv cmp pol r'"
proof -
  have ok: "queues_ok (task_queue (mgr r))" "tls_ok (mgr r)"
    using inv by (auto simp: stack_inv_def account_inv_def)
  from ok t show ?thesis
  proof (cases rule: try_task_cases)
    case (task t qs)
    let ?r1 = "r\<lparr>mgr := (mgr r)\<lparr>task_queue := qs\<rparr>, started := add_mset t (started r)\<rparr>"
    have len: "unat w < length (task_cache (mgr ?r1))" using inv w by (simp add: stack_inv_def)
    have cached: "cached v r' = (if v = w then task_shallow_copy (tasks (mgr r) t) (cached w r)
                                 else cached v r)" for v
      using cached_set_cache [OF len, of v "tasks (mgr r) t"] task(6)
      by (simp add: cached_def)
    show ?thesis
    proof (rule stack_inv_move [OF inv acc])
      show "stacks r' = (stacks r)(w := Run t (tasks (mgr r) t) # fs)" using task(6) by simp
      have "runs (stacks r' w) = tasks (mgr r) t # runs fs" using task(6) by simp
      then show "cache_ok w r'" by (simp add: cache_ok_def cached)
      show "frames_ok cmp pol (Run t (tasks (mgr r) t) # fs)" using fits task(5) by blast
      show "texcept (tasks (mgr r') t) = None" for t
        using inv task(6) by (simp add: stack_inv_def)
    qed (use task(6) w cached in auto)
  qed (use assms(6) in simp)
qed

lemma frames_ok_wait:
  "frames_ok cmp pol (Wait u d # fs) \<longleftrightarrow>
     (\<exists>t c gs. fs = Run t c # gs \<and> same_info d c \<and> frames_ok cmp pol fs)"
  by (cases "(cmp, pol, Wait u d # fs)" rule: frames_ok.cases) auto

lemma frames_ok_barr:
  "frames_ok cmp pol (Barr b # fs) \<longleftrightarrow>
     b = None \<and> (\<exists>t c gs. fs = Run t c # gs \<and> frames_ok cmp pol fs)"
  by (cases "(cmp, pol, Barr b # fs)" rule: frames_ok.cases) auto

lemma frames_ok_run:
  "frames_ok cmp pol (Run t c # fs) \<longleftrightarrow>
     fs = [] \<or>
     (\<exists>u d gs. fs = Wait u d # gs \<and> waiting_own_pred cmp pol d c \<and> frames_ok cmp pol fs) \<or>
     (\<exists>d t' c' gs. fs = Barr (Some d) # Run t' c' # gs \<and> group_own_pred cmp pol d c \<and>
        same_info d c' \<and> frames_ok cmp pol (Run t' c' # gs))"
  by (cases "(cmp, pol, Run t c # fs)" rule: frames_ok.cases) auto

lemma task_wait_keeps:
  assumes "texcept t = None" and never: "\<And>e x. progress e \<noteq> Some (Inl x)"
    and w: "task_wait loc progress (t, gs) = Some (res, t', gs')"
  shows "texcept t' = None"
proof (cases "get_nested (attr t)")
  case True
  with assms(1) w show ?thesis
  proof (cases "progress (testing_compl t)")
    case (Some p)
    with never [of "testing_compl t"] obtain e where "p = Inr e" by (cases p) auto
    with Some True assms(1) w show ?thesis
      by (auto simp: task_wait_def pfunc_check_and_rethrow_def)
  qed (simp add: task_wait_def pfunc_check_and_rethrow_def)
next
  case False
  with assms(1) w show ?thesis
    by (cases "event_wait (waiting_compl t)")
       (auto simp: task_wait_def pfunc_check_and_rethrow_def)
qed

lemma main_progress_Inr: "main_progress e \<noteq> Some (Inl x)"
  by (simp add: main_progress_def split: prod.splits)

lemma task_test_keeps: "task_test (t, gs) = (res, t', gs') \<Longrightarrow> texcept t' = texcept t"
  by (auto simp: task_test_def split: sum.splits if_splits prod.splits)

lemma wait_returns_keeps: "wait_returns (t, gs) = Some (t', gs') \<Longrightarrow> texcept t' = texcept t"
  by (auto simp: wait_returns_def Let_def split: prod.splits bool.splits)

lemma in_functor_stack:
  assumes "in_functor w r"
  obtains t c fs where "stacks r w = Run t c # fs" "unat w < unat (num_threads (mgr r))"
  using assms by (auto simp: in_functor_def is_worker_def split: list.splits frame.splits)

lemma stack_inv_cached:
  "stack_inv cmp pol r \<Longrightarrow> stacks r w = Run t c # fs \<Longrightarrow> same_info (cached w r) c"
  by (auto simp: stack_inv_def cache_ok_def dest!: spec [of _ w])

lemma stack_inv_parts:
  assumes "stack_inv cmp pol r"
  shows "frames_ok cmp pol (stacks r w)" and "cache_ok w r" and "texcept (tasks (mgr r) t) = None"
    and "stacks r w \<noteq> [] \<Longrightarrow> unat w < unat (num_threads (mgr r))"
    and "length (task_cache (mgr r)) = unat (num_threads (mgr r))" and "account_inv r"
  using assms by (auto simp: stack_inv_def)

text \<open>Pushing or popping a frame other than \<open>Run\<close>, and writing tasks.\<close>

lemma stack_inv_frame:
  assumes inv: "stack_inv cmp pol r" and acc: "account_inv r'"
    and st: "stacks r' = (stacks r)(w := fs)" and "runs fs = runs (stacks r w)"
    and n: "num_threads (mgr r') = num_threads (mgr r)" and cache: "task_cache (mgr r') = task_cache (mgr r)"
    and tasks: "\<And>t. texcept (tasks (mgr r') t) = None"
    and "stacks r w \<noteq> []" and "frames_ok cmp pol fs"
  shows "stack_inv cmp pol r'"
proof (rule stack_inv_move [OF inv acc st n _ _ tasks])
  show "cache_ok w r'"
    using stack_inv_parts(2) [OF inv, of w] assms(4) st cached_cong [OF cache, of w]
    by (simp add: cache_ok_def)
qed (use assms cached_cong [OF cache] stack_inv_parts(4) [OF inv] in auto)

lemma finish_stack:
  assumes inv: "stack_inv cmp pol r" and st: "stacks r w = Run t c # fs"
  shows "stack_inv cmp pol (finish_task loc w t (Inr ()) fs r)" (is "stack_inv _ _ ?r'")
proof -
  have acc: "account_inv ?r'" by (rule finish_account [OF stack_inv_parts(6) [OF inv] st])
  have w: "unat w < unat (num_threads (mgr r))" using stack_inv_parts(4) [OF inv, of w] st by simp
  have len: "unat w < length (task_cache (mgr r))" using w stack_inv_parts(5) [OF inv] by simp
  have "texcept (task_run loc (Inr ()) (tasks (mgr r) t)) = None"
    using stack_inv_parts(3) [OF inv] by simp
  from task_notify_ok [OF this] obtain t'
    where t': "task_notify (task_run loc (Inr ()) (tasks (mgr r) t)) = (Inr (), t')"
      "texcept t' = None" by blast
  let ?r1 = "store_task t t' (r\<lparr>finished := add_mset t (finished r)\<rparr>)"
  have cached1: "cached v ?r1 = cached v r" for v by (simp add: cached_def)
  have cached2: "cached v (set_cache w d ?r1) =
      (if v = w then task_shallow_copy d (cached w r) else cached v r)" for v d
    using cached_set_cache [of w ?r1 v d] len cached1 by simp
  have cached3: "cached v (set_stack w gs x) = cached v x" for v gs x
    by (simp add: cached_def)
  have tasks: "texcept (tasks (mgr ?r1) u) = None" for u
    using stack_inv_parts(3) [OF inv] t'(2) by simp
  have frames: "frames_ok cmp pol (Run t c # fs)"
    using stack_inv_parts(1) [OF inv, of w] st by simp
  then consider "fs = []"
    | u d t2 c2 gs where "fs = Wait u d # Run t2 c2 # gs" "same_info d c2" "frames_ok cmp pol fs"
    | d t2 c2 gs where "fs = Barr (Some d) # Run t2 c2 # gs" "same_info d c2"
        "frames_ok cmp pol (Run t2 c2 # gs)"
    unfolding frames_ok_run [of _ _ t] by (metis frames_ok_wait)
  then show ?thesis
  proof cases
    case 1
    then have r': "?r' = set_stack w [] ?r1" by (simp add: finish_task_def t')
    show ?thesis
      by (rule stack_inv_move [OF inv acc, where w = w and fs = "[]"])
         (use r' tasks in \<open>simp_all add: cached1 cached3 cache_ok_def\<close>)
  next
    case 2
    then have r': "?r' = set_stack w fs (set_cache w d ?r1)" by (simp add: finish_task_def t')
    have "cache_ok w ?r'" using 2(1,2) r' by (simp add: cache_ok_def cached2 cached3)
    then show ?thesis
      using r' tasks w 2(3)
      by (intro stack_inv_move [OF inv acc, where w = w and fs = fs]) (simp_all add: cached2 cached3)
  next
    case 3
    then have r': "?r' = set_stack w (Barr None # Run t2 c2 # gs) (set_cache w d ?r1)"
      by (simp add: finish_task_def t')
    have "cache_ok w ?r'" using 3(2) r' by (simp add: cache_ok_def cached2 cached3)
    then show ?thesis
      using r' tasks w 3(3)
      by (intro stack_inv_move [OF inv acc, where w = w and fs = "Barr None # Run t2 c2 # gs"])
         (simp_all add: cached2 cached3)
  qed
qed

text \<open>
  Provided that no functor throws, every step keeps the frames in order and the cache right.
\<close>

lemma rt_act_stack:
  assumes inv: "stack_inv cmp pol r" and ev: "rt_act cmp pol False a r = Some r'"
  shows "stack_inv cmp pol r'"
proof -
  note parts = stack_inv_parts [OF inv]
  have acc: "account_inv r'" by (rule rt_act_account [OF parts(6) ev])
  note move = stack_inv_frame [OF inv acc] and same = stack_inv_same [OF inv acc]
  show ?thesis
  proof (cases a)
    case (Spawn w t a g f)
    with ev obtain m x gs gs' qs where r': "r' = r\<lparr>mgr := m, spawned := add_mset t (spawned r)\<rparr>"
      and x: "task_prepare a g f (tasks (mgr r) t, gs) = (x, gs')"
      and m: "m = (mgr r)\<lparr>tasks := (tasks (mgr r))(t := x), groups_of := gs', task_queue := qs\<rparr>"
      by (auto simp: spawn_task_full_def split: if_splits option.splits prod.splits)
    show ?thesis
      by (rule same) (use r' m parts(3) task_prepare_facts(4) [OF x] in auto)
  next
    case (Fetch w i)
    with ev obtain got where st: "stacks r w = []" and w: "unat w < unat (num_threads (mgr r))"
      and t: "try_task cmp pol w i regular_predicate_pair [] r = Some (got, r')"
      by (auto simp: is_worker_def split: if_splits)
    show ?thesis
    proof (cases got)
      case True
      show ?thesis by (rule try_task_stack [OF inv t acc w _ True]) simp
    next
      case False
      have "queues_ok (task_queue (mgr r))" "tls_ok (mgr r)" using parts(6) by (auto simp: account_inv_def)
      from this t show ?thesis by (cases rule: try_task_cases) (use False inv in auto)
    qed
  next
    case (CallWait w u)
    show ?thesis
    proof (cases "task_wait ''task.hpp'' (if w = num_threads (mgr r) then main_progress else (\<lambda>_. None))
                   (tasks (mgr r) u, groups_of (mgr r))")
      case None
      with ev CallWait have fn: "in_functor w r"
        and r': "r' = set_stack w (Wait u (cached w r) # stacks r w) r" by (auto split: if_splits)
      from fn obtain t c fs where st: "stacks r w = Run t c # fs" by (rule in_functor_stack)
      have "frames_ok cmp pol (Wait u (cached w r) # stacks r w)"
        using stack_inv_cached [OF inv st] parts(1) [of w] st by simp
      then show ?thesis
        by (intro move [where w = w and fs = "Wait u (cached w r) # stacks r w"])
           (use r' parts(3) st in auto)
    next
      case (Some y)
      then obtain res t gs where y: "task_wait ''task.hpp''
          (if w = num_threads (mgr r) then main_progress else (\<lambda>_. None))
          (tasks (mgr r) u, groups_of (mgr r)) = Some (res, t, gs)" by (cases y) auto
      with ev CallWait have r': "r' = store_groups gs (store_task u t r)" by (auto split: if_splits)
      have "texcept t = None"
        by (rule task_wait_keeps [OF parts(3) _ y]) (simp add: main_progress_Inr)
      then show ?thesis by (intro same) (use r' parts(3) in auto)
    qed
  next
    case (WaitGet w i)
    with ev obtain u c fs got r1 where st: "stacks r w = Wait u c # fs"
      and t: "try_task cmp pol w i (waiting_predicate_pair cmp pol (tasks (mgr r)) c) (Wait u c # fs) r =
                Some (got, r1)"
      and r': "r' = (if got then store_task u ((tasks (mgr r1) u)
           \<lparr>testing_compl := snd (event_test (testing_compl (tasks (mgr r1) u)))\<rparr>) r1 else r1)"
      by (auto split: list.splits frame.splits)
    have acc1: "account_inv r1" by (rule try_task_account [OF parts(6) t]) (simp add: st)
    have "stack_inv cmp pol r1"
    proof (cases got)
      case True
      have "frames_ok cmp pol (Wait u c # fs)" using parts(1) [of w] st by simp
      then show ?thesis
        using parts(4) [of w] st
        by (intro try_task_stack [OF inv t acc1 _ _ True])
           (simp_all add: waiting_predicate_pair_def frames_ok_run [where fs = "Wait _ _ # _"])
    next
      case False
      have "queues_ok (task_queue (mgr r))" "tls_ok (mgr r)" using parts(6) by (auto simp: account_inv_def)
      from this t show ?thesis by (cases rule: try_task_cases) (use False inv in auto)
    qed
    then show ?thesis
      by (rule stack_inv_same [OF _ acc]) (use r' stack_inv_parts(3) [OF \<open>stack_inv cmp pol r1\<close>] in auto)
  next
    case (WaitDone w)
    with ev obtain u c fs t gs where st: "stacks r w = Wait u c # fs"
      and t: "wait_returns (tasks (mgr r) u, groups_of (mgr r)) = Some (t, gs)"
      and r': "r' = set_stack w fs (store_groups gs (store_task u t r))"
      by (auto split: list.splits frame.splits)
    have "frames_ok cmp pol fs" using parts(1) [of w] st frames_ok_wait by metis
    then show ?thesis
      by (intro move [where w = w and fs = fs])
         (use r' st parts(3) wait_returns_keeps [OF t] in auto)
  next
    case (CallTest w u)
    with ev obtain res t gs where t: "task_test (tasks (mgr r) u, groups_of (mgr r)) = (res, t, gs)"
      and r': "r' = store_groups gs (store_task u t r)"
      by (auto split: if_splits prod.splits)
    show ?thesis by (rule same) (use r' parts(3) task_test_keeps [OF t] in auto)
  next
    case (CallBarrier w)
    with ev have fn: "in_functor w r" and r': "r' = set_stack w (Barr None # stacks r w) r"
      by (auto split: if_splits)
    from fn obtain t c fs where st: "stacks r w = Run t c # fs" by (rule in_functor_stack)
    have "frames_ok cmp pol (Barr None # stacks r w)" using parts(1) [of w] st by simp
    then show ?thesis
      by (intro move [where w = w and fs = "Barr None # stacks r w"]) (use r' parts(3) st in auto)
  next
    case (BarrierGet w i)
    with ev obtain fs got r1 where st: "stacks r w = Barr None # fs"
      and t: "try_task cmp pol w i (group_predicate_pair cmp pol (tasks (mgr r)) (cached w r))
                (Barr (Some (cached w r)) # fs) r = Some (got, r1)"
      and r': "r' = (if got then r1 else set_stack w (Barr None # fs) r1)"
      by (auto split: list.splits frame.splits option.splits)
    have fr: "frames_ok cmp pol (Barr None # fs)" using parts(1) [of w] st by simp
    then obtain t2 c2 gs where fs: "fs = Run t2 c2 # gs" and fr2: "frames_ok cmp pol fs"
      unfolding frames_ok_barr by blast
    show ?thesis
    proof (cases got)
      case True
      have acc1: "account_inv r1" using acc r' True by simp
      have "same_info (cached w r) c2" using parts(2) [of w] st fs by (simp add: cache_ok_def)
      then have "stack_inv cmp pol r1"
        using parts(4) [of w] st fs fr2
        by (intro try_task_stack [OF inv t acc1 _ _ True])
           (auto simp: group_predicate_pair_def frames_ok_run [where fs = "Barr _ # _"])
      with r' True show ?thesis by simp
    next
      case False
      have "queues_ok (task_queue (mgr r))" "tls_ok (mgr r)" using parts(6) by (auto simp: account_inv_def)
      from this t have "r1 = r" by (cases rule: try_task_cases) (use False in auto)
      then show ?thesis
        by (intro move [where w = w and fs = "Barr None # fs"]) (use r' False st fr parts(3) in auto)
    qed
  next
    case (BarrierDone w)
    with ev obtain fs where st: "stacks r w = Barr None # fs" and r': "r' = set_stack w fs r"
      by (auto split: list.splits frame.splits option.splits)
    have "frames_ok cmp pol fs" using parts(1) [of w] st frames_ok_barr by metis
    then show ?thesis by (intro move [where w = w and fs = fs]) (use r' st parts(3) in auto)
  next
    case (Finish w out)
    with ev obtain t c fs where st: "stacks r w = Run t c # fs" and "out = Inr ()"
      and "r' = finish_task ''taskmgr.hpp'' w t out fs r"
      by (auto split: list.splits frame.splits if_splits)
    then show ?thesis using finish_stack [OF inv st] by simp
  next
    case Cancel
    show ?thesis by (rule same) (use ev Cancel parts(3) in auto)
  next
    case (Exit w)
    show ?thesis by (rule same) (use ev Exit parts(3) in \<open>auto split: if_splits\<close>)
  qed
qed

section \<open>The start\<close>

lemma tls_fold_source:
  assumes "tls_get tid (fold (\<lambda>a. tls_set (thread_id a) a) as tls) = Some b"
    and "\<forall>a\<in>set as. unat (thread_id a) < length tls"
  shows "b \<in> set as \<or> tls_get tid tls = Some b"
  using assms
proof (induction as arbitrary: tls)
  case (Cons a as)
  then have "b \<in> set as \<or> tls_get tid (tls_set (thread_id a) a tls) = Some b" by simp
  then show ?case using Cons.prems(2) by (auto simp: tls_get_set split: if_splits)
qed simp

text \<open>A task manager as the constructor makes it, from a list that names at least one queue.\<close>

definition fresh_runtime :: "'p runtime \<Rightarrow> bool" where
  "fresh_runtime r \<longleftrightarrow> (\<exists>prio_min thds gs. thds \<noteq> [] \<and> length thds < 2 ^ 31 \<and>
     total_threads thds < 2 ^ 32 - 1 \<and> r = fresh prio_min thds gs)"

definition ids_ok :: "'p runtime \<Rightarrow> bool" where
  "ids_ok r \<longleftrightarrow> (\<forall>w. unat w < unat (num_threads (mgr r)) \<longrightarrow>
     current_thread_id w (mgr r) = Some w)"

lemma make_threads_queue_bound:
  assumes "a \<in> set (make_threads affinity 0 0 thds)"
  shows "\<exists>k<length thds. task_queue_number a = of_nat k"
proof -
  have "task_queue_number a \<in> set (map task_queue_number (make_threads affinity 0 0 thds))"
    using assms by simp
  then show ?thesis unfolding make_threads_queues by auto
qed

lemma fresh_tls:
  assumes "thds \<noteq> []" and "length thds < 2 ^ 31" and "total_threads thds < 2 ^ 32 - 1"
    and m: "m = taskmgr_make prio_min dflt thds affinity ts gs"
  shows "tls_ok m"
    and "unat w < unat (num_threads m) \<Longrightarrow> current_thread_id w m = Some w"
proof -
  let ?n = "sum_threads thds" and ?ws = "make_threads affinity 0 0 thds"
  let ?tls0 = "tls_set ?n (main_thread_attr ?n) (tls_initialize (?n + 1))"
  have N: "unat ?n = total_threads thds" using sum_threads_total assms(3) by simp
  have len: "length ?tls0 = Suc (total_threads thds)"
    using assms(3) N by (simp add: tls_initialize_def unat_plus_one32)
  have ids: "map thread_id ?ws = map of_nat [0..<total_threads thds]" by (simp add: make_threads_ids)
  then have "set (map thread_id ?ws) = of_nat ` {0..<total_threads thds}" by simp
  then have at: "\<exists>k<total_threads thds. thread_id a = of_nat k" if "a \<in> set ?ws" for a
    using that by (metis (no_types, lifting) atLeastLessThan_iff imageE imageI list.set_map)
  have below: "\<forall>a\<in>set ?ws. unat (thread_id a) < length ?tls0"
  proof
    fix a assume "a \<in> set ?ws"
    then obtain k where "k < total_threads thds" "thread_id a = of_nat k" using at by blast
    then show "unat (thread_id a) < length ?tls0" using assms(3) len by (simp add: unat_of_nat32)
  qed
  have tls: "tls_attr_map m = fold (\<lambda>a. tls_set (thread_id a) a) ?ws ?tls0"
    "num_threads m = ?n" "num_queues (task_queue m) = of_nat (length thds)"
    by (simp_all add: m taskmgr_make_def Let_def queue_set_make_def)
  have q: "unat (num_queues (task_queue m)) = length thds" using assms(2) tls by (simp add: unat_of_nat32)
  show "tls_ok m"
    unfolding tls_ok_def
  proof (intro allI impI)
    fix v a assume "tls_get v (tls_attr_map m) = Some a"
    then have "tls_get v (fold (\<lambda>a. tls_set (thread_id a) a) ?ws ?tls0) = Some a"
      by (simp only: tls(1))
    then have "a \<in> set ?ws \<or> tls_get v ?tls0 = Some a" by (rule tls_fold_source [OF _ below])
    then consider "a \<in> set ?ws" | "a = main_thread_attr ?n"
      using len N by (auto simp: tls_set_def tls_initialize_def tls_get_def nth_list_update
          simp del: replicate_Suc split: if_splits)
    then show "unat (task_queue_number a) < unat (num_queues (task_queue m))"
    proof cases
      case 1
      with make_threads_queue_bound obtain k where "k < length thds" "task_queue_number a = of_nat k" by blast
      with q assms(2) show ?thesis by (simp add: unat_of_nat32)
    next
      case 2
      with q assms(1) show ?thesis by (simp add: main_thread_attr_def thread_attr_make_def)
    qed
  qed
  assume w: "unat w < unat (num_threads m)"
  then have lw: "unat w < length ?ws" using tls(2) N by simp
  have "thread_id (?ws ! unat w) = map thread_id ?ws ! unat w" using lw by (simp only: nth_map)
  also have "\<dots> = of_nat (unat w)" unfolding ids using lw by simp
  finally have id: "thread_id (?ws ! unat w) = w" by simp
  have dist: "distinct (map thread_id ?ws)"
    unfolding ids by (rule word_upt_distinct) (use assms(3) in simp)
  have "tls_get (thread_id (?ws ! unat w)) (tls_attr_map m) = Some (?ws ! unat w)"
    unfolding tls(1) by (rule tls_fold [OF dist below nth_mem [OF lw]])
  then show "current_thread_id w m = Some w" by (simp add: id current_thread_id_def)
qed

lemma run_ptrs_empty [simp]: "running (runtime_start m) = {#}"
  by (simp add: running_def runtime_start_def)

lemma fresh_stack_inv:
  assumes "fresh_runtime r"
  shows "stack_inv cmp pol r" and "ids_ok r"
proof -
  obtain prio_min thds gs where thds: "thds \<noteq> []" "length thds < 2 ^ 31"
      "total_threads thds < 2 ^ 32 - 1"
    and r: "r = fresh prio_min thds gs" using assms by (auto simp: fresh_runtime_def)
  note tls = fresh_tls [OF thds refl]
  have len: "unat (of_nat (length thds) :: u32) = length thds"
    using thds(2) by (simp add: unat_of_nat32)
  have "of_nat (length thds) \<noteq> (0 :: u32)"
  proof
    assume "of_nat (length thds) = (0 :: u32)"
    with len have "length thds = unat (0 :: u32)" by metis
    with thds(1) show False by simp
  qed
  moreover have "unat (of_nat (length thds) :: u32) < 2 ^ 31"
    using thds(2) len by simp
  ultimately have q: "queues_ok (queue_set_make (of_nat (length thds)) :: task_ptr queue_set)"
    by (rule queues_ok_make)
  let ?m = "taskmgr_make prio_min 0 thds None (\<lambda>_. task_default prio_min) gs"
  have m: "mgr r = ?m" "stacks r = (\<lambda>_. [])" "spawned r = {#}" "started r = {#}" "finished r = {#}"
    "running r = {#}"
    using r run_ptrs_empty [of ?m] by (simp_all add: fresh_def runtime_start_def)
  have tq: "task_queue ?m = queue_set_make (of_nat (length thds))"
    "length (task_cache ?m) = unat (num_threads ?m)" "tasks ?m = (\<lambda>_. task_default prio_min)"
    by (simp_all add: taskmgr_make_def Let_def)
  have "account_inv r" using m tq q tls(1) by (simp add: account_inv_def)
  then show "stack_inv cmp pol r"
    using m tq by (simp add: stack_inv_def cache_ok_def task_default_def)
  show "ids_ok r" by (simp add: ids_ok_def m(1) tls(2))
qed

lemma finish_num: "num_threads (mgr (finish_task loc w t out fs r)) = num_threads (mgr r)"
  by (auto simp: finish_task_def Let_def split: prod.splits sum.splits list.splits frame.splits
      option.splits)

lemma rt_act_ids:
  assumes "ids_ok r" and "rt_act cmp pol throws a r = Some r'"
  shows "ids_ok r'"
proof -
  have queue: "ids_ok (r\<lparr>mgr := m, spawned := x\<rparr>)"
    if "spawn_task_full pol w t b g f (mgr r) = Some m" for w t b g f m x
    using that assms(1)
    by (auto simp: spawn_task_full_def ids_ok_def current_thread_id_def split: option.splits prod.splits)
  have att: "ids_ok r1" if "try_task cmp pol w i cnd fs r = Some (got, r1)" for w i cnd fs got r1
    using that assms(1)
    by (auto simp: try_task_def ids_ok_def current_thread_id_def split: option.splits)
  have moves: "ids_ok (store_groups gs (store_task u t r1)) = ids_ok r1" "ids_ok (store_task u t r1) = ids_ok r1"
    "ids_ok (set_stack w fs r1) = ids_ok r1" for gs u t w fs r1
    by (simp_all add: ids_ok_def current_thread_id_def)
  have fin: "ids_ok (finish_task loc w t out fs r)" for loc w t out fs
    using assms(1) finish_facts(2) [of loc w t out fs r] finish_num [of loc w t out fs r]
    by (simp add: ids_ok_def current_thread_id_def)
  from assms(2) show ?thesis
  proof (cases a)
    case (Spawn w t b g f)
    with assms(2) show ?thesis by (auto split: if_splits intro: queue)
  next
    case (WaitGet w i)
    with assms(2) show ?thesis by (auto simp: moves split: list.splits frame.splits dest: att)
  next
    case (BarrierGet w i)
    with assms(2) show ?thesis
      by (auto simp: moves split: list.splits frame.splits option.splits if_splits dest: att)
  next
    case (Fetch w i)
    with assms(2) show ?thesis by (auto split: if_splits dest: att)
  next
    case (Finish w out)
    with assms(2) show ?thesis by (auto split: list.splits frame.splits if_splits intro: fin)
  next
    case (CallWait w u)
    with assms show ?thesis by (auto simp: moves split: if_splits option.splits)
  next
    case (WaitDone w)
    with assms show ?thesis by (auto simp: ids_ok_def current_thread_id_def split: list.splits frame.splits)
  next
    case (CallTest w u)
    with assms show ?thesis by (auto simp: moves split: if_splits prod.splits)
  next
    case (CallBarrier w)
    with assms show ?thesis by (auto simp: moves split: if_splits)
  next
    case (BarrierDone w)
    with assms show ?thesis by (auto simp: moves split: list.splits frame.splits option.splits)
  next
    case Cancel
    with assms show ?thesis by (auto simp: ids_ok_def current_thread_id_def)
  next
    case (Exit w)
    with assms show ?thesis by (auto simp: ids_ok_def current_thread_id_def split: if_splits)
  qed
qed

lemma rt_event_act: "rt_event cmp pol throws a r = Some r' \<Longrightarrow> rt_act cmp pol throws a r = Some r'"
  by (simp add: rt_event_def split: if_splits)

interpretation accounts: invariant_system fresh_runtime "rt_step cmp pol throws" account_inv
  for cmp :: "'p \<Rightarrow> 'p \<Rightarrow> bool" and pol throws
  by unfold_locales
     (auto elim!: step_ofE dest!: rt_event_act intro: rt_act_account stack_inv_parts(6) [OF fresh_stack_inv(1)])

interpretation nesting: invariant_system fresh_runtime "rt_step cmp pol False" "\<lambda>r. stack_inv cmp pol r \<and> ids_ok r"
  for cmp :: "'p \<Rightarrow> 'p \<Rightarrow> bool" and pol
  by unfold_locales (auto elim!: step_ofE dest!: rt_event_act intro: rt_act_stack rt_act_ids fresh_stack_inv)

end
