(* ===== verification/Scheduling.thy ===== *)
theory Scheduling
  imports Runtime
begin

text \<open>
  What holds in every state that the machine of \<open>Runtime\<close> reaches from a new task manager,
  and two runs that show what does not.
\<close>

section \<open>Reading off the invariants\<close>

lemma waiting_same_info:
  "same_info d c \<Longrightarrow> waiting_own_pred cmp pol d u = waiting_own_pred cmp pol c u"
  by (cases pol) (simp_all add: waiting_own_pred_def same_info_def compare_task_ptr_def
      task_get_attr_def)

lemma frames_ok_successively:
  "frames_ok cmp pol fs \<Longrightarrow> successively (\<lambda>c d. waiting_own_pred cmp pol d c) (runs fs)"
proof (induction cmp pol fs rule: frames_ok.induct)
  case (3 cmp pol t c u d t' c' fs)
  then show ?case using waiting_same_info [of d c'] by simp
next
  case (4 cmp pol t c d t' c' fs)
  then show ?case using waiting_same_info [of d c'] group_pred_waiting [of cmp pol d c] by simp
qed simp_all

lemma waiting_transp:
  assumes "transp cmp"
  shows "transp (\<lambda>c d. waiting_own_pred cmp pol d c)"
  using transpD [OF assms]
  by (cases pol)
     (auto intro!: transpI simp: waiting_own_pred_def compare_task_ptr_def)

lemma frames_ok_barrier_groups:
  assumes "frames_ok cmp pol fs" and "fs = xs @ Run t c # Barr b # Run t' c' # ys"
  shows "tgroup c \<noteq> tgroup c'"
  using assms
proof (induction cmp pol fs arbitrary: xs rule: frames_ok.induct)
  case (3 cmp pol t1 c1 u d t2 c2 fs)
  then show ?case by (auto simp: Cons_eq_append_conv) (metis append_Cons)?
next
  case (4 cmp pol t1 c1 d t2 c2 fs)
  then show ?case using group_pred_group [of cmp pol d c1]
    by (auto simp: Cons_eq_append_conv same_info_def) (metis append_Cons)?
next
  case (5 cmp pol u d t2 c2 fs)
  then show ?case by (auto simp: Cons_eq_append_conv) (metis append_Cons)?
next
  case (6 cmp pol t2 c2 fs)
  then show ?case by (auto simp: Cons_eq_append_conv) (metis append_Cons)?
qed (auto simp: Cons_eq_append_conv)

lemma sorted_priorities:
  assumes "irreflp cmp" and "sorted_wrt (\<lambda>c d. waiting_own_pred cmp PrioS d c) cs"
  shows "distinct (map (\<lambda>c. priority (attr c)) cs)"
  using assms(2) irreflpD [OF assms(1)]
  by (induction cs) (auto simp: waiting_prio)

section \<open>Runs with nested tasks\<close>

definition basic :: "int attribute" where
  "basic = attribute_make 0 True False"

definition prio_attr :: "int \<Rightarrow> int attribute" where
  "prio_attr p = set_priority p (attribute_make 0 True False)"

definition one_worker :: "int runtime" where
  "one_worker = fresh 0 [1] (\<lambda>g. group_make3 (of_nat g) 2 (barrier_code BARRIER_STEAL))"

text \<open>The worker runs task 10; while it waits for task 11, task 12 throws there.\<close>

definition spread_run :: "int rt_action list" where
  "spread_run = [Spawn 1 10 basic 0 0, Fetch 0 0, Spawn 0 11 basic 0 0, Spawn 0 12 (prio_attr 7) 0 0,
     CallWait 0 11, WaitGet 0 0, Finish 0 (Inl UnknownExn)]"

text \<open>The same up to the throw, with priorities.\<close>

definition nested_run :: "int rt_action list" where
  "nested_run = [Spawn 1 10 basic 0 0, Fetch 0 0, Spawn 0 11 basic 0 0, Spawn 0 12 (prio_attr 7) 0 0,
     CallWait 0 11, WaitGet 0 0]"

text \<open>Task 10 goes on and returns; then task 11 runs and returns.\<close>

definition spread_end :: "int rt_action list" where
  "spread_end = [Finish 0 (Inr ()), Fetch 0 0, Finish 0 (Inr ())]"

definition group_run :: "int rt_action list" where
  "group_run = [Spawn 1 12 basic 1 0, Spawn 1 11 basic 2 0, Spawn 1 10 basic 1 0, Fetch 0 0,
     CallBarrier 0, BarrierGet 0 0, CallWait 0 12, WaitGet 0 0, CallBarrier 0]"

lemma fresh_one_worker: "fresh_runtime one_worker"
  unfolding fresh_runtime_def one_worker_def
  by (intro exI [of _ 0] exI [of _ "[1]"] exI conjI) (simp_all add: total_threads_def)

lemma nested_run_result:
  "\<exists>r. run_events (rt_event (<) PrioS False) nested_run one_worker = Some r \<and>
       map (\<lambda>c. priority (attr c)) (runs (stacks r 0)) = [7, 0]"
proof -
  have "case run_events (rt_event (<) PrioS False) nested_run one_worker of None \<Rightarrow> False
        | Some r \<Rightarrow> map (\<lambda>c. priority (attr c)) (runs (stacks r 0)) = [7, 0]"
    by code_simp
  then show ?thesis by (auto split: option.splits)
qed

section \<open>Properties\<close>

text \<open>
  C1: no task is lost and none runs twice. Whatever the policy, the order of events and the
  exceptions thrown, the tasks spawned are, with their multiplicities, those that have
  finished, those that some worker is running and those in the queues.
\<close>

theorem spawned_tasks_accounted:
  assumes "fresh_runtime s" and "reaches (rt_step cmp pol throws) s r"
  shows "spawned r = finished r + running r + content (task_queue (mgr r))"
  using accounts.reach_inv [OF assms] by (simp add: account_inv_def)

theorem spawned_tasks_accounted_witness:
  "\<exists>r. run_events (rt_event (<) LifoS True) spread_run one_worker = Some r \<and>
       spawned r = finished r + running r + content (task_queue (mgr r))"
proof -
  have "case run_events (rt_event (<) LifoS True) spread_run one_worker of None \<Rightarrow> False | Some r \<Rightarrow> True"
    by code_simp
  then obtain r where r: "run_events (rt_event (<) LifoS True) spread_run one_worker = Some r"
    by (auto split: option.splits)
  from spawned_tasks_accounted [OF fresh_one_worker run_events_reaches [OF r]] r show ?thesis by blast
qed

text \<open>
  C4: a task sees itself. As long as no functor throws, \<open>current_task_information\<close> of a
  worker gives the attribute, the group, the group size and the rank of the innermost task
  it runs, also after any nesting of waits and barriers that stole other tasks.
\<close>

theorem current_task_is_innermost:
  assumes "fresh_runtime s" and "reaches (rt_step cmp pol False) s r"
    and "runs (stacks r w) = c # cs"
  shows "\<exists>t. current_task w (mgr r) = Some t \<and> attr t = attr c \<and> tgroup t = tgroup c \<and>
             task_get_size t = gsize c \<and> task_get_rank t = grank c"
proof -
  have inv: "stack_inv cmp pol r" and ids: "ids_ok r" using nesting.reach_inv [OF assms(1,2)] by auto
  have "stacks r w \<noteq> []" using assms(3) by auto
  then have w: "unat w < unat (num_threads (mgr r))" by (rule stack_inv_parts(4) [OF inv])
  have "same_info (cached w r) c" using stack_inv_parts(2) [OF inv, of w] assms(3) by (simp add: cache_ok_def)
  then show ?thesis
    using w ids stack_inv_parts(5) [OF inv]
    by (simp add: current_task_def cache_get_def ids_ok_def cached_def same_info_def pf_defs
        task_get_size_def task_get_rank_def)
qed

theorem current_task_is_innermost_witness:
  "\<exists>r t. run_events (rt_event (<) PrioS False) nested_run one_worker = Some r \<and>
         current_task 0 (mgr r) = Some t \<and> get_priority (task_get_attr t) = 7"
proof -
  obtain r where r: "run_events (rt_event (<) PrioS False) nested_run one_worker = Some r"
    and p: "map (\<lambda>c. priority (attr c)) (runs (stacks r 0)) = [7, 0]"
    using nested_run_result by (elim exE conjE)
  from p obtain c cs where c: "runs (stacks r 0) = c # cs" "priority (attr c) = 7" by auto
  from current_task_is_innermost [OF fresh_one_worker run_events_reaches [OF r] c(1)] r c(2)
  show ?thesis by (auto simp: task_get_attr_def get_priority_def)
qed

text \<open>
  C5: nesting follows the policy. As long as no functor throws, every task on a worker's
  stack was allowed by the waiting predicate of every task below it: with \<open>prioS\<close> the
  priorities grow strictly towards the top, so that the stack holds each priority at most
  once, and with \<open>cilkS\<close> the levels do not fall; and a task that a barrier took is not of the
  group that waits there.
\<close>

theorem nesting_follows_policy:
  assumes "transp cmp" and "irreflp cmp"
    and "fresh_runtime s" and "reaches (rt_step cmp pol False) s r"
  shows "sorted_wrt (\<lambda>c d. waiting_own_pred cmp pol d c) (runs (stacks r w)) \<and>
         (pol = PrioS \<longrightarrow> distinct (map (\<lambda>c. priority (attr c)) (runs (stacks r w)))) \<and>
         (\<forall>xs t c b t' c' ys. stacks r w = xs @ Run t c # Barr b # Run t' c' # ys \<longrightarrow>
            tgroup c \<noteq> tgroup c')"
proof -
  have frames: "frames_ok cmp pol (stacks r w)"
    using nesting.reach_inv [OF assms(3,4)] stack_inv_parts(1) by blast
  have sorted: "sorted_wrt (\<lambda>c d. waiting_own_pred cmp pol d c) (runs (stacks r w))"
    using frames_ok_successively [OF frames] successively_conv_sorted_wrt [OF waiting_transp [OF assms(1)]]
    by blast
  moreover have "distinct (map (\<lambda>c. priority (attr c)) (runs (stacks r w)))" if "pol = PrioS"
    using sorted_priorities [OF assms(2)] sorted that by blast
  ultimately show ?thesis using frames_ok_barrier_groups [OF frames] by blast
qed

theorem nesting_follows_policy_witness:
  "\<exists>r. run_events (rt_event (<) PrioS False) nested_run one_worker = Some r \<and>
       distinct (map (\<lambda>c. priority (attr c)) (runs (stacks r 0))) \<and> length (runs (stacks r 0)) = 2"
proof -
  obtain r where r: "run_events (rt_event (<) PrioS False) nested_run one_worker = Some r"
    and p: "map (\<lambda>c. priority (attr c)) (runs (stacks r 0)) = [7, 0]"
    using nested_run_result by (elim exE conjE)
  have "irreflp ((<) :: int \<Rightarrow> int \<Rightarrow> bool)" "transp ((<) :: int \<Rightarrow> int \<Rightarrow> bool)"
    by (auto simp: irreflp_def transp_def)
  note nesting_follows_policy [OF this(2,1) fresh_one_worker run_events_reaches [OF r], of 0]
  then have "distinct (map (\<lambda>c. priority (attr c)) (runs (stacks r 0)))" by blast
  moreover have "length (runs (stacks r 0)) = 2" using arg_cong [OF p, of length] by simp
  ultimately show ?thesis using r by blast
qed

text \<open>
  An exception spreads and ends the program. While a task waits for another, the worker
  takes a third task, which throws: the exception is stored in the task waited for, which
  has not even started, and the waiting task sees the thrown task's attribute as its own.
  When the task waited for has run and returned, it is not notified, and its exception
  terminates the program.
\<close>

theorem exception_of_stolen_task_spreads:
  "(case run_events (rt_event (<) LifoS True) spread_run one_worker of
      None \<Rightarrow> False
    | Some r \<Rightarrow> map (\<lambda>c. priority (attr c)) (runs (stacks r 0)) = [0] \<and>
        map_option (\<lambda>c. priority (attr c)) (current_task 0 (mgr r)) = Some 7 \<and>
        texcept (tasks (mgr r) 11) \<noteq> None \<and> count (started r) 11 = 0) \<and>
   (case run_events (rt_event (<) LifoS True) (spread_run @ spread_end) one_worker of
      None \<Rightarrow> False
    | Some r \<Rightarrow> terminated r \<and> count (finished r) 11 = 1 \<and>
        event_state (task_event (tasks (mgr r) 11)) = PFUNC_ACTIVE_INCOMPLETE)"
  by code_simp

text \<open>
  The group predicate looks at the innermost task only. The comment on
  \<open>progress_barrier\<close> promises that a barrier never runs a task of the group that waits, to
  avoid a deadlock. With a wait in between it does: two tasks of one group are in their
  barrier on the same stack, one above the other.
\<close>

theorem group_twice_on_a_stack:
  "(case run_events (rt_event (<) LifoS False) group_run one_worker of
      None \<Rightarrow> False
    | Some r \<Rightarrow> map tgroup (runs (stacks r 0)) = [Some 1, Some 2, Some 1] \<and>
        map (\<lambda>f. case f of Barr b \<Rightarrow> True | _ \<Rightarrow> False) (stacks r 0) =
          [True, False, False, False, True, False])"
  by code_simp

end
