(* ===== verification/Pack.thy ===== *)
theory Pack
  imports Exceptions
begin

text \<open>
  Argument packing of \<^verbatim>\<open>lib/pfunc_pack.cpp\<close>: a format string such as
  \<open>"int, double*"\<close> is read into a list of tokens, and the arguments of a variadic call are
  copied byte by byte into a buffer and out of it again. A C string is a list of characters
  without its final NUL, so the empty list is the end of the string. Sizes are those of
  64-bit Linux. An access outside the buffer and a \<open>va_arg\<close> of the wrong type are
  undefined, \<open>None\<close>.
\<close>

section \<open>Tokens\<close>

datatype token =
    INT_T | UINT | LINT | INTP | UINTP | LINTP | INTPP | UINTPP | LINTPP
  | CHRP | UCHRP | CHRPP | UCHRPP | FLTP | FLTPP | DBL | DBLP | DBLPP | VOIDP

fun token_sizeof :: "token \<Rightarrow> nat" where
  "token_sizeof INT_T = 4"
| "token_sizeof UINT = 4"
| "token_sizeof _ = 8"

section \<open>Reading the format\<close>

text \<open>
  \<open>get_star_count\<close>: up to a comma or the end only spaces and stars may come; \<open>None\<close> is
  \<open>INVALID_TOKEN\<close>. The reference parameter \<open>format\<close> becomes a second result.
\<close>

fun star_count :: "nat \<Rightarrow> string \<Rightarrow> (nat \<times> string) option" where
  "star_count n [] = Some (n, [])"
| "star_count n (c # cs) =
     (if c = CHR '','' then Some (n, c # cs)
      else if c = CHR '' '' then star_count n cs
      else if c = CHR ''*'' then star_count (Suc n) cs
      else None)"

definition get_star_count :: "string \<Rightarrow> (nat \<times> string) option" where
  "get_star_count format = star_count 0 format"

text \<open>A chain of comparisons \<open>'n' != *++format || ...\<close>: the rest after the word, if it is there.\<close>

fun expect :: "string \<Rightarrow> string \<Rightarrow> string option" where
  "expect [] cs = Some cs"
| "expect (w # ws) (c # cs) = (if w = c then expect ws cs else None)"
| "expect (w # ws) [] = None"

fun skip_spaces :: "string \<Rightarrow> string" where
  "skip_spaces (c # cs) = (if c = CHR '' '' then skip_spaces cs else c # cs)"
| "skip_spaces [] = []"

text \<open>The end of each case: the stars select the token, and one comma is skipped.\<close>

definition skip_comma :: "string \<Rightarrow> string" where
  "skip_comma cs = (if cs \<noteq> [] \<and> hd cs = CHR '','' then tl cs else cs)"

definition pick_token :: "(nat \<Rightarrow> token option) \<Rightarrow> string \<Rightarrow> (token \<times> string) option" where
  "pick_token sel cs =
     (case get_star_count cs of
        None \<Rightarrow> None
      | Some (n, rest) \<Rightarrow> map_option (\<lambda>t. (t, skip_comma rest)) (sel n))"

definition after :: "string \<Rightarrow> (string \<Rightarrow> 'a option) \<Rightarrow> string \<Rightarrow> 'a option" where
  "after w p cs = (case expect w cs of None \<Rightarrow> None | Some rest \<Rightarrow> p rest)"

text \<open>One function for each case of the outer \<open>switch\<close>, applied behind its first letter.\<close>

definition int_case :: "string \<Rightarrow> (token \<times> string) option" where
  "int_case = after ''nt'' (pick_token
     (\<lambda>n. if n = 0 then Some INT_T else if n = 1 then Some INTP else if n = 2 then Some INTPP else None))"

definition char_case :: "string \<Rightarrow> (token \<times> string) option" where
  "char_case = after ''har'' (pick_token
     (\<lambda>n. if n = 1 then Some UCHRP else if n = 2 then Some UCHRPP else None))"

definition double_case :: "string \<Rightarrow> (token \<times> string) option" where
  "double_case = after ''ouble'' (pick_token
     (\<lambda>n. if n = 0 then Some DBL else if n = 1 then Some DBLP else if n = 2 then Some DBLPP else None))"

definition void_case :: "string \<Rightarrow> (token \<times> string) option" where
  "void_case = after ''oid'' (pick_token (\<lambda>n. if n = 1 then Some VOIDP else None))"

definition float_case :: "string \<Rightarrow> (token \<times> string) option" where
  "float_case = after ''loat'' (pick_token
     (\<lambda>n. if n = 1 then Some FLTP else if n = 2 then Some FLTPP else None))"

definition unsigned_int_case :: "string \<Rightarrow> (token \<times> string) option" where
  "unsigned_int_case = after ''nt'' (pick_token
     (\<lambda>n. if n = 0 then Some UINT else if n = 1 then Some UINTP else if n = 2 then Some UINTPP else None))"

definition unsigned_char_case :: "string \<Rightarrow> (token \<times> string) option" where
  "unsigned_char_case = after ''har'' (pick_token
     (\<lambda>n. if n = 1 then Some UCHRP else if n = 2 then Some UCHRPP else None))"

definition unsigned_case :: "string \<Rightarrow> (token \<times> string) option" where
  "unsigned_case = after ''nsigned '' (\<lambda>cs.
     case skip_spaces cs of
       [] \<Rightarrow> None
     | c # rest \<Rightarrow> if c = CHR ''i'' then unsigned_int_case rest
                    else if c = CHR ''c'' then unsigned_char_case rest else None)"

definition long_case :: "string \<Rightarrow> (token \<times> string) option" where
  "long_case = after ''ong '' (\<lambda>cs.
     case skip_spaces cs of
       [] \<Rightarrow> None
     | c # rest \<Rightarrow>
         if c = CHR ''i''
         then after ''nt'' (pick_token (\<lambda>n. if n = 0 then Some LINT else if n = 1 then Some LINTP
                                            else if n = 2 then Some LINTPP else None)) rest
         else None)"

text \<open>One round of the outer loop.\<close>

definition next_token :: "string \<Rightarrow> (token \<times> string) option" where
  "next_token format =
     (case skip_spaces format of
        [] \<Rightarrow> None
      | c # rest \<Rightarrow>
          if c = CHR ''i'' then int_case rest
          else if c = CHR ''c'' then char_case rest
          else if c = CHR ''d'' then double_case rest
          else if c = CHR ''v'' then void_case rest
          else if c = CHR ''f'' then float_case rest
          else if c = CHR ''u'' then unsigned_case rest
          else if c = CHR ''l'' then long_case rest
          else None)"

subsection \<open>Every round consumes input\<close>

lemma star_count_length: "star_count n cs = Some (k, rest) \<Longrightarrow> length rest \<le> length cs"
  by (induction n cs rule: star_count.induct) (auto split: if_splits)

lemma expect_length: "expect w cs = Some rest \<Longrightarrow> length cs = length w + length rest"
  by (induction w cs rule: expect.induct) (auto split: if_splits)

lemma skip_spaces_length: "length (skip_spaces cs) \<le> length cs"
  by (induction cs) auto

text \<open>Parsers that do not lengthen the input.\<close>

definition consumes :: "(string \<Rightarrow> ('a \<times> string) option) \<Rightarrow> bool" where
  "consumes p \<longleftrightarrow> (\<forall>cs x rest. p cs = Some (x, rest) \<longrightarrow> length rest \<le> length cs)"

lemma consumesD: "consumes p \<Longrightarrow> p cs = Some (x, rest) \<Longrightarrow> length rest \<le> length cs"
  by (simp add: consumes_def)

lemma consumes_pick [intro, simp]: "consumes (pick_token sel)"
  by (auto simp: consumes_def pick_token_def get_star_count_def skip_comma_def
      dest!: star_count_length split: option.splits)

lemma consumes_after [intro, simp]: "consumes p \<Longrightarrow> consumes (after w p)"
  by (fastforce simp: consumes_def after_def dest: expect_length split: option.splits)

lemma consumes_simple [intro, simp]:
  "consumes int_case" "consumes char_case" "consumes double_case" "consumes void_case"
  "consumes float_case" "consumes unsigned_int_case" "consumes unsigned_char_case"
  by (simp_all add: int_case_def char_case_def double_case_def void_case_def float_case_def
      unsigned_int_case_def unsigned_char_case_def)

lemma consumes_skip [intro]:
  assumes "\<And>c. consumes (p c)"
  shows "consumes (\<lambda>cs. case skip_spaces cs of [] \<Rightarrow> None | c # rest \<Rightarrow> p c rest)"
  unfolding consumes_def
proof (intro allI impI)
  fix cs :: string and x rest
  assume "(case skip_spaces cs of [] \<Rightarrow> None | c # rest \<Rightarrow> p c rest) = Some (x, rest)"
  then obtain c ds where "skip_spaces cs = c # ds" "p c ds = Some (x, rest)"
    by (auto split: list.splits)
  then show "length rest \<le> length cs"
    using skip_spaces_length [of cs] consumesD [OF assms] by fastforce
qed

lemma consumes_if [intro]:
  "consumes p \<Longrightarrow> consumes q \<Longrightarrow> consumes (\<lambda>cs. if b then p cs else q cs)"
  "consumes (\<lambda>_. None)"
  by (auto simp: consumes_def)

lemma consumes_long [intro, simp]: "consumes unsigned_case" "consumes long_case"
  unfolding unsigned_case_def long_case_def
  by (intro consumes_after consumes_skip consumes_if consumes_simple consumes_pick)+

lemma next_token_length:
  assumes "next_token cs = Some (t, rest)"
  shows "length rest < length cs"
proof -
  obtain c ds where ds: "skip_spaces cs = c # ds"
    using assms by (auto simp: next_token_def split: list.splits)
  have "length rest \<le> length ds"
    using assms ds
    by (auto simp: next_token_def split: if_splits dest: consumesD [OF consumes_simple(1)]
        consumesD [OF consumes_simple(2)] consumesD [OF consumes_simple(3)]
        consumesD [OF consumes_simple(4)] consumesD [OF consumes_simple(5)]
        consumesD [OF consumes_long(1)] consumesD [OF consumes_long(2)])
  with ds skip_spaces_length [of cs] show ?thesis by simp
qed

subsection \<open>The whole format\<close>

text \<open>
  \<open>extract_tokens\<close>: the size of the buffer and the tokens; \<open>None\<close> is the return of
  \<open>INVALID_TOKEN\<close>. The size is an \<open>int\<close> in the code; its overflow is undefined, and
  \<open>pfunc_pack\<close> below is \<open>None\<close> then.
\<close>

function extract_tokens :: "string \<Rightarrow> (nat \<times> token list) option" where
  "extract_tokens format =
     (if format = [] then Some (0, [])
      else case next_token format of
             None \<Rightarrow> None
           | Some (t, rest) \<Rightarrow>
               map_option (\<lambda>(n, ts). (token_sizeof t + n, t # ts)) (extract_tokens rest))"
  by auto
termination
  by (relation "measure length") (auto dest: next_token_length)

declare extract_tokens.simps [simp del]

lemma extract_tokens_Nil [simp]: "extract_tokens [] = Some (0, [])"
  by (subst extract_tokens.simps) simp

lemma extract_tokens_next:
  "next_token cs = Some (t, rest) \<Longrightarrow>
   extract_tokens cs = map_option (\<lambda>(n, ts). (token_sizeof t + n, t # ts)) (extract_tokens rest)"
  by (subst extract_tokens.simps) (auto simp: next_token_def)

definition total_size :: "token list \<Rightarrow> nat" where
  "total_size ts = (\<Sum>t\<leftarrow>ts. token_sizeof t)"

lemma total_size_simps [simp]:
  "total_size [] = 0" "total_size (t # ts) = token_sizeof t + total_size ts"
  by (simp_all add: total_size_def)

lemma extract_tokens_size: "extract_tokens cs = Some (n, ts) \<Longrightarrow> n = total_size ts"
proof (induction cs arbitrary: n ts rule: extract_tokens.induct)
  case (1 cs)
  show ?case
  proof (cases "cs = []")
    case False
    with 1(2) obtain t rest where t: "next_token cs = Some (t, rest)"
      by (subst (asm) extract_tokens.simps) (auto split: option.splits)
    with 1(2) obtain m us where "extract_tokens rest = Some (m, us)" "ts = t # us"
      "n = token_sizeof t + m" by (auto simp: extract_tokens_next)
    with 1(1) [OF False t] show ?thesis by simp
  qed (use 1(2) in simp)
qed

section \<open>Arguments and bytes\<close>

text \<open>What a variadic call can pass here; doubles are their bits, pointers their addresses.\<close>

datatype carg = IntArg u32 | UIntArg u32 | LongArg u64 | DoubleArg u64 | PtrArg u64

fun va_ok :: "token \<Rightarrow> carg \<Rightarrow> bool" where
  "va_ok INT_T (IntArg v) = True"
| "va_ok UINT (UIntArg v) = True"
| "va_ok LINT (LongArg v) = True"
| "va_ok DBL (DoubleArg v) = True"
| "va_ok t (PtrArg v) = (t \<notin> {INT_T, UINT, LINT, DBL})"
| "va_ok _ _ = False"

text \<open>The bytes that \<open>memcpy\<close> sees, the lowest first.\<close>

fun to_bytes :: "nat \<Rightarrow> 'a::len word \<Rightarrow> 8 word list" where
  "to_bytes 0 w = []"
| "to_bytes (Suc n) w = ucast w # to_bytes n (drop_bit 8 w)"

fun from_bytes :: "8 word list \<Rightarrow> 'a::len word" where
  "from_bytes [] = 0"
| "from_bytes (b # bs) = or (ucast b) (push_bit 8 (from_bytes bs))"

fun arg_bytes :: "carg \<Rightarrow> 8 word list" where
  "arg_bytes (IntArg v) = to_bytes 4 v"
| "arg_bytes (UIntArg v) = to_bytes 4 v"
| "arg_bytes (LongArg v) = to_bytes 8 v"
| "arg_bytes (DoubleArg v) = to_bytes 8 v"
| "arg_bytes (PtrArg v) = to_bytes 8 v"

fun load_arg :: "token \<Rightarrow> 8 word list \<Rightarrow> carg" where
  "load_arg INT_T bs = IntArg (from_bytes bs)"
| "load_arg UINT bs = UIntArg (from_bytes bs)"
| "load_arg LINT bs = LongArg (from_bytes bs)"
| "load_arg DBL bs = DoubleArg (from_bytes bs)"
| "load_arg _ bs = PtrArg (from_bytes bs)"

lemma to_bytes_length [simp]: "length (to_bytes n w) = n"
  by (induction n arbitrary: w) auto

lemma from_to_bytes: "from_bytes (to_bytes n w) = take_bit (8 * n) w"
proof (induction n arbitrary: w)
  case (Suc n)
  show ?case
    by (rule bit_word_eqI) (auto simp: Suc bit_simps)
qed simp

lemma arg_bytes_length: "va_ok t a \<Longrightarrow> length (arg_bytes a) = token_sizeof t"
  by (cases t; cases a) auto

lemma take_bit_full: "take_bit 32 (v :: u32) = v" "take_bit 64 (w :: u64) = w"
  by (rule bit_word_eqI, simp add: bit_simps)+

lemma load_arg_bytes: "va_ok t a \<Longrightarrow> load_arg t (arg_bytes a) = a"
  by (cases t; cases a) (auto simp: from_to_bytes take_bit_full simp del: to_bytes.simps from_bytes.simps)

section \<open>\<open>pfunc_pack\<close> and \<open>pfunc_unpack\<close>\<close>

definition copy_in :: "nat \<Rightarrow> 8 word list \<Rightarrow> 8 word list \<Rightarrow> 8 word list" where
  "copy_in off bs buf = take off buf @ bs @ drop (off + length bs) buf"

text \<open>The loop that stores the arguments; \<open>off\<close> is how far \<open>buffer\<close> has moved.\<close>

fun pack_args :: "token list \<Rightarrow> carg list \<Rightarrow> nat \<Rightarrow> 8 word list \<Rightarrow> 8 word list option" where
  "pack_args [] args off buf = Some buf"
| "pack_args (t # ts) [] off buf = None"
| "pack_args (t # ts) (a # args) off buf =
     (if va_ok t a \<and> off + token_sizeof t \<le> length buf
      then pack_args ts args (off + token_sizeof t) (copy_in off (arg_bytes a) buf)
      else None)"

text \<open>
  The status and what \<open>*buffer_ptr\<close> points to, if it was set; \<open>mem\<close> is what the allocated
  memory happens to contain. \<open>new\<close> does not return \<open>NULL\<close>.
\<close>

definition pfunc_pack ::
  "(nat \<Rightarrow> 8 word) \<Rightarrow> string \<Rightarrow> carg list \<Rightarrow> (int \<times> 8 word list option) option" where
  "pfunc_pack mem format args =
     (case extract_tokens format of
        None \<Rightarrow> Some (status_code PFUNC_ERROR, None)
      | Some (n, ts) \<Rightarrow>
          if n < 2 ^ 31
          then map_option (\<lambda>buf. (status_code PFUNC_SUCCESS, Some buf))
                 (pack_args ts args 0 (map mem [0..<n]))
          else None)"

text \<open>The loop that reads the values back, and stores each through its argument.\<close>

fun unpack_args :: "token list \<Rightarrow> nat \<Rightarrow> 8 word list \<Rightarrow> carg list option" where
  "unpack_args [] off buf = Some []"
| "unpack_args (t # ts) off buf =
     (if off + token_sizeof t \<le> length buf
      then map_option ((#) (load_arg t (take (token_sizeof t) (drop off buf))))
             (unpack_args ts (off + token_sizeof t) buf)
      else None)"

text \<open>The status, the values stored, and whether the buffer was freed.\<close>

definition pfunc_unpack :: "8 word list \<Rightarrow> string \<Rightarrow> (int \<times> carg list \<times> bool) option" where
  "pfunc_unpack buf format =
     (case extract_tokens format of
        None \<Rightarrow> Some (status_code PFUNC_ERROR, [], False)
      | Some (n, ts) \<Rightarrow>
          map_option (\<lambda>args. (status_code PFUNC_SUCCESS, args, True)) (unpack_args ts 0 buf))"

lemma pack_args_result:
  assumes "list_all2 va_ok ts args" and "length buf = length pre + total_size ts"
    and "take (length pre) buf = pre"
  shows "pack_args ts args (length pre) buf = Some (pre @ concat (map arg_bytes args))"
  using assms
proof (induction ts args arbitrary: buf pre rule: list_all2_induct)
  case (Cons t ts a args)
  have len: "length (arg_bytes a) = token_sizeof t" by (rule arg_bytes_length [OF Cons.hyps(1)])
  let ?buf = "copy_in (length pre) (arg_bytes a) buf"
  have "pack_args ts args (length (pre @ arg_bytes a)) ?buf =
          Some ((pre @ arg_bytes a) @ concat (map arg_bytes args))"
    by (rule Cons.IH) (use Cons.prems len in \<open>auto simp: copy_in_def\<close>)
  with Cons.hyps(1) Cons.prems(1) len show ?case by simp
qed simp

lemma unpack_args_result:
  assumes "list_all2 va_ok ts args" and "drop off buf = concat (map arg_bytes args)"
    and "off \<le> length buf"
  shows "unpack_args ts off buf = Some args"
  using assms
proof (induction ts args arbitrary: off rule: list_all2_induct)
  case (Cons t ts a args)
  have len: "length (arg_bytes a) = token_sizeof t" by (rule arg_bytes_length [OF Cons.hyps(1)])
  have "length (drop off buf) = token_sizeof t + length (concat (map arg_bytes args))"
    using Cons.prems(1) len by simp
  then have fits: "off + token_sizeof t \<le> length buf" using Cons.prems(2) by simp
  have "drop (off + token_sizeof t) buf = drop (token_sizeof t) (drop off buf)"
    by (simp add: add.commute)
  also have "\<dots> = concat (map arg_bytes args)" using Cons.prems(1) len by simp
  finally have "unpack_args ts (off + token_sizeof t) buf = Some args"
    using fits by (intro Cons.IH)
  moreover have "take (token_sizeof t) (drop off buf) = arg_bytes a" using Cons.prems(1) len by simp
  ultimately show ?case using fits load_arg_bytes [OF Cons.hyps(1)] by simp
qed simp

section \<open>Formats as text\<close>

fun show_token :: "token \<Rightarrow> string" where
  "show_token INT_T = ''int''" | "show_token INTP = ''int*''" | "show_token INTPP = ''int**''"
| "show_token UINT = ''unsigned int''" | "show_token UINTP = ''unsigned int*''"
| "show_token UINTPP = ''unsigned int**''"
| "show_token LINT = ''long int''" | "show_token LINTP = ''long int*''"
| "show_token LINTPP = ''long int**''"
| "show_token CHRP = ''char*''" | "show_token CHRPP = ''char**''"
| "show_token UCHRP = ''unsigned char*''" | "show_token UCHRPP = ''unsigned char**''"
| "show_token FLTP = ''float*''" | "show_token FLTPP = ''float**''"
| "show_token DBL = ''double''" | "show_token DBLP = ''double*''" | "show_token DBLPP = ''double**''"
| "show_token VOIDP = ''void*''"

fun show_format :: "token list \<Rightarrow> string" where
  "show_format [] = []"
| "show_format [t] = show_token t"
| "show_format (t # ts) = show_token t @ '', '' @ show_format ts"

text \<open>What the parser makes of a type: \<open>char\<close> pointers become \<open>unsigned char\<close> pointers.\<close>

fun read_back :: "token \<Rightarrow> token" where
  "read_back CHRP = UCHRP"
| "read_back CHRPP = UCHRPP"
| "read_back t = t"

lemma read_back_size [simp]: "token_sizeof (read_back t) = token_sizeof t"
  by (cases t) auto

lemmas case_defs = int_case_def char_case_def double_case_def void_case_def float_case_def
  unsigned_int_case_def unsigned_char_case_def unsigned_case_def long_case_def after_def
  pick_token_def get_star_count_def

lemma next_token_show:
  assumes "tail = [] \<or> hd tail = CHR '',''"
  shows "next_token (show_token t @ tail) = Some (read_back t, skip_comma tail)"
proof -
  have stars: "star_count n tail = Some (n, tail)" for n using assms by (cases tail) auto
  show ?thesis by (cases t) (simp_all add: next_token_def case_defs stars)
qed

lemma next_token_space: "next_token (CHR '' '' # cs) = next_token cs"
  by (simp add: next_token_def)

lemma show_format_not_Nil: "ts \<noteq> [] \<Longrightarrow> show_format ts \<noteq> []"
  by (cases ts rule: show_format.cases; cases "hd ts") auto

lemma extract_tokens_space: "cs \<noteq> [] \<Longrightarrow> extract_tokens (CHR '' '' # cs) = extract_tokens cs"
  by (subst (1 2) extract_tokens.simps) (simp add: next_token_space)

lemma extract_show_format:
  "extract_tokens (show_format ts) = Some (total_size ts, map read_back ts)"
proof (induction ts rule: show_format.induct)
  case (2 t)
  have "next_token (show_token t) = Some (read_back t, [])"
    using next_token_show [of "[]" t] by (simp add: skip_comma_def)
  then show ?case by (simp add: extract_tokens_next)
next
  case (3 t u us)
  let ?rest = "show_format (u # us)"
  have "next_token (show_token t @ '', '' @ ?rest) = Some (read_back t, CHR '' '' # ?rest)"
    using next_token_show [of "'', '' @ ?rest" t] by (simp add: skip_comma_def)
  then have "extract_tokens (show_token t @ '', '' @ ?rest) =
      map_option (\<lambda>(n, ts). (token_sizeof t + n, read_back t # ts)) (extract_tokens (CHR '' '' # ?rest))"
    by (simp add: extract_tokens_next)
  then show ?case using 3 extract_tokens_space [OF show_format_not_Nil [of "u # us"]] by simp
qed simp

section \<open>Properties\<close>

text \<open>
  C16: what is packed is unpacked. For every format that is accepted and arguments of its
  types, packing fills the buffer exactly, without writing a byte outside it and leaving none
  unset, and unpacking with the same format reads the same arguments back and frees it.
\<close>

theorem pack_unpack_roundtrip:
  assumes "extract_tokens format = Some (n, ts)" and "list_all2 va_ok ts args" and "n < 2 ^ 31"
  shows "pfunc_pack mem format args =
           Some (status_code PFUNC_SUCCESS, Some (concat (map arg_bytes args))) \<and>
         length (concat (map arg_bytes args)) = n \<and>
         pfunc_unpack (concat (map arg_bytes args)) format =
           Some (status_code PFUNC_SUCCESS, args, True)"
proof -
  have n: "n = total_size ts" by (rule extract_tokens_size [OF assms(1)])
  have "pack_args ts args 0 (map mem [0..<n]) = Some (concat (map arg_bytes args))"
    using pack_args_result [OF assms(2), of "map mem [0..<n]" "[]"] n by simp
  moreover have "length (concat (map arg_bytes args)) = total_size ts"
    using assms(2) by (induction ts args rule: list_all2_induct) (auto simp: arg_bytes_length)
  moreover have "unpack_args ts 0 (concat (map arg_bytes args)) = Some args"
    by (rule unpack_args_result [OF assms(2)]) simp_all
  ultimately show ?thesis using assms n by (simp add: pfunc_pack_def pfunc_unpack_def)
qed

theorem pack_unpack_roundtrip_witness:
  "pfunc_unpack (concat (map arg_bytes [IntArg 7, PtrArg 4096])) ''int, double*'' =
     Some (status_code PFUNC_SUCCESS, [IntArg 7, PtrArg 4096], True)"
proof -
  have "extract_tokens ''int, double*'' = Some (12, [INT_T, DBLP])"
    using extract_show_format [of "[INT_T, DBLP]"] by simp
  from pack_unpack_roundtrip [OF this, of "[IntArg 7, PtrArg 4096]"] show ?thesis by simp
qed

text \<open>
  The parser reads what a format says. A list of types written out in C and separated by
  a comma and a space is read as this list and gives the sum of their sizes, except that
  \<open>char*\<close> and \<open>char**\<close> are read as their \<open>unsigned\<close> counterparts.
\<close>

theorem format_reads_back:
  "extract_tokens (show_format ts) =
     Some ((\<Sum>t\<leftarrow>ts. token_sizeof t),
           map (\<lambda>t. if t = CHRP then UCHRP else if t = CHRPP then UCHRPP else t) ts)"
proof -
  have "read_back = (\<lambda>t. if t = CHRP then UCHRP else if t = CHRPP then UCHRPP else t)"
  proof
    fix t show "read_back t = (if t = CHRP then UCHRP else if t = CHRPP then UCHRPP else t)"
      by (cases t) simp_all
  qed
  then show ?thesis using extract_show_format [of ts] by (simp add: total_size_def)
qed

end
