(* ===== verification/Spaces.thy ===== *)
theory Spaces
  imports Pfunc_Prelude
begin

text \<open>
  Iteration spaces: \<^verbatim>\<open>space_1D.hpp\<close>, and as a locale the concept that it models
  (\<^verbatim>\<open>concepts/Space.concept.ipp\<close>), with the laws that the loops of \<^verbatim>\<open>parallel_for.hpp\<close> and
  \<^verbatim>\<open>parallel_reduce.hpp\<close> need. The operations of the template argument \<open>SpaceType\<close> are a record;
  \<open>split_of\<close> is \<open>None\<close> where an \<open>assert\<close> fails.
\<close>

section \<open>The concept\<close>

record 'sp space_ops =
  can_split_of :: "'sp \<Rightarrow> bool"
  split_of :: "'sp \<Rightarrow> 'sp list option"
  arity_of :: nat

locale splittable_space =
  fixes S :: "'sp space_ops" and ok :: "'sp \<Rightarrow> bool" and points :: "'sp \<Rightarrow> 'p list"
  assumes arity: "2 \<le> arity_of S"
    and split_some: "ok s \<Longrightarrow> can_split_of S s \<Longrightarrow>
      \<exists>ts. split_of S s = Some ts \<and> length ts = arity_of S \<and>
           (\<forall>t\<in>set ts. ok t \<and> points t \<noteq> []) \<and> concat (map points ts) = points s"
begin

text \<open>The first subspace and the others, as the loops take them.\<close>

lemma split_cases:
  assumes "ok s" and "can_split_of S s"
  obtains t u us where "split_of S s = Some (t # u # us)" "length (u # us) = arity_of S - 1"
    "\<forall>v\<in>set (t # u # us). ok v \<and> points v \<noteq> []"
    "points s = points t @ concat (map points (u # us))"
proof -
  obtain ts where ts: "split_of S s = Some ts" "length ts = arity_of S"
      "\<forall>t\<in>set ts. ok t \<and> points t \<noteq> []" "concat (map points ts) = points s"
    using split_some [OF assms] by (elim exE conjE)
  with arity obtain t u us where "ts = t # u # us"
    by (cases ts; cases "tl ts") auto
  with ts show ?thesis by (intro that [of t u us]) auto
qed

end

section \<open>\<open>space_1D\<close>\<close>

record space_1D =
  space_begin :: u64
  space_end :: u64
  splittable :: bool

text \<open>The static member \<open>base_case_size\<close> is the first argument; it starts as 100.\<close>

definition base_case_size_default :: u64 where
  "base_case_size_default = 100"

definition space_1D_make :: "u64 \<Rightarrow> u64 \<Rightarrow> u64 \<Rightarrow> space_1D" where
  "space_1D_make base b e = \<lparr>space_begin = b, space_end = e, splittable = (base < e - b)\<rparr>"

definition space_1D_split :: "u64 \<Rightarrow> space_1D \<Rightarrow> space_1D list option" where
  "space_1D_split base s =
     (if splittable s
      then let split_point = space_begin s + (space_end s - space_begin s) div 2
           in Some [space_1D_make base (space_begin s) split_point,
                    space_1D_make base split_point (space_end s)]
      else None)"

definition space_1D_ops :: "u64 \<Rightarrow> space_1D space_ops" where
  "space_1D_ops base = \<lparr>can_split_of = splittable, split_of = space_1D_split base, arity_of = 2\<rparr>"

lemma space_1D_ops_simps [simp]:
  "can_split_of (space_1D_ops base) = splittable"
  "split_of (space_1D_ops base) = space_1D_split base"
  "arity_of (space_1D_ops base) = 2"
  by (simp_all add: space_1D_ops_def)

text \<open>
  A space made by the constructor whose end is not before its beginning, with a base case
  size of at least one, and the points that \<open>for (i = begin; i < end; ++i)\<close> visits.
\<close>

definition space_1D_ok :: "u64 \<Rightarrow> space_1D \<Rightarrow> bool" where
  "space_1D_ok base s \<longleftrightarrow> base \<noteq> 0 \<and> space_begin s \<le> space_end s \<and>
     splittable s = (base < space_end s - space_begin s)"

definition space_1D_points :: "space_1D \<Rightarrow> u64 list" where
  "space_1D_points s = map of_nat [unat (space_begin s)..<unat (space_end s)]"

lemma space_1D_make_ok [simp]:
  "space_1D_ok base (space_1D_make base b e) \<longleftrightarrow> base \<noteq> 0 \<and> b \<le> e"
  by (simp add: space_1D_ok_def space_1D_make_def)

lemma space_1D_make_points:
  "space_1D_points (space_1D_make base b e) = map of_nat [unat b..<unat e]"
  by (simp add: space_1D_points_def space_1D_make_def)

lemma split_point_unat:
  assumes "b \<le> e" and "1 < e - b"
  shows "unat (b + (e - b) div 2 :: u64) = unat b + (unat e - unat b) div 2"
    and "unat b < unat b + (unat e - unat b) div 2" and "unat b + (unat e - unat b) div 2 < unat e"
proof -
  have diff: "unat (e - b) = unat e - unat b" using assms(1) by (rule unat_sub)
  have two: "1 < unat e - unat b" using assms(2) diff by (simp add: word_less_nat_alt)
  then show "unat b < unat b + (unat e - unat b) div 2" and "unat b + (unat e - unat b) div 2 < unat e"
    by linarith+
  moreover have half: "unat ((e - b) div 2) = (unat e - unat b) div 2"
    using diff by (simp add: unat_div)
  ultimately have "unat b + unat ((e - b) div 2) < 2 ^ 64"
    using unat_less_64 [of e] by linarith
  then show "unat (b + (e - b) div 2 :: u64) = unat b + (unat e - unat b) div 2"
    using half unat_add_lem [of b "(e - b) div 2"] by simp
qed

lemma space_1D_split_ok:
  assumes "space_1D_ok base s" and "splittable s"
  shows "\<exists>ts. space_1D_split base s = Some ts \<and> length ts = 2 \<and>
           (\<forall>t\<in>set ts. space_1D_ok base t \<and> space_1D_points t \<noteq> []) \<and>
           concat (map space_1D_points ts) = space_1D_points s"
proof -
  let ?b = "space_begin s" and ?e = "space_end s"
  let ?m = "?b + (?e - ?b) div 2"
  have be: "?b \<le> ?e" "base \<noteq> 0" "base < ?e - ?b" using assms by (auto simp: space_1D_ok_def)
  then have "1 \<le> base" by (simp add: word_le_nat_alt Suc_le_eq unat_gt_0)
  then have "1 < ?e - ?b" using be(3) by (rule order.strict_trans1)
  note m = split_point_unat [OF be(1) this]
  have le: "?b \<le> ?m" "?m \<le> ?e" "unat ?b < unat ?m" "unat ?m < unat ?e"
    using m by (simp_all add: word_le_nat_alt)
  have "[unat ?b..<unat ?e] = [unat ?b..<unat ?m] @ [unat ?m..<unat ?e]"
    using le upt_add_eq_append [of "unat ?b" "unat ?m" "unat ?e - unat ?m"] by simp
  then have "space_1D_points s =
      space_1D_points (space_1D_make base ?b ?m) @ space_1D_points (space_1D_make base ?m ?e)"
    by (simp add: space_1D_points_def space_1D_make_def)
  with le be show ?thesis using assms(2)
    by (simp add: space_1D_split_def Let_def space_1D_make_points)
qed

interpretation s1: splittable_space "space_1D_ops base" "space_1D_ok base" space_1D_points for base
  by unfold_locales (simp_all add: space_1D_split_ok)

lemma space_1D_points_distinct: "distinct (space_1D_points s)"
proof -
  have "inj_on (of_nat :: nat \<Rightarrow> u64) {unat (space_begin s)..<unat (space_end s)}"
  proof (rule inj_onI)
    fix i j assume ij: "i \<in> {unat (space_begin s)..<unat (space_end s)}"
      "j \<in> {unat (space_begin s)..<unat (space_end s)}" "(of_nat i :: u64) = of_nat j"
    then have "i < 2 ^ 64" "j < 2 ^ 64" using unat_less_64 [of "space_end s"] by auto
    with ij(3) show "i = j" by (metis unat_of_nat64)
  qed
  then show ?thesis by (simp add: space_1D_points_def distinct_map)
qed

text \<open>With a base case size of 0 a space that is not empty has no end of splittable parts.\<close>

lemma base_zero_splits:
  assumes "b < e"
  shows "splittable (space_1D_make 0 b e)"
  using assms by (simp add: space_1D_make_def word_neq_0_conv [symmetric])

end
