(* ===== verification/Loops.thy ===== *)
theory Loops
  imports Spaces
begin

text \<open>
  \<^verbatim>\<open>parallel_for.hpp\<close>, a loop built on tasks. A running \<open>operator()\<close> is a term: what it still
  has to do itself, the subspaces it has yet to spawn and the tasks it has spawned, terms
  again. An event names the term that moves, by its place in the whole; any event that is possible may happen next,
  so that a run is any interleaving that any number of workers can produce. A call of the
  user's functor on a space that is not split, a spawn, and a wait that succeeds are one
  step each. Functors do not throw. The memory for tasks is not modelled, so the loop that
  deletes them only ends the operator.
\<close>

section \<open>\<open>parallel_for\<close>\<close>

text \<open>
  \<open>Iterate\<close> is \<open>operator()\<close> about to look at its space; \<open>Fork\<close> is the same after the split,
  with its own recursive call, the subspaces from \<open>first\<close> on and the tasks not yet waited for.
\<close>

datatype 'sp loop = Iterate 'sp | Fork "'sp loop" "'sp list" "'sp loop list" | Finished

datatype place = Here | Own place | Spawned nat place

fun pf_event :: "'sp space_ops \<Rightarrow> ('sp \<Rightarrow> 's \<Rightarrow> 's) \<Rightarrow> place \<Rightarrow> 'sp loop \<times> 's \<Rightarrow> ('sp loop \<times> 's) option" where
  "pf_event S func Here (Iterate s, m) =
     (if can_split_of S s
      then case split_of S s of
             Some (first # rest) \<Rightarrow>
               if length rest = arity_of S - 1 then Some (Fork (Iterate first) rest [], m) else None
           | _ \<Rightarrow> None
      else Some (Finished, func s m))"
| "pf_event S func Here (Fork own (t # ts) ps, m) = Some (Fork own ts (ps @ [Iterate t]), m)"
| "pf_event S func Here (Fork own [] (p # ps), m) =
     (if own = Finished \<and> p = Finished then Some (Fork own [] ps, m) else None)"
| "pf_event S func Here (Fork own [] [], m) = (if own = Finished then Some (Finished, m) else None)"
| "pf_event S func (Own e) (Fork own ts ps, m) =
     (if ts = [] then map_option (\<lambda>(own', m'). (Fork own' ts ps, m')) (pf_event S func e (own, m)) else None)"
| "pf_event S func (Spawned i e) (Fork own ts ps, m) =
     (if i < length ps
      then map_option (\<lambda>(p, m'). (Fork own ts (ps[i := p]), m')) (pf_event S func e (ps ! i, m))
      else None)"
| "pf_event S func _ _ = None"

text \<open>What is left to do: all spaces in it satisfy \<open>ok\<close>; their points; a bound on the steps.\<close>

fun loop_all :: "('sp \<Rightarrow> bool) \<Rightarrow> 'sp loop \<Rightarrow> bool" where
  "loop_all P (Iterate s) = P s"
| "loop_all P (Fork own ts ps) = (loop_all P own \<and> list_all P ts \<and> list_all (loop_all P) ps)"
| "loop_all P Finished = True"

fun loop_sum :: "('sp \<Rightarrow> 'n::comm_monoid_add) \<Rightarrow> ('sp \<Rightarrow> 'n) \<Rightarrow> 'n \<Rightarrow> 'sp loop \<Rightarrow> 'n" where
  "loop_sum f g c (Iterate s) = f s"
| "loop_sum f g c (Fork own ts ps) =
     c + loop_sum f g c own + (\<Sum>t\<leftarrow>ts. g t) + (\<Sum>p\<leftarrow>ps. c + loop_sum f g c p)"
| "loop_sum f g c Finished = 0"

lemma sum_list_update_add:
  fixes f :: "'a \<Rightarrow> 'n::comm_monoid_add"
  assumes "i < length xs" and "f (xs ! i) = f y + z"
  shows "(\<Sum>x\<leftarrow>xs. f x) = (\<Sum>x\<leftarrow>xs[i := y]. f x) + z"
  using assms
proof (induction xs arbitrary: i)
  case (Cons x xs)
  then show ?case by (cases i) (auto simp: ac_simps)
qed simp

lemma sum_list_update_less:
  fixes f :: "'a \<Rightarrow> nat"
  assumes "i < length xs" and "f y < f (xs ! i)"
  shows "(\<Sum>x\<leftarrow>xs[i := y]. f x) < (\<Sum>x\<leftarrow>xs. f x)"
  using sum_list_update_add [OF assms(1), of f y "f (xs ! i) - f y"] assms(2) by simp

lemma list_all_update: "list_all P xs \<Longrightarrow> P y \<Longrightarrow> list_all P (xs[i := y])"
  by (auto simp: list_all_iff dest: set_update_subset_insert [THEN subsetD])

context splittable_space
begin

definition cost :: "'sp \<Rightarrow> nat" where
  "cost s = max 1 (5 * length (points s) - 4)"

abbreviation loop_cost :: "'sp loop \<Rightarrow> nat" where
  "loop_cost \<equiv> loop_sum cost (\<lambda>t. cost t + 2) 1"

abbreviation loop_points :: "'sp loop \<Rightarrow> 'p multiset" where
  "loop_points \<equiv> loop_sum (\<lambda>s. mset (points s)) (\<lambda>s. mset (points s)) {#}"

lemma cost_nonempty: "points s \<noteq> [] \<Longrightarrow> cost s + 4 = 5 * length (points s)"
  by (cases "points s") (auto simp: cost_def)

lemma cost_split:
  assumes "\<forall>t\<in>set ts. points t \<noteq> []"
  shows "(\<Sum>t\<leftarrow>ts. cost t + 2) + 2 * length ts \<le> 5 * (\<Sum>t\<leftarrow>ts. length (points t))"
  using assms
proof (induction ts)
  case (Cons t ts)
  have "cost t + 4 = 5 * length (points t)" using Cons.prems by (intro cost_nonempty) simp
  with Cons show ?case by simp
qed simp

lemma split_costs:
  assumes "ok s" and "can_split_of S s" and "split_of S s = Some (t # ts)"
  shows "cost t + (\<Sum>u\<leftarrow>ts. cost u + 2) + 2 \<le> cost s"
proof -
  obtain v u us where *: "split_of S s = Some (v # u # us)"
      "\<forall>w\<in>set (v # u # us). ok w \<and> points w \<noteq> []"
      "points s = points v @ concat (map points (u # us))"
    by (rule split_cases [OF assms(1,2)])
  then have eq: "t = v" "ts = u # us" using assms(3) by simp_all
  have "length (points s) = length (points t) + (\<Sum>u\<leftarrow>ts. length (points u))"
    using * eq by (simp add: length_concat comp_def)
  moreover have "(\<Sum>u\<leftarrow>ts. cost u + 2) + 2 * length ts \<le> 5 * (\<Sum>u\<leftarrow>ts. length (points u))"
    using * eq by (intro cost_split) auto
  moreover have "cost t + 4 = 5 * length (points t)"
    using * eq by (intro cost_nonempty) auto
  moreover have "cost s + 4 = 5 * length (points s)"
    using * by (intro cost_nonempty) auto
  ultimately show ?thesis using eq by simp
qed

lemma split_parts:
  assumes "ok s" and "can_split_of S s" and "split_of S s = Some (t # ts)"
  shows "ok t" and "list_all ok ts" and "length ts = arity_of S - 1"
    and "mset (points s) = mset (points t) + (\<Sum>u\<leftarrow>ts. mset (points u))"
proof -
  obtain v u us where *: "split_of S s = Some (v # u # us)" "length (u # us) = arity_of S - 1"
      "\<forall>w\<in>set (v # u # us). ok w \<and> points w \<noteq> []"
      "points s = points v @ concat (map points (u # us))"
    by (rule split_cases [OF assms(1,2)])
  with assms(3) show "ok t" "list_all ok ts" "length ts = arity_of S - 1"
    by (auto simp: list_all_iff)
  have "mset (concat (map points us)) = (\<Sum>u\<leftarrow>us. mset (points u))" for us
    by (induction us) auto
  with * assms(3) show "mset (points s) = mset (points t) + (\<Sum>u\<leftarrow>ts. mset (points u))"
    by simp
qed

text \<open>One step: the cost falls, and the functor has been applied to the points that are gone.\<close>

definition pf_moves :: "('p \<Rightarrow> 's \<Rightarrow> 's) \<Rightarrow> 'sp loop \<Rightarrow> 's \<Rightarrow> 'sp loop \<Rightarrow> 's \<Rightarrow> bool" where
  "pf_moves body p m q m' \<longleftrightarrow> loop_all ok q \<and> loop_cost q < loop_cost p \<and>
     (\<exists>xs. loop_points p = mset xs + loop_points q \<and> m' = fold body xs m)"

lemma pf_moves_silent:
  "loop_all ok q \<Longrightarrow> loop_cost q < loop_cost p \<Longrightarrow> loop_points p = loop_points q \<Longrightarrow>
   pf_moves body p m q m"
  by (auto simp: pf_moves_def intro: exI [of _ "[]"])

lemma pf_step_here:
  assumes "pf_event S (\<lambda>s. fold body (points s)) Here (p, m) = Some (q, m')" and "loop_all ok p"
  shows "pf_moves body p m q m'"
proof (cases p)
  case (Iterate s)
  show ?thesis
  proof (cases "can_split_of S s")
    case True
    then obtain t ts where "split_of S s = Some (t # ts)" "q = Fork (Iterate t) ts []" "m' = m"
      using assms(1) Iterate by (auto split: option.splits list.splits if_splits)
    with split_parts [OF _ True this(1)] split_costs [OF _ True this(1)] show ?thesis
      using assms(2) Iterate by (auto intro!: pf_moves_silent)
  next
    case False
    with assms(1) Iterate show ?thesis
      by (auto simp: pf_moves_def cost_def intro: exI [of _ "points s"])
  qed
next
  case (Fork own ts ps)
  show ?thesis
  proof (cases ts)
    case (Cons t us)
    with assms Fork show ?thesis
      by (auto intro!: pf_moves_silent simp: ac_simps)
  next
    case Nil
    with assms Fork show ?thesis
      by (cases ps) (auto intro!: pf_moves_silent split: if_splits)
  qed
qed (use assms in simp)

lemma pf_step:
  assumes "pf_event S (\<lambda>s. fold body (points s)) e (p, m) = Some (q, m')" and "loop_all ok p"
  shows "pf_moves body p m q m'"
  using assms
proof (induction e arbitrary: p q m')
  case Here
  then show ?case by (rule pf_step_here)
next
  case (Own e)
  then obtain own ps own' where *: "p = Fork own [] ps" "q = Fork own' [] ps"
      "pf_event S (\<lambda>s. fold body (points s)) e (own, m) = Some (own', m')"
    by (cases p) (auto split: if_splits)
  with Own.IH [OF *(3)] Own.prems(2) show ?case
    by (auto simp: pf_moves_def ac_simps)
next
  case (Spawned i e)
  then obtain own ts ps p' where *: "p = Fork own ts ps" "q = Fork own ts (ps[i := p'])" "i < length ps"
      "pf_event S (\<lambda>s. fold body (points s)) e (ps ! i, m) = Some (p', m')"
    by (cases p) (auto split: if_splits)
  moreover have ok: "loop_all ok (ps ! i)" using * Spawned.prems(2) by (simp add: list_all_length)
  ultimately have "loop_all ok p'" "loop_cost p' < loop_cost (ps ! i)"
    and "\<exists>xs. loop_points (ps ! i) = mset xs + loop_points p' \<and> m' = fold body xs m"
    using Spawned.IH [OF *(4) ok] by (simp_all add: pf_moves_def)
  then obtain xs where xs: "loop_points (ps ! i) = mset xs + loop_points p'" "m' = fold body xs m"
    by (elim exE conjE)
  have "(\<Sum>p\<leftarrow>ps. loop_points p) = (\<Sum>p\<leftarrow>ps[i := p']. loop_points p) + mset xs"
    by (rule sum_list_update_add) (use * xs in \<open>simp_all add: ac_simps\<close>)
  moreover have "(\<Sum>p\<leftarrow>ps[i := p']. 1 + loop_cost p) < (\<Sum>p\<leftarrow>ps. 1 + loop_cost p)"
    by (rule sum_list_update_less) (use * \<open>loop_cost p' < _\<close> in simp_all)
  moreover have "list_all (loop_all ok) (ps[i := p'])"
    using * Spawned.prems(2) \<open>loop_all ok p'\<close> by (auto intro: list_all_update)
  ultimately show ?case using * Spawned.prems(2) xs(2)
    by (auto simp: pf_moves_def intro: exI [of _ xs])
qed

text \<open>Runs: the number of steps is bounded, and nothing is lost.\<close>

lemma pf_run:
  assumes "run_events (pf_event S (\<lambda>s. fold body (points s))) es (p, m) = Some (q, m')"
    and "loop_all ok p"
  shows "loop_all ok q \<and> length es + loop_cost q \<le> loop_cost p \<and>
    (\<exists>xs. loop_points p = mset xs + loop_points q \<and> m' = fold body xs m)"
  using assms
proof (induction es arbitrary: p m)
  case Nil
  then show ?case by (auto intro: exI [of _ "[]"])
next
  case (Cons e es)
  then obtain p1 m1 where one: "pf_event S (\<lambda>s. fold body (points s)) e (p, m) = Some (p1, m1)"
    and rest: "run_events (pf_event S (\<lambda>s. fold body (points s))) es (p1, m1) = Some (q, m')"
    by (auto split: option.splits)
  have step: "pf_moves body p m p1 m1" by (rule pf_step [OF one Cons.prems(2)])
  then obtain xs where xs: "loop_points p = mset xs + loop_points p1" "m1 = fold body xs m"
    and p1: "loop_all ok p1" "loop_cost p1 < loop_cost p" by (auto simp: pf_moves_def)
  obtain ys where ys: "loop_points p1 = mset ys + loop_points q" "m' = fold body ys m1"
    and q: "loop_all ok q" "length es + loop_cost q \<le> loop_cost p1"
    using Cons.IH [OF rest p1(1)] by (elim exE conjE)
  have "loop_points p = mset (xs @ ys) + loop_points q" "m' = fold body (xs @ ys) m"
    using xs ys by (simp_all add: ac_simps)
  with p1 q show ?case by (intro conjI exI) (assumption | simp)+
qed

text \<open>As long as the loop has not finished, some part of it can move.\<close>

lemma pf_progress:
  assumes "loop_all ok p" and "p \<noteq> Finished"
  shows "\<exists>e. pf_event S func e (p, m) \<noteq> None"
  using assms
proof (induction p)
  case (Iterate s)
  show ?case
  proof (cases "can_split_of S s")
    case True
    obtain t u us where "split_of S s = Some (t # u # us)" "length (u # us) = arity_of S - 1"
      using Iterate True by (auto elim: split_cases)
    with True show ?thesis by (intro exI [of _ Here]) simp
  qed (auto intro: exI [of _ Here])
next
  case (Fork own ts ps)
  show ?case
  proof (cases ts)
    case (Cons t us)
    then show ?thesis by (intro exI [of _ Here]) simp
  next
    case ts: Nil
    show ?thesis
    proof (cases "own = Finished")
      case False
      then obtain e where "pf_event S func e (own, m) \<noteq> None"
        using Fork by auto
      with ts show ?thesis by (intro exI [of _ "Own e"]) auto
    next
      case own: True
      show ?thesis
      proof (cases ps)
        case (Cons p ps')
        show ?thesis
        proof (cases "p = Finished")
          case True
          with own ts Cons show ?thesis by (intro exI [of _ Here]) simp
        next
          case False
          moreover have "p \<in> set ps" "loop_all ok p" using Fork.prems(1) Cons by simp_all
          ultimately obtain e where "pf_event S func e (p, m) \<noteq> None"
            using Fork.IH(2) [of p] by blast
          with Cons show ?thesis by (intro exI [of _ "Spawned 0 e"]) auto
        qed
      qed (use own ts in \<open>auto intro: exI [of _ Here]\<close>)
    qed
  qed
qed simp

text \<open>
  The iterations may be made in any order if every two of them commute. Then the loop ends
  where the sequential loop ends.
\<close>

lemma parallel_for_sequential:
  assumes run: "run_events (pf_event S (\<lambda>s. fold body (points s))) es (Iterate s, m) = Some (q, m')"
    and "ok s" and dist: "distinct (points s)"
    and comm: "\<And>x y m. x \<in> set (points s) \<Longrightarrow> y \<in> set (points s) \<Longrightarrow> x \<noteq> y \<Longrightarrow>
                 body x (body y m) = body y (body x m)"
  shows "length es \<le> 5 * length (points s) + 1"
    and "q \<noteq> Finished \<Longrightarrow> \<exists>e. pf_event S (\<lambda>s. fold body (points s)) e (q, m') \<noteq> None"
    and "q = Finished \<Longrightarrow> m' = fold body (points s) m"
proof -
  have "loop_all ok (Iterate s)" using \<open>ok s\<close> by simp
  note * = pf_run [OF run this]
  from * show "length es \<le> 5 * length (points s) + 1" by (auto simp: cost_def)
  from * show "q \<noteq> Finished \<Longrightarrow> \<exists>e. pf_event S (\<lambda>s. fold body (points s)) e (q, m') \<noteq> None"
    by (blast intro: pf_progress)
  assume "q = Finished"
  with * obtain xs where xs: "mset (points s) = mset xs" "m' = fold body xs m" by auto
  have "fold body (points s) = fold body xs"
  proof (rule fold_multiset_equiv [OF _ xs(1)])
    fix x y assume "x \<in> set (points s)" "y \<in> set (points s)"
    then show "body x \<circ> body y = body y \<circ> body x" using comm by (cases "x = y") (auto simp: fun_eq_iff)
  qed
  with xs(2) show "m' = fold body (points s) m" by simp
qed

end

text \<open>The body of \<^verbatim>\<open>examples/cxx/for.cpp\<close>: every element of a vector is scaled.\<close>

definition vector_scale :: "'v::times \<Rightarrow> u64 \<Rightarrow> 'v list \<Rightarrow> 'v list" where
  "vector_scale scaling_factor i my_vector = my_vector[unat i := my_vector ! unat i * scaling_factor]"

text \<open>
  C11: \<open>parallel_for\<close> over a \<open>space_1D\<close> is the sequential loop. If the iterations commute and the
  base case size is not 0, every run has at most \<open>5 n + 1\<close> steps for \<open>n\<close> iterations, is never
  stuck before the loop has finished, and ends in the state in which
  \<open>for (i = begin; i < end; ++i)\<close> ends, however splits, spawns, calls and waits interleave.
\<close>

theorem parallel_for_equals_loop:
  assumes "run_events (pf_event (space_1D_ops base) (\<lambda>s. fold body (space_1D_points s))) es
             (Iterate (space_1D_make base b e), m) = Some (q, m')"
    and "base \<noteq> 0" and "b \<le> e"
    and "\<And>i j m. b \<le> i \<Longrightarrow> i < e \<Longrightarrow> b \<le> j \<Longrightarrow> j < e \<Longrightarrow> i \<noteq> j \<Longrightarrow>
           body i (body j m) = body j (body i m)"
  shows "length es \<le> 5 * (unat e - unat b) + 1 \<and>
    (q \<noteq> Finished \<longrightarrow>
       (\<exists>x. pf_event (space_1D_ops base) (\<lambda>s. fold body (space_1D_points s)) x (q, m') \<noteq> None)) \<and>
    (q = Finished \<longrightarrow> m' = fold body (map of_nat [unat b..<unat e]) m)"
proof -
  let ?s = "space_1D_make base b e"
  have ok: "space_1D_ok base ?s" using assms by simp
  have mem: "b \<le> i \<and> i < e" if "i \<in> set (space_1D_points ?s)" for i
  proof -
    from that obtain n where n: "i = of_nat n" "unat b \<le> n" "n < unat e"
      by (auto simp: space_1D_make_points)
    moreover have "unat i = n" using n unat_less_64 [of e] by (simp add: unat_of_nat64)
    ultimately show ?thesis by (simp add: word_le_nat_alt word_less_nat_alt)
  qed
  note * = s1.parallel_for_sequential [OF assms(1) ok space_1D_points_distinct]
  have comm: "body i (body j n) = body j (body i n)"
    if "i \<in> set (space_1D_points ?s)" "j \<in> set (space_1D_points ?s)" "i \<noteq> j" for i j n
    using mem [OF that(1)] mem [OF that(2)] that(3) by (intro assms(4)) auto
  show ?thesis
    using *(1) [OF comm] *(2) [OF comm] *(3) [OF comm] by (simp add: space_1D_make_points)
qed

theorem parallel_for_equals_loop_witness:
  "case run_events (pf_event (space_1D_ops 1) (\<lambda>s. fold (vector_scale (3::nat)) (space_1D_points s)))
          [Here, Here, Spawned 0 Here, Own Here, Here, Here] (Iterate (space_1D_make 1 0 2), [5, 7]) of
     Some (q, m) \<Rightarrow> q = Finished \<and> m = fold (vector_scale 3) [0, 1] [5, 7] | None \<Rightarrow> False"
proof -
  have comm: "vector_scale (3::nat) i (vector_scale 3 j m) = vector_scale 3 j (vector_scale 3 i m)"
    if "i \<noteq> j" for i j m
    using that by (auto simp: vector_scale_def list_update_swap word_unat_eq_iff)
  have run: "run_events (pf_event (space_1D_ops 1) (\<lambda>s. fold (vector_scale (3::nat)) (space_1D_points s)))
      [Here, Here, Spawned 0 Here, Own Here, Here, Here] (Iterate (space_1D_make 1 0 2), [5, 7]) = Some (Finished, [15, 21])"
    by code_simp
  have "[15, 21] = fold (vector_scale (3::nat)) (map of_nat [unat (0::u64)..<unat (2::u64)]) [5, 7]"
    using parallel_for_equals_loop [OF run] comm by auto
  with run show ?thesis by (simp add: upt_rec)
qed

section \<open>A base case size of 0\<close>

text \<open>
  Nothing checks \<open>base_case_size\<close>. If it is 0, even a space of one point is split, into an
  empty one and itself.
\<close>

fun loop_any :: "('sp \<Rightarrow> bool) \<Rightarrow> 'sp loop \<Rightarrow> bool" where
  "loop_any P (Iterate s) = P s"
| "loop_any P (Fork own ts ps) = (loop_any P own \<or> list_ex P ts \<or> list_ex (loop_any P) ps)"
| "loop_any P Finished = False"

definition endless :: "space_1D \<Rightarrow> bool" where
  "endless s \<longleftrightarrow> (\<exists>b e. s = space_1D_make 0 b e \<and> b < e)"

lemma right_half_endless:
  assumes "endless s"
  shows "\<exists>t u. space_1D_split 0 s = Some [t, u] \<and> endless u"
proof -
  obtain b e where s: "s = space_1D_make 0 b e" "b < e" using assms by (auto simp: endless_def)
  have "unat (e - b) = unat e - unat b" using s(2) by (intro unat_sub) simp
  moreover have "unat b < unat e" using s(2) by (simp add: word_less_nat_alt)
  ultimately have half: "unat ((e - b) div 2) < unat e - unat b" by (simp add: unat_div)
  then have "unat b + unat ((e - b) div 2) < 2 ^ 64" using unat_less_64 [of e] by linarith
  then have "unat (b + (e - b) div 2) = unat b + unat ((e - b) div 2)"
    using unat_add_lem [of b "(e - b) div 2"] by simp
  then have "b + (e - b) div 2 < e" using half by (simp add: word_less_nat_alt)
  with s show ?thesis
    using base_zero_splits [OF s(2)]
    by (auto simp: space_1D_split_def Let_def space_1D_make_def endless_def)
qed

lemma list_ex_update:
  "list_ex P xs \<Longrightarrow> i < length xs \<Longrightarrow> (P (xs ! i) \<Longrightarrow> P y) \<Longrightarrow> list_ex P (xs[i := y])"
  by (auto simp: list_ex_length nth_list_update) (metis nth_list_update)

lemma endless_step:
  "pf_event (space_1D_ops 0) func e (p, m) = Some (q, m') \<Longrightarrow> loop_any endless p \<Longrightarrow> loop_any endless q"
proof (induction e arbitrary: p q m')
  case Here
  show ?case
  proof (cases p)
    case (Iterate s)
    then have "endless s" using Here(2) by simp
    from right_half_endless [OF this] obtain t u where "space_1D_split 0 s = Some [t, u]" "endless u"
      by (elim exE conjE)
    with Here Iterate show ?thesis by (auto simp: space_1D_split_def split: if_splits)
  next
    case (Fork own ts ps)
    with Here show ?thesis
      by (cases ts; cases ps) (auto split: if_splits)
  qed (use Here in simp)
next
  case (Own e)
  then show ?case by (cases p) (auto split: if_splits)
next
  case (Spawned i e)
  then obtain own ts ps p' where *: "p = Fork own ts ps" "q = Fork own ts (ps[i := p'])" "i < length ps"
      "pf_event (space_1D_ops 0) func e (ps ! i, m) = Some (p', m')"
    by (cases p) (auto split: if_splits)
  with Spawned.IH [OF *(4)] Spawned.prems(2) show ?case
    by (auto intro: list_ex_update)
qed

lemma endless_run:
  "run_events (pf_event (space_1D_ops 0) func) es (p, m) = Some (q, m') \<Longrightarrow> loop_any endless p \<Longrightarrow>
   loop_any endless q"
proof (induction es arbitrary: p m)
  case (Cons x es)
  then obtain p1 m1 where "pf_event (space_1D_ops 0) func x (p, m) = Some (p1, m1)"
    "run_events (pf_event (space_1D_ops 0) func) es (p1, m1) = Some (q, m')"
    by (auto split: option.splits)
  with Cons.IH [of p1 m1] Cons.prems(2) endless_step [of func x p m p1 m1] show ?case by simp
qed simp

theorem parallel_for_base_zero:
  assumes "run_events (pf_event (space_1D_ops 0) func) es (Iterate (space_1D_make 0 b e), m) = Some (q, m')"
    and "b < e"
  shows "q \<noteq> Finished"
proof -
  have "loop_any endless (Iterate (space_1D_make 0 b e))" using assms(2) by (auto simp: endless_def)
  from endless_run [OF assms(1) this] show ?thesis by auto
qed

end
