(* ===== verification/Reductions.thy ===== *)
theory Reductions
  imports Loops
begin

text \<open>
  \<^verbatim>\<open>parallel_reduce.hpp\<close>, in the style of \<open>Loops\<close>, and the functor \<open>accumulate\<close> of
  \<^verbatim>\<open>examples/cxx/reduce.cpp\<close>. Each running \<open>operator()\<close> has its functor object: the own
  recursive call goes on with the same object, every spawned task has one that \<open>split\<close> made
  before the own call began. The results are joined in the order of the subspaces after all
  tasks have been waited for.
\<close>

section \<open>The code\<close>

text \<open>The operations of the template argument (\<^verbatim>\<open>concepts/ReduceExecutable.concept.ipp\<close>).\<close>

record ('sp, 'a) reducer_ops =
  r_apply :: "'sp \<Rightarrow> 'a \<Rightarrow> 'a"
  r_split :: "'a \<Rightarrow> 'a"
  r_join :: "'a \<Rightarrow> 'a \<Rightarrow> 'a"

text \<open>
  \<open>Joining own todo tasks joined\<close>: the own call, the subspaces to spawn with their functors,
  the tasks to wait for, and the functors of the tasks that have been waited for.
\<close>

datatype ('sp, 'a) reduction =
    Reduce 'sp 'a
  | Joining "('sp, 'a) reduction" "('sp \<times> 'a) list" "('sp, 'a) reduction list" "'a list"
  | Reduced 'a

definition join_funcs :: "('sp, 'a) reducer_ops \<Rightarrow> 'a \<Rightarrow> 'a list \<Rightarrow> 'a" where
  "join_funcs R f hs = foldl (r_join R) f hs"

fun pr_event :: "'sp space_ops \<Rightarrow> ('sp, 'a) reducer_ops \<Rightarrow> place \<Rightarrow> ('sp, 'a) reduction \<Rightarrow>
    ('sp, 'a) reduction option" where
  "pr_event S R Here (Reduce s f) =
     (if can_split_of S s
      then case split_of S s of
             Some (first # rest) \<Rightarrow>
               if length rest = arity_of S - 1
               then let split_funcs = replicate (arity_of S - 1) (r_split R f)
                    in Some (Joining (Reduce first f) (zip rest split_funcs) [] [])
               else None
           | _ \<Rightarrow> None
      else Some (Reduced (r_apply R s f)))"
| "pr_event S R Here (Joining own ((t, g) # ts) ps hs) = Some (Joining own ts (ps @ [Reduce t g]) hs)"
| "pr_event S R Here (Joining own [] (p # ps) hs) =
     (case (own, p) of
        (Reduced f, Reduced h) \<Rightarrow> Some (Joining own [] ps (hs @ [h]))
      | _ \<Rightarrow> None)"
| "pr_event S R Here (Joining own [] [] hs) =
     (case own of Reduced f \<Rightarrow> Some (Reduced (join_funcs R f hs)) | _ \<Rightarrow> None)"
| "pr_event S R (Own e) (Joining own ts ps hs) =
     (if ts = [] then map_option (\<lambda>own'. Joining own' ts ps hs) (pr_event S R e own) else None)"
| "pr_event S R (Spawned i e) (Joining own ts ps hs) =
     (if i < length ps
      then map_option (\<lambda>p. Joining own ts (ps[i := p]) hs) (pr_event S R e (ps ! i)) else None)"
| "pr_event S R _ _ = None"

section \<open>Every step is one of \<open>parallel_for\<close>\<close>

text \<open>Without the functors the two loops do the same: splits, spawns and waits agree.\<close>

fun skeleton :: "('sp, 'a) reduction \<Rightarrow> 'sp loop" where
  "skeleton (Reduce s f) = Iterate s"
| "skeleton (Joining own ts ps hs) = Fork (skeleton own) (map fst ts) (map skeleton ps)"
| "skeleton (Reduced f) = Finished"

lemma skeleton_Finished [simp]: "skeleton q = Finished \<longleftrightarrow> (\<exists>f. q = Reduced f)"
  by (cases q) auto

lemma skeleton_here:
  "pf_event S (\<lambda>s m. m) Here (skeleton q, m) = map_option (\<lambda>q'. (skeleton q', m)) (pr_event S R Here q)"
proof (cases q)
  case (Joining own ts ps hs)
  show ?thesis
  proof (cases ts)
    case Nil
    then show ?thesis using Joining
      by (cases ps) (auto split: reduction.splits)
  next
    case (Cons t us)
    then show ?thesis using Joining by (cases t) auto
  qed
qed (auto split: option.splits list.splits)

lemma skeleton_event:
  "pf_event S (\<lambda>s m. m) e (skeleton q, m) = map_option (\<lambda>q'. (skeleton q', m)) (pr_event S R e q)"
proof (induction e arbitrary: q)
  case Here
  show ?case by (rule skeleton_here)
next
  case (Own e)
  show ?case by (cases q) (auto simp: Own option.map_comp comp_def)
next
  case (Spawned i e)
  show ?case by (cases q) (auto simp: Spawned option.map_comp comp_def map_update)
qed

lemma skeleton_run:
  "run_events (pr_event S R) es q = Some q' \<Longrightarrow>
   run_events (pf_event S (\<lambda>s m. m)) es (skeleton q, m) = Some (skeleton q', m)"
  by (induction es arbitrary: q) (auto simp: skeleton_event [where R = R] split: option.splits)

section \<open>The result does not depend on the schedule\<close>

inductive reduces :: "'sp space_ops \<Rightarrow> ('sp, 'a) reducer_ops \<Rightarrow> 'sp \<Rightarrow> 'a \<Rightarrow> 'a \<Rightarrow> bool" for S R where
  base: "\<not> can_split_of S s \<Longrightarrow> reduces S R s f (r_apply R s f)"
| split: "can_split_of S s \<Longrightarrow> split_of S s = Some (t # ts) \<Longrightarrow> reduces S R t f g \<Longrightarrow>
    list_all2 (\<lambda>u h. reduces S R u (r_split R f) h) ts hs \<Longrightarrow>
    reduces S R s f (join_funcs R g hs)"

lemma reduces_functional: "reduces S R s f r \<Longrightarrow> reduces S R s f r' \<Longrightarrow> r = r'"
proof (induction arbitrary: r' rule: reduces.induct)
  case (base s f)
  from base.prems show ?case by (cases rule: reduces.cases) (use base.hyps in auto)
next
  case (split s t ts f g hs)
  from split.prems obtain g' hs'
    where r': "r' = join_funcs R g' hs'" "reduces S R t f g'"
      "list_all2 (\<lambda>u h. reduces S R u (r_split R f) h) ts hs'"
    by (cases rule: reduces.cases) (use split.hyps(1,2) in auto)
  have "hs = hs'"
    using split.IH(2) r'(3)
  proof (induction ts hs arbitrary: hs' rule: list_all2_induct)
    case (Cons t ts h hs)
    then show ?case by (auto simp: list_all2_Cons1)
  qed simp
  with r' split.IH(1) show ?case by simp
qed

text \<open>What a term still running will come to.\<close>

inductive yields :: "'sp space_ops \<Rightarrow> ('sp, 'a) reducer_ops \<Rightarrow> ('sp, 'a) reduction \<Rightarrow> 'a \<Rightarrow> bool" for S R where
  reduced: "yields S R (Reduced f) f"
| reduce: "reduces S R s f r \<Longrightarrow> yields S R (Reduce s f) r"
| joining: "yields S R own g \<Longrightarrow> list_all2 (yields S R) ps gs \<Longrightarrow>
    list_all2 (\<lambda>(t, f) h. reduces S R t f h) ts ks \<Longrightarrow> r = join_funcs R g (hs @ gs @ ks) \<Longrightarrow>
    yields S R (Joining own ts ps hs) r"

inductive_simps yields_simps [simp]:
  "yields S R (Reduced f) r" "yields S R (Reduce s f) r" "yields S R (Joining own ts ps hs) r"

lemma list_all2_zip_replicate:
  "length ts = n \<Longrightarrow> list_all2 (\<lambda>(t, f) h. P t f h) (zip ts (replicate n f)) hs \<longleftrightarrow>
   list_all2 (\<lambda>t h. P t f h) ts hs"
  by (auto simp: list_all2_conv_all_nth)

lemma step_yields_here:
  assumes "pr_event S R Here q = Some q'" and "yields S R q' r"
  shows "yields S R q r"
proof (cases q)
  case (Reduce s f)
  show ?thesis
  proof (cases "can_split_of S s")
    case True
    then obtain t ts where ts: "split_of S s = Some (t # ts)" "length ts = arity_of S - 1"
      and q': "q' = Joining (Reduce t f) (zip ts (replicate (arity_of S - 1) (r_split R f))) [] []"
      using assms(1) Reduce by (auto simp: Let_def split: option.splits list.splits if_splits)
    then show ?thesis using assms(2) Reduce True
      by (auto simp: list_all2_zip_replicate intro: reduces.split)
  qed (use assms Reduce in \<open>auto intro: reduces.base\<close>)
next
  case (Joining own ts ps hs)
  show ?thesis
  proof (cases ts)
    case (Cons t us)
    obtain s f where t: "t = (s, f)" by fastforce
    with Cons Joining assms obtain g gs h ks where "yields S R own g" "list_all2 (yields S R) ps gs"
      "reduces S R s f h" "list_all2 (\<lambda>(t, f) h. reduces S R t f h) us ks"
      "r = join_funcs R g (hs @ (gs @ [h]) @ ks)"
      by (auto simp: list_all2_append1 list_all2_Cons1)
    with Cons Joining t show ?thesis
      by (auto simp del: yields_simps intro!: yields.joining [where gs = gs and ks = "h # ks"])
  next
    case Nil
    show ?thesis
    proof (cases ps)
      case (Cons p ps')
      with Nil Joining assms(1) obtain f h where own: "own = Reduced f" "p = Reduced h"
        "q' = Joining own [] ps' (hs @ [h])" by (auto split: reduction.splits)
      with assms(2) obtain gs where "list_all2 (yields S R) ps' gs" "r = join_funcs R f (hs @ (h # gs) @ [])"
        by auto
      with Nil Cons Joining own show ?thesis
        by (auto intro: yields.joining [where gs = "h # gs" and ks = "[]"] yields.reduced)
    qed (use Nil Joining assms in \<open>auto split: reduction.splits\<close>)
  qed
qed (use assms in simp)

lemma step_yields: "pr_event S R e q = Some q' \<Longrightarrow> yields S R q' r \<Longrightarrow> yields S R q r"
proof (induction e arbitrary: q q' r)
  case Here
  then show ?case by (rule step_yields_here)
next
  case (Own e)
  then obtain own ps hs own' where q: "q = Joining own [] ps hs" "q' = Joining own' [] ps hs"
      "pr_event S R e own = Some own'"
    by (cases q) (auto split: if_splits)
  with Own.prems(2) obtain g gs where "yields S R own' g" "list_all2 (yields S R) ps gs"
      "r = join_funcs R g (hs @ gs @ [])" by auto
  with q Own.IH [OF q(3)] show ?case
    by (auto intro!: exI [of _ g] exI [of _ gs])
next
  case (Spawned i e)
  then obtain own ts ps hs p where q: "q = Joining own ts ps hs" "q' = Joining own ts (ps[i := p]) hs"
      "i < length ps" "pr_event S R e (ps ! i) = Some p"
    by (cases q) (auto split: if_splits)
  with Spawned.prems(2) obtain g gs ks where *: "yields S R own g" "list_all2 (yields S R) (ps[i := p]) gs"
      "list_all2 (\<lambda>(t, f) h. reduces S R t f h) ts ks" "r = join_funcs R g (hs @ gs @ ks)"
    by (auto)
  have "list_all2 (yields S R) ps gs"
    using *(2) q(3) Spawned.IH [OF q(4)]
    by (auto simp: list_all2_conv_all_nth nth_list_update split: if_splits)
  with * q(1) show ?case
    by (auto simp del: yields_simps intro: yields.joining)
qed

lemma run_yields: "run_events (pr_event S R) es q = Some q' \<Longrightarrow> yields S R q' r \<Longrightarrow> yields S R q r"
  by (induction es arbitrary: q) (auto split: option.splits intro: step_yields)

lemma run_reduces:
  "run_events (pr_event S R) es (Reduce s f) = Some (Reduced r) \<Longrightarrow> reduces S R s f r"
  using run_yields [of S R es "Reduce s f" "Reduced r" r] by simp

section \<open>Reducers that agree with a sequential loop\<close>

text \<open>
  What a reducer must satisfy: applied to a space it makes a sequence of steps over the
  points, and joining one that started from a \<open>split\<close> is the same as having gone on.
\<close>

locale reducer = splittable_space S ok points
  for S :: "'sp space_ops" and ok :: "'sp \<Rightarrow> bool" and points :: "'sp \<Rightarrow> 'p list" +
  fixes R :: "('sp, 'a) reducer_ops" and step :: "'p \<Rightarrow> 'a \<Rightarrow> 'a"
  assumes apply_step: "r_apply R s f = fold step (points s) f"
    and join_split: "r_join R g (fold step xs (r_split R f)) = fold step xs g"
begin

lemma reduces_fold: "reduces S R s f r \<Longrightarrow> ok s \<Longrightarrow> r = fold step (points s) f"
proof (induction rule: reduces.induct)
  case (base s f)
  show ?case by (rule apply_step)
next
  case (split s t ts f g hs)
  obtain v u us where *: "split_of S s = Some (v # u # us)" "\<forall>w\<in>set (v # u # us). ok w \<and> points w \<noteq> []"
      "points s = points v @ concat (map points (u # us))"
    by (rule split_cases [OF split.prems split.hyps(1)])
  with split.hyps(2) have ts: "v = t" "u # us = ts" by simp_all
  with * have oks: "ok t" "\<forall>w\<in>set ts. ok w" by auto
  from split.IH(2) oks(2) have "join_funcs R g hs = fold step (concat (map points ts)) g"
    for g
  proof (induction ts hs arbitrary: g rule: list_all2_induct)
    case (Cons u us h hs)
    then show ?case by (simp add: join_funcs_def join_split)
  qed (simp add: join_funcs_def)
  with split.IH(1) oks(1) *(3) ts show ?case by simp
qed

lemma reduce_sequential:
  assumes run: "run_events (pr_event S R) es (Reduce s f) = Some q" and "ok s"
  shows "length es \<le> 5 * length (points s) + 1"
    and "(\<nexists>r. q = Reduced r) \<Longrightarrow> \<exists>e. pr_event S R e q \<noteq> None"
    and "q = Reduced r \<Longrightarrow> r = fold step (points s) f"
proof -
  have "fold (\<lambda>i m. m) ps m = m" for ps :: "'p list" and m :: nat by (induction ps) simp_all
  then have skip: "(\<lambda>s (m :: nat). m) = (\<lambda>s. fold (\<lambda>i m. m) (points s))"
    by (simp add: fun_eq_iff)
  have "run_events (pf_event S (\<lambda>s m. m)) es (Iterate s, 0 :: nat) = Some (skeleton q, 0)"
    using skeleton_run [OF run, of "0 :: nat"] by (simp only: skeleton.simps)
  note * = pf_run [OF this [unfolded skip]]
  with \<open>ok s\<close> show "length es \<le> 5 * length (points s) + 1" by (auto simp: cost_def)
  have "loop_all ok (skeleton q)" using * \<open>ok s\<close> by simp
  then show "(\<nexists>r. q = Reduced r) \<Longrightarrow> \<exists>e. pr_event S R e q \<noteq> None"
    using pf_progress [of "skeleton q" "\<lambda>s m. m" "0 :: nat"] by (auto simp: skeleton_event [where R = R])
  show "q = Reduced r \<Longrightarrow> r = fold step (points s) f"
    using run reduces_fold [OF run_reduces \<open>ok s\<close>] by simp
qed

end

section \<open>\<open>accumulate\<close>\<close>

text \<open>
  The functor of \<^verbatim>\<open>examples/cxx/reduce.cpp\<close>: all objects share \<open>my_vector\<close>, each has a
  \<open>sum\<close>. Numbers are elements of a monoid where \<open>double\<close> is one only up to rounding.
\<close>

definition accumulate_step :: "'v::monoid_add list \<Rightarrow> u64 \<Rightarrow> 'v \<Rightarrow> 'v" where
  "accumulate_step my_vector i s = s + my_vector ! unat i"

definition accumulate_ops :: "'v::monoid_add list \<Rightarrow> (space_1D, 'v) reducer_ops" where
  "accumulate_ops my_vector =
     \<lparr>r_apply = \<lambda>s. fold (accumulate_step my_vector) (space_1D_points s),
      r_split = \<lambda>s. 0,
      r_join = \<lambda>s other. s + other\<rparr>"

lemma fold_accumulate: "fold (accumulate_step v) xs a = a + (\<Sum>i\<leftarrow>xs. v ! unat i)"
  by (induction xs arbitrary: a) (simp_all add: accumulate_step_def add.assoc)

interpretation acc: reducer "space_1D_ops base" "space_1D_ok base" space_1D_points
    "accumulate_ops v" "accumulate_step v" for base v
  by unfold_locales (simp_all add: accumulate_ops_def fold_accumulate)

section \<open>Properties\<close>

text \<open>
  The result of \<open>parallel_reduce\<close> does not depend on the schedule. For any space and any
  functor, whatever its \<open>split\<close> and \<open>join\<close> do (floating-point addition is not associative), two
  runs that finish have the same result.
\<close>

theorem parallel_reduce_deterministic:
  assumes "run_events (pr_event S R) es (Reduce s f) = Some (Reduced r)"
    and "run_events (pr_event S R) es' (Reduce s f) = Some (Reduced r')"
  shows "r = r'"
  by (rule reduces_functional [OF run_reduces [OF assms(1)] run_reduces [OF assms(2)]])

theorem parallel_reduce_deterministic_witness:
  "run_events (pr_event (space_1D_ops 1) (accumulate_ops [5, 7]))
     [Here, Here, Spawned 0 Here, Own Here, Here, Here] (Reduce (space_1D_make 1 0 2) (1 :: nat)) =
   Some (Reduced 13) \<and> (13 :: nat) = 13"
proof -
  have one: "run_events (pr_event (space_1D_ops 1) (accumulate_ops [5, 7]))
     [Here, Here, Spawned 0 Here, Own Here, Here, Here] (Reduce (space_1D_make 1 0 2) (1 :: nat)) =
     Some (Reduced 13)" by code_simp
  have two: "run_events (pr_event (space_1D_ops 1) (accumulate_ops [5, 7]))
     [Here, Here, Own Here, Spawned 0 Here, Here, Here] (Reduce (space_1D_make 1 0 2) (1 :: nat)) =
     Some (Reduced 13)" by code_simp
  show ?thesis by (intro conjI one parallel_reduce_deterministic [OF one two])
qed



end
