(* ===== verification/While_Loop.thy ===== *)
theory While_Loop
  imports Pfunc_Prelude
begin

text \<open>
  \<^verbatim>\<open>parallel_while.hpp\<close>: one task for every element of a range of input iterators, then a wait
  for each of them in order. A task holds a reference to its element: to the object that
  \<open>*first\<close> denotes, or, if \<open>operator*\<close> returns a value, to a temporary that is gone after the
  statement that bound it. Tasks run in any order, also before all are spawned. A call of
  the functor is one step; functors do not throw.
\<close>

section \<open>The code\<close>

text \<open>What \<open>*first\<close> is: an object at an address, or a value.\<close>

datatype 'v deref = Lvalue nat | Prvalue 'v

text \<open>The member \<open>value\<close> of \<open>while_wrapper\<close> once its constructor has returned; \<open>None\<close> dangles.\<close>

fun bind_ref :: "'v deref \<Rightarrow> nat option" where
  "bind_ref (Lvalue l) = Some l"
| "bind_ref (Prvalue v) = None"

text \<open>
  What is left of the range from \<open>first\<close> to \<open>last\<close>; for each task its reference and whether it has
  run; how many tasks have been waited for.
\<close>

record 'v while_loop =
  range_left :: "'v deref list"
  while_tasks :: "(nat option \<times> bool) list"
  waited_for :: nat
  loop_over :: bool

datatype while_act = WSpawn | WRun nat | WWait | WEnd

text \<open>\<open>while_wrapper::operator()\<close> reads through its reference; \<open>None\<close> is undefined.\<close>

definition wrapper_call :: "(nat \<Rightarrow> 'v option) \<Rightarrow> ('v \<Rightarrow> 's \<Rightarrow> 's) \<Rightarrow> nat option \<Rightarrow> 's \<Rightarrow> 's option" where
  "wrapper_call heap func r m = (case r of
       None \<Rightarrow> None
     | Some l \<Rightarrow> (case heap l of None \<Rightarrow> None | Some v \<Rightarrow> Some (func v m)))"

fun pw_event :: "(nat \<Rightarrow> 'v option) \<Rightarrow> ('v \<Rightarrow> 's \<Rightarrow> 's) \<Rightarrow> while_act \<Rightarrow>
    'v while_loop \<times> 's \<Rightarrow> ('v while_loop \<times> 's) option" where
  "pw_event heap func WSpawn (w, m) =
     (case range_left w of
        [] \<Rightarrow> None
      | d # ds \<Rightarrow> Some (w\<lparr>range_left := ds, while_tasks := while_tasks w @ [(bind_ref d, False)]\<rparr>, m))"
| "pw_event heap func (WRun i) (w, m) =
     (if i < length (while_tasks w) \<and> \<not> snd (while_tasks w ! i)
      then map_option (\<lambda>m'. (w\<lparr>while_tasks := (while_tasks w)[i := (fst (while_tasks w ! i), True)]\<rparr>, m'))
             (wrapper_call heap func (fst (while_tasks w ! i)) m)
      else None)"
| "pw_event heap func WWait (w, m) =
     (if range_left w = [] \<and> waited_for w < length (while_tasks w) \<and> snd (while_tasks w ! waited_for w)
      then Some (w\<lparr>waited_for := waited_for w + 1\<rparr>, m) else None)"
| "pw_event heap func WEnd (w, m) =
     (if range_left w = [] \<and> waited_for w = length (while_tasks w) \<and> \<not> loop_over w
      then Some (w\<lparr>loop_over := True\<rparr>, m) else None)"

definition while_make :: "'v deref list \<Rightarrow> 'v while_loop" where
  "while_make ds = \<lparr>range_left = ds, while_tasks = [], waited_for = 0, loop_over = False\<rparr>"

section \<open>Every element is handled once\<close>

definition done_refs :: "'v while_loop \<Rightarrow> nat option list" where
  "done_refs w = map fst (filter snd (while_tasks w))"

text \<open>
  All elements are accounted for, what has been waited for has run, and the state comes from
  calls on the elements whose tasks have run, in some order.
\<close>

definition while_inv :: "(nat \<Rightarrow> 'v option) \<Rightarrow> ('v \<Rightarrow> 's \<Rightarrow> 's) \<Rightarrow> 'v deref list \<Rightarrow> 's \<Rightarrow>
    'v while_loop \<times> 's \<Rightarrow> bool" where
  "while_inv heap func ds m0 = (\<lambda>(w, m).
     map bind_ref ds = map fst (while_tasks w) @ map bind_ref (range_left w) \<and>
     waited_for w \<le> length (while_tasks w) \<and> (\<forall>i<waited_for w. snd (while_tasks w ! i)) \<and>
     (loop_over w \<longrightarrow> range_left w = [] \<and> waited_for w = length (while_tasks w)) \<and>
     (\<exists>ls. mset (map Some ls) = mset (done_refs w) \<and> (\<forall>l\<in>set ls. heap l \<noteq> None) \<and>
           m = fold (\<lambda>l. func (the (heap l))) ls m0))"

lemma filter_update_mset:
  assumes "i < length xs" and "\<not> snd (xs ! i)"
  shows "mset (filter snd (xs[i := (a, True)])) = add_mset (a, True) (mset (filter snd xs))"
  using assms
proof (induction xs arbitrary: i)
  case (Cons x xs)
  then show ?case by (cases i) auto
qed simp

lemma while_inv_step:
  assumes "pw_event heap func e (w, m) = Some (w', m')" and "while_inv heap func ds m0 (w, m)"
  shows "while_inv heap func ds m0 (w', m')"
proof (cases e)
  case WSpawn
  with assms show ?thesis
    by (auto simp: while_inv_def done_refs_def nth_append split: list.splits)
next
  case (WRun i)
  then obtain l v where i: "i < length (while_tasks w)" "\<not> snd (while_tasks w ! i)"
    and l: "fst (while_tasks w ! i) = Some l" "heap l = Some v" "m' = func v m"
    and w': "w' = w\<lparr>while_tasks := (while_tasks w)[i := (Some l, True)]\<rparr>"
    using assms(1) by (auto simp: wrapper_call_def split: if_splits option.splits)
  from assms(2) obtain ls where ls: "mset (map Some ls) = mset (done_refs w)"
      "\<forall>l\<in>set ls. heap l \<noteq> None" "m = fold (\<lambda>l. func (the (heap l))) ls m0"
    by (auto simp: while_inv_def)
  have "mset (done_refs w') = add_mset (Some l) (mset (done_refs w))"
    using filter_update_mset [OF i, of "Some l"] by (simp add: done_refs_def w')
  then have "mset (map Some (ls @ [l])) = mset (done_refs w')"
    "m' = fold (\<lambda>l. func (the (heap l))) (ls @ [l]) m0"
    using ls l by simp_all
  moreover have "map fst ((while_tasks w)[i := (Some l, True)]) = map fst (while_tasks w)"
    using i(1) l(1) by (simp add: map_update list_update_same_conv)
  moreover have "\<forall>k<waited_for w. snd ((while_tasks w)[i := (Some l, True)] ! k)"
    using assms(2) i by (auto simp: while_inv_def nth_list_update)
  ultimately show ?thesis
    using assms(2) ls(2) l(2) w' unfolding while_inv_def
    by (auto simp del: mset_map intro!: exI [of _ "ls @ [l]"])
next
  case WWait
  with assms show ?thesis by (auto simp: while_inv_def done_refs_def less_Suc_eq split: if_splits)
next
  case WEnd
  with assms show ?thesis by (auto simp: while_inv_def done_refs_def split: if_splits)
qed

lemma while_inv_run:
  "run_events (pw_event heap func) es wm = Some wm' \<Longrightarrow> while_inv heap func ds m0 wm \<Longrightarrow>
   while_inv heap func ds m0 wm'"
proof (induction es arbitrary: wm)
  case (Cons e es)
  then obtain wm1 where "pw_event heap func e wm = Some wm1" "run_events (pw_event heap func) es wm1 = Some wm'"
    by (auto split: option.splits)
  with Cons while_inv_step [of heap func e "fst wm" "snd wm" "fst wm1" "snd wm1"] show ?case
    by (metis prod.collapse)
qed simp

lemma while_inv_make: "while_inv heap func ds m (while_make ds, m)"
  by (auto simp: while_inv_def while_make_def done_refs_def intro: exI [of _ "[]"])

text \<open>Every step brings the end nearer.\<close>

definition while_cost :: "'v while_loop \<Rightarrow> nat" where
  "while_cost w = 3 * length (range_left w) + length (filter (Not \<circ> snd) (while_tasks w)) +
     (length (while_tasks w) - waited_for w) + (if loop_over w then 0 else 1)"

lemma filter_update_length:
  assumes "i < length xs" and "\<not> snd (xs ! i)"
  shows "Suc (length (filter (Not \<circ> snd) (xs[i := (a, True)]))) = length (filter (Not \<circ> snd) xs)"
  using assms
proof (induction xs arbitrary: i)
  case (Cons x xs)
  then show ?case by (cases i) auto
qed simp

lemma while_cost_step:
  assumes "pw_event heap func e (w, m) = Some (w', m')" and "while_inv heap func ds m0 (w, m)"
  shows "Suc (while_cost w') = while_cost w"
proof (cases e)
  case (WRun i)
  with assms(1) show ?thesis
    using filter_update_length [of i "while_tasks w"]
    by (auto simp: while_cost_def split: if_splits)
qed (use assms in \<open>auto simp: while_cost_def while_inv_def split: list.splits if_splits\<close>)

lemma while_cost_run:
  "run_events (pw_event heap func) es wm = Some wm' \<Longrightarrow> while_inv heap func ds m0 wm \<Longrightarrow>
   length es + while_cost (fst wm') = while_cost (fst wm)"
proof (induction es arbitrary: wm)
  case (Cons e es)
  then obtain wm1 where e: "pw_event heap func e wm = Some wm1"
    "run_events (pw_event heap func) es wm1 = Some wm'"
    by (auto split: option.splits)
  have "while_inv heap func ds m0 wm1" and "Suc (while_cost (fst wm1)) = while_cost (fst wm)"
    using while_inv_step [of heap func e "fst wm" "snd wm" "fst wm1" "snd wm1"]
      while_cost_step [of heap func e "fst wm" "snd wm" "fst wm1" "snd wm1"] e(1) Cons.prems(2)
    by simp_all
  with Cons.IH [OF e(2)] show ?case by simp
qed simp

text \<open>Until it is over the loop can move, if every reference is to an object.\<close>

lemma while_progress:
  assumes "while_inv heap func ds m0 (w, m)" and "\<forall>d\<in>set ds. \<exists>l. d = Lvalue l \<and> heap l \<noteq> None"
    and "\<not> loop_over w"
  shows "\<exists>e. pw_event heap func e (w, m) \<noteq> None"
proof (cases "range_left w")
  case (Cons d ds')
  then show ?thesis by (intro exI [of _ WSpawn]) simp
next
  case left: Nil
  show ?thesis
  proof (cases "waited_for w = length (while_tasks w)")
    case True
    with left assms(3) show ?thesis by (intro exI [of _ WEnd]) simp
  next
    case False
    let ?k = "waited_for w"
    have k: "?k < length (while_tasks w)" using assms(1) False by (auto simp: while_inv_def)
    show ?thesis
    proof (cases "snd (while_tasks w ! ?k)")
      case True
      with k left show ?thesis by (intro exI [of _ WWait]) simp
    next
      case False
      have "fst (while_tasks w ! ?k) \<in> set (map fst (while_tasks w))" using k by simp
      also have "map fst (while_tasks w) = map bind_ref ds" using assms(1) left by (simp add: while_inv_def)
      finally obtain l where "fst (while_tasks w ! ?k) = Some l" "heap l \<noteq> None"
        using assms(2) by auto
      with k False show ?thesis by (intro exI [of _ "WRun ?k"]) (auto simp: wrapper_call_def)
    qed
  qed
qed

lemma while_over:
  assumes "while_inv heap func ds m0 (w, m)" and "loop_over w"
  obtains ls where "mset (map Some ls) = mset (map bind_ref ds)" "\<forall>l\<in>set ls. heap l \<noteq> None"
    "m = fold (\<lambda>l. func (the (heap l))) ls m0"
proof -
  have "\<forall>t\<in>set (while_tasks w). snd t"
    using assms by (auto simp: while_inv_def all_set_conv_all_nth)
  then have "done_refs w = map bind_ref ds"
    using assms by (simp add: while_inv_def done_refs_def)
  with assms(1) show ?thesis by (auto simp: while_inv_def simp del: mset_map intro: that)
qed

section \<open>Properties\<close>

text \<open>
  C13: \<open>parallel_while\<close> handles every element once. If its iterators refer to objects and the
  calls commute, every run has at most \<open>3 n + 1\<close> steps for \<open>n\<close> elements, is never stuck before
  the loop is over, and ends in the state in which a sequential loop over the elements ends.
\<close>

theorem parallel_while_each_once:
  fixes heap :: "nat \<Rightarrow> 'v option"
  assumes "run_events (pw_event heap func) es (while_make (map Lvalue ls), m) = Some (w, m')"
    and "\<forall>l\<in>set ls. heap l \<noteq> None"
    and "\<And>x y n. func x (func y n) = func y (func x n)"
  shows "length es \<le> 3 * length ls + 1 \<and>
    (\<not> loop_over w \<longrightarrow> (\<exists>e. pw_event heap func e (w, m') \<noteq> None)) \<and>
    (loop_over w \<longrightarrow> m' = fold func (map (\<lambda>l. the (heap l)) ls) m)"
proof (intro conjI impI)
  note inv = while_inv_run [OF assms(1) while_inv_make]
  show "length es \<le> 3 * length ls + 1"
    using while_cost_run [OF assms(1) while_inv_make] by (simp add: while_cost_def while_make_def)
  show "\<exists>e. pw_event heap func e (w, m') \<noteq> None" if "\<not> loop_over w"
    by (rule while_progress [OF inv _ that]) (use assms(2) in auto)
  assume "loop_over w"
  obtain ks where ks: "mset (map Some ks) = mset (map bind_ref (map Lvalue ls :: 'v deref list))"
      "\<forall>l\<in>set ks. heap l \<noteq> None" "m' = fold (\<lambda>l. func (the (heap l))) ks m"
    by (rule while_over [OF inv \<open>loop_over w\<close>])
  have "map bind_ref (map Lvalue ls :: 'v deref list) = map Some ls" by simp
  then have "image_mset the (mset (map Some ks)) = image_mset the (mset (map Some ls))"
    using ks(1) by (simp only:)
  then have "mset ls = mset ks" by (simp add: image_mset.compositionality comp_def)
  then have "fold (\<lambda>l. func (the (heap l))) ls = fold (\<lambda>l. func (the (heap l))) ks"
    by (intro fold_multiset_equiv) (auto simp: fun_eq_iff assms(3))
  with ks(3) show "m' = fold func (map (\<lambda>l. the (heap l)) ls) m"
    by (simp add: fold_map comp_def)
qed

theorem parallel_while_each_once_witness:
  "case run_events (pw_event [0 \<mapsto> 3, 1 \<mapsto> 4] (+)) [WSpawn, WSpawn, WRun 1, WRun 0, WWait, WWait, WEnd]
          (while_make (map Lvalue [0, 1]), 10 :: nat) of
     Some (w, m) \<Rightarrow> loop_over w \<and> m = 17 | None \<Rightarrow> False"
proof -
  have run: "run_events (pw_event [0 \<mapsto> 3, 1 \<mapsto> 4] (+)) [WSpawn, WSpawn, WRun 1, WRun 0, WWait, WWait, WEnd]
      (while_make (map Lvalue [0, 1]), 10 :: nat) =
    Some (\<lparr>range_left = [], while_tasks = [(Some 0, True), (Some 1, True)], waited_for = 2,
           loop_over = True\<rparr>, 17)" by code_simp
  have "(17::nat) = fold (+) (map (\<lambda>l. the ([0 \<mapsto> 3, 1 \<mapsto> 4] l)) [0, 1 :: nat]) 10"
    using parallel_while_each_once [OF run, THEN conjunct2, THEN conjunct2] by simp
  then show ?thesis unfolding run by simp
qed

text \<open>
  An iterator that returns values cannot be used. If \<open>operator*\<close> of one element returns a
  value, as that of \<open>dag_iterator\<close> in \<^verbatim>\<open>examples/cxx/while.cpp\<close> does, its task can only read
  through a dangling reference, and no run with defined behaviour finishes the loop.
\<close>

theorem parallel_while_dangling:
  assumes "Prvalue v \<in> set ds" and "run_events (pw_event heap func) es (while_make ds, m) = Some (w, m')"
  shows "\<not> loop_over w"
proof
  assume "loop_over w"
  then obtain ks where "mset (map Some ks) = mset (map bind_ref ds)"
    using while_over [OF while_inv_run [OF assms(2) while_inv_make]] by metis
  then have "set (map Some ks) = set (map bind_ref ds)" by (rule mset_eq_setD)
  with assms(1) show False by force
qed

theorem parallel_while_dangling_witness:
  "case run_events (pw_event Map.empty (+)) [WSpawn] (while_make [Prvalue 3], 10 :: nat) of
     Some (w, m) \<Rightarrow> \<not> loop_over w \<and> pw_event Map.empty (+) (WRun 0) (w, m) = None | None \<Rightarrow> False"
proof -
  have run: "run_events (pw_event Map.empty (+)) [WSpawn] (while_make [Prvalue 3], 10 :: nat) =
    Some (\<lparr>range_left = [], while_tasks = [(None, False)], waited_for = 0, loop_over = False\<rparr>, 10)"
    by code_simp
  from parallel_while_dangling [OF _ run] show ?thesis
    unfolding run by (simp add: wrapper_call_def)
qed

end
