(* ===== verification/Api.thy ===== *)
theory Api
  imports Taskmgr
begin

text \<open>
  The C++ interface, \<^verbatim>\<open>pfunc.hpp\<close>. A call works on the task manager, whose record also
  holds the memory of the users' tasks and groups; it gives what it returns or throws and
  the new task manager, \<open>None\<close> if it does not return or is undefined. \<open>self\<close> is the id of the
  calling thread. The functions are templates over the task manager and the task, so
  those that call \<open>wait\<close> and \<open>test\<close> of the task take them as arguments.
\<close>

type_synonym ('a, 'w) call = "'w \<Rightarrow> ('a result \<times> 'w) option"

text \<open>The \<open>try\<close> block around the body of most functions.\<close>

definition api_try :: "('a, 'w) call \<Rightarrow> ('a, 'w) call" where
  "api_try body w = map_option (\<lambda>(r, w'). (pfunc_cxx_catch_and_rethrow r, w')) (body w)"

lemma api_try_id [simp]: "api_try body = body"
proof
  show "api_try body w = body w" for w by (cases "body w") (auto simp: api_try_def)
qed

text \<open>A body that reads something of the task manager, and one that changes it.\<close>

definition reading :: "('w \<Rightarrow> 'a option) \<Rightarrow> ('a, 'w) call" where
  "reading f w = map_option (\<lambda>v. (Inr v, w)) (f w)"

definition changing :: "('w \<Rightarrow> 'w option) \<Rightarrow> (unit, 'w) call" where
  "changing f w = map_option (\<lambda>w'. (Inr (), w')) (f w)"

section \<open>Attributes and groups\<close>

definition attr_priority_set :: "'p attribute \<Rightarrow> 'p \<Rightarrow> 'p attribute" where
  "attr_priority_set a pri = set_priority pri a"
definition attr_priority_get :: "'p attribute \<Rightarrow> 'p" where
  "attr_priority_get a = get_priority a"
definition attr_qnum_set :: "'p attribute \<Rightarrow> u32 \<Rightarrow> 'p attribute" where
  "attr_qnum_set a qnum = set_queue_number qnum a"
definition attr_qnum_get :: "'p attribute \<Rightarrow> u32" where
  "attr_qnum_get a = get_queue_number a"
definition attr_num_waiters_set :: "'p attribute \<Rightarrow> u32 \<Rightarrow> 'p attribute" where
  "attr_num_waiters_set a nwait = set_num_waiters nwait a"
definition attr_num_waiters_get :: "'p attribute \<Rightarrow> u32" where
  "attr_num_waiters_get a = get_num_waiters a"
definition attr_nested_set :: "'p attribute \<Rightarrow> bool \<Rightarrow> 'p attribute" where
  "attr_nested_set a nested = set_nested nested a"
definition attr_nested_get :: "'p attribute \<Rightarrow> bool" where
  "attr_nested_get a = get_nested a"
definition attr_level_set :: "'p attribute \<Rightarrow> u32 \<Rightarrow> 'p attribute" where
  "attr_level_set a l = set_level l a"
definition attr_level_get :: "'p attribute \<Rightarrow> u32" where
  "attr_level_get a = get_level a"
definition attr_grouped_set :: "'p attribute \<Rightarrow> bool \<Rightarrow> 'p attribute" where
  "attr_grouped_set a b = set_grouped b a"
definition attr_grouped_get :: "'p attribute \<Rightarrow> bool" where
  "attr_grouped_get a = get_grouped a"

definition group_id_set :: "group \<Rightarrow> u32 \<Rightarrow> group" where "group_id_set g i = group_set_id i g"
definition group_id_get :: "group \<Rightarrow> u32" where "group_id_get g = group_get_id g"
definition group_size_set :: "group \<Rightarrow> u32 \<Rightarrow> group" where
  "group_size_set g n = group_set_size n g"
definition group_size_get :: "group \<Rightarrow> u32" where "group_size_get g = group_get_size g"
definition group_barrier_set :: "group \<Rightarrow> u32 \<Rightarrow> group" where
  "group_barrier_set g barr = group_set_barrier barr g"
definition group_barrier_get :: "group \<Rightarrow> u32" where
  "group_barrier_get g = group_get_barrier g"

section \<open>The current thread and task\<close>

definition api_thread_id :: "u32 \<Rightarrow> (u32, 'p taskmgr) call" where
  "api_thread_id self = api_try (reading (current_thread_id self))"
definition api_group_rank :: "u32 \<Rightarrow> (u32, 'p taskmgr) call" where
  "api_group_rank self = api_try (reading (current_task_group_rank self))"
definition api_group_size :: "u32 \<Rightarrow> (u32, 'p taskmgr) call" where
  "api_group_size self = api_try (reading (current_task_group_size self))"
definition api_barrier :: "u32 \<Rightarrow> (barrier_call, 'p taskmgr) call" where
  "api_barrier self = api_try (reading (current_task_group_barrier self))"

section \<open>Waiting and testing\<close>

text \<open>\<open>task_wait\<close> and \<open>task_test\<close> on a task in memory.\<close>

definition mem_wait ::
  "string \<Rightarrow> (event \<Rightarrow> event result option) \<Rightarrow> task_ptr \<Rightarrow> (unit, 'p taskmgr) call" where
  "mem_wait loc progress p m =
     map_option (\<lambda>(r, t, gs). (r, m\<lparr>tasks := (tasks m)(p := t), groups_of := gs\<rparr>))
       (task_wait loc progress (tasks m p, groups_of m))"

definition mem_test :: "task_ptr \<Rightarrow> (bool, 'p taskmgr) call" where
  "mem_test p m =
     (case task_test (tasks m p, groups_of m) of
        (r, t, gs) \<Rightarrow> Some (r, m\<lparr>tasks := (tasks m)(p := t), groups_of := gs\<rparr>))"

definition api_wait :: "('t \<Rightarrow> (unit, 'w) call) \<Rightarrow> 't \<Rightarrow> (unit, 'w) call" where
  "api_wait wait task = api_try (wait task)"

definition api_test :: "('t \<Rightarrow> (bool, 'w) call) \<Rightarrow> 't \<Rightarrow> (bool, 'w) call" where
  "api_test test task = api_try (test task)"

text \<open>The loop of \<open>wait_all\<close>.\<close>

fun wait_loop :: "('t \<Rightarrow> (unit, 'w) call) \<Rightarrow> 't list \<Rightarrow> (unit, 'w) call" where
  "wait_loop wait [] w = Some (Inr (), w)"
| "wait_loop wait (t # ts) w =
     (case api_wait wait t w of
        None \<Rightarrow> None
      | Some (Inl x, w1) \<Rightarrow> Some (Inl x, w1)
      | Some (Inr _, w1) \<Rightarrow> wait_loop wait ts w1)"

definition api_wait_all :: "('t \<Rightarrow> (unit, 'w) call) \<Rightarrow> 't list \<Rightarrow> (unit, 'w) call" where
  "api_wait_all wait ts = api_try (wait_loop wait ts)"

text \<open>
  The loop of \<open>test_all\<close>, with \<open>return_value\<close> and \<open>completion_arr\<close>. The index \<open>i\<close> is never
  increased; an access outside the array is undefined.
\<close>

fun test_loop :: "('t \<Rightarrow> (bool, 'w) call) \<Rightarrow> nat \<Rightarrow> 't list \<Rightarrow> bool \<Rightarrow> int list \<Rightarrow>
    'w \<Rightarrow> (bool result \<times> int list \<times> 'w) option" where
  "test_loop test i [] ret arr w = Some (Inr ret, arr, w)"
| "test_loop test i (t # ts) ret arr w =
     (case api_test test t w of
        None \<Rightarrow> None
      | Some (Inl x, w1) \<Rightarrow> Some (Inl x, arr, w1)
      | Some (Inr b, w1) \<Rightarrow>
          if i < length arr then test_loop test i ts b (arr[i := of_bool b]) w1 else None)"

definition api_test_all :: "('t \<Rightarrow> (bool, 'w) call) \<Rightarrow> 't list \<Rightarrow> int list \<Rightarrow>
    'w \<Rightarrow> (bool result \<times> int list \<times> 'w) option" where
  "api_test_all test ts arr w =
     map_option (\<lambda>(r, arr', w'). (pfunc_cxx_catch_and_rethrow r, arr', w'))
       (test_loop test 0 ts False arr w)"

text \<open>
  \<open>wait_any\<close> calls \<open>pfunc_test_all\<close>, which is declared nowhere, so that it is an argument here;
  \<open>pause\<close> is what other threads do during \<open>yield\<close>. The counter of the loop is never read.
\<close>

partial_function (option) wait_any_loop ::
  "(int list \<Rightarrow> 'w \<Rightarrow> (bool result \<times> int list \<times> 'w) option) \<Rightarrow> ('w \<Rightarrow> 'w) \<Rightarrow> int list \<Rightarrow> 'w \<Rightarrow>
   (unit result \<times> int list \<times> 'w) option" where
  "wait_any_loop pfunc_test_all pause arr w =
     (case pfunc_test_all arr w of
        None \<Rightarrow> None
      | Some (Inl x, arr1, w1) \<Rightarrow> Some (Inl x, arr1, w1)
      | Some (Inr b, arr1, w1) \<Rightarrow>
          if b then Some (Inr (), arr1, w1) else wait_any_loop pfunc_test_all pause arr1 (pause w1))"

definition api_wait_any :: "('t list \<Rightarrow> int list \<Rightarrow> 'w \<Rightarrow> (bool result \<times> int list \<times> 'w) option) \<Rightarrow> ('w \<Rightarrow> 'w) \<Rightarrow>
    't list \<Rightarrow> int list \<Rightarrow> 'w \<Rightarrow> (unit result \<times> int list \<times> 'w) option" where
  "api_wait_any pfunc_test_all pause ts arr w =
     map_option (\<lambda>(r, arr', w'). (pfunc_cxx_catch_and_rethrow r, arr', w'))
       (wait_any_loop (pfunc_test_all ts) pause arr w)"

section \<open>Spawning and the task manager\<close>

definition api_spawn_full :: "policy \<Rightarrow> u32 \<Rightarrow> task_ptr \<Rightarrow> 'p attribute \<Rightarrow> group_ptr \<Rightarrow> func_ptr \<Rightarrow>
    (unit, 'p taskmgr) call" where
  "api_spawn_full pol self task a g f = api_try (changing (spawn_task_full pol self task a g f))"
definition api_spawn_attr :: "policy \<Rightarrow> u32 \<Rightarrow> task_ptr \<Rightarrow> 'p attribute \<Rightarrow> func_ptr \<Rightarrow>
    (unit, 'p taskmgr) call" where
  "api_spawn_attr pol self task a f = api_try (changing (spawn_task_attr pol self task a f))"
definition api_spawn :: "policy \<Rightarrow> u32 \<Rightarrow> task_ptr \<Rightarrow> func_ptr \<Rightarrow> (unit, 'p taskmgr) call" where
  "api_spawn pol self task f = api_try (changing (spawn_task pol self task f))"

definition taskmgr_max_attempts_set :: "u32 \<Rightarrow> (unit, 'p taskmgr) call" where
  "taskmgr_max_attempts_set n = api_try (changing (\<lambda>m. Some (set_max_attempts n m)))"
definition taskmgr_max_attempts_get :: "(u32, 'p taskmgr) call" where
  "taskmgr_max_attempts_get = api_try (reading (\<lambda>m. Some (get_max_attempts m)))"
definition api_num_queues :: "(u32, 'p taskmgr) call" where
  "api_num_queues = api_try (reading (\<lambda>m. Some (mgr_num_queues m)))"
definition api_num_threads :: "(u32, 'p taskmgr) call" where
  "api_num_threads = api_try (reading (\<lambda>m. Some (mgr_num_threads m)))"

text \<open>
  The three \<open>spawn_task\<close> that override those of \<open>taskmgr_virtual_base\<close>: their arguments come as
  \<open>void*\<close> and are cast back.
\<close>

definition virtual_spawn :: "policy \<Rightarrow> u32 \<Rightarrow> task_ptr \<Rightarrow> func_ptr \<Rightarrow> 'p taskmgr \<Rightarrow> 'p taskmgr option" where
  "virtual_spawn pol self task f m =
     spawn_task_full pol self task (default_attribute m) (default_group m) f m"
definition virtual_spawn_attr :: "policy \<Rightarrow> u32 \<Rightarrow> task_ptr \<Rightarrow> 'p attribute \<Rightarrow> func_ptr \<Rightarrow>
    'p taskmgr \<Rightarrow> 'p taskmgr option" where
  "virtual_spawn_attr pol self task a f m = spawn_task_full pol self task a (default_group m) f m"
definition virtual_spawn_full :: "policy \<Rightarrow> u32 \<Rightarrow> task_ptr \<Rightarrow> 'p attribute \<Rightarrow> group_ptr \<Rightarrow> func_ptr \<Rightarrow>
    'p taskmgr \<Rightarrow> 'p taskmgr option" where
  "virtual_spawn_full pol self task a g f m = spawn_task_full pol self task a g f m"

section \<open>The namespace \<open>global\<close>\<close>

text \<open>
  A program with its task managers at addresses and the variable \<open>global_tmanager\<close>. The
  functions of the namespace call the ones above on \<open>*global_tmanager\<close>; through a \<open>NULL\<close> or
  dangling pointer this is undefined.
\<close>

record 'm program =
  managers :: "nat \<Rightarrow> 'm option"
  global_tmanager :: "nat option"

definition global_init :: "nat \<Rightarrow> 'm program \<Rightarrow> 'm program" where
  "global_init tmanager pr = pr\<lparr>global_tmanager := Some tmanager\<rparr>"

definition global_clear :: "'m program \<Rightarrow> 'm program" where
  "global_clear pr = pr\<lparr>global_tmanager := None\<rparr>"

definition on_manager :: "nat \<Rightarrow> ('a, 'm) call \<Rightarrow> ('a, 'm program) call" where
  "on_manager h f pr =
     (case managers pr h of
        None \<Rightarrow> None
      | Some m \<Rightarrow> map_option (\<lambda>(r, m'). (r, pr\<lparr>managers := (managers pr)(h \<mapsto> m')\<rparr>)) (f m))"

definition on_global :: "('a, 'm) call \<Rightarrow> ('a, 'm program) call" where
  "on_global f = api_try (\<lambda>pr. case global_tmanager pr of None \<Rightarrow> None | Some h \<Rightarrow> on_manager h f pr)"

definition global_thread_id :: "u32 \<Rightarrow> (u32, 'p taskmgr program) call" where
  "global_thread_id self = on_global (api_thread_id self)"
definition global_group_rank :: "u32 \<Rightarrow> (u32, 'p taskmgr program) call" where
  "global_group_rank self = on_global (api_group_rank self)"
definition global_group_size :: "u32 \<Rightarrow> (u32, 'p taskmgr program) call" where
  "global_group_size self = on_global (api_group_size self)"
definition global_wait :: "('t \<Rightarrow> (unit, 'm) call) \<Rightarrow> 't \<Rightarrow> (unit, 'm program) call" where
  "global_wait wait task = on_global (api_wait wait task)"
definition global_wait_all :: "('t \<Rightarrow> (unit, 'm) call) \<Rightarrow> 't list \<Rightarrow> (unit, 'm program) call" where
  "global_wait_all wait ts = on_global (api_wait_all wait ts)"
definition global_test :: "('t \<Rightarrow> (bool, 'm) call) \<Rightarrow> 't \<Rightarrow> (bool, 'm program) call" where
  "global_test test task = on_global (api_test test task)"
definition on_global_arr :: "('m \<Rightarrow> ('a result \<times> int list \<times> 'm) option) \<Rightarrow>
    'm program \<Rightarrow> ('a result \<times> int list \<times> 'm program) option" where
  "on_global_arr f pr =
     (case global_tmanager pr of
        None \<Rightarrow> None
      | Some h \<Rightarrow>
          (case managers pr h of
             None \<Rightarrow> None
           | Some m \<Rightarrow>
               map_option (\<lambda>(r, arr', m'). (pfunc_cxx_catch_and_rethrow r, arr',
                   pr\<lparr>managers := (managers pr)(h \<mapsto> m')\<rparr>)) (f m)))"

definition global_test_all :: "('t \<Rightarrow> (bool, 'm) call) \<Rightarrow> 't list \<Rightarrow> int list \<Rightarrow>
    'm program \<Rightarrow> (bool result \<times> int list \<times> 'm program) option" where
  "global_test_all test ts arr = on_global_arr (api_test_all test ts arr)"
definition global_wait_any :: "('t list \<Rightarrow> int list \<Rightarrow> 'm \<Rightarrow> (bool result \<times> int list \<times> 'm) option) \<Rightarrow>
    ('m \<Rightarrow> 'm) \<Rightarrow> 't list \<Rightarrow> int list \<Rightarrow> 'm program \<Rightarrow> (unit result \<times> int list \<times> 'm program) option" where
  "global_wait_any pfunc_test_all pause ts arr = on_global_arr (api_wait_any pfunc_test_all pause ts arr)"
definition global_barrier :: "u32 \<Rightarrow> (barrier_call, 'p taskmgr program) call" where
  "global_barrier self = on_global (api_barrier self)"
definition global_spawn :: "policy \<Rightarrow> u32 \<Rightarrow> task_ptr \<Rightarrow> func_ptr \<Rightarrow> (unit, 'p taskmgr program) call" where
  "global_spawn pol self task f = on_global (changing (virtual_spawn pol self task f))"
definition global_spawn_attr :: "policy \<Rightarrow> u32 \<Rightarrow> task_ptr \<Rightarrow> 'p attribute \<Rightarrow> func_ptr \<Rightarrow>
    (unit, 'p taskmgr program) call" where
  "global_spawn_attr pol self task a f = on_global (changing (virtual_spawn_attr pol self task a f))"
definition global_spawn_full :: "policy \<Rightarrow> u32 \<Rightarrow> task_ptr \<Rightarrow> 'p attribute \<Rightarrow> group_ptr \<Rightarrow> func_ptr \<Rightarrow>
    (unit, 'p taskmgr program) call" where
  "global_spawn_full pol self task a g f =
     on_global (changing (virtual_spawn_full pol self task a g f))"
definition global_max_attempts_set :: "u32 \<Rightarrow> (unit, 'p taskmgr program) call" where
  "global_max_attempts_set n = on_global (changing (\<lambda>m. Some (set_max_attempts n m)))"
definition global_max_attempts_get :: "(u32, 'p taskmgr program) call" where
  "global_max_attempts_get = on_global (reading (\<lambda>m. Some (get_max_attempts m)))"
definition global_num_queues :: "(u32, 'p taskmgr program) call" where
  "global_num_queues = on_global (reading (\<lambda>m. Some (mgr_num_queues m)))"
definition global_num_threads :: "(u32, 'p taskmgr program) call" where
  "global_num_threads = on_global (reading (\<lambda>m. Some (mgr_num_threads m)))"

section \<open>What waiting promises\<close>

text \<open>
  The contract between \<open>wait\<close> of a task and its client \<open>wait_all\<close>: a wait that returns
  leaves the task complete, and no wait makes a complete task incomplete.
\<close>

locale completion =
  fixes wait :: "'t \<Rightarrow> (unit, 'w) call" and complete :: "'t \<Rightarrow> 'w \<Rightarrow> bool"
  assumes wait_completes: "wait t w = Some (Inr u, w') \<Longrightarrow> complete t w'"
    and wait_keeps: "wait t w = Some (r, w') \<Longrightarrow> complete s w \<Longrightarrow> complete s w'"
begin

lemma wait_loop_keeps: "wait_loop wait ts w = Some (r, w') \<Longrightarrow> complete s w \<Longrightarrow> complete s w'"
  by (induction ts arbitrary: w)
     (auto simp: api_wait_def split: option.splits sum.splits dest: wait_keeps)

lemma wait_loop_completes:
  "wait_loop wait ts w = Some (Inr u, w') \<Longrightarrow> t \<in> set ts \<Longrightarrow> complete t w'"
proof (induction ts arbitrary: w)
  case (Cons s ts)
  then obtain w1 where w1: "wait s w = Some (Inr (), w1)" "wait_loop wait ts w1 = Some (Inr u, w')"
    by (auto simp: api_wait_def split: option.splits sum.splits)
  with Cons wait_loop_keeps [OF w1(2)] wait_completes [OF w1(1)] show ?case by auto
qed simp

end

lemma wait_loop_throws:
  assumes "wait_loop wait ts w = Some (Inl x, w')"
  shows "\<exists>ss t us w1. ts = ss @ t # us \<and> wait_loop wait ss w = Some (Inr (), w1) \<and>
           wait t w1 = Some (Inl x, w')"
  using assms
proof (induction ts arbitrary: w)
  case (Cons t ts)
  show ?case
  proof (cases "wait t w")
    case (Some rw)
    then obtain r w1 where rw: "wait t w = Some (r, w1)" by (cases rw) auto
    show ?thesis
    proof (cases r)
      case (Inl y)
      with Cons.prems rw show ?thesis
        by (intro exI [of _ "[]"]) (auto simp: api_wait_def)
    next
      case (Inr u)
      with Cons.prems rw have "wait_loop wait ts w1 = Some (Inl x, w')" by (simp add: api_wait_def)
      from Cons.IH [OF this] obtain ss s us w2 where "ts = ss @ s # us"
        "wait_loop wait ss w1 = Some (Inr (), w2)" "wait s w2 = Some (Inl x, w')" by (elim exE conjE)
      with rw Inr show ?thesis
        by (intro exI [of _ "t # ss"] exI [of _ s] exI [of _ us] exI [of _ w2])
           (simp add: api_wait_def)
    qed
  qed (use Cons.prems in \<open>simp add: api_wait_def\<close>)
qed simp

text \<open>A task is complete when its event is not the incomplete one.\<close>

definition mem_complete :: "task_ptr \<Rightarrow> 'p taskmgr \<Rightarrow> bool" where
  "mem_complete p m \<longleftrightarrow> event_state (task_event (tasks m p)) \<noteq> PFUNC_ACTIVE_INCOMPLETE"

lemma event_wait_complete: "event_wait e = Some e' \<Longrightarrow> event_state e' \<noteq> PFUNC_ACTIVE_INCOMPLETE"
  by (auto simp: event_wait_def wait_after_wake_def wait_count_def event_consts
      split: if_splits prod.splits)

lemma main_progress_complete:
  "main_progress e = Some r \<Longrightarrow> \<exists>e'. r = Inr e' \<and> event_state e' \<noteq> PFUNC_ACTIVE_INCOMPLETE"
  using event_test_not_incomplete [of e] event_test_result [of e]
  by (auto simp: main_progress_def split: prod.splits if_splits)

lemma task_wait_event:
  assumes "task_wait loc main_progress (t, gs) = Some (r, t', gs')"
  shows "(\<exists>x. r = Inl x) \<and> task_event t' = task_event t \<or>
         r = Inr () \<and> event_state (task_event t') \<noteq> PFUNC_ACTIVE_INCOMPLETE"
proof (cases "texcept t")
  case None
  with assms show ?thesis
    by (auto simp: task_wait_def pfunc_check_and_rethrow_def task_event_def attr_getters
        split: if_splits option.splits sum.splits prod.splits
        dest!: main_progress_complete event_wait_complete)
next
  case (Some e)
  with assms show ?thesis by (auto simp: task_wait_def pfunc_check_and_rethrow_def)
qed

interpretation main_wait: completion "mem_wait loc main_progress" mem_complete for loc
proof
  fix t s :: task_ptr and w w' :: "'a taskmgr" and r u
  show "mem_complete t w'" if "mem_wait loc main_progress t w = Some (Inr u, w')"
    using that by (auto simp: mem_wait_def mem_complete_def dest: task_wait_event)
  show "mem_complete s w'" if "mem_wait loc main_progress t w = Some (r, w')" "mem_complete s w"
    using that by (auto simp: mem_wait_def mem_complete_def split: if_splits dest: task_wait_event)
qed

section \<open>Properties\<close>



text \<open>The results of the tests, one after the other, while none throws.\<close>

fun test_each :: "('t \<Rightarrow> (bool, 'w) call) \<Rightarrow> 't list \<Rightarrow> 'w \<Rightarrow> (bool list \<times> 'w) option" where
  "test_each test [] w = Some ([], w)"
| "test_each test (t # ts) w =
     (case test t w of
        Some (Inr b, w1) \<Rightarrow> map_option (\<lambda>(bs, w'). (b # bs, w')) (test_each test ts w1)
      | _ \<Rightarrow> None)"

lemma test_loop_result:
  "test_each test ts w = Some (bs, w') \<Longrightarrow> arr \<noteq> [] \<Longrightarrow>
   test_loop test 0 ts ret arr w =
     Some (Inr (last (ret # bs)), if bs = [] then arr else arr[0 := of_bool (last bs)], w')"
proof (induction ts arbitrary: ret arr w bs)
  case (Cons t ts)
  then obtain b w1 cs where "test t w = Some (Inr b, w1)" "test_each test ts w1 = Some (cs, w')" "bs = b # cs"
    by (auto split: option.splits sum.splits)
  with Cons.IH [of w1 cs "arr[0 := of_bool b]" b] Cons.prems(2) show ?case
    by (auto simp: api_test_def)
qed simp

text \<open>
  \<open>test_all\<close> of the C++ interface reports the last task only. If no test throws, it returns
  the result of the test of the last task, whether or not the others have completed, and
  writes it to the first entry of the array, whose other entries stay as they were.
\<close>

theorem test_all_reports_last:
  assumes "test_each test ts w = Some (bs, w')" and "ts \<noteq> []" and "arr \<noteq> []"
  shows "api_test_all test ts arr w = Some (Inr (last bs), arr[0 := of_bool (last bs)], w')"
proof -
  have "bs \<noteq> []" using assms(1,2) by (cases ts) (auto split: option.splits sum.splits)
  with test_loop_result [OF assms(1,3), of False] show ?thesis by (simp add: api_test_all_def)
qed

text \<open>A task manager whose task 3 is running and whose task 4 has completed.\<close>

definition one_waiting :: "nat taskmgr" where
  "one_waiting = taskmgr_make 0 9 [1] None ((\<lambda>_. task_default 0)(3 := task_reset_completion 1 (task_default 0)))
     (\<lambda>_. group_default)"

lemma one_waiting_tests:
  "event_state (task_event (tasks one_waiting 3)) = PFUNC_ACTIVE_INCOMPLETE"
  "mem_test 3 one_waiting = Some (Inr False, one_waiting)" "mem_test 4 one_waiting = Some (Inr True, one_waiting)"
proof -
  let ?t = "task_reset_completion 1 (task_default (0 :: nat))"
  have same: "m\<lparr>tasks := (tasks m)(p := tasks m p), groups_of := groups_of m\<rparr> = m" for p and m :: "nat taskmgr"
    by simp
  have three: "task_test (?t, gs) = (Inr False, ?t, gs)" for gs
    by (rule task_test_incomplete)
       (simp_all add: task_reset_completion_def task_default_def attribute_make_def attr_getters
         task_event_def event_reset_def)
  have four: "task_test (task_default (0 :: nat), gs) = (Inr True, task_default 0, gs)" for gs
    by (simp add: task_test_def task_default_def attribute_make_def attr_getters event_base_def
        pfunc_check_and_rethrow_def event_test_def event_consts)
  have at: "tasks one_waiting 3 = ?t" "tasks one_waiting 4 = task_default 0"
    by (simp_all add: one_waiting_def taskmgr_make_def Let_def)
  show "mem_test 3 one_waiting = Some (Inr False, one_waiting)" "mem_test 4 one_waiting = Some (Inr True, one_waiting)"
    using same [of one_waiting 3] same [of one_waiting 4] unfolding mem_test_def at by (simp_all add: three four)
  show "event_state (task_event (tasks one_waiting 3)) = PFUNC_ACTIVE_INCOMPLETE"
    unfolding at by (simp add: task_reset_completion_def task_default_def attribute_make_def
        attr_getters task_event_def event_reset_def)
qed

theorem test_all_reports_last_witness:
  "\<exists>m :: nat taskmgr. event_state (task_event (tasks m 3)) = PFUNC_ACTIVE_INCOMPLETE \<and>
     api_test_all mem_test [3, 4] [7, 7] m = Some (Inr True, [1, 7], m)"
proof -
  have each: "test_each mem_test [3, 4] one_waiting = Some ([False, True], one_waiting)"
    by (simp add: one_waiting_tests)
  with test_all_reports_last [OF each, of "[7, 7]"] one_waiting_tests(1) show ?thesis
    by (intro exI [of _ one_waiting]) simp
qed

text \<open>The loop of \<open>wait_any\<close> does not end while its test fails.\<close>

lemma wait_any_loop_stuck:
  assumes stays: "\<And>arr w. I arr w \<Longrightarrow> \<exists>arr' w'. f arr w = Some (Inr False, arr', w') \<and> I arr' (pause w')"
    and run: "wait_any_loop f pause arr w = Some r"
  shows "\<not> I arr w"
proof (rule wait_any_loop.raw_induct [where P = "\<lambda>g p arr w r. g = f \<and> p = pause \<longrightarrow> \<not> I arr w", OF _ run, simplified])
  fix loop g p arr w r
  assume IH: "\<And>g p arr w r. loop g p arr w = Some r \<Longrightarrow> g = f \<and> p = pause \<longrightarrow> \<not> I arr w"
    and eq: "(case g arr w of None \<Rightarrow> None | Some (Inl x, arr1, w1) \<Rightarrow> Some (Inl x, arr1, w1)
      | Some (Inr b, arr1, w1) \<Rightarrow> if b then Some (Inr (), arr1, w1) else loop g p arr1 (p w1)) = Some r"
  show "g = f \<and> p = pause \<longrightarrow> \<not> I arr w"
  proof (intro impI notI)
    assume gp: "g = f \<and> p = pause" and "I arr w"
    with stays obtain arr' w' where s: "f arr w = Some (Inr False, arr', w')" "I arr' (pause w')" by blast
    with eq gp have "loop f pause arr' (pause w') = Some r" by simp
    from IH [OF this] s(2) show False by simp
  qed
qed

text \<open>
  With \<open>test_all\<close> in the place of \<open>pfunc_test_all\<close> \<open>wait_any\<close> waits for the last task: as long
  as the test of that one fails, it does not return, whatever the others have done.
\<close>

theorem wait_any_waits_for_last:
  assumes "stays w" and "\<And>w. stays w \<Longrightarrow> \<exists>bs w'. test_each test ts w = Some (bs, w') \<and> \<not> last bs \<and> stays (pause w')"
    and "ts \<noteq> []" and "arr \<noteq> []"
  shows "api_wait_any (api_test_all test) pause ts arr w = None"
proof (rule ccontr)
  let ?I = "\<lambda>arr w. stays w \<and> arr \<noteq> []"
  assume "api_wait_any (api_test_all test) pause ts arr w \<noteq> None"
  then obtain r where run: "wait_any_loop (api_test_all test ts) pause arr w = Some r" by (auto simp: api_wait_any_def)
  have stuck: "\<exists>arr' w'. api_test_all test ts arr w = Some (Inr False, arr', w') \<and> ?I arr' (pause w')"
    if I: "?I arr w" for arr w
  proof -
    from I assms(2) obtain bs w' where t: "test_each test ts w = Some (bs, w')" "\<not> last bs" "stays (pause w')" by blast
    have "bs \<noteq> []" using t(1) assms(3) by (cases ts) (auto split: option.splits sum.splits)
    with t I test_loop_result [OF t(1), of arr False] show ?thesis by (simp add: api_test_all_def)
  qed
  show False using wait_any_loop_stuck [of ?I, OF stuck run] assms(1,4) by blast
qed

text \<open>Task 4 is complete, and \<open>wait_any\<close> on the tasks 4 and 3 waits on.\<close>

theorem wait_any_waits_for_last_witness:
  "api_wait_any (api_test_all mem_test) (\<lambda>m. m) [4, 3] [0, 0] one_waiting = None"
proof (rule wait_any_waits_for_last [of "\<lambda>m. m = one_waiting"])
  show "\<exists>bs w'. test_each mem_test [4, 3] w = Some (bs, w') \<and> \<not> last bs \<and> w' = one_waiting" if "w = one_waiting" for w
    using that by (simp add: one_waiting_tests)
qed simp_all

end
