(* ===== verification/C_Api.thy ===== *)
theory C_Api
  imports Api
begin

text \<open>
  The C interface: \<^verbatim>\<open>lib/pfunc_c.cpp\<close>, whose macros generate the same functions for the
  policies cilk, fifo, lifo and prio, and \<open>internal_work_func_t\<close> of \<^verbatim>\<open>pfunc.h\<close>. Handles are
  pointers, \<open>None\<close> is \<open>NULL\<close>. The state has a memory for each type of object; a function is a
  map from the state to the status it returns, what it stores through its pointer
  arguments, and the new state. \<open>None\<close> is undefined: a \<open>NULL\<close> handle, or one that has been
  cleared, is dereferenced; or the call does not return. \<open>new (std::nothrow)\<close> gets the address it
  returns, \<open>None\<close> when there is no memory, as an argument.
\<close>

section \<open>The state\<close>

type_synonym handle = "nat option"

text \<open>\<open>internal_work_func_t\<close>.\<close>

record work_func =
  work_fn :: "nat option"
  work_arg :: "nat option"

definition work_default :: work_func where
  "work_default = \<lparr>work_fn = None, work_arg = None\<rparr>"
definition work_make :: "nat option \<Rightarrow> nat option \<Rightarrow> work_func" where
  "work_make f arg = \<lparr>work_fn = f, work_arg = arg\<rparr>"
definition work_copy :: "work_func \<Rightarrow> work_func" where
  "work_copy other = \<lparr>work_fn = work_fn other, work_arg = work_arg other\<rparr>"
definition work_set_func :: "nat option \<Rightarrow> work_func \<Rightarrow> work_func" where
  "work_set_func f w = w\<lparr>work_fn := f\<rparr>"
definition work_set_arg :: "nat option \<Rightarrow> work_func \<Rightarrow> work_func" where
  "work_set_arg arg w = w\<lparr>work_arg := arg\<rparr>"
definition work_get_func :: "work_func \<Rightarrow> nat option" where "work_get_func w = work_fn w"
definition work_get_arg :: "work_func \<Rightarrow> nat option" where "work_get_arg w = work_arg w"

text \<open>\<open>operator()\<close>: the call of the stored function that it makes.\<close>

definition work_call :: "work_func \<Rightarrow> (nat \<times> nat option) option" where
  "work_call w = map_option (\<lambda>f. (f, work_arg w)) (work_fn w)"

text \<open>The contents of tasks and groups are kept where the task managers expect them.\<close>

record 'p c_world =
  attr_mem :: "nat \<Rightarrow> 'p attribute option"
  work_mem :: "nat \<Rightarrow> work_func option"
  live_tasks :: "nat set"
  live_groups :: "nat set"
  task_mem :: "'p tasks"
  group_mem :: groups
  mgr_mem :: "nat \<Rightarrow> 'p taskmgr option"
  c_global :: handle

text \<open>The results of a function: status, out parameters, state.\<close>

type_synonym ('a, 'w) c_call = "'w \<Rightarrow> (int result \<times> 'a \<times> 'w) option"

text \<open>\<open>return PFUNC_SUCCESS\<close> at the end of a body that has stored \<open>out\<close>.\<close>

definition success :: "'a \<Rightarrow> ('a, 'w) c_call" where
  "success out w = Some (Inr (status_code PFUNC_SUCCESS), out, w)"

text \<open>The body of a function that operates on the object behind a handle.\<close>

definition with_attr :: "handle \<Rightarrow> ('p attribute \<Rightarrow> 'a \<times> 'p attribute) \<Rightarrow> ('a, 'p c_world) c_call" where
  "with_attr h f w =
     (case h of None \<Rightarrow> None | Some p \<Rightarrow>
        (case attr_mem w p of None \<Rightarrow> None | Some a \<Rightarrow>
           (case f a of (out, a') \<Rightarrow> success out (w\<lparr>attr_mem := (attr_mem w)(p \<mapsto> a')\<rparr>))))"

definition with_group :: "handle \<Rightarrow> (group \<Rightarrow> 'a \<times> group) \<Rightarrow> ('a, 'p c_world) c_call" where
  "with_group h f w =
     (case h of None \<Rightarrow> None | Some p \<Rightarrow>
        (if p \<in> live_groups w
         then (case f (group_mem w p) of (out, g') \<Rightarrow> success out (w\<lparr>group_mem := (group_mem w)(p := g')\<rparr>))
         else None))"

definition with_work :: "handle \<Rightarrow> (work_func \<Rightarrow> 'a \<times> work_func) \<Rightarrow> ('a, 'p c_world) c_call" where
  "with_work h f w =
     (case h of None \<Rightarrow> None | Some p \<Rightarrow>
        (case work_mem w p of None \<Rightarrow> None | Some k \<Rightarrow>
           (case f k of (out, k') \<Rightarrow> success out (w\<lparr>work_mem := (work_mem w)(p \<mapsto> k')\<rparr>))))"

text \<open>A method of the task manager behind a handle, working on the memory of tasks and groups.\<close>

definition with_mgr :: "handle \<Rightarrow> ('a, 'p taskmgr) call \<Rightarrow> ('a, 'p c_world) call" where
  "with_mgr h f w =
     (case h of None \<Rightarrow> None | Some p \<Rightarrow>
        (case mgr_mem w p of None \<Rightarrow> None | Some m \<Rightarrow>
           map_option (\<lambda>(r, m'). (r, w\<lparr>mgr_mem := (mgr_mem w)(p \<mapsto> m'),
                                       task_mem := tasks m', group_mem := groups_of m'\<rparr>))
             (f (m\<lparr>tasks := task_mem w, groups_of := group_mem w\<rparr>))))"

text \<open>\<open>PFUNC_C_CATCH_AND_RETURN_EXCEPTION_CODE\<close> around a body; \<open>f\<close> makes the status of what it returned.\<close>

definition c_try :: "('a \<Rightarrow> int) \<Rightarrow> ('a, 'w) call \<Rightarrow> (unit, 'w) c_call" where
  "c_try f body w = map_option (\<lambda>(r, w'). (pfunc_c_catch (map_sum id f r), (), w')) (body w)"

text \<open>The same where the value goes to an out parameter, which stays unset after an exception.\<close>

definition c_try_out :: "('a, 'w) call \<Rightarrow> ('a option, 'w) c_call" where
  "c_try_out body w =
     map_option (\<lambda>(r, w'). case r of
         Inl x \<Rightarrow> (pfunc_c_catch (Inl x), None, w')
       | Inr v \<Rightarrow> (Inr (status_code PFUNC_SUCCESS), Some v, w')) (body w)"

section \<open>Attributes\<close>

definition c_attr_init :: "'p \<Rightarrow> nat option \<Rightarrow> (handle, 'p c_world) c_call" where
  "c_attr_init prio_min alloc w =
     success alloc (case alloc of None \<Rightarrow> w
                    | Some p \<Rightarrow> w\<lparr>attr_mem := (attr_mem w)(p \<mapsto> attribute_make prio_min True False)\<rparr>)"

text \<open>\<open>delete\<close> of \<open>NULL\<close> does nothing.\<close>

definition c_attr_clear :: "handle \<Rightarrow> (unit, 'p c_world) c_call" where
  "c_attr_clear h w =
     (case h of None \<Rightarrow> success () w
      | Some p \<Rightarrow> if attr_mem w p = None then None else success () (w\<lparr>attr_mem := (attr_mem w)(p := None)\<rparr>))"

definition c_attr_priority_set :: "handle \<Rightarrow> 'p \<Rightarrow> (unit, 'p c_world) c_call" where
  "c_attr_priority_set h v = with_attr h (\<lambda>a. ((), set_priority v a))"
definition c_attr_qnum_set :: "handle \<Rightarrow> u32 \<Rightarrow> (unit, 'p c_world) c_call" where
  "c_attr_qnum_set h v = with_attr h (\<lambda>a. ((), set_queue_number v a))"
definition c_attr_num_waiters_set :: "handle \<Rightarrow> u32 \<Rightarrow> (unit, 'p c_world) c_call" where
  "c_attr_num_waiters_set h v = with_attr h (\<lambda>a. ((), set_num_waiters v a))"
definition c_attr_nested_set :: "handle \<Rightarrow> u32 \<Rightarrow> (unit, 'p c_world) c_call" where
  "c_attr_nested_set h v = with_attr h (\<lambda>a. ((), set_nested (if v = 0 then False else True) a))"
definition c_attr_grouped_set :: "handle \<Rightarrow> u32 \<Rightarrow> (unit, 'p c_world) c_call" where
  "c_attr_grouped_set h v = with_attr h (\<lambda>a. ((), set_grouped (if v = 0 then False else True) a))"
definition c_attr_level_set :: "handle \<Rightarrow> u32 \<Rightarrow> (unit, 'p c_world) c_call" where
  "c_attr_level_set h v = with_attr h (\<lambda>a. ((), set_level v a))"

definition c_attr_priority_get :: "handle \<Rightarrow> ('p, 'p c_world) c_call" where
  "c_attr_priority_get h = with_attr h (\<lambda>a. (get_priority a, a))"
definition c_attr_qnum_get :: "handle \<Rightarrow> (u32, 'p c_world) c_call" where
  "c_attr_qnum_get h = with_attr h (\<lambda>a. (get_queue_number a, a))"
definition c_attr_num_waiters_get :: "handle \<Rightarrow> (u32, 'p c_world) c_call" where
  "c_attr_num_waiters_get h = with_attr h (\<lambda>a. (get_num_waiters a, a))"
definition c_attr_nested_get :: "handle \<Rightarrow> (u32, 'p c_world) c_call" where
  "c_attr_nested_get h = with_attr h (\<lambda>a. (of_bool (get_nested a), a))"
definition c_attr_grouped_get :: "handle \<Rightarrow> (u32, 'p c_world) c_call" where
  "c_attr_grouped_get h = with_attr h (\<lambda>a. (of_bool (get_grouped a), a))"
definition c_attr_level_get :: "handle \<Rightarrow> (u32, 'p c_world) c_call" where
  "c_attr_level_get h = with_attr h (\<lambda>a. (get_level a, a))"

section \<open>Groups\<close>

definition c_group_init :: "nat option \<Rightarrow> (handle, 'p c_world) c_call" where
  "c_group_init alloc w =
     success alloc (case alloc of None \<Rightarrow> w
                    | Some p \<Rightarrow> w\<lparr>group_mem := (group_mem w)(p := group_default),
                                 live_groups := insert p (live_groups w)\<rparr>)"
definition c_group_clear :: "handle \<Rightarrow> (unit, 'p c_world) c_call" where
  "c_group_clear h w =
     (case h of None \<Rightarrow> success () w
      | Some p \<Rightarrow> if p \<notin> live_groups w then None else success () (w\<lparr>live_groups := live_groups w - {p}\<rparr>))"

definition c_group_size_set :: "handle \<Rightarrow> u32 \<Rightarrow> (unit, 'p c_world) c_call" where
  "c_group_size_set h v = with_group h (\<lambda>g. ((), group_set_size v g))"
definition c_group_id_set :: "handle \<Rightarrow> u32 \<Rightarrow> (unit, 'p c_world) c_call" where
  "c_group_id_set h v = with_group h (\<lambda>g. ((), group_set_id v g))"
definition c_group_barrier_set :: "handle \<Rightarrow> u32 \<Rightarrow> (unit, 'p c_world) c_call" where
  "c_group_barrier_set h v = with_group h (\<lambda>g. ((), group_set_barrier v g))"
definition c_group_size_get :: "handle \<Rightarrow> (u32, 'p c_world) c_call" where
  "c_group_size_get h = with_group h (\<lambda>g. (group_get_size g, g))"
definition c_group_id_get :: "handle \<Rightarrow> (u32, 'p c_world) c_call" where
  "c_group_id_get h = with_group h (\<lambda>g. (group_get_id g, g))"
definition c_group_barrier_get :: "handle \<Rightarrow> (u32, 'p c_world) c_call" where
  "c_group_barrier_get h = with_group h (\<lambda>g. (group_get_barrier g, g))"

section \<open>Tasks, task managers and work\<close>

definition c_task_init :: "'p \<Rightarrow> nat option \<Rightarrow> (handle, 'p c_world) c_call" where
  "c_task_init prio_min alloc w =
     success alloc (case alloc of None \<Rightarrow> w
                    | Some p \<Rightarrow> w\<lparr>task_mem := (task_mem w)(p := task_default prio_min),
                                 live_tasks := insert p (live_tasks w)\<rparr>)"
definition c_task_clear :: "handle \<Rightarrow> (unit, 'p c_world) c_call" where
  "c_task_clear h w =
     (case h of None \<Rightarrow> success () w
      | Some p \<Rightarrow> if p \<notin> live_tasks w then None else success () (w\<lparr>live_tasks := live_tasks w - {p}\<rparr>))"

text \<open>
  \<open>started\<close> is what starting the threads comes to. If the constructor throws, the memory is
  given back and \<open>*taskmgr\<close> is not assigned.
\<close>

definition c_taskmgr_init :: "'p \<Rightarrow> group_ptr \<Rightarrow> nat option \<Rightarrow> unit result \<Rightarrow> u32 list \<Rightarrow>
    (u32 \<Rightarrow> u32 \<Rightarrow> u32) option \<Rightarrow> (handle option, 'p c_world) c_call" where
  "c_taskmgr_init prio_min dflt alloc started thds affinities w =
     (case alloc of
        None \<Rightarrow> success (Some None) w
      | Some p \<Rightarrow>
          (case started of
             Inl x \<Rightarrow> Some (pfunc_c_catch (Inl x), None, w)
           | Inr _ \<Rightarrow> success (Some (Some p)) (w\<lparr>mgr_mem := (mgr_mem w)(p \<mapsto>
                         taskmgr_make prio_min dflt thds affinities (task_mem w) (group_mem w))\<rparr>)))"
definition c_taskmgr_clear :: "handle \<Rightarrow> (unit, 'p c_world) c_call" where
  "c_taskmgr_clear h w =
     (case h of None \<Rightarrow> success () w
      | Some p \<Rightarrow> if mgr_mem w p = None then None else success () (w\<lparr>mgr_mem := (mgr_mem w)(p := None)\<rparr>))"

definition c_taskmgr_max_attempts_set :: "handle \<Rightarrow> u32 \<Rightarrow> (unit, 'p c_world) c_call" where
  "c_taskmgr_max_attempts_set mgr n =
     c_try (\<lambda>_. status_code PFUNC_SUCCESS) (with_mgr mgr (changing (\<lambda>m. Some (set_max_attempts n m))))"
definition c_taskmgr_max_attempts_get :: "handle \<Rightarrow> (u32 option, 'p c_world) c_call" where
  "c_taskmgr_max_attempts_get mgr = c_try_out (with_mgr mgr (reading (\<lambda>m. Some (get_max_attempts m))))"

definition c_work_init :: "nat option \<Rightarrow> (handle, 'p c_world) c_call" where
  "c_work_init alloc w =
     success alloc (case alloc of None \<Rightarrow> w
                    | Some p \<Rightarrow> w\<lparr>work_mem := (work_mem w)(p \<mapsto> work_default)\<rparr>)"
definition c_work_clear :: "handle \<Rightarrow> (unit, 'p c_world) c_call" where
  "c_work_clear h w =
     (case h of None \<Rightarrow> success () w
      | Some p \<Rightarrow> if work_mem w p = None then None else success () (w\<lparr>work_mem := (work_mem w)(p := None)\<rparr>))"
definition c_work_func_set :: "handle \<Rightarrow> nat option \<Rightarrow> (unit, 'p c_world) c_call" where
  "c_work_func_set h f = with_work h (\<lambda>k. ((), work_set_func f k))"
definition c_work_arg_set :: "handle \<Rightarrow> nat option \<Rightarrow> (unit, 'p c_world) c_call" where
  "c_work_arg_set h arg = with_work h (\<lambda>k. ((), work_set_arg arg k))"
definition c_work_func_get :: "handle \<Rightarrow> (nat option, 'p c_world) c_call" where
  "c_work_func_get h = with_work h (\<lambda>k. (work_get_func k, k))"
definition c_work_arg_get :: "handle \<Rightarrow> (nat option, 'p c_world) c_call" where
  "c_work_arg_get h = with_work h (\<lambda>k. (work_get_arg k, k))"

section \<open>Waits and tests\<close>

text \<open>\<open>wait\<close> and \<open>test\<close> of the task behind a handle; \<open>live\<close> are the tasks that exist.\<close>

definition live_wait :: "nat set \<Rightarrow> string \<Rightarrow> (event \<Rightarrow> event result option) \<Rightarrow> handle \<Rightarrow>
    (unit, 'p taskmgr) call" where
  "live_wait live loc progress h m =
     (case h of None \<Rightarrow> None | Some p \<Rightarrow> if p \<in> live then mem_wait loc progress p m else None)"

definition live_test :: "nat set \<Rightarrow> handle \<Rightarrow> (bool, 'p taskmgr) call" where
  "live_test live h m = (case h of None \<Rightarrow> None | Some p \<Rightarrow> if p \<in> live then mem_test p m else None)"

definition c_wait :: "string \<Rightarrow> (event \<Rightarrow> event result option) \<Rightarrow> handle \<Rightarrow> handle \<Rightarrow>
    (unit, 'p c_world) c_call" where
  "c_wait loc progress mgr task w =
     c_try (\<lambda>_. status_code PFUNC_SUCCESS) (with_mgr mgr (live_wait (live_tasks w) loc progress task)) w"

fun c_wait_loop :: "('t \<Rightarrow> (unit, 'w) call) \<Rightarrow> 't list \<Rightarrow> (unit, 'w) call" where
  "c_wait_loop wait [] m = Some (Inr (), m)"
| "c_wait_loop wait (t # ts) m =
     (case wait t m of
        None \<Rightarrow> None
      | Some (Inl x, m1) \<Rightarrow> Some (Inl x, m1)
      | Some (Inr _, m1) \<Rightarrow> c_wait_loop wait ts m1)"

definition c_wait_all :: "string \<Rightarrow> (event \<Rightarrow> event result option) \<Rightarrow> handle \<Rightarrow> handle list \<Rightarrow>
    (unit, 'p c_world) c_call" where
  "c_wait_all loc progress mgr hs w =
     c_try (\<lambda>_. status_code PFUNC_SUCCESS)
       (with_mgr mgr (c_wait_loop (live_wait (live_tasks w) loc progress) hs)) w"

text \<open>\<open>wait_any\<close> does nothing; \<open>completed\<close> stays as it was.\<close>

definition c_wait_any :: "handle \<Rightarrow> handle list \<Rightarrow> int list \<Rightarrow> (int list, 'p c_world) c_call" where
  "c_wait_any mgr hs completed = success completed"

definition c_test :: "handle \<Rightarrow> handle \<Rightarrow> (unit, 'p c_world) c_call" where
  "c_test mgr task w =
     c_try (\<lambda>b. if b then status_code PFUNC_TASK_COMPLETE else status_code PFUNC_TASK_INCOMPLETE)
       (with_mgr mgr (live_test (live_tasks w) task)) w"

text \<open>The loop of \<open>test_all\<close>: what it threw, if it did, and the array \<open>completed\<close>.\<close>

fun c_test_loop :: "('t \<Rightarrow> (bool, 'w) call) \<Rightarrow> nat \<Rightarrow> 't list \<Rightarrow> int list \<Rightarrow>
    (unit result \<times> int list, 'w) call" where
  "c_test_loop test i [] arr m = Some (Inr (Inr (), arr), m)"
| "c_test_loop test i (t # ts) arr m =
     (case test t m of
        None \<Rightarrow> None
      | Some (Inl x, m1) \<Rightarrow> Some (Inr (Inl x, arr), m1)
      | Some (Inr b, m1) \<Rightarrow>
          if i < length arr then c_test_loop test (i + 1) ts (arr[i := of_bool b]) m1 else None)"

definition c_test_all :: "handle \<Rightarrow> handle list \<Rightarrow> int list \<Rightarrow> (int list, 'p c_world) c_call" where
  "c_test_all mgr hs completed w =
     map_option (\<lambda>(out, w'). case out of
         Inl x \<Rightarrow> (pfunc_c_catch (Inl x), completed, w')
       | Inr (r, arr) \<Rightarrow> (pfunc_c_catch (map_sum id (\<lambda>_. status_code PFUNC_SUCCESS) r), arr, w'))
       (with_mgr mgr (c_test_loop (live_test (live_tasks w)) 0 hs completed) w)"

section \<open>Spawning, and the current task\<close>

text \<open>The work object that \<open>spawn_c\<close> allocates is never freed; without memory it is a \<open>NULL\<close> reference.\<close>

definition c_spawn_cxx :: "policy \<Rightarrow> u32 \<Rightarrow> handle \<Rightarrow> handle \<Rightarrow> handle \<Rightarrow> handle \<Rightarrow> handle \<Rightarrow>
    (unit, 'p c_world) c_call" where
  "c_spawn_cxx pol self mgr task a g work w =
     (case (task, a, g, work) of
        (Some t, Some ap, Some gp, Some k) \<Rightarrow>
          (case attr_mem w ap of
             None \<Rightarrow> None
           | Some at \<Rightarrow>
               if t \<in> live_tasks w \<and> gp \<in> live_groups w \<and> work_mem w k \<noteq> None
               then c_try (\<lambda>_. status_code PFUNC_SUCCESS)
                      (with_mgr mgr (changing (spawn_task_full pol self t at gp k))) w
               else None)
      | _ \<Rightarrow> None)"

definition c_spawn_c :: "policy \<Rightarrow> u32 \<Rightarrow> nat option \<Rightarrow> handle \<Rightarrow> handle \<Rightarrow> handle \<Rightarrow> handle \<Rightarrow>
    nat option \<Rightarrow> nat option \<Rightarrow> (unit, 'p c_world) c_call" where
  "c_spawn_c pol self alloc mgr task a g work arg w =
     (case alloc of
        None \<Rightarrow> None
      | Some k \<Rightarrow> c_spawn_cxx pol self mgr task a g (Some k)
                    (w\<lparr>work_mem := (work_mem w)(k \<mapsto> work_make work arg)\<rparr>))"

definition c_thread_id :: "u32 \<Rightarrow> handle \<Rightarrow> (u32 option, 'p c_world) c_call" where
  "c_thread_id self mgr = c_try_out (with_mgr mgr (reading (current_thread_id self)))"
definition c_group_rank :: "u32 \<Rightarrow> handle \<Rightarrow> (u32 option, 'p c_world) c_call" where
  "c_group_rank self mgr =
     c_try_out (with_mgr mgr (reading (\<lambda>m. map_option task_get_rank (current_task self m))))"
definition c_group_size :: "u32 \<Rightarrow> handle \<Rightarrow> (u32 option, 'p c_world) c_call" where
  "c_group_size self mgr =
     c_try_out (with_mgr mgr (reading (\<lambda>m. map_option task_get_size (current_task self m))))"

text \<open>The result is the barrier that the current task enters.\<close>

definition c_barrier :: "u32 \<Rightarrow> handle \<Rightarrow> (barrier_call option, 'p c_world) c_call" where
  "c_barrier self mgr =
     c_try_out (with_mgr mgr (reading (\<lambda>m. case current_task self m of
        None \<Rightarrow> None | Some t \<Rightarrow> task_barrier t (groups_of m))))"

section \<open>The global task manager\<close>

text \<open>The argument of \<open>init\<close> is a pointer to a handle.\<close>

definition c_init :: "handle option \<Rightarrow> (unit, 'p c_world) c_call" where
  "c_init local_tmanager w =
     (case local_tmanager of
        Some (Some p) \<Rightarrow> success () (w\<lparr>c_global := Some p\<rparr>)
      | _ \<Rightarrow> Some (Inr (status_code PFUNC_INVALID_ARGUMENTS), (), w))"

definition c_clear :: "(unit, 'p c_world) c_call" where
  "c_clear w =
     (if c_global w = None then Some (Inr (status_code PFUNC_INVALID_ARGUMENTS), (), w)
      else success () (w\<lparr>c_global := None\<rparr>))"

text \<open>The functions with the suffix \<open>_gbl\<close>.\<close>

definition gbl :: "(handle \<Rightarrow> ('a, 'p c_world) c_call) \<Rightarrow> ('a, 'p c_world) c_call" where
  "gbl f w = f (c_global w) w"

definition c_taskmgr_max_attempts_set_gbl :: "u32 \<Rightarrow> (unit, 'p c_world) c_call" where
  "c_taskmgr_max_attempts_set_gbl n = gbl (\<lambda>g. c_taskmgr_max_attempts_set g n)"
definition c_taskmgr_max_attempts_get_gbl :: "(u32 option, 'p c_world) c_call" where
  "c_taskmgr_max_attempts_get_gbl = gbl c_taskmgr_max_attempts_get"
definition c_wait_gbl :: "string \<Rightarrow> (event \<Rightarrow> event result option) \<Rightarrow> handle \<Rightarrow> (unit, 'p c_world) c_call" where
  "c_wait_gbl loc progress task = gbl (\<lambda>g. c_wait loc progress g task)"
definition c_wait_all_gbl :: "string \<Rightarrow> (event \<Rightarrow> event result option) \<Rightarrow> handle list \<Rightarrow> (unit, 'p c_world) c_call" where
  "c_wait_all_gbl loc progress hs = gbl (\<lambda>g. c_wait_all loc progress g hs)"
definition c_wait_any_gbl :: "handle list \<Rightarrow> int list \<Rightarrow> (int list, 'p c_world) c_call" where
  "c_wait_any_gbl hs completed = gbl (\<lambda>g. c_wait_any g hs completed)"
definition c_test_gbl :: "handle \<Rightarrow> (unit, 'p c_world) c_call" where
  "c_test_gbl task = gbl (\<lambda>g. c_test g task)"
definition c_test_all_gbl :: "handle list \<Rightarrow> int list \<Rightarrow> (int list, 'p c_world) c_call" where
  "c_test_all_gbl hs completed = gbl (\<lambda>g. c_test_all g hs completed)"
definition c_spawn_c_gbl :: "policy \<Rightarrow> u32 \<Rightarrow> nat option \<Rightarrow> handle \<Rightarrow> handle \<Rightarrow> handle \<Rightarrow>
    nat option \<Rightarrow> nat option \<Rightarrow> (unit, 'p c_world) c_call" where
  "c_spawn_c_gbl pol self alloc task a gp work arg =
     gbl (\<lambda>g. c_spawn_c pol self alloc g task a gp work arg)"
definition c_spawn_cxx_gbl :: "policy \<Rightarrow> u32 \<Rightarrow> handle \<Rightarrow> handle \<Rightarrow> handle \<Rightarrow> handle \<Rightarrow>
    (unit, 'p c_world) c_call" where
  "c_spawn_cxx_gbl pol self task a gp work = gbl (\<lambda>g. c_spawn_cxx pol self g task a gp work)"
definition c_thread_id_gbl :: "u32 \<Rightarrow> (u32 option, 'p c_world) c_call" where
  "c_thread_id_gbl self = gbl (c_thread_id self)"
definition c_group_rank_gbl :: "u32 \<Rightarrow> (u32 option, 'p c_world) c_call" where
  "c_group_rank_gbl self = gbl (c_group_rank self)"
definition c_group_size_gbl :: "u32 \<Rightarrow> (u32 option, 'p c_world) c_call" where
  "c_group_size_gbl self = gbl (c_group_size self)"
definition c_barrier_gbl :: "u32 \<Rightarrow> (barrier_call option, 'p c_world) c_call" where
  "c_barrier_gbl self = gbl (c_barrier self)"

section \<open>Lemmas\<close>

lemma with_mgr_live:
  "mgr_mem w p = Some m \<Longrightarrow>
   with_mgr (Some p) f w =
     map_option (\<lambda>(r, m'). (r, w\<lparr>mgr_mem := (mgr_mem w)(p \<mapsto> m'), task_mem := tasks m',
                                 group_mem := groups_of m'\<rparr>))
       (f (m\<lparr>tasks := task_mem w, groups_of := group_mem w\<rparr>))"
  by (simp add: with_mgr_def)

text \<open>A test of a task without an exception tells whether it is complete, and changes no such answer.\<close>

lemma mem_test_tells:
  assumes "texcept (tasks m p) = None"
  obtains m' where "mem_test p m = Some (Inr (mem_complete p m), m')"
    "\<And>q. mem_complete q m' = mem_complete q m" "\<And>q. texcept (tasks m' q) = texcept (tasks m q)"
proof (cases "mem_complete p m")
  case False
  then have "task_test (tasks m p, groups_of m) = (Inr False, tasks m p, groups_of m)"
    by (intro task_test_incomplete assms) (simp add: mem_complete_def)
  with False show ?thesis
    by (intro that [of "m\<lparr>tasks := (tasks m)(p := tasks m p), groups_of := groups_of m\<rparr>"])
       (simp_all add: mem_test_def mem_complete_def)
next
  case True
  then obtain t' gs where t': "task_test (tasks m p, groups_of m) = (Inr True, t', gs)"
    "texcept t' = None" "event_state (task_event t') \<noteq> PFUNC_ACTIVE_INCOMPLETE"
    using task_test_done [OF assms, of "groups_of m"] by (auto simp: mem_complete_def)
  with True assms show ?thesis
    by (intro that [of "m\<lparr>tasks := (tasks m)(p := t'), groups_of := gs\<rparr>"])
       (simp_all add: mem_test_def mem_complete_def)
qed

lemma live_test_Some [simp]:
  "live_test live (Some p) m = (if p \<in> live then mem_test p m else None)"
  by (simp add: live_test_def)

lemma c_test_loop_tells:
  assumes "\<forall>p\<in>set ps. p \<in> live \<and> texcept (tasks m p) = None" and "i + length ps \<le> length arr"
  shows "\<exists>m'. c_test_loop (live_test live) i (map Some ps) arr m =
    Some (Inr (Inr (), take i arr @ map (\<lambda>p. of_bool (mem_complete p m)) ps @ drop (i + length ps) arr), m')"
  using assms
proof (induction ps arbitrary: i arr m)
  case (Cons p ps)
  then have "texcept (tasks m p) = None" by simp
  then obtain m1 where m1: "mem_test p m = Some (Inr (mem_complete p m), m1)"
      "\<And>q. mem_complete q m1 = mem_complete q m" "\<And>q. texcept (tasks m1 q) = texcept (tasks m q)"
    using mem_test_tells by blast
  let ?arr = "arr[i := of_bool (mem_complete p m)]"
  have "\<exists>m'. c_test_loop (live_test live) (i + 1) (map Some ps) ?arr m1 =
    Some (Inr (Inr (), take (i + 1) ?arr @ map (\<lambda>p. of_bool (mem_complete p m1)) ps @
                       drop (i + 1 + length ps) ?arr), m')"
    by (rule Cons.IH) (use Cons.prems m1 in auto)
  moreover have "take (i + 1) ?arr = take i arr @ [of_bool (mem_complete p m)]"
    using Cons.prems(2) by (simp add: take_Suc_conv_app_nth)
  ultimately show ?case using Cons.prems m1 by (cases "mem_complete p m") simp_all
qed simp

section \<open>Properties\<close>

text \<open>What a setter stores, its getter gives; nothing else changes.\<close>

theorem c_attr_set_get:
  assumes "attr_mem w p = Some a"
  shows "\<exists>w'. c_attr_priority_set (Some p) pri w = Some (Inr (status_code PFUNC_SUCCESS), (), w') \<and>
      w' = w\<lparr>attr_mem := (attr_mem w)(p \<mapsto> a\<lparr>priority := pri\<rparr>)\<rparr> \<and>
      c_attr_priority_get (Some p) w' = Some (Inr (status_code PFUNC_SUCCESS), pri, w')"
    and "\<exists>w'. c_attr_nested_set (Some p) v w = Some (Inr (status_code PFUNC_SUCCESS), (), w') \<and>
      w' = w\<lparr>attr_mem := (attr_mem w)(p \<mapsto> a\<lparr>is_nested := (v \<noteq> 0)\<rparr>)\<rparr> \<and>
      c_attr_nested_get (Some p) w' = Some (Inr (status_code PFUNC_SUCCESS), of_bool (v \<noteq> 0), w')"
  using assms
  by (auto simp: c_attr_priority_set_def c_attr_priority_get_def c_attr_nested_set_def c_attr_nested_get_def
      with_attr_def success_def set_priority_def set_nested_def attr_getters)

text \<open>
  \<open>test_all\<close> of the C interface reports every task. If the tasks exist and none has
  stored an exception, it returns success, writes for each task whether it is complete to
  its own entry of the array, and leaves the rest of the array alone.
\<close>

theorem c_test_all_reports_each:
  assumes "mgr_mem w mgr = Some m" and "length ps \<le> length completed"
    and "\<forall>p\<in>set ps. p \<in> live_tasks w \<and> texcept (task_mem w p) = None"
  shows "\<exists>w'. c_test_all (Some mgr) (map Some ps) completed w =
    Some (Inr (status_code PFUNC_SUCCESS),
          map (\<lambda>p. of_bool (event_state (task_event (task_mem w p)) \<noteq> PFUNC_ACTIVE_INCOMPLETE)) ps @
          drop (length ps) completed, w')"
proof -
  let ?m = "m\<lparr>tasks := task_mem w, groups_of := group_mem w\<rparr>"
  obtain m' where "c_test_loop (live_test (live_tasks w)) 0 (map Some ps) completed ?m =
      Some (Inr (Inr (), map (\<lambda>p. of_bool (mem_complete p ?m)) ps @ drop (length ps) completed), m')"
    using c_test_loop_tells [of ps "live_tasks w" ?m 0 completed] assms by auto
  then show ?thesis
    by (simp add: c_test_all_def with_mgr_live [OF assms(1)] mem_complete_def)
qed

theorem c_test_all_reports_each_witness:
  "\<exists>w :: nat c_world. \<exists>w'. c_test_all (Some 0) [Some 3, Some 4] [7, 7, 7] w =
     Some (Inr (status_code PFUNC_SUCCESS), [0, 1, 7], w')"
proof -
  let ?t = "task_reset_completion 1 (task_default (0 :: nat))"
  let ?w = "\<lparr>attr_mem = Map.empty, work_mem = Map.empty, live_tasks = {3, 4}, live_groups = {},
      task_mem = (\<lambda>_. task_default 0)(3 := ?t), group_mem = \<lambda>_. group_default,
      mgr_mem = [0 \<mapsto> taskmgr_make 0 9 [1] None (\<lambda>_. task_default 0) (\<lambda>_. group_default)],
      c_global = None\<rparr>"
  let ?done = "map (\<lambda>p. of_bool (event_state (task_event (task_mem ?w p)) \<noteq> PFUNC_ACTIVE_INCOMPLETE)) [3, 4] @
          drop (length [3 :: nat, 4]) [7, 7, 7 :: int]"
  have "\<exists>w'. c_test_all (Some 0) (map Some [3, 4]) [7, 7, 7] ?w =
    Some (Inr (status_code PFUNC_SUCCESS), ?done, w')"
    by (rule c_test_all_reports_each)
       (auto simp: task_default_def task_reset_completion_def attribute_make_def attr_getters)
  moreover have "?done = [0, 1, 7]"
    by (simp add: task_event_def task_default_def task_reset_completion_def attribute_make_def attr_getters
         event_reset_def event_base_def event_consts)
  ultimately have "\<exists>w'. c_test_all (Some 0) [Some 3, Some 4] [7, 7, 7] ?w =
    Some (Inr (status_code PFUNC_SUCCESS), [0, 1, 7], w')" by (simp only: list.map)
  then show ?thesis by (rule exI)
qed

text \<open>
  Every \<open>init\<close> reports success when there is no memory for the object; the handle is
  \<open>NULL\<close> then and must not be used.
\<close>

theorem c_init_without_memory:
  "c_attr_init prio_min None w = Some (Inr (status_code PFUNC_SUCCESS), None, w)"
  "c_group_init None w = Some (Inr (status_code PFUNC_SUCCESS), None, w)"
  "c_task_init prio_min None w = Some (Inr (status_code PFUNC_SUCCESS), None, w)"
  "c_work_init None w = Some (Inr (status_code PFUNC_SUCCESS), None, w)"
  "c_taskmgr_init prio_min dflt None started thds aff w = Some (Inr (status_code PFUNC_SUCCESS), Some None, w)"
  "c_attr_priority_set None pri w = None"
  by (simp_all add: c_attr_init_def c_group_init_def c_task_init_def c_work_init_def c_taskmgr_init_def
      c_attr_priority_set_def with_attr_def success_def)

text \<open>The life of a task that \<open>spawn_c\<close> creates, seen through the handle.\<close>

lemma c_test_live:
  assumes "mgr_mem w mgr = Some m" and "t \<in> live_tasks w"
  shows "\<exists>w'. c_test (Some mgr) (Some t) w =
    Some (pfunc_c_catch (map_sum id (\<lambda>b. if b then status_code PFUNC_TASK_COMPLETE
            else status_code PFUNC_TASK_INCOMPLETE) (fst (task_test (task_mem w t, group_mem w)))), (), w')"
  using assms(2)
  by (cases "task_test (task_mem w t, group_mem w)")
     (simp add: c_test_def c_try_def with_mgr_live [OF assms(1)] mem_test_def)

lemma spawn_task_full_prepares:
  assumes "spawn_task_full pol self t a g f m = Some m'"
  shows "\<exists>gs. task_prepare a g f (tasks m t, groups_of m) = (tasks m' t, gs)"
  using assms by (auto simp: spawn_task_full_def split: prod.splits option.splits if_splits)

lemma c_spawn_c_facts:
  assumes "c_spawn_c pol self (Some k) (Some mgr) (Some t) (Some ap) (Some gp) f arg w = Some (r, u, w1)"
  shows "r = Inr (status_code PFUNC_SUCCESS)" and "t \<in> live_tasks w1" and "\<exists>m. mgr_mem w1 mgr = Some m"
    and "work_mem w1 k = Some (work_make f arg)"
    and "\<exists>a gs gs' t0. task_prepare a gp k (t0, gs) = (task_mem w1 t, gs')"
proof -
  from assms obtain at m m' where at: "attr_mem w ap = Some at" "t \<in> live_tasks w" "mgr_mem w mgr = Some m"
    and sp: "spawn_task_full pol self t at gp k (m\<lparr>tasks := task_mem w, groups_of := group_mem w\<rparr>) = Some m'"
    and w1: "r = Inr (status_code PFUNC_SUCCESS)"
      "w1 = w\<lparr>work_mem := (work_mem w)(k \<mapsto> work_make f arg), mgr_mem := (mgr_mem w)(mgr \<mapsto> m'),
              task_mem := tasks m', group_mem := groups_of m'\<rparr>"
    by (auto simp: c_spawn_c_def c_spawn_cxx_def c_try_def with_mgr_def changing_def
        split: option.splits if_splits)
  then show "r = Inr (status_code PFUNC_SUCCESS)" and "t \<in> live_tasks w1" and "\<exists>m. mgr_mem w1 mgr = Some m"
    and "work_mem w1 k = Some (work_make f arg)" by simp_all
  show "\<exists>a gs gs' t0. task_prepare a gp k (t0, gs) = (task_mem w1 t, gs')"
    using spawn_task_full_prepares [OF sp] w1(2) by auto
qed


definition example_world :: "nat c_world" where
  "example_world =
     \<lparr>attr_mem = [2 \<mapsto> set_queue_number 0 (attribute_make 0 True False)], work_mem = Map.empty,
      live_tasks = {3}, live_groups = {4}, task_mem = \<lambda>_. task_default 0, group_mem = \<lambda>_. group_default,
      mgr_mem = [0 \<mapsto> taskmgr_make 0 9 [1] None (\<lambda>_. task_default 0) (\<lambda>_. group_default)],
      c_global = None\<rparr>"


text \<open>
  The global task manager: \<open>init\<close> refuses \<open>NULL\<close>; after it the functions with the suffix \<open>_gbl\<close> are
  those on the given manager; \<open>clear\<close> succeeds once.
\<close>

theorem c_global_life_cycle:
  "c_init None w = Some (Inr (status_code PFUNC_INVALID_ARGUMENTS), (), w)"
  "c_init (Some None) w = Some (Inr (status_code PFUNC_INVALID_ARGUMENTS), (), w)"
  "\<exists>w1. c_init (Some (Some p)) w = Some (Inr (status_code PFUNC_SUCCESS), (), w1) \<and>
        c_wait_gbl loc progress h w1 = c_wait loc progress (Some p) h w1 \<and>
        c_test_gbl h w1 = c_test (Some p) h w1 \<and> c_test_all_gbl hs arr w1 = c_test_all (Some p) hs arr w1 \<and>
        c_thread_id_gbl self w1 = c_thread_id self (Some p) w1 \<and>
        (\<exists>w2. c_clear w1 = Some (Inr (status_code PFUNC_SUCCESS), (), w2) \<and>
              c_clear w2 = Some (Inr (status_code PFUNC_INVALID_ARGUMENTS), (), w2) \<and>
              c_test_gbl h w2 = None)"
  by (simp_all add: c_init_def c_clear_def success_def c_wait_gbl_def c_test_gbl_def c_test_all_gbl_def
      c_thread_id_gbl_def gbl_def c_test_def c_try_def with_mgr_def)

end
