(* ===== verification/Steps.thy ===== *)
theory Steps
  imports Scheduling
begin

text \<open>
  What one action of the machine of \<open>Runtime\<close> does, seen from one task: its attribute, its
  completion event, its place in the queues and on the stacks. The theories on deadlock and
  on fork-join programs share these facts.
\<close>

section \<open>The completion event\<close>

text \<open>The task has been prepared and not been notified.\<close>

definition pending :: "'p task \<Rightarrow> bool" where
  "pending t \<longleftrightarrow> event_state (task_event t) = PFUNC_ACTIVE_INCOMPLETE"

text \<open>Two states of a task that differ at most in how often its completion was tested.\<close>

definition like :: "'p task \<Rightarrow> 'p task \<Rightarrow> bool" where
  "like t t' \<longleftrightarrow> attr t' = attr t \<and> (pending t' \<longleftrightarrow> pending t)"

lemma like_refl [simp, intro]: "like t t"
  by (simp add: like_def)

lemma event_test_state:
  "event_state (snd (event_test e)) = PFUNC_ACTIVE_INCOMPLETE \<longleftrightarrow>
   event_state e = PFUNC_ACTIVE_INCOMPLETE"
  by (simp add: event_test_def event_consts split: prod.splits)

lemma wait_after_wake_state:
  "event_state e \<noteq> PFUNC_ACTIVE_INCOMPLETE \<Longrightarrow>
   event_state (wait_after_wake e) \<noteq> PFUNC_ACTIVE_INCOMPLETE"
  by (simp add: wait_after_wake_def wait_count_def event_consts split: prod.splits)

lemma like_tested: "like t (t\<lparr>testing_compl := snd (event_test (testing_compl t))\<rparr>)"
  by (simp add: like_def pending_def task_event_def event_test_state)

lemma task_test_like: "task_test (t, gs) = (res, t', gs') \<Longrightarrow> like t t'"
proof -
  assume t: "task_test (t, gs) = (res, t', gs')"
  obtain b e where b: "event_test (testing_compl t) = (b, e)" by (cases "event_test (testing_compl t)")
  obtain b2 e2 where b2: "event_test (waiting_compl t) = (b2, e2)" by (cases "event_test (waiting_compl t)")
  show "like t t'"
    using t b b2 event_test_state [of "testing_compl t"] event_test_state [of "waiting_compl t"]
    by (auto simp: task_test_def like_def pending_def task_event_def attr_getters
        split: sum.splits if_splits)
qed

lemma wait_returns_like:
  assumes "wait_returns (t, gs) = Some (t', gs')"
  shows "like t t'" and "is_nested (attr t) \<Longrightarrow> \<not> pending t"
proof -
  obtain e where e: "event_test (testing_compl t) = (True, e)" and
    t': "t' = t\<lparr>testing_compl := snd (event_test e)\<rparr>"
    using assms by (auto simp: wait_returns_def Let_def split: prod.splits bool.splits)
  then show "like t t'"
    using event_test_state [of "testing_compl t"] event_test_state [of e]
    by (simp add: like_def pending_def task_event_def)
  show "\<not> pending t" if "is_nested (attr t)"
    using that e event_test_result [of "testing_compl t"] by (simp add: pending_def task_event_def)
qed

lemma wait_returns_enabled:
  assumes "is_nested (attr t)" and "\<not> pending t"
  shows "\<exists>t' gs'. wait_returns (t, gs) = Some (t', gs')"
proof -
  obtain b e where "event_test (testing_compl t) = (b, e)" by (cases "event_test (testing_compl t)")
  with assms event_test_result [of "testing_compl t"] show ?thesis
    by (auto simp: wait_returns_def Let_def pending_def task_event_def)
qed

text \<open>A wait that does not have to go on: of the main thread, or for an event that blocks.\<close>

lemma task_wait_like:
  assumes "texcept t = None" and "task_wait loc progress (t, gs) = Some (res, t', gs')"
    and "progress = main_progress \<or> progress = (\<lambda>_. None)"
  shows "like t t'" and "\<not> pending t"
proof -
  obtain b e where b: "event_test (testing_compl t) = (b, e)" by (cases "event_test (testing_compl t)")
  have "like t t' \<and> \<not> pending t"
  proof (cases "is_nested (attr t)")
    case True
    with assms b event_test_result [of "testing_compl t"] event_test_state [of "testing_compl t"] show ?thesis
      by (auto simp: task_wait_def pfunc_check_and_rethrow_def main_progress_def attr_getters
          like_def pending_def task_event_def split: if_splits option.splits)
  next
    case False
    with assms wait_after_wake_state [of "waiting_compl t"] show ?thesis
      by (auto simp: task_wait_def pfunc_check_and_rethrow_def attr_getters event_wait_def
          like_def pending_def task_event_def split: if_splits option.splits)
  qed
  then show "like t t'" and "\<not> pending t" by auto
qed

text \<open>\<open>wait\<close> of a nested task in a functor always enters \<open>progress_wait\<close>.\<close>

lemma worker_wait_enters:
  "texcept t = None \<Longrightarrow> is_nested (attr t) \<Longrightarrow> task_wait loc (\<lambda>_. None) (t, gs) = None"
  by (simp add: task_wait_def pfunc_check_and_rethrow_def attr_getters)

lemma finish_task_state:
  assumes "texcept (tasks (mgr r) t) = None"
  shows "tasks (mgr (finish_task loc w t (Inr ()) fs r)) v =
           (if v = t then snd (task_notify (task_run loc (Inr ()) (tasks (mgr r) t))) else tasks (mgr r) v)"
    and "terminated (finish_task loc w t (Inr ()) fs r) = terminated r"
proof -
  have "texcept (task_run loc (Inr ()) (tasks (mgr r) t)) = None" using assms by simp
  from task_notify_ok [OF this] obtain t'
    where n: "task_notify (task_run loc (Inr ()) (tasks (mgr r) t)) = (Inr (), t')" by blast
  then show "tasks (mgr (finish_task loc w t (Inr ()) fs r)) v =
           (if v = t then snd (task_notify (task_run loc (Inr ()) (tasks (mgr r) t))) else tasks (mgr r) v)"
    by (auto simp: finish_task_def Let_def split: list.splits frame.splits option.splits)
  show "terminated (finish_task loc w t (Inr ()) fs r) = terminated r"
    using n by (auto simp: finish_task_def Let_def set_stack_def set_cache_def store_task_def
        split: list.splits frame.splits option.splits)
qed

lemma finished_task_notified:
  assumes "texcept t = None"
  shows "attr (snd (task_notify (task_run loc (Inr ()) t))) = attr t"
    and "\<not> pending (snd (task_notify (task_run loc (Inr ()) t)))"
proof -
  have "texcept (task_run loc (Inr ()) t) = None" using assms by simp
  from task_notify_ok [OF this] obtain t'
    where "task_notify (task_run loc (Inr ()) t) = (Inr (), t')" "same_job (task_run loc (Inr ()) t) t'"
      "event_state (task_event t') = PFUNC_ACTIVE_COMPLETE" by blast
  with task_run_facts(1) [of t loc "Inr ()"]
  show "attr (snd (task_notify (task_run loc (Inr ()) t))) = attr t"
    and "\<not> pending (snd (task_notify (task_run loc (Inr ()) t)))"
    by (simp_all add: same_job_def pending_def event_consts)
qed


section \<open>The kinds of steps\<close>


text \<open>What a step keeps of every task but the one that it spawns or finishes.\<close>

definition tasks_like :: "'p runtime \<Rightarrow> 'p runtime \<Rightarrow> bool" where
  "tasks_like r r' \<longleftrightarrow> (\<forall>v. like (tasks (mgr r) v) (tasks (mgr r') v))"

lemma tasks_like_same: "tasks (mgr r') = tasks (mgr r) \<Longrightarrow> tasks_like r r'"
  by (simp add: tasks_like_def)

lemma tasks_like_upd:
  "tasks (mgr r') = (tasks (mgr r))(u := t) \<Longrightarrow> like (tasks (mgr r) u) t \<Longrightarrow> tasks_like r r'"
  by (simp add: tasks_like_def)

text \<open>The frames of a worker before and after a step that starts and ends no task.\<close>

inductive frame_move :: "'p runtime \<Rightarrow> 'p rt_action \<Rightarrow> u32 \<Rightarrow> 'p frame list \<Rightarrow> bool" for r where
  stay: "frame_move r a w (stacks r w)"
| wait: "stacks r w = Run p c # fs \<Longrightarrow> is_nested (attr (tasks (mgr r) u)) \<Longrightarrow>
    frame_move r (CallWait w u) w (Wait u (cached w r) # stacks r w)"
| waited: "stacks r w = Wait u c # fs \<Longrightarrow> is_nested (attr (tasks (mgr r) u)) \<longrightarrow> \<not> pending (tasks (mgr r) u) \<Longrightarrow>
    frame_move r (WaitDone w) w fs"
| barrier: "stacks r w = Run p c # fs \<Longrightarrow> frame_move r (CallBarrier w) w (Barr None # stacks r w)"
| left: "stacks r w = Barr None # fs \<Longrightarrow> frame_move r (BarrierDone w) w fs"

text \<open>An attempt to get a task: the frames on which the task will stand, and the predicate.\<close>

inductive attempt :: "('p \<Rightarrow> 'p \<Rightarrow> bool) \<Rightarrow> policy \<Rightarrow> 'p runtime \<Rightarrow> u32 \<Rightarrow> task_ptr pred_pair \<Rightarrow> 'p frame list \<Rightarrow> bool"
  for cmp pol r w where
  idle: "stacks r w = [] \<Longrightarrow> is_worker w r \<Longrightarrow> attempt cmp pol r w regular_predicate_pair []"
| waiting: "stacks r w = Wait u c # fs \<Longrightarrow>
    attempt cmp pol r w (waiting_predicate_pair cmp pol (tasks (mgr r)) c) (stacks r w)"
| at_barrier: "stacks r w = Barr None # fs \<Longrightarrow>
    attempt cmp pol r w (group_predicate_pair cmp pol (tasks (mgr r)) (cached w r)) (Barr (Some (cached w r)) # fs)"

inductive_cases attemptE: "attempt cmp pol r w cnd fs"

lemma rt_act_kinds:
  assumes inv: "stack_inv cmp pol r" and ev: "rt_act cmp pol False a r = Some r'"
  obtains
    (spawn) w t at g f x q qs gs where "a = Spawn w t at g f" "in_functor w r \<or> w = num_threads (mgr r)"
      "queue_put pol q t (task_queue (mgr r)) = Some qs" "attr x = at" "pending x"
      "r' = r\<lparr>mgr := (mgr r)\<lparr>tasks := (tasks (mgr r))(t := x), groups_of := gs, task_queue := qs\<rparr>,
              spawned := add_mset t (spawned r)\<rparr>"
  | (take) w i cnd fs r1 where "attempt cmp pol r w cnd fs"
      "try_task cmp pol w i cnd fs r = Some (True, r1)"
      "task_queue (mgr r') = task_queue (mgr r1)" "stacks r' = stacks r1"
      "spawned r' = spawned r1" "started r' = started r1" "finished r' = finished r1" "tasks_like r1 r'"
      "a = Fetch w i \<or> a = WaitGet w i \<or> a = BarrierGet w i"
  | (move) w fs where "frame_move r a w fs" "stacks r' = (stacks r)(w := fs)"
      "task_queue (mgr r') = task_queue (mgr r)" "spawned r' = spawned r" "started r' = started r"
      "finished r' = finished r" "tasks_like r r'"
      "(\<forall>v t at g f. a \<noteq> Spawn v t at g f) \<and> (\<forall>v out. a \<noteq> Finish v out)"
  | (finish) w t c fs where "a = Finish w (Inr ())" "stacks r w = Run t c # fs"
      "r' = finish_task ''taskmgr.hpp'' w t (Inr ()) fs r"
proof -
  note parts = stack_inv_parts [OF inv]
  have ok: "queues_ok (task_queue (mgr r))" "tls_ok (mgr r)" using parts(6) by (auto simp: account_inv_def)
  have id: "(stacks r)(w := stacks r w) = stacks r" for w by simp
  note quiet = move [OF frame_move.stay]
  show thesis
  proof (cases a)
    case (Spawn w t at g f)
    with ev obtain x gs gs0 q qs where w: "in_functor w r \<or> w = num_threads (mgr r)"
      and x: "task_prepare at g f (tasks (mgr r) t, gs0) = (x, gs)"
      and qs: "queue_put pol q t (task_queue (mgr r)) = Some qs"
      and r': "r' = r\<lparr>mgr := (mgr r)\<lparr>tasks := (tasks (mgr r))(t := x), groups_of := gs, task_queue := qs\<rparr>,
              spawned := add_mset t (spawned r)\<rparr>"
      by (auto simp: spawn_task_full_def split: if_splits option.splits prod.splits)
    have "pending x" using task_prepare_facts(5) [OF x] by (simp add: pending_def)
    with spawn [OF Spawn w qs task_prepare_facts(1) [OF x]] r' show thesis by blast
  next
    case (Fetch w i)
    with ev obtain got where st: "stacks r w = []" and w: "is_worker w r"
      and t: "try_task cmp pol w i regular_predicate_pair [] r = Some (got, r')"
      by (auto split: if_splits)
    show thesis
    proof (cases got)
      case True
      with t have "try_task cmp pol w i regular_predicate_pair [] r = Some (True, r')" by simp
      from attempt.idle [OF st w] this show thesis
        by (rule take) (simp_all add: tasks_like_same Fetch)
    next
      case False
      from ok t have "r' = r" by (cases rule: try_task_cases) (use False in auto)
      then show thesis by (intro quiet) (simp_all add: tasks_like_same Fetch)
    qed
  next
    case (CallWait w u)
    let ?p = "if w = num_threads (mgr r) then main_progress else (\<lambda>_. None)"
    show thesis
    proof (cases "task_wait ''task.hpp'' ?p (tasks (mgr r) u, groups_of (mgr r))")
      case None
      with ev CallWait have fn: "in_functor w r" "is_nested (attr (tasks (mgr r) u))"
        and r': "r' = set_stack w (Wait u (cached w r) # stacks r w) r"
        by (auto simp: attr_getters split: if_splits)
      from fn(1) obtain t c fs where st: "stacks r w = Run t c # fs" by (rule in_functor_stack)
      show thesis
        by (rule move [OF frame_move.wait [OF st fn(2), folded CallWait]]) (simp_all add: r' tasks_like_same CallWait)
    next
      case (Some y)
      then obtain res t gs where y: "task_wait ''task.hpp'' ?p (tasks (mgr r) u, groups_of (mgr r)) =
          Some (res, t, gs)" by (cases y) auto
      with ev CallWait have r': "r' = store_groups gs (store_task u t r)" by (auto split: if_splits)
      have "like (tasks (mgr r) u) t" by (rule task_wait_like(1) [OF parts(3) y]) simp
      then show thesis
        by (intro quiet) (simp_all add: r' tasks_like_upd CallWait)
    qed
  next
    case (WaitGet w i)
    with ev obtain u c fs got r1 where st: "stacks r w = Wait u c # fs"
      and t: "try_task cmp pol w i (waiting_predicate_pair cmp pol (tasks (mgr r)) c) (Wait u c # fs) r =
                Some (got, r1)"
      and r': "r' = (if got then store_task u ((tasks (mgr r1) u)
           \<lparr>testing_compl := snd (event_test (testing_compl (tasks (mgr r1) u)))\<rparr>) r1 else r1)"
      by (auto split: list.splits frame.splits)
    show thesis
    proof (cases got)
      case True
      with t st have "try_task cmp pol w i (waiting_predicate_pair cmp pol (tasks (mgr r)) c)
          (stacks r w) r = Some (True, r1)" by simp
      from attempt.waiting [OF st] this show thesis
        by (rule take) (use True in \<open>simp_all add: r' WaitGet tasks_like_upd like_tested\<close>)
    next
      case False
      from ok t have "r1 = r" by (cases rule: try_task_cases) (use False in auto)
      with False r' show thesis by (intro quiet) (simp_all add: tasks_like_same WaitGet)
    qed
  next
    case (WaitDone w)
    with ev obtain u c fs t gs where st: "stacks r w = Wait u c # fs"
      and t: "wait_returns (tasks (mgr r) u, groups_of (mgr r)) = Some (t, gs)"
      and r': "r' = set_stack w fs (store_groups gs (store_task u t r))"
      by (auto split: list.splits frame.splits)
    show thesis
      by (rule move [OF frame_move.waited [OF st, folded WaitDone]])
         (use wait_returns_like [OF t] in \<open>simp_all add: r' WaitDone tasks_like_upd\<close>)
  next
    case (CallTest w u)
    with ev obtain res t gs where t: "task_test (tasks (mgr r) u, groups_of (mgr r)) = (res, t, gs)"
      and r': "r' = store_groups gs (store_task u t r)"
      by (auto split: if_splits prod.splits)
    show thesis
      by (intro quiet) (use task_test_like [OF t] in \<open>simp_all add: r' CallTest tasks_like_upd\<close>)
  next
    case (CallBarrier w)
    with ev have fn: "in_functor w r" and r': "r' = set_stack w (Barr None # stacks r w) r"
      by (auto split: if_splits)
    from fn obtain t c fs where st: "stacks r w = Run t c # fs" by (rule in_functor_stack)
    show thesis
      by (rule move [OF frame_move.barrier [OF st, folded CallBarrier]]) (simp_all add: r' CallBarrier tasks_like_same)
  next
    case (BarrierGet w i)
    with ev obtain fs got r1 where st: "stacks r w = Barr None # fs"
      and t: "try_task cmp pol w i (group_predicate_pair cmp pol (tasks (mgr r)) (cached w r))
                (Barr (Some (cached w r)) # fs) r = Some (got, r1)"
      and r': "r' = (if got then r1 else set_stack w (Barr None # fs) r1)"
      by (auto split: list.splits frame.splits option.splits)
    show thesis
    proof (cases got)
      case True
      with t have "try_task cmp pol w i (group_predicate_pair cmp pol (tasks (mgr r)) (cached w r))
          (Barr (Some (cached w r)) # fs) r = Some (True, r1)" by simp
      from attempt.at_barrier [OF st] this show thesis
        by (rule take) (use True in \<open>simp_all add: r' BarrierGet tasks_like_same\<close>)
    next
      case False
      from ok t have "r1 = r" by (cases rule: try_task_cases) (use False in auto)
      with False r' st show thesis
        by (intro quiet) (simp_all add: tasks_like_same BarrierGet fun_upd_idem)
    qed
  next
    case (BarrierDone w)
    with ev obtain fs where st: "stacks r w = Barr None # fs" and r': "r' = set_stack w fs r"
      by (auto split: list.splits frame.splits option.splits)
    show thesis
      by (rule move [OF frame_move.left [OF st, folded BarrierDone]]) (simp_all add: r' BarrierDone tasks_like_same)
  next
    case (Finish w out)
    with ev obtain t c fs where "stacks r w = Run t c # fs" "out = Inr ()"
      "r' = finish_task ''taskmgr.hpp'' w t out fs r"
      by (auto split: list.splits frame.splits if_splits)
    with Finish finish show thesis by blast
  next
    case Cancel
    show thesis by (intro quiet) (use ev Cancel in \<open>auto simp: tasks_like_same\<close>)
  next
    case (Exit w)
    show thesis by (intro quiet) (use ev Exit in \<open>auto simp: tasks_like_same split: if_splits\<close>)
  qed
qed

text \<open>A task that is taken comes from the queue that offers it.\<close>

lemma try_task_taken:
  assumes "queues_ok (task_queue (mgr r))" and "tls_ok (mgr r)"
    and "try_task cmp pol w i cnd fs r = Some (True, r')"
  obtains t j q rest where
    "offers (policy_pop (\<lambda>t u. compare_task_ptr cmp (tasks (mgr r) t) (tasks (mgr r) u)) pol) cnd q
       (task_queue (mgr r)) j t rest"
    "unat q < unat (num_queues (task_queue (mgr r)))"
    "task_queue (mgr r') = set_queue j rest (task_queue (mgr r))"
    "tasks (mgr r') = tasks (mgr r)" "stacks r' = (stacks r)(w := Run t (tasks (mgr r) t) # fs)"
    "started r' = add_mset t (started r)" "spawned r' = spawned r" "finished r' = finished r"
    "content (task_queue (mgr r)) = add_mset t (content (task_queue (mgr r')))"
proof -
  let ?cmp = "\<lambda>t u. compare_task_ptr cmp (tasks (mgr r) t) (tasks (mgr r) u)"
  from assms(3) obtain a where a: "tls_get w (tls_attr_map (mgr r)) = Some a"
    by (auto simp: try_task_def split: option.splits)
  then have q: "unat (task_queue_number a) < unat (num_queues (task_queue (mgr r)))"
    using assms(2) by (simp add: tls_ok_def)
  from assms(3) a obtain t qs where
    got: "queue_attempt ?cmp pol (task_queue_number a) cnd i (task_queue (mgr r)) = Some (Some t, qs)"
    and r': "r' = set_stack w (Run t (tasks (mgr r) t) # fs)
              (set_cache w (tasks (mgr r) t)
                (r\<lparr>mgr := (mgr r)\<lparr>task_queue := qs\<rparr>, started := add_mset t (started r)\<rparr>))"
    by (auto simp: try_task_def split: option.splits)
  from queue_attempt_cases [OF assms(1), of ?cmp pol "task_queue_number a" cnd i] got obtain rest where
    o: "offers (policy_pop ?cmp pol) cnd (task_queue_number a) (task_queue (mgr r))
       (i mod num_queues (task_queue (mgr r))) t rest"
    and qs: "qs = set_queue (i mod num_queues (task_queue (mgr r))) rest (task_queue (mgr r))" by auto
  from offers_facts(1) [OF assms(1) o] show thesis using r' q o qs by (intro that) auto
qed

lemma finish_task_stack:
  assumes "texcept (tasks (mgr r) t) = None"
  shows "stacks (finish_task loc w t (Inr ()) fs r) =
           (stacks r)(w := case fs of Barr (Some c) # gs \<Rightarrow> Barr None # gs | _ \<Rightarrow> fs)"
proof -
  have "texcept (task_run loc (Inr ()) (tasks (mgr r) t)) = None" using assms by simp
  from task_notify_ok [OF this] obtain t'
    where "task_notify (task_run loc (Inr ()) (tasks (mgr r) t)) = (Inr (), t')" by blast
  then show ?thesis
    by (auto simp: finish_task_def Let_def split: list.splits frame.splits option.splits)
qed

lemma run_started:
  assumes "account_inv r" and "Run t c \<in> set (stacks r w)"
  shows "t \<in># started r"
proof -
  have "t \<in># run_ptrs fs" if "Run t c \<in> set fs" for fs :: "'a frame list"
    using that by (induction fs rule: run_ptrs.induct) auto
  with assms(2) have "t \<in># running r" by (auto simp: running_def set_mset_sum)
  then show ?thesis using assms(1) by (simp add: account_inv_def)
qed

text \<open>What only the destructor, the end of a worker and an exception change.\<close>

lemma rt_act_fixed:
  assumes inv: "stack_inv cmp pol r" and ev: "rt_act cmp pol False a r = Some r'"
  shows "num_threads (mgr r') = num_threads (mgr r)" and "terminated r' = terminated r"
    and "a \<noteq> Cancel \<Longrightarrow> thread_state (mgr r') = thread_state (mgr r)"
    and "\<forall>w. a \<noteq> Exit w \<Longrightarrow> left_loop r' = left_loop r"
proof -
  note tx = stack_inv_parts(3) [OF inv]
  let ?same = "\<lambda>r1. num_threads (mgr r1) = num_threads (mgr r) \<and> terminated r1 = terminated r \<and>
     thread_state (mgr r1) = thread_state (mgr r) \<and> left_loop r1 = left_loop r"
  have att: "?same r1" if "try_task cmp pol w i cnd fs r = Some (got, r1)" for w i cnd fs got r1
    using that by (auto simp: try_task_def set_stack_def set_cache_def cache_put_def split: option.splits)
  have queue: "?same (r\<lparr>mgr := m, spawned := x\<rparr>)" if "spawn_task_full pol w t b g f (mgr r) = Some m"
    for w t b g f m x
    using that by (auto simp: spawn_task_full_def split: option.splits prod.splits)
  have keep [simp]: "terminated (store_task u t r1) = terminated r1" "terminated (store_groups gs r1) = terminated r1"
    "terminated (set_stack w fs r1) = terminated r1" for u t gs w fs r1
    by (simp_all add: store_groups_def store_task_def set_stack_def)
  have fin: "?same (finish_task loc w t (Inr ()) fs r)" for loc w t fs
  proof -
    have "texcept (task_run loc (Inr ()) (tasks (mgr r) t)) = None" using tx by simp
    from task_notify_ok [OF this] obtain t'
      where "task_notify (task_run loc (Inr ()) (tasks (mgr r) t)) = (Inr (), t')" by blast
    then show ?thesis
      by (auto simp: finish_task_def Let_def set_stack_def set_cache_def cache_put_def store_task_def
          split: list.splits frame.splits option.splits)
  qed
  have "?same r' \<or> a = Cancel \<or> (\<exists>w. a = Exit w)"
  proof (cases a)
    case (Spawn w t b g f)
    with ev queue show ?thesis by (auto split: if_splits)
  next
    case (WaitGet w i)
    with ev obtain got r1 u x fs where "try_task cmp pol w i x fs r = Some (got, r1)"
      "r' = (if got then store_task u ((tasks (mgr r1) u)
         \<lparr>testing_compl := snd (event_test (testing_compl (tasks (mgr r1) u)))\<rparr>) r1 else r1)"
      by (auto split: list.splits frame.splits)
    with att show ?thesis by (cases got) auto
  next
    case (BarrierGet w i)
    with ev obtain got r1 x gs fs where "try_task cmp pol w i x gs r = Some (got, r1)"
      "r' = (if got then r1 else set_stack w fs r1)"
      by (auto split: list.splits frame.splits option.splits)
    with att show ?thesis by (cases got) auto
  next
    case (Fetch w i)
    with ev obtain got where "try_task cmp pol w i regular_predicate_pair [] r = Some (got, r')"
      by (auto split: if_splits)
    with att show ?thesis by blast
  next
    case (Finish w out)
    with ev obtain t c fs where "r' = finish_task ''taskmgr.hpp'' w t (Inr ()) fs r"
      by (auto split: list.splits frame.splits if_splits)
    with fin show ?thesis by blast
  next
    case (CallWait w u)
    with ev show ?thesis by (auto split: if_splits option.splits)
  next
    case (WaitDone w)
    with ev show ?thesis by (auto split: list.splits frame.splits)
  next
    case (CallTest w u)
    with ev show ?thesis by (auto split: if_splits prod.splits)
  next
    case (CallBarrier w)
    with ev show ?thesis by (auto split: if_splits)
  next
    case (BarrierDone w)
    with ev show ?thesis by (auto split: list.splits frame.splits option.splits)
  qed auto
  with ev show "num_threads (mgr r') = num_threads (mgr r)" "terminated r' = terminated r"
    "a \<noteq> Cancel \<Longrightarrow> thread_state (mgr r') = thread_state (mgr r)"
    "\<forall>w. a \<noteq> Exit w \<Longrightarrow> left_loop r' = left_loop r"
    by (auto split: if_splits)
qed

end
