(* ===== verification/Fork_Join.thy ===== *)
theory Fork_Join
  imports Steps
begin

text \<open>
  Fork-join programs on the task manager: a task waits only for tasks that it has spawned
  itself, and uses each task for one job. They never get stuck, whatever the policy, the
  number of workers and the order of events, if the tasks that are waited for can be taken:
  with \<open>prioS\<close> a child has a higher priority than its parent, and with \<open>cilkS\<close> the levels are
  left alone. They also survive the destructor, which waits for what has been started. The
  theory \<open>Deadlocks\<close> shows that the provisos are needed.
\<close>

section \<open>Programs\<close>

text \<open>The machine, with the parent of every task and a time stamp for its start.\<close>

record 'p fj =
  rt :: "'p runtime"
  parent :: "task_ptr \<Rightarrow> task_ptr option"
  stamp :: "task_ptr \<Rightarrow> nat"

fun innermost :: "'p frame list \<Rightarrow> task_ptr option" where
  "innermost (Run t c # fs) = Some t"
| "innermost fs = None"

text \<open>What a fork-join program may do next.\<close>

definition polite :: "('p \<Rightarrow> 'p \<Rightarrow> bool) \<Rightarrow> policy \<Rightarrow> 'p rt_action \<Rightarrow> 'p fj \<Rightarrow> bool" where
  "polite cmp pol a s =
     (case a of
        Spawn w t at g f \<Rightarrow>
          t \<notin># spawned (rt s) \<and> (pol = CilkS \<longrightarrow> level at = PFUNC_DEFAULT_TASK_LEVEL) \<and>
          (case innermost (stacks (rt s) w) of
             None \<Rightarrow> True
           | Some p \<Rightarrow> is_nested at \<and>
               (pol = PrioS \<longrightarrow> cmp (priority (attr (tasks (mgr (rt s)) p))) (priority at)))
      | CallWait w u \<Rightarrow>
          (case innermost (stacks (rt s) w) of None \<Rightarrow> True | Some p \<Rightarrow> parent s u = Some p)
      | CallBarrier w \<Rightarrow> False
      | _ \<Rightarrow> True)"

definition fj_after :: "'p rt_action \<Rightarrow> 'p fj \<Rightarrow> 'p runtime \<Rightarrow> 'p fj" where
  "fj_after a s r' =
     \<lparr>rt = r',
      parent = (case a of Spawn w t at g f \<Rightarrow> (parent s)(t := innermost (stacks (rt s) w)) | _ \<Rightarrow> parent s),
      stamp = (\<lambda>t. if count (started (rt s)) t < count (started r') t then size (started r') else stamp s t)\<rparr>"

definition fj_event ::
  "('p \<Rightarrow> 'p \<Rightarrow> bool) \<Rightarrow> policy \<Rightarrow> 'p rt_action \<Rightarrow> 'p fj \<Rightarrow> 'p fj option" where
  "fj_event cmp pol a s =
     (if polite cmp pol a s then map_option (fj_after a s) (rt_event cmp pol False a (rt s)) else None)"

definition fj_start :: "'p fj \<Rightarrow> bool" where
  "fj_start s \<longleftrightarrow> fresh_runtime (rt s) \<and> 0 < num_threads (mgr (rt s)) \<and>
     parent s = (\<lambda>_. None) \<and> stamp s = (\<lambda>_. 0)"

section \<open>The invariant\<close>

fun run_ids :: "'p frame list \<Rightarrow> task_ptr list" where
  "run_ids [] = []"
| "run_ids (Run t c # fs) = t # run_ids fs"
| "run_ids (f # fs) = run_ids fs"

lemma run_ids_in: "t \<in> set (run_ids fs) \<longleftrightarrow> (\<exists>c. Run t c \<in> set fs)"
  by (induction fs rule: run_ids.induct) auto

text \<open>Every wait is for a child of the task below it.\<close>

fun own_waits :: "(task_ptr \<Rightarrow> task_ptr option) \<Rightarrow> 'p frame list \<Rightarrow> bool" where
  "own_waits P [] = True"
| "own_waits P (f # fs) =
     ((case f of Wait u d \<Rightarrow> (case fs of Run p c # gs \<Rightarrow> P u = Some p | _ \<Rightarrow> False)
       | Run t c \<Rightarrow> True | Barr b \<Rightarrow> False) \<and> own_waits P fs)"

lemma own_waits_mono:
  "own_waits P fs \<Longrightarrow> (\<And>u p. P u = Some p \<Longrightarrow> Q u = Some p) \<Longrightarrow> own_waits Q fs"
  by (induction fs) (auto split: frame.splits list.splits)

lemma own_waits_Barr: "own_waits P fs \<Longrightarrow> Barr b \<notin> set fs"
  by (induction fs) (auto split: frame.splits)

text \<open>
  The destructor cancels all threads; a thread leaves its work loop only then, and only with
  an empty stack. \<open>joined\<close>: every call of \<open>join_thread\<close> returns.
\<close>

definition cancelled :: "'p runtime \<Rightarrow> bool" where
  "cancelled r \<longleftrightarrow> True \<in> set (thread_state (mgr r))"

definition joined :: "'p runtime \<Rightarrow> bool" where
  "joined r \<longleftrightarrow> (\<forall>w. unat w < unat (num_threads (mgr r)) \<longrightarrow> left_loop r w)"

definition in_shape :: "'p runtime \<Rightarrow> bool" where
  "in_shape r \<longleftrightarrow> \<not> terminated r \<and> 0 < num_threads (mgr r) \<and>
     thread_state (mgr r) = replicate (unat (num_threads (mgr r))) (cancelled r) \<and>
     (\<forall>w. left_loop r w \<longrightarrow> stacks r w = [] \<and> cancelled r)"

text \<open>Every task is spawned once, and pending until it has finished.\<close>

definition one_shot :: "'p runtime \<Rightarrow> bool" where
  "one_shot r \<longleftrightarrow> (\<forall>t. count (spawned r) t \<le> 1) \<and>
     (\<forall>t\<in>#spawned r. pending (tasks (mgr r) t) \<longleftrightarrow> t \<notin># finished r)"

text \<open>A child can be taken while its parent waits, and starts after it.\<close>

definition family :: "('p \<Rightarrow> 'p \<Rightarrow> bool) \<Rightarrow> policy \<Rightarrow> 'p fj \<Rightarrow> bool" where
  "family cmp pol s \<longleftrightarrow>
     (\<forall>u p. parent s u = Some p \<longrightarrow>
        u \<in># spawned (rt s) \<and> p \<in># started (rt s) \<and> is_nested (attr (tasks (mgr (rt s)) u)) \<and>
        (pol = PrioS \<longrightarrow> cmp (priority (attr (tasks (mgr (rt s)) p))) (priority (attr (tasks (mgr (rt s)) u)))) \<and>
        (u \<in># started (rt s) \<longrightarrow> stamp s p < stamp s u))"

definition flat :: "policy \<Rightarrow> 'p runtime \<Rightarrow> bool" where
  "flat pol r \<longleftrightarrow> (pol = CilkS \<longrightarrow>
     (\<forall>t\<in>#spawned r. level (attr (tasks (mgr r) t)) = PFUNC_DEFAULT_TASK_LEVEL))"

definition stacked :: "'p fj \<Rightarrow> bool" where
  "stacked s \<longleftrightarrow>
     (\<forall>w. own_waits (parent s) (stacks (rt s) w) \<and>
          sorted_wrt (\<lambda>t u. stamp s u < stamp s t) (run_ids (stacks (rt s) w)) \<and>
          (\<forall>p c. Run p c \<in> set (stacks (rt s) w) \<longrightarrow> attr c = attr (tasks (mgr (rt s)) p))) \<and>
     (\<forall>t. stamp s t \<le> size (started (rt s)))"

definition fj_inv :: "('p \<Rightarrow> 'p \<Rightarrow> bool) \<Rightarrow> policy \<Rightarrow> 'p fj \<Rightarrow> bool" where
  "fj_inv cmp pol s \<longleftrightarrow> stack_inv cmp pol (rt s) \<and> ids_ok (rt s) \<and> in_shape (rt s) \<and> one_shot (rt s) \<and>
     family cmp pol s \<and> flat pol (rt s) \<and> stacked s"

lemma fj_invD:
  assumes "fj_inv cmp pol s"
  shows "stack_inv cmp pol (rt s)" "ids_ok (rt s)" "in_shape (rt s)" "one_shot (rt s)" "family cmp pol s"
    "flat pol (rt s)" "stacked s" "account_inv (rt s)"
  using assms stack_inv_parts(6) by (auto simp: fj_inv_def)

text \<open>Where a task that was spawned once can be.\<close>

lemma whereabouts:
  assumes acc: "account_inv r" and one: "one_shot r"
  shows "t \<in># started r \<Longrightarrow> t \<in># spawned r" and "t \<in># finished r \<Longrightarrow> t \<in># started r"
    and "t \<in># content (task_queue (mgr r)) \<Longrightarrow> t \<in># spawned r \<and> t \<notin># started r"
    and "t \<in># spawned r \<Longrightarrow> t \<notin># started r \<Longrightarrow> t \<in># content (task_queue (mgr r))"
    and "t \<in># started r \<Longrightarrow> t \<notin># finished r \<Longrightarrow> \<exists>w c. Run t c \<in> set (stacks r w)"
proof -
  have sum: "spawned r = started r + content (task_queue (mgr r))" "started r = finished r + running r"
    using acc by (auto simp: account_inv_def)
  then show "t \<in># started r \<Longrightarrow> t \<in># spawned r" "t \<in># finished r \<Longrightarrow> t \<in># started r"
    "t \<in># spawned r \<Longrightarrow> t \<notin># started r \<Longrightarrow> t \<in># content (task_queue (mgr r))" by auto
  show "t \<in># spawned r \<and> t \<notin># started r" if "t \<in># content (task_queue (mgr r))"
  proof -
    have "count (spawned r) t \<le> 1" using one by (simp add: one_shot_def)
    moreover have "0 < count (content (task_queue (mgr r))) t"
      using that by (simp only: count_greater_zero_iff)
    ultimately have "count (started r) t = 0" unfolding sum(1) by (simp only: count_union)
    then show ?thesis using that sum(1) by (simp add: not_in_iff)
  qed
  show "\<exists>w c. Run t c \<in> set (stacks r w)" if "t \<in># started r" "t \<notin># finished r"
  proof -
    have "t \<in># running r" using that sum(2) by auto
    then obtain w where "t \<in># run_ptrs (stacks r w)" by (auto simp: running_def set_mset_sum)
    moreover have "t \<in># run_ptrs fs \<Longrightarrow> \<exists>c. Run t c \<in> set fs" for fs :: "'a frame list"
      by (induction fs rule: run_ptrs.induct) auto
    ultimately show ?thesis by blast
  qed
qed

lemma fj_after_sel [simp]:
  "rt (fj_after a s r') = r'"
  "started r' = started (rt s) \<Longrightarrow> stamp (fj_after a s r') = stamp s"
  "(\<And>w t at g f. a \<noteq> Spawn w t at g f) \<Longrightarrow> parent (fj_after a s r') = parent s"
  by (auto simp: fj_after_def split: rt_action.splits)

text \<open>A step that spawns, starts and ends nothing.\<close>

lemma fj_quiet:
  assumes inv: "fj_inv cmp pol s" and st': "stack_inv cmp pol r'" "ids_ok r'" "in_shape r'"
    and same: "spawned r' = spawned (rt s)" "started r' = started (rt s)" "finished r' = finished (rt s)"
    and like: "tasks_like (rt s) r'" and a: "\<And>w t at g f. a \<noteq> Spawn w t at g f"
    and fs: "stacks r' = (stacks (rt s))(w := fs)" "own_waits (parent s) fs"
      "run_ids fs = run_ids (stacks (rt s) w)" "\<And>p c. Run p c \<in> set fs \<Longrightarrow> Run p c \<in> set (stacks (rt s) w)"
  shows "fj_inv cmp pol (fj_after a s r')"
proof -
  note D = fj_invD [OF inv]
  have at: "attr (tasks (mgr r') v) = attr (tasks (mgr (rt s)) v)"
    "pending (tasks (mgr r') v) = pending (tasks (mgr (rt s)) v)" for v
    using like by (auto simp: tasks_like_def like_def)
  have "one_shot r'" "family cmp pol (fj_after a s r')" "flat pol r'"
    using D(4-6) same a at by (simp_all add: one_shot_def family_def flat_def)
  moreover have "stacked (fj_after a s r')"
  proof -
    have "attr c = attr (tasks (mgr (rt s)) p)" if "Run p c \<in> set fs" for p c
      using D(7) fs(4) [OF that] by (simp add: stacked_def)
    then show ?thesis using D(7) same a at fs(1-3) by (simp add: stacked_def)
  qed
  ultimately show ?thesis using st' by (simp add: fj_inv_def)
qed

lemma fj_spawn:
  assumes inv: "fj_inv cmp pol s" and st': "stack_inv cmp pol r'" "ids_ok r'" "in_shape r'"
    and pol: "polite cmp pol a s" and a: "a = Spawn w t at g f" and x: "attr x = at" "pending x"
    and r': "r' = (rt s)\<lparr>mgr := (mgr (rt s))\<lparr>tasks := (tasks (mgr (rt s)))(t := x), groups_of := gs, task_queue := qs\<rparr>,
              spawned := add_mset t (spawned (rt s))\<rparr>"
  shows "fj_inv cmp pol (fj_after a s r')"
proof -
  note D = fj_invD [OF inv] and W = whereabouts [OF fj_invD(8,4) [OF inv]]
  have new: "t \<notin># spawned (rt s)" "t \<notin># started (rt s)" "t \<notin># finished (rt s)"
    using pol a W(1,2) [of t] by (auto simp: polite_def)
  have run: "p \<noteq> t" if "Run p c \<in> set (stacks (rt s) v)" for p c v
    using run_started [OF D(8) that] new by auto
  have top: "p \<in># started (rt s)" if "innermost (stacks (rt s) w) = Some p" for p
  proof -
    from that obtain c where "Run p c \<in> set (stacks (rt s) w)"
      by (cases "stacks (rt s) w" rule: innermost.cases) auto
    then show ?thesis by (rule run_started [OF D(8)])
  qed
  have par: "parent (fj_after a s r') = (parent s)(t := innermost (stacks (rt s) w))"
    by (simp add: fj_after_def a)
  have "parent s t = None"
  proof (cases "parent s t")
    case (Some p)
    then show ?thesis using D(5) new(1) by (auto simp: family_def)
  qed
  have "one_shot r'"
    using D(4) new x by (auto simp: one_shot_def r' not_in_iff)
  moreover have "family cmp pol (fj_after a s r')"
    unfolding family_def
  proof (intro allI impI)
    fix u p assume u: "parent (fj_after a s r') u = Some p"
    show "u \<in># spawned (rt (fj_after a s r')) \<and> p \<in># started (rt (fj_after a s r')) \<and>
        is_nested (attr (tasks (mgr (rt (fj_after a s r'))) u)) \<and>
        (pol = PrioS \<longrightarrow> cmp (priority (attr (tasks (mgr (rt (fj_after a s r'))) p)))
           (priority (attr (tasks (mgr (rt (fj_after a s r'))) u)))) \<and>
        (u \<in># started (rt (fj_after a s r')) \<longrightarrow> stamp (fj_after a s r') p < stamp (fj_after a s r') u)"
    proof (cases "u = t")
      case True
      with u par have i: "innermost (stacks (rt s) w) = Some p" by simp
      with top new have "p \<in># started (rt s)" "p \<noteq> t" by auto
      with i True pol a x new show ?thesis by (auto simp: polite_def r')
    next
      case False
      with u par have "parent s u = Some p" by simp
      with D(5) have f: "u \<in># spawned (rt s)" "p \<in># started (rt s)"
        "is_nested (attr (tasks (mgr (rt s)) u))"
        "pol = PrioS \<longrightarrow> cmp (priority (attr (tasks (mgr (rt s)) p))) (priority (attr (tasks (mgr (rt s)) u)))"
        "u \<in># started (rt s) \<longrightarrow> stamp s p < stamp s u" by (auto simp: family_def)
      then have "p \<noteq> t" using new by auto
      with f False show ?thesis by (simp add: r')
    qed
  qed
  moreover have "flat pol r'" using D(6) pol a x by (auto simp: flat_def r' polite_def)
  moreover have "stacked (fj_after a s r')"
  proof -
    have "own_waits ((parent s)(t := innermost (stacks (rt s) w))) (stacks (rt s) v)" for v
    proof -
      have "own_waits (parent s) (stacks (rt s) v)" using D(7) by (simp add: stacked_def)
      then show ?thesis by (rule own_waits_mono) (use \<open>parent s t = None\<close> in auto)
    qed
    moreover have "stamp (fj_after a s r') = stamp s" by (simp add: r')
    moreover have "attr c = attr (tasks (mgr r') p)" if "Run p c \<in> set (stacks (rt s) v)" for p c v
      using that run [OF that] D(7) by (auto simp: stacked_def r')
    ultimately show ?thesis using D(7) by (simp add: stacked_def par) (simp add: r')
  qed
  ultimately show ?thesis using st' by (simp add: fj_inv_def)
qed

lemma fj_finish:
  assumes inv: "fj_inv cmp pol s" and st': "stack_inv cmp pol r'" "ids_ok r'" "in_shape r'"
    and st: "stacks (rt s) w = Run t c # fs" and a: "a = Finish w (Inr ())"
    and r': "r' = finish_task ''taskmgr.hpp'' w t (Inr ()) fs (rt s)"
  shows "fj_inv cmp pol (fj_after a s r')"
proof -
  note D = fj_invD [OF inv] and W = whereabouts [OF fj_invD(8,4) [OF inv]]
  note tx = stack_inv_parts(3) [OF D(1)]
  have own: "own_waits (parent s) fs"
    using D(7) st by (auto simp: stacked_def dest!: spec [of _ w])
  then have stk: "stacks r' = (stacks (rt s))(w := fs)"
    unfolding r' finish_task_stack [OF tx] by (auto dest: own_waits_Barr split: list.splits frame.splits)
  have t: "t \<in># started (rt s)" by (rule run_started [OF D(8), where w = w and c = c]) (simp add: st)
  have at: "attr (tasks (mgr r') v) = attr (tasks (mgr (rt s)) v)" for v
    unfolding r' finish_task_state [OF tx] by (simp add: finished_task_notified [OF tx])
  have pend: "pending (tasks (mgr r') v) \<longleftrightarrow> pending (tasks (mgr (rt s)) v) \<and> v \<noteq> t" for v
    unfolding r' finish_task_state [OF tx] by (simp add: finished_task_notified [OF tx])
  have same: "spawned r' = spawned (rt s)" "started r' = started (rt s)"
    "finished r' = add_mset t (finished (rt s))"
    by (simp_all add: r' finish_facts)
  have "one_shot r'" using D(4) same pend by (auto simp: one_shot_def)
  moreover have "family cmp pol (fj_after a s r')" "flat pol r'"
    using D(5,6) same at by (simp_all add: family_def flat_def a)
  moreover have "stacked (fj_after a s r')"
    unfolding stacked_def
  proof (intro conjI allI impI)
    fix v show "own_waits (parent (fj_after a s r')) (stacks (rt (fj_after a s r')) v)"
      using D(7) own by (simp add: stacked_def stk a)
    have "sorted_wrt (\<lambda>t u. stamp s u < stamp s t) (run_ids (stacks (rt s) v))" for v
      using D(7) by (simp add: stacked_def)
    from this [of w] this [of v]
    show "sorted_wrt (\<lambda>t u. stamp (fj_after a s r') u < stamp (fj_after a s r') t)
        (run_ids (stacks (rt (fj_after a s r')) v))"
      using same by (simp add: stk st)
    fix p c assume "Run p c \<in> set (stacks (rt (fj_after a s r')) v)"
    then have "Run p c \<in> set (stacks (rt s) v)" using st by (auto simp: stk split: if_splits)
    then show "attr c = attr (tasks (mgr (rt (fj_after a s r'))) p)"
      using D(7) at by (simp add: stacked_def)
  next
    fix v show "stamp (fj_after a s r') v \<le> size (started (rt (fj_after a s r')))"
      using D(7) same by (simp add: stacked_def)
  qed
  ultimately show ?thesis using st' by (simp add: fj_inv_def)
qed

lemma fj_take:
  assumes inv: "fj_inv cmp pol s" and st': "stack_inv cmp pol r'" "ids_ok r'" "in_shape r'"
    and a: "a = Fetch w i \<or> a = WaitGet w i \<or> a = BarrierGet w i"
    and att: "attempt cmp pol (rt s) w cnd fs"
    and got: "try_task cmp pol w i cnd fs (rt s) = Some (True, r1)"
    and r': "task_queue (mgr r') = task_queue (mgr r1)" "stacks r' = stacks r1"
      "spawned r' = spawned r1" "started r' = started r1" "finished r' = finished r1" "tasks_like r1 r'"
  shows "fj_inv cmp pol (fj_after a s r')"
proof -
  note D = fj_invD [OF inv] and W = whereabouts [OF fj_invD(8,4) [OF inv]]
  have ok: "queues_ok (task_queue (mgr (rt s)))" "tls_ok (mgr (rt s))"
    using D(8) by (auto simp: account_inv_def)
  from ok got obtain t j q rest where
    "offers (policy_pop (\<lambda>t u. compare_task_ptr cmp (tasks (mgr (rt s)) t) (tasks (mgr (rt s)) u)) pol) cnd q
       (task_queue (mgr (rt s))) j t rest" "unat q < unat (num_queues (task_queue (mgr (rt s))))"
    "task_queue (mgr r1) = set_queue j rest (task_queue (mgr (rt s)))"
    and r1: "tasks (mgr r1) = tasks (mgr (rt s))"
      "stacks r1 = (stacks (rt s))(w := Run t (tasks (mgr (rt s)) t) # fs)"
      "started r1 = add_mset t (started (rt s))" "spawned r1 = spawned (rt s)" "finished r1 = finished (rt s)"
      "content (task_queue (mgr (rt s))) = add_mset t (content (task_queue (mgr r1)))"
    by (rule try_task_taken)
  have t: "t \<in># spawned (rt s)" "t \<notin># started (rt s)" using W(3) [of t] r1(6) by auto
  have at: "attr (tasks (mgr r') v) = attr (tasks (mgr (rt s)) v)"
    "pending (tasks (mgr r') v) = pending (tasks (mgr (rt s)) v)" for v
    using r'(6) r1(1) by (auto simp: tasks_like_def like_def)
  have par: "parent (fj_after a s r') = parent s" using a by auto
  have stamp: "stamp (fj_after a s r') = (stamp s)(t := Suc (size (started (rt s))))"
    using r'(4) r1(3) by (auto simp: fj_after_def fun_eq_iff)
  have small: "stamp s v \<le> size (started (rt s))" for v using D(7) by (simp add: stacked_def)
  have stk: "stacks r' = (stacks (rt s))(w := Run t (tasks (mgr (rt s)) t) # fs)" using r'(2) r1(2) by simp
  have old: "own_waits (parent s) (stacks (rt s) v)"
      "sorted_wrt (\<lambda>t u. stamp s u < stamp s t) (run_ids (stacks (rt s) v))"
      "Run p c \<in> set (stacks (rt s) v) \<Longrightarrow> attr c = attr (tasks (mgr (rt s)) p)" for v p c
    using D(7) by (auto simp: stacked_def)
  have fs: "fs = stacks (rt s) w"
    using att old(1) [of w] by cases auto
  have other: "v \<noteq> t" if "v \<in> set (run_ids (stacks (rt s) u))" for v u
    using that run_started [OF D(8)] t(2) by (auto simp: run_ids_in)
  have "one_shot r'" using D(4) r' r1 at by (simp add: one_shot_def)
  moreover have "flat pol r'" using D(6) r' r1 at by (simp add: flat_def)
  moreover have "family cmp pol (fj_after a s r')"
    unfolding family_def par stamp
  proof (intro allI impI)
    fix u p assume "parent s u = Some p"
    with D(5) have f: "u \<in># spawned (rt s)" "p \<in># started (rt s)"
      "is_nested (attr (tasks (mgr (rt s)) u))"
      "pol = PrioS \<longrightarrow> cmp (priority (attr (tasks (mgr (rt s)) p))) (priority (attr (tasks (mgr (rt s)) u)))"
      "u \<in># started (rt s) \<longrightarrow> stamp s p < stamp s u" by (auto simp: family_def)
    moreover have "p \<noteq> t" using f(2) t(2) by auto
    moreover have "stamp s p < Suc (size (started (rt s)))" using small [of p] by simp
    ultimately show "u \<in># spawned (rt (fj_after a s r')) \<and> p \<in># started (rt (fj_after a s r')) \<and>
        is_nested (attr (tasks (mgr (rt (fj_after a s r'))) u)) \<and>
        (pol = PrioS \<longrightarrow> cmp (priority (attr (tasks (mgr (rt (fj_after a s r'))) p)))
           (priority (attr (tasks (mgr (rt (fj_after a s r'))) u)))) \<and>
        (u \<in># started (rt (fj_after a s r')) \<longrightarrow>
           ((stamp s)(t := Suc (size (started (rt s))))) p < ((stamp s)(t := Suc (size (started (rt s))))) u)"
      using r' r1 at by auto
  qed
  moreover have "stacked (fj_after a s r')"
    unfolding stacked_def par stamp
  proof (intro conjI allI impI)
    fix v show "own_waits (parent s) (stacks (rt (fj_after a s r')) v)"
      using old(1) fs by (simp add: stk)
    have "sorted_wrt (\<lambda>t' u. ((stamp s)(t := x)) u < ((stamp s)(t := x)) t') (run_ids (stacks (rt s) v))" for v x
      by (rule sorted_wrt_mono_rel [OF _ old(2)]) (use other in auto)
    then show "sorted_wrt (\<lambda>t' u. ((stamp s)(t := Suc (size (started (rt s))))) u
         < ((stamp s)(t := Suc (size (started (rt s))))) t') (run_ids (stacks (rt (fj_after a s r')) v))"
      using other small by (auto simp: stk fs less_Suc_eq_le)
    fix p c assume "Run p c \<in> set (stacks (rt (fj_after a s r')) v)"
    then show "attr c = attr (tasks (mgr (rt (fj_after a s r'))) p)"
      using old(3) at by (auto simp: stk fs split: if_splits)
  next
    fix v show "((stamp s)(t := Suc (size (started (rt s))))) v \<le> size (started (rt (fj_after a s r')))"
      using small [of v] r'(4) r1(3) by auto
  qed
  ultimately show ?thesis using st' by (simp add: fj_inv_def)
qed

text \<open>A worker that has left its loop does nothing any more.\<close>

lemma left_idle:
  assumes inv: "stack_inv cmp pol r" and act: "rt_act cmp pol False a r = Some r'"
    and v: "left_loop r v" "stacks r v = []"
  shows "stacks r' v = []"
  using inv act
proof (cases rule: rt_act_kinds)
  case spawn
  with v show ?thesis by simp
next
  case (take w i cnd fs r1)
  have ok: "queues_ok (task_queue (mgr r))" "tls_ok (mgr r)"
    using stack_inv_parts(6) [OF inv] by (auto simp: account_inv_def)
  from take(1) v have "v \<noteq> w" by cases (auto simp: is_worker_def)
  moreover from try_task_taken [OF ok take(2)] obtain t where
    "stacks r1 = (stacks r)(w := Run t (tasks (mgr r) t) # fs)" by metis
  ultimately show ?thesis using v take(4) by simp
next
  case (move w fs)
  from move(1) v have "v = w \<Longrightarrow> fs = []" by cases auto
  with move(2) v show ?thesis by auto
next
  case (finish w t c fs)
  with v have "v \<noteq> w" by auto
  with finish(3) v finish_task_stack [OF stack_inv_parts(3) [OF inv], of "''taskmgr.hpp''" w t fs] show ?thesis by simp
qed

lemma in_shape_step:
  assumes inv: "stack_inv cmp pol r" and shape: "in_shape r" and act: "rt_act cmp pol False a r = Some r'"
  shows "in_shape r'"
proof -
  note fixed = rt_act_fixed [OF inv act]
  have idle: "stacks r' v = []" if "left_loop r v" for v
    using left_idle [OF inv act that] shape that by (simp add: in_shape_def)
  have n: "0 < unat (num_threads (mgr r))" using shape by (simp add: in_shape_def word_less_nat_alt)
  consider "a = Cancel" | w where "a = Exit w" | "a \<noteq> Cancel" "\<forall>w. a \<noteq> Exit w" by blast
  then show ?thesis
  proof cases
    case 1
    with act have r': "r' = r\<lparr>mgr := cancel_all (mgr r)\<rparr>" by simp
    have "length (thread_state (mgr r)) = unat (num_threads (mgr r))"
      using shape by (metis in_shape_def length_replicate)
    with r' n have "thread_state (mgr r') = replicate (unat (num_threads (mgr r))) True" "cancelled r'"
      by (auto simp: cancel_all_def cancelled_def map_replicate_const)
    with shape r' show ?thesis by (simp add: in_shape_def)
  next
    case (2 w)
    with act have w: "is_worker w r" "stacks r w = []" "thread_state (mgr r) ! unat w"
      and r': "r' = r\<lparr>left_loop := (left_loop r)(w := True)\<rparr>" by (auto split: if_splits)
    from w(1,3) shape have "cancelled r" by (auto simp: in_shape_def is_worker_def)
    with w(2) shape r' show ?thesis by (simp add: in_shape_def cancelled_def)
  next
    case 3
    with fixed shape idle show ?thesis by (simp add: in_shape_def cancelled_def)
  qed
qed

text \<open>Every polite step keeps the invariant.\<close>

lemma fj_step:
  assumes inv: "fj_inv cmp pol s" and ev: "fj_event cmp pol a s = Some s'"
  shows "fj_inv cmp pol s'"
proof -
  note D = fj_invD [OF inv]
  from ev obtain r' where pol: "polite cmp pol a s" and e: "rt_event cmp pol False a (rt s) = Some r'"
    and s': "s' = fj_after a s r'" by (auto simp: fj_event_def split: if_splits)
  from e have act: "rt_act cmp pol False a (rt s) = Some r'" by (rule rt_event_act)
  have st': "stack_inv cmp pol r'" "ids_ok r'" by (rule rt_act_stack [OF D(1) act], rule rt_act_ids [OF D(2) act])
  have "in_shape r'"
    by (rule in_shape_step [OF D(1,3) act])
  note st' = st' this
  have "fj_inv cmp pol (fj_after a s r')"
    using D(1) act
  proof (cases rule: rt_act_kinds)
    case (spawn w t at g f x q qs gs)
    show ?thesis by (rule fj_spawn [OF inv st' pol spawn(1,4,5,6)])
  next
    case (take w i cnd fs r1)
    show ?thesis by (rule fj_take [OF inv st' take(9,1-8)])
  next
    case (move w fs)
    have own: "own_waits (parent s) (stacks (rt s) v)" for v using D(7) by (simp add: stacked_def)
    have "own_waits (parent s) fs \<and> run_ids fs = run_ids (stacks (rt s) w) \<and>
        (\<forall>p c. Run p c \<in> set fs \<longrightarrow> Run p c \<in> set (stacks (rt s) w))"
      using move(1)
    proof cases
      case (wait p c gs u)
      with pol own [of w] show ?thesis by (auto simp: polite_def)
    next
      case (waited u c)
      with own [of w] show ?thesis by auto
    next
      case barrier
      with pol show ?thesis by (simp add: polite_def)
    next
      case left
      with own [of w] show ?thesis by simp
    qed (use own in auto)
    with fj_quiet [OF inv st' move(4-7) _ move(2)] move(8) show ?thesis by blast
  next
    case (finish w t c fs)
    show ?thesis by (rule fj_finish [OF inv st' finish(2,1,3)])
  qed
  then show ?thesis by (simp add: s')
qed

lemma fj_start_inv:
  assumes "fj_start s"
  shows "fj_inv cmp pol s"
proof -
  from assms have fr: "fresh_runtime (rt s)" and n: "0 < num_threads (mgr (rt s))"
    and ghost: "parent s = (\<lambda>_. None)" "stamp s = (\<lambda>_. 0)" by (auto simp: fj_start_def)
  from fr obtain prio_min thds gs where "rt s = fresh prio_min thds gs" by (auto simp: fresh_runtime_def)
  then have r: "stacks (rt s) = (\<lambda>_. [])" "spawned (rt s) = {#}" "started (rt s) = {#}"
    "in_shape (rt s)"
    using n by (auto simp: fresh_def runtime_start_def in_shape_def cancelled_def taskmgr_make_def Let_def)
  then show ?thesis
    using fresh_stack_inv [OF fr] ghost
    by (simp add: fj_inv_def one_shot_def family_def flat_def stacked_def)
qed

interpretation fj: invariant_system fj_start "step_of (fj_event cmp pol)" "fj_inv cmp pol"
  for cmp :: "'p \<Rightarrow> 'p \<Rightarrow> bool" and pol
  by unfold_locales (auto elim!: step_ofE intro: fj_step fj_start_inv)

section \<open>The work that is left\<close>

fun num_waits :: "'p frame list \<Rightarrow> nat" where
  "num_waits [] = 0"
| "num_waits (Wait u d # fs) = Suc (num_waits fs)"
| "num_waits (f # fs) = num_waits fs"

definition work :: "'p runtime \<Rightarrow> nat" where
  "work r = 3 * size (content (task_queue (mgr r))) + 2 * size (running r) +
     (\<Sum>w\<in>UNIV. num_waits (stacks r w)) +
     card {w. unat w < unat (num_threads (mgr r)) \<and> \<not> left_loop r w}"

text \<open>
  What the workers do by themselves: get a task, end a wait, come to the end of a functor, or
  leave the work loop.
  An attempt that finds no task is not counted.
\<close>

definition busy_event ::
  "('p \<Rightarrow> 'p \<Rightarrow> bool) \<Rightarrow> policy \<Rightarrow> 'p rt_action \<Rightarrow> 'p fj \<Rightarrow> 'p fj option" where
  "busy_event cmp pol a s =
     (case fj_event cmp pol a s of
        None \<Rightarrow> None
      | Some s' \<Rightarrow>
          if (case a of
                Fetch w i \<Rightarrow> size (started (rt s)) < size (started (rt s'))
              | WaitGet w i \<Rightarrow> size (started (rt s)) < size (started (rt s'))
              | WaitDone w \<Rightarrow> True
              | Finish w out \<Rightarrow> True
              | Exit w \<Rightarrow> True
              | _ \<Rightarrow> False)
          then Some s' else None)"

lemma waits_upd:
  assumes "stacks r' = (stacks r)(w := fs)"
  shows "(\<Sum>v\<in>UNIV. num_waits (stacks r' v)) + num_waits (stacks r w) =
         (\<Sum>v\<in>UNIV. num_waits (stacks r v)) + num_waits fs"
proof -
  have fin: "finite (UNIV :: u32 set)" by simp
  have "(\<Sum>v\<in>UNIV. num_waits (stacks r' v)) = num_waits fs + (\<Sum>v\<in>UNIV - {w}. num_waits (stacks r v))"
    by (subst sum.remove [OF fin UNIV_I, of _ w]) (simp add: assms)
  moreover have "(\<Sum>v\<in>UNIV. num_waits (stacks r v)) =
      num_waits (stacks r w) + (\<Sum>v\<in>UNIV - {w}. num_waits (stacks r v))"
    by (rule sum.remove [OF fin UNIV_I])
  ultimately show ?thesis by simp
qed

lemma work_upd:
  assumes "stacks r' = (stacks r)(w := fs)"
    and "size (content (task_queue (mgr r'))) + k = size (content (task_queue (mgr r)))"
    and "left_loop r' = left_loop r" and "num_threads (mgr r') = num_threads (mgr r)"
  shows "work r' + 2 * size (run_ptrs (stacks r w)) + num_waits (stacks r w) + 3 * k =
         work r + 2 * size (run_ptrs fs) + num_waits fs"
  using waits_upd [OF assms(1)] arg_cong [OF running_upd [OF assms(1)], of size] assms(2-4)
  by (simp add: work_def)

lemma busy_step:
  assumes inv: "fj_inv cmp pol s" and ev: "busy_event cmp pol a s = Some s'"
  shows "work (rt s') < work (rt s)" and "spawned (rt s') = spawned (rt s)"
    and "fj_event cmp pol a s = Some s'" and "cancelled (rt s') = cancelled (rt s)"
proof -
  note D = fj_invD [OF inv]
  from ev show e: "fj_event cmp pol a s = Some s'"
    by (auto simp: busy_event_def split: option.splits if_splits)
  then obtain r' where "rt_event cmp pol False a (rt s) = Some r'" and s': "rt s' = r'"
    by (auto simp: fj_event_def split: if_splits)
  then have act: "rt_act cmp pol False a (rt s) = Some r'" by (auto dest: rt_event_act)
  have ok: "queues_ok (task_queue (mgr (rt s)))" "tls_ok (mgr (rt s))"
    using D(8) by (auto simp: account_inv_def)
  have kind: "(\<exists>w i. a = Fetch w i \<and> started r' \<noteq> started (rt s)) \<or>
      (\<exists>w i. a = WaitGet w i \<and> started r' \<noteq> started (rt s)) \<or> (\<exists>w. a = WaitDone w) \<or> (\<exists>w out. a = Finish w out) \<or> (\<exists>w. a = Exit w)"
    using ev e s' by (auto simp: busy_event_def split: rt_action.splits if_splits)
  note fixed = rt_act_fixed [OF D(1) act]
  have ts: "thread_state (mgr r') = thread_state (mgr (rt s))" using kind by (intro fixed(3)) auto
  have "work r' < work (rt s) \<and> spawned r' = spawned (rt s)"
  proof (cases "(\<exists>w. a = WaitDone w) \<or> (\<exists>w. a = Exit w)")
    case True
    then consider w where "a = WaitDone w" | w where "a = Exit w" by blast
    then show ?thesis
    proof cases
      case (1 w)
      note a = this
      with act obtain u c fs where st: "stacks (rt s) w = Wait u c # fs"
        and r': "stacks r' = (stacks (rt s))(w := fs)" "task_queue (mgr r') = task_queue (mgr (rt s))"
          "spawned r' = spawned (rt s)"
        by (auto split: list.splits frame.splits)
      show ?thesis using work_upd [OF r'(1), of 0] r'(2,3) st fixed a by simp
    next
      case (2 w)
      let ?in = "\<lambda>r. {v. unat v < unat (num_threads (mgr r)) \<and> \<not> left_loop r v}"
      from act 2 have w: "is_worker w (rt s)"
        and r': "r' = (rt s)\<lparr>left_loop := (left_loop (rt s))(w := True)\<rparr>" by (auto split: if_splits)
      then have "?in (rt s) = insert w (?in r')" "w \<notin> ?in r'" by (auto simp: is_worker_def)
      then have "card (?in (rt s)) = Suc (card (?in r'))" by simp
      moreover have "running r' = running (rt s)" by (rule running_cong) (simp add: r')
      ultimately show ?thesis by (simp add: work_def r')
    qed
  next
    case False
    then have ll: "left_loop r' = left_loop (rt s)" using fixed(4) by auto
    note work_upd = work_upd [OF _ _ ll fixed(1)]
    from D(1) act show ?thesis
    proof (cases rule: rt_act_kinds)
      case spawn
      with kind show ?thesis by auto
    next
      case (take w i cnd fs r1)
      from ok take(2) obtain t i q rest where
        "offers (policy_pop (\<lambda>t u. compare_task_ptr cmp (tasks (mgr (rt s)) t) (tasks (mgr (rt s)) u)) pol)
           cnd q (task_queue (mgr (rt s))) i t rest" "unat q < unat (num_queues (task_queue (mgr (rt s))))"
        "task_queue (mgr r1) = set_queue i rest (task_queue (mgr (rt s)))"
        and r1: "tasks (mgr r1) = tasks (mgr (rt s))"
          "stacks r1 = (stacks (rt s))(w := Run t (tasks (mgr (rt s)) t) # fs)"
          "started r1 = add_mset t (started (rt s))" "spawned r1 = spawned (rt s)"
          "finished r1 = finished (rt s)"
          "content (task_queue (mgr (rt s))) = add_mset t (content (task_queue (mgr r1)))"
        by (rule try_task_taken)
      have "own_waits (parent s) (stacks (rt s) w)" using D(7) by (simp add: stacked_def)
      with take(1) have fs: "fs = stacks (rt s) w" by cases auto
      have "stacks r' = (stacks (rt s))(w := Run t (tasks (mgr (rt s)) t) # fs)" using take(4) r1(2) by simp
      from work_upd [OF this, of 1] r1(4,6) take(3,5) fs show ?thesis by simp
    next
      case (move w fs)
      with kind False show ?thesis by auto
    next
      case (finish w t c fs)
      have own: "own_waits (parent s) (stacks (rt s) w)" using D(7) by (simp add: stacked_def)
      have st: "stacks r' = (stacks (rt s))(w := fs)"
        unfolding finish(3) finish_task_stack [OF stack_inv_parts(3) [OF D(1)]]
        using own by (auto simp: finish(2) split: list.splits frame.splits)
      show ?thesis
        using work_upd [OF st, of 0] finish(2) by (simp add: finish(3) finish_facts)
    qed
  qed
  then show "work (rt s') < work (rt s)" "spawned (rt s') = spawned (rt s)" by (auto simp: s')
  show "cancelled (rt s') = cancelled (rt s)" using ts by (simp add: cancelled_def s')
qed

section \<open>There is always something to do\<close>

lemma pop_acceptable:
  assumes "u \<in> set q" and "pol \<noteq> PrioS \<Longrightarrow> \<forall>t\<in>set q. acc t"
    and "pol = PrioS \<Longrightarrow> strict_weak cmp \<and> (\<forall>t\<in>set q. \<not> cmp t u \<longrightarrow> acc t)"
  shows "\<exists>t rest. policy_pop cmp pol own q = Some (t, rest) \<and> acc t"
proof (cases "pol = PrioS")
  case True
  with assms(3) have "acc (prio_top cmp q)"
    using prio_top_max [OF _ assms(1)] prio_top_in [of q cmp] assms(1) by fastforce
  with True assms(1) show ?thesis by (auto simp: policy_pop_def prio_pop_def)
next
  case False
  with assms(1,2) show ?thesis
    by (cases pol; cases q) (auto simp: policy_pop_def head_pop_def cilk_pop_def)
qed

lemma content_in: "u \<in># content s \<longleftrightarrow> (\<exists>x\<in>set (queues s). u \<in> set x)"
proof -
  have "u \<in># (\<Sum>q\<leftarrow>qs. mset q) \<longleftrightarrow> (\<exists>x\<in>set qs. u \<in> set x)" for qs :: "'a list list"
    by (induction qs) auto
  then show ?thesis by (simp add: content_def)
qed

lemma try_task_gets:
  fixes cnd cmp r
  defines "C \<equiv> \<lambda>t u. compare_task_ptr cmp (tasks (mgr r) t) (tasks (mgr r) u)"
  assumes ok: "queues_ok (task_queue (mgr r))" "tls_ok (mgr r)" and a: "tls_get w (tls_attr_map (mgr r)) = Some a"
    and u: "u \<in># content (task_queue (mgr r))" and cnd: "cnd = both_preds acc"
    and acc: "pol \<noteq> PrioS \<Longrightarrow> \<forall>t\<in>#content (task_queue (mgr r)). acc t"
      "pol = PrioS \<Longrightarrow> strict_weak C \<and> (\<forall>t\<in>#content (task_queue (mgr r)). \<not> C t u \<longrightarrow> acc t)"
  shows "\<exists>i r1. try_task cmp pol w i cnd fs r = Some (True, r1) \<and>
           size (started r1) = Suc (size (started r))"
proof -
  let ?s = "task_queue (mgr r)"
  have q: "unat (task_queue_number a) < unat (num_queues ?s)" using ok(2) a by (simp add: tls_ok_def)
  from u obtain x where "x \<in> set (queues ?s)" and ux: "u \<in> set x"
    by (auto simp: content_in)
  then obtain j where j: "j < length (queues ?s)" "queues ?s ! j = x" by (auto simp: in_set_conv_nth)
  then have i: "unat (of_nat j :: u32) = j" using ok(1) by (simp add: queues_ok_def unat_of_nat32)
  have sub: "set x \<subseteq> set_mset (content ?s)"
    using \<open>x \<in> set (queues ?s)\<close> by (auto simp: content_in)
  have "\<exists>t rest. policy_pop C pol (of_nat j = task_queue_number a) x = Some (t, rest) \<and> acc t"
    by (rule pop_acceptable [OF ux]) (use acc sub in auto)
  then obtain t rest where "offers (policy_pop C pol) cnd (task_queue_number a) ?s (of_nat j) t rest"
    using j i cnd by (auto simp: offers_def may_take_def)
  moreover have "(of_nat j :: u32) mod num_queues ?s = of_nat j"
  proof -
    have "unat (of_nat j :: u32) < unat (num_queues ?s)" using i j ok(1) by (simp add: queues_ok_def)
    then show ?thesis by (simp add: word_unat_eq_iff unat_mod)
  qed
  ultimately obtain v qs where "queue_attempt C pol (task_queue_number a) cnd (of_nat j) ?s = Some (Some v, qs)"
    using queue_attempt_cases [OF ok(1), of C pol "task_queue_number a" cnd "of_nat j"] by auto
  with a have "\<exists>r1. try_task cmp pol w (of_nat j) cnd fs r = Some (True, r1) \<and> size (started r1) = Suc (size (started r))"
    by (simp add: try_task_def C_def)
  then show ?thesis by blast
qed

lemma worker_tls:
  assumes "ids_ok r" and "unat w < unat (num_threads (mgr r))"
  obtains a where "tls_get w (tls_attr_map (mgr r)) = Some a"
proof -
  have "current_thread_id w (mgr r) = Some w" using assms by (simp add: ids_ok_def)
  then show thesis using that by (auto simp: current_thread_id_def)
qed

lemma busyI:
  assumes "rt_event cmp pol False a (rt s) = Some r'" and "polite cmp pol a s"
    and "(\<exists>w i. a = Fetch w i \<and> size (started (rt s)) < size (started r')) \<or>
      (\<exists>w i. a = WaitGet w i \<and> size (started (rt s)) < size (started r')) \<or> (\<exists>w. a = WaitDone w) \<or> (\<exists>w out. a = Finish w out) \<or> (\<exists>w. a = Exit w)"
  shows "\<exists>s'. busy_event cmp pol a s = Some s'"
  using assms by (auto simp: busy_event_def fj_event_def)

text \<open>The awaited child is queued: the worker gets some task.\<close>

lemma waiter_gets:
  assumes inv: "fj_inv cmp pol s" and weak: "pol = PrioS \<Longrightarrow> strict_weak cmp"
    and st: "stacks (rt s) w = Wait u d # Run p c # fs" and u: "u \<in># content (task_queue (mgr (rt s)))"
  shows "\<exists>a s'. busy_event cmp pol a s = Some s'"
proof -
  note D = fj_invD [OF inv] and W = whereabouts [OF fj_invD(8,4) [OF inv]]
  let ?tasks = "tasks (mgr (rt s))"
  have ok: "queues_ok (task_queue (mgr (rt s)))" "tls_ok (mgr (rt s))"
    using D(8) by (auto simp: account_inv_def)
  have w: "unat w < unat (num_threads (mgr (rt s)))" using stack_inv_parts(4) [OF D(1), of w] st by simp
  obtain a where a: "tls_get w (tls_attr_map (mgr (rt s))) = Some a" by (rule worker_tls [OF D(2) w])
  have own: "own_waits (parent s) (stacks (rt s) w)" "attr c = attr (?tasks p)"
    using D(7) st by (auto simp: stacked_def dest: spec [of _ w])
  have up: "parent s u = Some p" using own(1) st by simp
  then have pr: "pol = PrioS \<longrightarrow> cmp (priority (attr (?tasks p))) (priority (attr (?tasks u)))"
    "p \<in># started (rt s)" using D(5) by (auto simp: family_def)
  have "same_info d c" using stack_inv_parts(1) [OF D(1), of w] st by simp
  then have d: "attr d = attr (?tasks p)" using own(2) by (simp add: same_info_def)
  let ?acc = "\<lambda>t. waiting_own_pred cmp pol d (?tasks t)"
  have flat: "level (attr (?tasks t)) = PFUNC_DEFAULT_TASK_LEVEL" if "pol = CilkS" "t \<in># spawned (rt s)" for t
    using D(6) that by (auto simp: flat_def)
  have acc1: "\<forall>t\<in>#content (task_queue (mgr (rt s))). ?acc t" if "pol \<noteq> PrioS"
  proof
    fix t assume t: "t \<in># content (task_queue (mgr (rt s)))"
    show "?acc t"
      using that flat [of t] flat [of p] W(3) [OF t] W(1) [OF pr(2)] d
      by (cases pol) (simp_all add: waiting_own_pred_def task_get_attr_def get_level_def)
  qed
  have acc2: "strict_weak (\<lambda>t u. compare_task_ptr cmp (?tasks t) (?tasks u)) \<and>
      (\<forall>t\<in>#content (task_queue (mgr (rt s))). \<not> compare_task_ptr cmp (?tasks t) (?tasks u) \<longrightarrow> ?acc t)"
    if "pol = PrioS"
  proof (intro conjI ballI impI)
    note sw = strict_weak_facts [OF weak [OF that]]
    show "strict_weak (\<lambda>t u. compare_task_ptr cmp (?tasks t) (?tasks u))"
      unfolding strict_weak_def compare_task_ptr_def using sw by blast
    fix t assume "\<not> compare_task_ptr cmp (?tasks t) (?tasks u)"
    then show "?acc t"
      using sw(3) [of "priority (attr (?tasks p))" "priority (attr (?tasks t))" "priority (attr (?tasks u))"]
        pr(1) that d
      by (auto simp: waiting_prio compare_task_ptr_def task_get_attr_def get_priority_def)
  qed
  from try_task_gets [OF ok a u refl acc1 acc2, where pol = pol and fs = "Wait u d # Run p c # fs"] obtain i r1
    where "try_task cmp pol w i (waiting_predicate_pair cmp pol ?tasks d) (Wait u d # Run p c # fs) (rt s) =
        Some (True, r1)" "size (started r1) = Suc (size (started (rt s)))"
    by (auto simp: waiting_predicate_pair_def)
  with D(3) st have "\<exists>r'. rt_event cmp pol False (WaitGet w i) (rt s) = Some r' \<and>
      size (started (rt s)) < size (started r')"
    by (simp add: rt_event_def in_shape_def)
  then show ?thesis using busyI [of cmp pol "WaitGet w i" s] by (auto simp: polite_def)
qed

text \<open>Nothing runs, and a task is queued: the first worker fetches one.\<close>

lemma idle_fetches:
  assumes inv: "fj_inv cmp pol s" and weak: "pol = PrioS \<Longrightarrow> strict_weak cmp"
    and st: "stacks (rt s) 0 = []" and u: "u \<in># content (task_queue (mgr (rt s)))"
    and on: "\<not> cancelled (rt s)"
  shows "\<exists>a s'. busy_event cmp pol a s = Some s'"
proof -
  note D = fj_invD [OF inv]
  let ?C = "\<lambda>t u. compare_task_ptr cmp (tasks (mgr (rt s)) t) (tasks (mgr (rt s)) u)"
  have ok: "queues_ok (task_queue (mgr (rt s)))" "tls_ok (mgr (rt s))"
    using D(8) by (auto simp: account_inv_def)
  have n: "unat (0::u32) < unat (num_threads (mgr (rt s)))" using D(3) by (simp add: in_shape_def word_less_nat_alt)
  obtain a where a: "tls_get 0 (tls_attr_map (mgr (rt s))) = Some a" by (rule worker_tls [OF D(2) n])
  have weak': "strict_weak ?C" if "pol = PrioS"
    unfolding strict_weak_def compare_task_ptr_def using strict_weak_facts [OF weak [OF that]] by blast
  have "regular_predicate_pair = both_preds (\<lambda>_. True)"
    by (simp add: regular_predicate_pair_def both_preds_def)
  from try_task_gets [OF ok a u this, where pol = pol and cmp = cmp and fs = "[]"] weak' obtain i r1
    where "try_task cmp pol 0 i regular_predicate_pair [] (rt s) = Some (True, r1)"
      "size (started r1) = Suc (size (started (rt s)))" by auto
  moreover have "\<not> thread_state (mgr (rt s)) ! 0" "\<not> left_loop (rt s) 0"
    using D(3) n on by (auto simp: in_shape_def)
  ultimately have "\<exists>r'. rt_event cmp pol False (Fetch 0 i) (rt s) = Some r' \<and>
      size (started (rt s)) < size (started r')"
    using D(3) st n by (simp add: rt_event_def in_shape_def is_worker_def)
  then show ?thesis using busyI [of cmp pol "Fetch 0 i" s] by (auto simp: polite_def)
qed

text \<open>
  The worker whose innermost functor started last can go on: what it waits for has not
  started, or has finished, or else would be below a functor that started later still.
\<close>

lemma never_stuck:
  assumes inv: "fj_inv cmp pol s" and weak: "pol = PrioS \<Longrightarrow> strict_weak cmp"
    and left: "(\<exists>w. stacks (rt s) w \<noteq> []) \<or>
      (if cancelled (rt s) then \<not> joined (rt s) else finished (rt s) \<noteq> spawned (rt s))"
  shows "\<exists>a s'. busy_event cmp pol a s = Some s'"
proof (cases "\<exists>w. stacks (rt s) w \<noteq> []")
  case False
  then have empty: "stacks (rt s) w = []" for w by blast
  note acc = fj_invD(8) [OF inv] and shape = fj_invD(3) [OF inv]
  show ?thesis
  proof (cases "cancelled (rt s)")
    case True
    with left False obtain w where "is_worker w (rt s)" by (auto simp: joined_def is_worker_def)
    with True empty shape have "\<exists>r'. rt_event cmp pol False (Exit w) (rt s) = Some r'"
      by (auto simp: rt_event_def in_shape_def is_worker_def)
    then show ?thesis using busyI [of cmp pol "Exit w" s] by (auto simp: polite_def)
  next
    case on: False
    have "running (rt s) = {#}" using empty by (simp add: running_def)
    with left on empty acc have "content (task_queue (mgr (rt s))) \<noteq> {#}" by (auto simp: account_inv_def)
    then obtain u where "u \<in># content (task_queue (mgr (rt s)))" by blast
    with idle_fetches [OF inv weak empty] on show ?thesis by blast
  qed
next
  case True
  note D = fj_invD [OF inv] and W = whereabouts [OF fj_invD(8,4) [OF inv]]
  have own: "own_waits (parent s) (stacks (rt s) v)"
    and sorted: "sorted_wrt (\<lambda>t u. stamp s u < stamp s t) (run_ids (stacks (rt s) v))" for v
    using D(7) by (auto simp: stacked_def)
  let ?key = "\<lambda>v. stamp s (hd (run_ids (stacks (rt s) v)))"
  from True obtain w0 where w0: "stacks (rt s) w0 \<noteq> []" ..
  have "\<forall>v. stacks (rt s) v \<noteq> [] \<longrightarrow> ?key v < Suc (size (started (rt s)))"
    using D(7) by (auto simp: stacked_def less_Suc_eq_le)
  from ex_has_greatest_nat [of "\<lambda>v. stacks (rt s) v \<noteq> []", OF w0 this] obtain w
    where w: "stacks (rt s) w \<noteq> []" and max: "\<And>v. stacks (rt s) v \<noteq> [] \<Longrightarrow> ?key v \<le> ?key w" by blast
  from w obtain f gs where st: "stacks (rt s) w = f # gs" by (cases "stacks (rt s) w") auto
  show ?thesis
  proof (cases f)
    case (Run t c)
    have "\<exists>r'. rt_event cmp pol False (Finish w (Inr ())) (rt s) = Some r'"
      using st Run D(3) by (simp add: rt_event_def in_shape_def)
    then show ?thesis using busyI [of cmp pol "Finish w (Inr ())" s] by (auto simp: polite_def)
  next
    case (Barr b)
    then show ?thesis using own [of w] st by simp
  next
    case (Wait u d)
    with own [of w] st obtain p c fs where gs: "gs = Run p c # fs" and up: "parent s u = Some p"
      by (auto split: list.splits frame.splits)
    have fam: "u \<in># spawned (rt s)" "is_nested (attr (tasks (mgr (rt s)) u))"
      "u \<in># started (rt s) \<Longrightarrow> stamp s p < stamp s u"
      using D(5) up by (auto simp: family_def)
    consider "u \<in># finished (rt s)" | "u \<notin># started (rt s)" | "u \<in># started (rt s)" "u \<notin># finished (rt s)"
      by blast
    then show ?thesis
    proof cases
      case 1
      then have "\<not> pending (tasks (mgr (rt s)) u)" using D(4) fam(1) by (auto simp: one_shot_def)
      from wait_returns_enabled [OF fam(2) this] have "\<exists>r'. rt_event cmp pol False (WaitDone w) (rt s) = Some r'"
        using st Wait D(3) by (auto simp: rt_event_def in_shape_def)
      then show ?thesis using busyI [of cmp pol "WaitDone w" s] by (auto simp: polite_def)
    next
      case 2
      with W(4) fam(1) have "u \<in># content (task_queue (mgr (rt s)))" by blast
      with waiter_gets [OF inv weak] st Wait gs show ?thesis by blast
    next
      case 3
      from W(5) [OF 3] obtain v c2 where v: "Run u c2 \<in> set (stacks (rt s) v)" by blast
      then have "u \<in> set (run_ids (stacks (rt s) v))" by (auto simp: run_ids_in)
      then have "stamp s u \<le> ?key v"
        using sorted [of v] by (cases "run_ids (stacks (rt s) v)") auto
      also have "\<dots> \<le> ?key w" by (rule max) (use v in auto)
      also have "\<dots> = stamp s p" using st Wait gs by simp
      finally show ?thesis using fam(3) [OF 3(1)] by simp
    qed
  qed
qed

lemma busy_run:
  assumes "fj_inv cmp pol s" and "reaches (step_of (busy_event cmp pol)) s s'"
  shows "fj_inv cmp pol s' \<and> spawned (rt s') = spawned (rt s) \<and> cancelled (rt s') = cancelled (rt s)"
  using assms(2,1)
proof (induction rule: reaches.induct)
  case (more s t u)
  then have "fj_inv cmp pol t" "spawned (rt t) = spawned (rt s)" "cancelled (rt t) = cancelled (rt s)" by auto
  moreover from more.hyps(2) obtain a where "busy_event cmp pol a t = Some u" by (rule step_ofE)
  ultimately show ?case using busy_step [of cmp pol t a u] fj_step [of cmp pol t a u] by simp
qed simp

lemma busy_length:
  "fj_inv cmp pol s \<Longrightarrow> run_events (busy_event cmp pol) as s = Some s' \<Longrightarrow> length as + work (rt s') \<le> work (rt s)"
proof (induction as arbitrary: s)
  case (Cons a as)
  then obtain t where t: "busy_event cmp pol a s = Some t" "run_events (busy_event cmp pol) as t = Some s'"
    by (auto split: option.splits)
  from busy_step [OF Cons.prems(1) t(1)] fj_step [OF Cons.prems(1)] Cons.IH [OF _ t(2)] show ?case by fastforce
qed simp

section \<open>A run\<close>

text \<open>Two workers on one queue: a task with a child and a grandchild, which the
  first worker runs while it waits for the child. Another task is queued when the destructor
  is called, and is dropped.\<close>

definition fj_two :: "int fj" where
  "fj_two = \<lparr>rt = fresh 0 [2] (\<lambda>g. group_make3 (of_nat g) 2 (barrier_code BARRIER_STEAL)),
     parent = (\<lambda>_. None), stamp = (\<lambda>_. 0)\<rparr>"

definition fj_run :: "int rt_action list" where
  "fj_run = [Spawn 2 10 basic 0 0, Fetch 0 0, Spawn 0 11 (prio_attr 1) 0 0, Fetch 1 0, CallWait 0 11,
     Spawn 1 13 (prio_attr 2) 0 0, CallWait 1 13, WaitGet 0 0, Spawn 2 14 basic 0 0, Cancel]"

definition fj_rest :: "int rt_action list" where
  "fj_rest = [Finish 0 (Inr ()), WaitDone 1, Finish 1 (Inr ()), WaitDone 0, Finish 0 (Inr ()),
     Exit 0, Exit 1]"

lemma fj_two_start: "fj_start fj_two"
  unfolding fj_start_def fresh_runtime_def fj_two_def fj.select_convs
  by (intro conjI exI [of _ 0] exI [of _ "[2]"] exI refl)
     (simp_all add: total_threads_def fresh_def runtime_start_def taskmgr_make_def Let_def)

lemma fj_two_run:
  "case run_events (fj_event (<) PrioS) fj_run fj_two of None \<Rightarrow> False
   | Some s \<Rightarrow> (case run_events (busy_event (<) PrioS) fj_rest s of None \<Rightarrow> False
        | Some s' \<Rightarrow> size (finished (rt s')) = 3 \<and> size (spawned (rt s')) = 4 \<and> left_loop (rt s') 0 \<and> left_loop (rt s') 1)"
  by code_simp

section \<open>Properties\<close>





end
