(* ===== verification/Deadlocks.thy ===== *)
theory Deadlocks
  imports Steps
begin

text \<open>
  Two ways to wait for ever on one worker, although no functor does anything but spawn a
  task and wait for it: with \<open>prioS\<close> a task of the same priority as the one that waits for
  it, and with \<open>cilkS\<close> a task behind one that is higher up in the tree. The worker only
  looks at the task that its queue offers, with a predicate that the task does not pass.
\<close>

section \<open>A queue that offers nothing\<close>

text \<open>
  Under the policies that look at tasks, \<open>b\<close> keeps \<open>u\<close> in the queue as long as \<open>b\<close> itself
  is refused.
\<close>

definition behind :: "policy \<Rightarrow> task_ptr \<Rightarrow> task_ptr \<Rightarrow> task_ptr list \<Rightarrow> bool" where
  "behind pol b u q =
     (case pol of
        PrioS \<Rightarrow> b = u \<and> u \<in> set q
      | CilkS \<Rightarrow> (\<exists>xs ys. q = xs @ b # ys \<and> u \<in> set (b # ys) \<and> u \<notin> set xs)
      | _ \<Rightarrow> False)"

lemma behind_cilk: "u \<in> set (b # ys) \<Longrightarrow> u \<notin> set xs \<Longrightarrow> behind CilkS b u (xs @ b # ys)"
  by (auto simp: behind_def)

lemma behind_put:
  assumes "behind pol b u q" and "v \<noteq> u" and "queues s = [q]" and "queue_put pol i v s = Some s'"
  shows "\<exists>q'. queues s' = [q'] \<and> behind pol b u q'"
proof (cases pol)
  case PrioS
  with assms show ?thesis
    by (auto simp: queue_put_def prio_put_def get_queue_def set_queue_def behind_def split: if_splits)
next
  case CilkS
  with assms(1) obtain xs ys where "q = xs @ b # ys" "u \<in> set (b # ys)" "u \<notin> set xs"
    by (auto simp: behind_def)
  then have "behind pol b u (v # q)" using behind_cilk [of u b ys "v # xs"] assms(2) CilkS by simp
  with CilkS assms(3,4) show ?thesis
    by (auto simp: queue_put_def cilk_put_def get_queue_def set_queue_def split: if_splits)
qed (use assms(1) in \<open>auto simp: behind_def\<close>)

lemma behind_pop:
  assumes "behind pol b u q" and "policy_pop cmp pol True q = Some (t, rest)" and "t \<noteq> b"
  shows "behind pol b u rest \<and> t \<noteq> u"
proof (cases pol)
  case PrioS
  with assms show ?thesis
    by (auto simp: behind_def policy_pop_def prio_pop_def split: if_splits)
next
  case CilkS
  with assms(1) obtain xs ys where q: "q = xs @ b # ys" "u \<in> set (b # ys)" "u \<notin> set xs"
    by (auto simp: behind_def)
  with CilkS assms(2,3) obtain xs' where "xs = t # xs'"
    by (cases xs) (auto simp: policy_pop_def cilk_pop_def)
  with q CilkS assms(2) show ?thesis
    by (fastforce simp: behind_def policy_pop_def cilk_pop_def)
qed (use assms(1) in \<open>auto simp: behind_def\<close>)

section \<open>The invariant\<close>

definition blocked ::
  "('p \<Rightarrow> 'p \<Rightarrow> bool) \<Rightarrow> policy \<Rightarrow> task_ptr \<Rightarrow> task_ptr \<Rightarrow> 'p frame list \<Rightarrow> 'p runtime \<Rightarrow> bool" where
  "blocked cmp pol b u base r \<longleftrightarrow>
     num_threads (mgr r) = 1 \<and>
     (\<exists>q. queues (task_queue (mgr r)) = [q] \<and> behind pol b u q) \<and>
     (\<exists>fs. stacks r 0 = fs @ base) \<and>
     (\<exists>d p c gs. base = Wait u d # Run p c # gs \<and>
        \<not> waiting_own_pred cmp pol c (tasks (mgr r) b)) \<and>
     is_nested (attr (tasks (mgr r) u)) \<and> pending (tasks (mgr r) u) \<and> count (started r) u = 0"

lemma waiting_like:
  "attr t' = attr t \<Longrightarrow> waiting_own_pred cmp pol c t' = waiting_own_pred cmp pol c t"
  by (simp add: waiting_own_pred_def compare_task_ptr_def task_get_attr_def split: policy.splits)

lemma runs_append [simp]: "runs (xs @ ys) = runs xs @ runs ys"
  by (induction xs rule: runs.induct) auto

text \<open>Whatever runs on top of the task that waits refuses what that task refuses.\<close>

lemma top_refuses:
  assumes "transp cmp" and "frames_ok cmp pol (fs @ Wait u d # Run p c # gs)"
    and "\<not> waiting_own_pred cmp pol c x"
  shows "\<not> waiting_own_pred cmp pol (hd (runs (fs @ Wait u d # Run p c # gs))) x"
proof -
  have "sorted_wrt (\<lambda>c d. waiting_own_pred cmp pol d c) (runs fs @ c # runs gs)"
    using frames_ok_successively [OF assms(2)] successively_conv_sorted_wrt [OF waiting_transp [OF assms(1)]]
    by simp
  then have "waiting_own_pred cmp pol c (hd (runs fs))" if "runs fs \<noteq> []"
    using that by (cases "runs fs") (auto simp: sorted_wrt_append)
  moreover have "waiting_own_pred cmp pol c x"
    if "waiting_own_pred cmp pol (hd (runs fs)) x" "waiting_own_pred cmp pol c (hd (runs fs))"
    by (rule transpD [OF waiting_transp [OF assms(1)] that])
  ultimately show ?thesis using assms(3) by (cases "runs fs") auto
qed

lemma attempt_refuses:
  assumes inv: "stack_inv cmp pol r" and at: "attempt cmp pol r w cnd fs"
    and top: "stacks r w \<noteq> []" "\<not> waiting_own_pred cmp pol (hd (runs (stacks r w))) (tasks (mgr r) b)"
    and t: "own_pred cnd t \<or> steal_pred cnd t"
  shows "t \<noteq> b"
  using at
proof (cases rule: attempt.cases)
  case (waiting u c gs)
  from stack_inv_parts(1) [OF inv, of w] waiting(3) obtain p c' hs
    where "gs = Run p c' # hs" "same_info c c'" by (auto simp: frames_ok_wait)
  with waiting top(2) t waiting_same_info [of c c'] show ?thesis
    by (auto simp: waiting_predicate_pair_def)
next
  case (at_barrier gs)
  from stack_inv_parts(1) [OF inv, of w] at_barrier(3) obtain p c' hs
    where gs: "gs = Run p c' # hs" by (auto simp: frames_ok_barr)
  then have "same_info (cached w r) c'"
    using stack_inv_parts(2) [OF inv, of w] at_barrier(3) by (simp add: cache_ok_def)
  with at_barrier top(2) t gs waiting_same_info [of "cached w r" c']
    group_pred_waiting [of cmp pol "cached w r" "tasks (mgr r) t"] show ?thesis
    by (auto simp: group_predicate_pair_def)
qed (use top(1) in simp)

text \<open>An action that does not use the two tasks for something else.\<close>

definition spares :: "task_ptr set \<Rightarrow> 'p rt_action \<Rightarrow> bool" where
  "spares B a = (case a of Spawn w t at g f \<Rightarrow> t \<notin> B | _ \<Rightarrow> True)"

section \<open>It is kept\<close>

lemma blocked_same:
  assumes "blocked cmp pol b u base r"
    and "num_threads (mgr r') = num_threads (mgr r)" and "started r' = started r"
    and "task_queue (mgr r') = task_queue (mgr r)"
    and "like (tasks (mgr r) u) (tasks (mgr r') u)" "attr (tasks (mgr r') b) = attr (tasks (mgr r) b)"
    and "stacks r' 0 = fs @ base"
  shows "blocked cmp pol b u base r'"
  using assms waiting_like [OF assms(6), of cmp pol] by (auto simp: blocked_def like_def)

lemma blocked_move:
  assumes "blocked cmp pol b u base r" and "frame_move r a 0 fs"
  shows "\<exists>gs. fs = gs @ base"
proof -
  from assms(1) obtain gs d p c hs where st: "stacks r 0 = gs @ base" and base: "base = Wait u d # Run p c # hs"
    and u: "is_nested (attr (tasks (mgr r) u))" "pending (tasks (mgr r) u)"
    by (auto simp: blocked_def)
  from assms(2) show ?thesis
  proof cases
    case (wait p' c' gs' u')
    have "fs = (Wait u' (cached 0 r) # gs) @ base" using wait st by simp
    then show ?thesis ..
  next
    case (barrier p' c' gs')
    have "fs = (Barr None # gs) @ base" using barrier st by simp
    then show ?thesis ..
  next
    case (waited u' c')
    with st base u show ?thesis by (cases gs) auto
  next
    case left
    with st base show ?thesis by (cases gs) auto
  qed (use st in auto)
qed

lemma blocked_finish:
  assumes inv: "stack_inv cmp pol r" and bl: "blocked cmp pol b u base r"
    and st: "stacks r 0 = Run t c # fs" and r': "r' = finish_task loc 0 t (Inr ()) fs r"
  shows "blocked cmp pol b u base r'"
proof -
  note tx = stack_inv_parts(3) [OF inv]
  from bl obtain gs d p c' hs where gs: "stacks r 0 = gs @ base" and base: "base = Wait u d # Run p c' # hs"
    and u: "count (started r) u = 0"
    by (auto simp: blocked_def)
  have "t \<in># started r" by (rule run_started [OF stack_inv_parts(6) [OF inv], where w = 0 and c = c]) (use st in simp)
  then have "t \<noteq> u" using u by (metis count_greater_zero_iff less_irrefl)
  obtain gs' where gs': "gs = Run t c # gs'" "fs = gs' @ base" using gs st base by (cases gs) auto
  have stack: "\<exists>hs'. stacks r' 0 = hs' @ base"
  proof (cases gs')
    case Nil
    with gs' base show ?thesis unfolding r' finish_task_stack [OF tx] by simp
  next
    case (Cons f gs2)
    show ?thesis
    proof (cases "\<exists>x. f = Barr (Some x)")
      case True
      then have "stacks r' 0 = (Barr None # gs2) @ base"
        using Cons gs' unfolding r' finish_task_stack [OF tx] by auto
      then show ?thesis ..
    next
      case False
      then have "stacks r' 0 = gs' @ base"
        using Cons gs' unfolding r' finish_task_stack [OF tx] by (auto split: frame.splits option.splits)
      then show ?thesis ..
    qed
  qed
  then obtain hs' where hs': "stacks r' 0 = hs' @ base" ..
  show ?thesis
  proof (rule blocked_same [OF bl _ _ _ _ _ hs'])
    show "like (tasks (mgr r) u) (tasks (mgr r') u)"
      unfolding r' finish_task_state [OF tx] using \<open>t \<noteq> u\<close> by simp
    show "attr (tasks (mgr r') b) = attr (tasks (mgr r) b)"
      unfolding r' finish_task_state [OF tx] by (simp add: finished_task_notified [OF tx])
    show "num_threads (mgr r') = num_threads (mgr r)" unfolding r' by (rule finish_num)
  qed (simp_all add: r' finish_facts)
qed

lemma blocked_take:
  assumes trans: "transp cmp" and inv: "stack_inv cmp pol r" and bl: "blocked cmp pol b u base r"
    and at: "attempt cmp pol r w cnd fs" and got: "try_task cmp pol w i cnd fs r = Some (True, r1)"
    and r': "task_queue (mgr r') = task_queue (mgr r1)" "stacks r' = stacks r1" "started r' = started r1"
      "tasks_like r1 r'" "num_threads (mgr r') = num_threads (mgr r)"
  shows "blocked cmp pol b u base r'"
proof -
  let ?cmp = "\<lambda>t u. compare_task_ptr cmp (tasks (mgr r) t) (tasks (mgr r) u)"
  from bl obtain gs d p c hs q where gs: "stacks r 0 = gs @ base" and base: "base = Wait u d # Run p c # hs"
    and c: "\<not> waiting_own_pred cmp pol c (tasks (mgr r) b)"
    and q: "queues (task_queue (mgr r)) = [q]" "behind pol b u q"
    by (auto simp: blocked_def)
  have one: "num_threads (mgr r) = 1" using bl by (simp add: blocked_def)
  have ok: "queues_ok (task_queue (mgr r))" "tls_ok (mgr r)"
    using stack_inv_parts(6) [OF inv] by (auto simp: account_inv_def)
  have w: "w = 0"
  proof -
    have "unat w < unat (num_threads (mgr r))"
      using at stack_inv_parts(4) [OF inv, of w] by cases (auto simp: is_worker_def)
    then show "w = 0" using one by (simp add: unat_eq_0)
  qed
  from ok got obtain t i qn rest where
    of_t: "offers (policy_pop ?cmp pol) cnd qn (task_queue (mgr r)) i t rest"
    and qn: "unat qn < unat (num_queues (task_queue (mgr r)))"
    and r1: "task_queue (mgr r1) = set_queue i rest (task_queue (mgr r))"
      "tasks (mgr r1) = tasks (mgr r)" "stacks r1 = (stacks r)(w := Run t (tasks (mgr r) t) # fs)"
      "started r1 = add_mset t (started r)" "spawned r1 = spawned r" "finished r1 = finished r"
      "content (task_queue (mgr r)) = add_mset t (content (task_queue (mgr r1)))"
    by (rule try_task_taken)
  have "unat (num_queues (task_queue (mgr r))) = 1" using q(1) ok(1) by (simp add: queues_ok_def)
  then have "i = 0" "qn = 0" using of_t qn q(1) by (auto simp: offers_def unat_eq_0)
  then have pop: "policy_pop ?cmp pol True q = Some (t, rest)" and may: "own_pred cnd t \<or> steal_pred cnd t"
    using of_t q(1) by (auto simp: offers_def may_take_def)
  have "\<not> waiting_own_pred cmp pol (hd (runs (stacks r 0))) (tasks (mgr r) b)"
    using top_refuses [OF trans, of pol gs u d p c hs] stack_inv_parts(1) [OF inv, of 0] gs base c by simp
  with attempt_refuses [OF inv at, of b t] may gs base w have "t \<noteq> b" by auto
  from behind_pop [OF q(2) pop this] have t: "behind pol b u rest" "t \<noteq> u" by auto
  have "\<exists>fs'. fs = fs' @ base"
    using at
  proof cases
    case (at_barrier hs')
    with gs base w obtain gs' where "hs' = gs' @ base" by (cases gs) auto
    then have "fs = (Barr (Some (cached w r)) # gs') @ base" using at_barrier by simp
    then show ?thesis ..
  next
    case waiting
    with gs w have "fs = gs @ base" by simp
    then show ?thesis ..
  qed (use gs w base in auto)
  then obtain fs' where "fs = fs' @ base" ..
  then have "stacks r' 0 = (Run t (tasks (mgr r) t) # fs') @ base" using r'(2) r1(3) w by simp
  then have "\<exists>fs'. stacks r' 0 = fs' @ base" ..
  moreover have "queues (task_queue (mgr r')) = [rest]" using r'(1) r1(1) q(1) \<open>i = 0\<close> by (simp add: set_queue_def)
  moreover have "like (tasks (mgr r) v) (tasks (mgr r') v)" for v using r'(4) r1(2) by (simp add: tasks_like_def)
  ultimately show ?thesis
    using bl t r'(3,5) r1(4) waiting_like [of "tasks (mgr r') b" "tasks (mgr r) b" cmp pol]
    by (auto simp: blocked_def like_def)
qed

lemma blocked_step:
  assumes trans: "transp cmp" and inv: "stack_inv cmp pol r" and bl: "blocked cmp pol b u base r"
    and ev: "rt_act cmp pol False a r = Some r'" and sp: "spares {b, u} a"
  shows "blocked cmp pol b u base r'"
proof -
  from bl obtain gs d p c hs q where gs: "stacks r 0 = gs @ base" and base: "base = Wait u d # Run p c # hs"
    and q: "queues (task_queue (mgr r)) = [q]" "behind pol b u q" and one: "num_threads (mgr r) = 1"
    by (auto simp: blocked_def)
  have w0: "w = 0" if "stacks r w \<noteq> []" for w
    using stack_inv_parts(4) [OF inv that] one by (simp add: unat_eq_0)
  note num = rt_act_fixed(1) [OF inv ev]
  from inv ev show ?thesis
  proof (cases rule: rt_act_kinds)
    case (spawn w t at g f x q' qs gs')
    have t: "t \<noteq> b" "t \<noteq> u" using sp spawn(1) by (auto simp: spares_def)
    from behind_put [OF q(2) t(2) q(1) spawn(3)] bl spawn(6) t show ?thesis
      by (auto simp: blocked_def)
  next
    case (take w i cnd fs r1)
    from blocked_take [OF trans inv bl take(1,2,3,4,6,8) num] show ?thesis .
  next
    case (move w fs)
    have "\<exists>fs'. stacks r' 0 = fs' @ base"
    proof (cases "w = 0")
      case True
      with blocked_move [OF bl, of a fs] move(1,2) show ?thesis by simp
    next
      case False
      with move(2) gs show ?thesis by simp
    qed
    then obtain fs' where "stacks r' 0 = fs' @ base" ..
    moreover have "like (tasks (mgr r) v) (tasks (mgr r') v)" for v using move(7) by (simp add: tasks_like_def)
    ultimately show ?thesis
      using blocked_same [OF bl num move(5,3), of fs'] by (simp add: like_def)
  next
    case (finish w t c fs)
    have "w = 0" by (rule w0) (simp add: finish(2))
    with blocked_finish [OF inv bl, of t c fs r'] finish(2,3) show ?thesis by blast
  qed
qed

text \<open>The machine, with all actions but those that spawn a task of \<open>B\<close> again.\<close>

definition sparing ::
  "task_ptr set \<Rightarrow> ('p \<Rightarrow> 'p \<Rightarrow> bool) \<Rightarrow> policy \<Rightarrow> 'p rt_action \<Rightarrow> 'p runtime \<Rightarrow> 'p runtime option" where
  "sparing B cmp pol a r = (if spares B a then rt_event cmp pol False a r else None)"

interpretation blocking:
  invariant_system "\<lambda>r. transp cmp \<and> stack_inv cmp pol r \<and> blocked cmp pol b u base r"
    "step_of (sparing {b, u} cmp pol)" "\<lambda>r. transp cmp \<and> stack_inv cmp pol r \<and> blocked cmp pol b u base r"
  for cmp :: "'p \<Rightarrow> 'p \<Rightarrow> bool" and pol b u base
  by unfold_locales
     (auto simp: sparing_def elim!: step_ofE dest!: rt_event_act intro: rt_act_stack blocked_step
       split: if_splits)

lemma blocked_for_ever:
  assumes "transp cmp" and "fresh_runtime s" and "reaches (rt_step cmp pol False) s r"
    and "blocked cmp pol b u base r" and "reaches (step_of (sparing {b, u} cmp pol)) r r'"
  shows "count (started r') u = 0" and "\<exists>fs. stacks r' 0 = fs @ base" and "pending (tasks (mgr r') u)"
proof -
  have "stack_inv cmp pol r" using nesting.reach_inv [OF assms(2,3)] by blast
  with assms(1,4) have "blocked cmp pol b u base r'" using blocking.reach_inv [OF _ assms(5)] by blast
  then show "count (started r') u = 0" "\<exists>fs. stacks r' 0 = fs @ base" "pending (tasks (mgr r') u)"
    by (auto simp: blocked_def)
qed

lemma one_queue:
  assumes "queues_ok s" and "num_queues s = 1"
  obtains q where "queues s = [q]" "content s = mset q"
  using assms by (cases "queues s") (auto simp: queues_ok_def content_def)

section \<open>Two programs\<close>

text \<open>A task spawns another with the same priority, and waits for it.\<close>

definition equal_run :: "int rt_action list" where
  "equal_run = [Spawn 1 10 basic 0 0, Fetch 0 0, Spawn 0 11 basic 0 0, CallWait 0 11]"

text \<open>What may follow: a task of a higher priority runs on top, and returns; the wait goes on.\<close>

definition equal_more :: "int rt_action list" where
  "equal_more = [Spawn 1 12 (prio_attr 7) 0 0, WaitGet 0 0, Finish 0 (Inr ()), WaitGet 0 0]"

text \<open>
  Levels as the comments describe them: a root task, its child, and the child's child. While
  the child runs, the main thread spawns a second root.
\<close>

definition level_attr :: "u32 \<Rightarrow> int attribute" where
  "level_attr l = set_level l basic"

definition cilk_run :: "int rt_action list" where
  "cilk_run = [Spawn 1 10 (level_attr 0) 0 0, Fetch 0 0, Spawn 0 11 (level_attr 1) 0 0, CallWait 0 11,
     WaitGet 0 0, Spawn 0 13 (level_attr 2) 0 0, Spawn 1 14 (level_attr 0) 0 0, CallWait 0 13]"

definition cilk_more :: "int rt_action list" where
  "cilk_more = [WaitGet 0 0, Spawn 1 15 (level_attr 1) 0 0, WaitGet 0 0, Finish 0 (Inr ()), WaitGet 0 0]"

definition waits_refused :: "policy \<Rightarrow> task_ptr \<Rightarrow> task_ptr \<Rightarrow> task_ptr list \<Rightarrow> int runtime \<Rightarrow> bool" where
  "waits_refused pol b u q r \<longleftrightarrow>
     num_threads (mgr r) = 1 \<and> queues (task_queue (mgr r)) = [q] \<and>
     (case stacks r 0 of
        Wait v d # Run p c # gs \<Rightarrow> v = u \<and> \<not> waiting_own_pred (<) pol c (tasks (mgr r) b)
      | _ \<Rightarrow> False) \<and>
     is_nested (attr (tasks (mgr r) u)) \<and> pending (tasks (mgr r) u) \<and> count (started r) u = 0"

lemma waits_refused_blocked:
  "waits_refused pol b u q r \<Longrightarrow> behind pol b u q \<Longrightarrow> blocked (<) pol b u (stacks r 0) r"
  by (auto simp: waits_refused_def blocked_def split: list.splits frame.splits)

section \<open>Properties\<close>



text \<open>
  With one worker and \<open>cilkS\<close>, a second root task stops the first for ever. A root runs its
  child, which waits for its own child; in the meantime the main thread puts another root at
  the front of the queue. The worker looks only at the front, where the level is too low, so
  the grandchild behind it is never started and neither wait returns.
\<close>

theorem cilk_root_hides_grandchild:
  assumes "run_events (rt_event (<) CilkS False) cilk_run one_worker = Some r"
    and "reaches (step_of (sparing {14, 13} (<) CilkS)) r r'"
  shows "13 \<in># spawned r \<and> count (started r') 13 = 0 \<and> (\<exists>fs. stacks r' 0 = fs @ stacks r 0)"
proof -
  have "case run_events (rt_event (<) CilkS False) cilk_run one_worker of None \<Rightarrow> False
    | Some r \<Rightarrow> waits_refused CilkS 14 13 [14, 13] r \<and> count (spawned r) 13 = 1" by code_simp
  with assms(1) have w: "waits_refused CilkS 14 13 [14, 13] r" and s: "count (spawned r) 13 = 1" by auto
  have "behind CilkS 14 13 [14, 13]" using behind_cilk [of 13 14 "[13]" "[]"] by simp
  note bl = waits_refused_blocked [OF w this]
  have "transp ((<) :: int \<Rightarrow> int \<Rightarrow> bool)" by (auto simp: transp_def)
  from blocked_for_ever [OF this fresh_one_worker run_events_reaches [OF assms(1)] bl assms(2)] s
  show ?thesis by (auto simp: count_greater_zero_iff [symmetric] simp del: count_greater_zero_iff)
qed

theorem cilk_root_hides_grandchild_witness:
  "\<exists>r r'. run_events (rt_event (<) CilkS False) cilk_run one_worker = Some r \<and>
     run_events (sparing {14, 13} (<) CilkS) cilk_more r = Some r' \<and>
     count (finished r') 15 = 1 \<and> count (started r') 13 = 0 \<and> (\<exists>fs. stacks r' 0 = fs @ stacks r 0)"
proof -
  have "case run_events (rt_event (<) CilkS False) cilk_run one_worker of None \<Rightarrow> False
    | Some r \<Rightarrow> (case run_events (sparing {14, 13} (<) CilkS) cilk_more r of None \<Rightarrow> False
         | Some r' \<Rightarrow> count (finished r') 15 = 1)"
    by code_simp
  then obtain r r' where r: "run_events (rt_event (<) CilkS False) cilk_run one_worker = Some r"
    and r': "run_events (sparing {14, 13} (<) CilkS) cilk_more r = Some r'" and f: "count (finished r') 15 = 1"
    by (auto split: option.splits)
  from cilk_root_hides_grandchild [OF r run_events_reaches [OF r']] r r' f show ?thesis by blast
qed

end
