(* ===== verification/Other_Atomics.thy ===== *)
theory Other_Atomics
  imports Atomics
begin

text \<open>
  The atomic operations besides x86: what the comments of \<^verbatim>\<open>pfunc/pfunc_atomics.h\<close>
  promise, which file its last lines include, the accesses of \<^verbatim>\<open>pfunc/asm/ppc.h\<close> and the
  operations of \<^verbatim>\<open>pfunc/asm/win.h\<close>, instruction by instruction. On several processors an
  instruction that reads and writes memory is one step only with the \<open>lock\<close> prefix, which
  \<open>xchg\<close> has implicitly; without it another processor may come between its read and its
  write. The header forgets the prefix on \<open>xadd\<close>.
\<close>

section \<open>What the comments promise\<close>

text \<open>The code in the comments: the result and the new content of the location.\<close>

definition documented_compare_and_swap :: "'a::len word \<Rightarrow> 'a word \<Rightarrow> 'a word \<Rightarrow> 'a word \<times> 'a word" where
  "documented_compare_and_swap dest exchg comprnd =
     (if dest = comprnd then (exchg, exchg) else (dest, dest))"

definition documented_fetch_and_store :: "'a::len word \<Rightarrow> 'a word \<Rightarrow> 'a word \<times> 'a word" where
  "documented_fetch_and_store location new_val = (location, new_val)"

definition documented_fetch_and_add :: "'a::len word \<Rightarrow> 'a word \<Rightarrow> 'a word \<times> 'a word" where
  "documented_fetch_and_add location addend = (location, location + addend)"

definition documented_read :: "'a::len word \<Rightarrow> 'a word" where
  "documented_read location = location"

definition documented_write :: "'a::len word \<Rightarrow> 'a word \<Rightarrow> 'a word" where
  "documented_write location value = value"

lemmas documented_defs [pf_defs] = documented_compare_and_swap_def documented_fetch_and_store_def
  documented_fetch_and_add_def documented_read_def documented_write_def

section \<open>Which file is included\<close>

datatype asm_file = Win_h | X86_h | Ppc_h | Generic_h

text \<open>The environment: Windows, an x86, a PowerPC, POSIX threads.\<close>

definition included_files :: "bool \<Rightarrow> bool \<Rightarrow> bool \<Rightarrow> bool \<Rightarrow> asm_file list" where
  "included_files windows x86 ppc pthreads =
     (if windows then [Win_h] else if x86 then [X86_h] else if ppc \<and> pthreads then [Ppc_h, Generic_h]
      else if pthreads then [Generic_h] else [])"

section \<open>PowerPC\<close>

text \<open>The operations proper are the generic ones; a fenced access is one step.\<close>

definition ppc_read_with_fence_8 :: "8 word \<Rightarrow> 8 word" where "ppc_read_with_fence_8 location = location"
definition ppc_read_with_fence_16 :: "16 word \<Rightarrow> 16 word" where "ppc_read_with_fence_16 location = location"
definition ppc_read_with_fence_32 :: "u32 \<Rightarrow> u32" where "ppc_read_with_fence_32 location = location"
definition ppc_write_with_fence_8 :: "8 word \<Rightarrow> 8 word \<Rightarrow> 8 word" where
  "ppc_write_with_fence_8 location value = value"
definition ppc_write_with_fence_16 :: "16 word \<Rightarrow> 16 word \<Rightarrow> 16 word" where
  "ppc_write_with_fence_16 location value = value"
definition ppc_write_with_fence_32 :: "u32 \<Rightarrow> u32 \<Rightarrow> u32" where
  "ppc_write_with_fence_32 location value = value"

section \<open>Windows\<close>

text \<open>
  A block of assembly: whether its memory instruction is locked, the accumulator before it,
  and what the instruction makes of the cell and the accumulator (new accumulator, new cell).
  The result of the function is the accumulator afterwards.
\<close>

record 'w insn =
  locked :: bool
  accumulator :: 'w
  effect :: "'w \<Rightarrow> 'w \<Rightarrow> 'w \<times> 'w"

definition win_compare_and_swap_8 :: "8 word \<Rightarrow> 8 word \<Rightarrow> 8 word insn" where
  "win_compare_and_swap_8 exchg comprnd =
     \<lparr>locked = True, accumulator = comprnd, effect = (\<lambda>cell al. lock_cmpxchg cell exchg al)\<rparr>"

definition win_compare_and_swap_16 :: "16 word \<Rightarrow> 16 word \<Rightarrow> 16 word insn" where
  "win_compare_and_swap_16 exchg comprnd =
     \<lparr>locked = True, accumulator = comprnd, effect = (\<lambda>cell ax. lock_cmpxchg cell exchg ax)\<rparr>"

definition win_fetch_and_store_8 :: "8 word \<Rightarrow> 8 word insn" where
  "win_fetch_and_store_8 new_val =
     \<lparr>locked = True, accumulator = new_val, effect = (\<lambda>cell al. lock_xchg cell al)\<rparr>"

definition win_fetch_and_store_16 :: "16 word \<Rightarrow> 16 word insn" where
  "win_fetch_and_store_16 new_val =
     \<lparr>locked = True, accumulator = new_val, effect = (\<lambda>cell ax. lock_xchg cell ax)\<rparr>"

definition win_fetch_and_add_8 :: "8 word \<Rightarrow> 8 word insn" where
  "win_fetch_and_add_8 addend =
     \<lparr>locked = False, accumulator = addend, effect = (\<lambda>cell al. lock_xadd cell al)\<rparr>"

definition win_fetch_and_add_16 :: "16 word \<Rightarrow> 16 word insn" where
  "win_fetch_and_add_16 addend =
     \<lparr>locked = False, accumulator = addend, effect = (\<lambda>cell ax. lock_xadd cell ax)\<rparr>"

definition win_fetch_and_add_32 :: "u32 \<Rightarrow> u32 insn" where
  "win_fetch_and_add_32 addend =
     \<lparr>locked = False, accumulator = addend, effect = (\<lambda>cell eax. lock_xadd cell eax)\<rparr>"

text \<open>The two that call the system: \<open>InterlockedCompareExchange\<close> and \<open>InterlockedExchange\<close> are parameters.\<close>

definition win_compare_and_swap_32 ::
  "(u32 \<Rightarrow> u32 \<Rightarrow> u32 \<Rightarrow> u32 \<times> u32) \<Rightarrow> u32 \<Rightarrow> u32 \<Rightarrow> u32 \<Rightarrow> u32 \<times> u32" where
  "win_compare_and_swap_32 interlocked_compare_exchange dest exchg comprnd =
     interlocked_compare_exchange dest exchg comprnd"

definition win_fetch_and_store_32 :: "(u32 \<Rightarrow> u32 \<Rightarrow> u32 \<times> u32) \<Rightarrow> u32 \<Rightarrow> u32 \<Rightarrow> u32 \<times> u32" where
  "win_fetch_and_store_32 interlocked_exchange location new_val = interlocked_exchange location new_val"

definition win_read_with_fence_8 :: "8 word \<Rightarrow> 8 word" where "win_read_with_fence_8 location = location"
definition win_read_with_fence_16 :: "16 word \<Rightarrow> 16 word" where "win_read_with_fence_16 location = location"
definition win_read_with_fence_32 :: "u32 \<Rightarrow> u32" where "win_read_with_fence_32 location = location"
definition win_write_with_fence_8 :: "8 word \<Rightarrow> 8 word \<Rightarrow> 8 word" where
  "win_write_with_fence_8 location value = value"
definition win_write_with_fence_16 :: "16 word \<Rightarrow> 16 word \<Rightarrow> 16 word" where
  "win_write_with_fence_16 location value = value"
definition win_write_with_fence_32 :: "u32 \<Rightarrow> u32 \<Rightarrow> u32" where
  "win_write_with_fence_32 location value = value"

text \<open>The function of \<^verbatim>\<open>x86.h\<close> in the same form: its \<open>xadd\<close> has the prefix.\<close>

definition x86_fetch_and_add_32 :: "u32 \<Rightarrow> u32 insn" where
  "x86_fetch_and_add_32 addend =
     \<lparr>locked = True, accumulator = addend, effect = (\<lambda>cell reg. pfunc_fetch_and_add_32 cell reg)\<rparr>"

lemma insn_alone [pf_defs]:
  "effect (win_fetch_and_add_32 a) cell (accumulator (win_fetch_and_add_32 a)) = pfunc_fetch_and_add_32 cell a"
  "effect (win_compare_and_swap_8 x c) cell8 (accumulator (win_compare_and_swap_8 x c)) =
     pfunc_compare_and_swap_8 cell8 x c"
  by (simp_all add: win_fetch_and_add_32_def win_compare_and_swap_8_def pfunc_fetch_and_add_32_def
      pfunc_compare_and_swap_8_def)

section \<open>Several processors\<close>

text \<open>Every one of \<open>n\<close> processors executes the instruction once, on the same cell.\<close>

datatype 'w phase = Todo | Loaded 'w | Result 'w

record 'w cpus =
  memory :: 'w
  cpu_phase :: "nat \<Rightarrow> 'w phase"

definition cpus_start :: "'w \<Rightarrow> 'w cpus" where
  "cpus_start c = \<lparr>memory = c, cpu_phase = (\<lambda>_. Todo)\<rparr>"

definition cpu_event :: "nat \<Rightarrow> 'w insn \<Rightarrow> nat \<Rightarrow> 'w cpus \<Rightarrow> 'w cpus option" where
  "cpu_event n i t s =
     (if t < n
      then (case cpu_phase s t of
              Todo \<Rightarrow>
                if locked i
                then (case effect i (memory s) (accumulator i) of
                        (acc, c) \<Rightarrow> Some \<lparr>memory = c, cpu_phase = (cpu_phase s)(t := Result acc)\<rparr>)
                else Some (s\<lparr>cpu_phase := (cpu_phase s)(t := Loaded (memory s))\<rparr>)
            | Loaded v \<Rightarrow>
                (case effect i v (accumulator i) of
                   (acc, c) \<Rightarrow> Some \<lparr>memory = c, cpu_phase = (cpu_phase s)(t := Result acc)\<rparr>)
            | Result r \<Rightarrow> None)
      else None)"

definition all_done :: "nat \<Rightarrow> 'w cpus \<Rightarrow> bool" where
  "all_done n s \<longleftrightarrow> (\<forall>t<n. case cpu_phase s t of Result r \<Rightarrow> True | _ \<Rightarrow> False)"

text \<open>
  The constructor of the task manager spins until every thread has counted itself in
  \<open>thread_start_count\<close>.
\<close>

definition start_loop_ends :: "nat \<Rightarrow> u32 cpus \<Rightarrow> bool" where
  "start_loop_ends num_threads s \<longleftrightarrow> memory s = of_nat num_threads"

subsection \<open>With the prefix\<close>

definition has_counted :: "nat \<Rightarrow> u32 cpus \<Rightarrow> nat set" where
  "has_counted n s = {t. t < n \<and> cpu_phase s t \<noteq> Todo}"

definition count_inv :: "nat \<Rightarrow> u32 \<Rightarrow> u32 cpus \<Rightarrow> bool" where
  "count_inv n c s \<longleftrightarrow>
     (\<exists>f. bij_betw f (has_counted n s) {..<card (has_counted n s)} \<and>
        (\<forall>t\<in>has_counted n s. cpu_phase s t = Result (c + of_nat (f t)))) \<and>
     memory s = c + of_nat (card (has_counted n s))"

lemma count_inv_step:
  assumes inv: "count_inv n c s" and ev: "cpu_event n (x86_fetch_and_add_32 1) t s = Some s'"
  shows "count_inv n c s'"
proof -
  let ?k = "card (has_counted n s)"
  from inv obtain f where f: "bij_betw f (has_counted n s) {..<?k}"
    "\<And>t. t \<in> has_counted n s \<Longrightarrow> cpu_phase s t = Result (c + of_nat (f t))"
    and c: "memory s = c + of_nat ?k" by (auto simp: count_inv_def)
  have t: "t < n" "cpu_phase s t = Todo"
  proof -
    show "t < n" using ev by (simp add: cpu_event_def split: if_splits)
    then show "cpu_phase s t = Todo"
      using ev f(2) [of t] by (cases "cpu_phase s t") (auto simp: cpu_event_def has_counted_def)
  qed
  then have s': "s' = \<lparr>memory = memory s + 1, cpu_phase = (cpu_phase s)(t := Result (memory s))\<rparr>"
    using ev by (simp add: cpu_event_def x86_fetch_and_add_32_def pf_defs)
  have new: "has_counted n s' = insert t (has_counted n s)" "t \<notin> has_counted n s"
    using t s' by (auto simp: has_counted_def)
  have "finite (has_counted n s)" by (simp add: has_counted_def)
  with new have card: "card (has_counted n s') = Suc ?k" by simp
  have "bij_betw (f(t := ?k)) (has_counted n s') {..<card (has_counted n s')}"
  proof -
    have "bij_betw (f(t := ?k)) (has_counted n s) {..<?k}"
      by (subst bij_betw_cong [of _ _ f]) (use f(1) new(2) in auto)
    then have "bij_betw (f(t := ?k)) (has_counted n s \<union> {t}) ({..<?k} \<union> {(f(t := ?k)) t})"
      using new(2) by (intro notIn_Un_bij_betw) auto
    moreover have "{..<?k} \<union> {(f(t := ?k)) t} = {..<card (has_counted n s')}" using card by auto
    ultimately show ?thesis using new(1) by simp
  qed
  moreover have "\<forall>u\<in>has_counted n s'. cpu_phase s' u = Result (c + of_nat ((f(t := ?k)) u))"
    using new f(2) c s' by auto
  moreover have "memory s' = c + of_nat (card (has_counted n s'))" using s' c card by simp
  ultimately show ?thesis unfolding count_inv_def by blast
qed

lemma count_inv_start: "count_inv n c (cpus_start c)"
  by (auto simp: count_inv_def cpus_start_def has_counted_def bij_betw_def)

interpretation locked_adds: invariant_system "\<lambda>s. s = cpus_start c"
  "step_of (cpu_event n (x86_fetch_and_add_32 1))" "count_inv n c"
  for n c
  by unfold_locales (auto simp: count_inv_start elim!: step_ofE intro: count_inv_step)

subsection \<open>Without it\<close>

text \<open>Two processors read before either writes; then the others go one by one.\<close>

definition lost_run :: "nat \<Rightarrow> nat list" where
  "lost_run n = [0, 1, 0, 1] @ concat (map (\<lambda>t. [t, t]) [2..<n])"

lemma one_by_one:
  assumes "distinct ts" and "\<forall>t\<in>set ts. t < n \<and> cpu_phase s t = Todo"
  shows "\<exists>s'. run_events (cpu_event n (win_fetch_and_add_32 1)) (concat (map (\<lambda>t. [t, t]) ts)) s = Some s' \<and>
     memory s' = memory s + of_nat (length ts) \<and>
     (\<forall>t. t \<in> set ts \<longrightarrow> (\<exists>v. cpu_phase s' t = Result v)) \<and> (\<forall>t. t \<notin> set ts \<longrightarrow> cpu_phase s' t = cpu_phase s t)"
  using assms
proof (induction ts arbitrary: s)
  case (Cons t ts)
  let ?s1 = "\<lparr>memory = memory s + 1, cpu_phase = (cpu_phase s)(t := Result (memory s))\<rparr>"
  have "run_events (cpu_event n (win_fetch_and_add_32 1)) [t, t] s = Some ?s1"
    using Cons.prems by (simp add: cpu_event_def win_fetch_and_add_32_def lock_xadd_def)
  moreover have "\<forall>u\<in>set ts. u < n \<and> cpu_phase ?s1 u = Todo" using Cons.prems by auto
  with Cons.IH [of ?s1] Cons.prems obtain s' where
    "run_events (cpu_event n (win_fetch_and_add_32 1)) (concat (map (\<lambda>t. [t, t]) ts)) ?s1 = Some s'"
    "memory s' = memory s + 1 + of_nat (length ts)" "\<forall>t. t \<in> set ts \<longrightarrow> (\<exists>v. cpu_phase s' t = Result v)"
    "\<forall>u. u \<notin> set ts \<longrightarrow> cpu_phase s' u = cpu_phase ?s1 u" by auto
  moreover have "t \<notin> set ts" using Cons.prems by simp
  ultimately show ?case by (auto simp: algebra_simps split: option.splits)
qed simp

lemma lost_run_result:
  assumes "2 \<le> n"
  shows "\<exists>s. run_events (cpu_event n (win_fetch_and_add_32 1)) (lost_run n) (cpus_start c) = Some s \<and>
     memory s = c + of_nat (n - 1) \<and> all_done n s"
proof -
  let ?ev = "cpu_event n (win_fetch_and_add_32 1)"
  let ?s1 = "\<lparr>memory = c + 1, cpu_phase = (\<lambda>t. if t < 2 then Result c else Todo)\<rparr> :: u32 cpus"
  have first: "run_events ?ev [0, 1, 0, 1] (cpus_start c) = Some ?s1"
    using assms by (auto simp: cpu_event_def win_fetch_and_add_32_def lock_xadd_def cpus_start_def fun_eq_iff
        less_2_cases_iff)
  have append: "run_events ?ev (as @ bs) s = (case run_events ?ev as s of None \<Rightarrow> None | Some t \<Rightarrow> run_events ?ev bs t)"
    for as bs s
    by (induction as arbitrary: s) (auto split: option.splits)
  obtain m where m: "n = m + 2" using assms by (metis add.commute le_Suc_ex)
  have "distinct [2..<n]" "\<forall>t\<in>set [2..<n]. t < n \<and> cpu_phase ?s1 t = Todo" by simp_all
  from one_by_one [OF this] obtain s where
    s: "run_events ?ev (concat (map (\<lambda>t. [t, t]) [2..<n])) ?s1 = Some s"
      "memory s = memory ?s1 + of_nat (length [2..<n])"
    "\<forall>t. t \<in> set [2..<n] \<longrightarrow> (\<exists>v. cpu_phase s t = Result v)"
    "\<forall>t. t \<notin> set [2..<n] \<longrightarrow> cpu_phase s t = cpu_phase ?s1 t" by (elim exE conjE)
  have "run_events ?ev (lost_run n) (cpus_start c) = Some s"
    unfolding lost_run_def append first using s(1) by simp
  moreover have "memory s = c + of_nat (n - 1)" unfolding s(2) m length_upt by simp
  moreover have "all_done n s"
    unfolding all_done_def
  proof (intro allI impI)
    fix t assume "t < n"
    then show "case cpu_phase s t of Result r \<Rightarrow> True | _ \<Rightarrow> False"
      using s(3,4) by (cases "t \<in> set [2..<n]") (force split: phase.splits)+
  qed
  ultimately show ?thesis by blast
qed

section \<open>Properties\<close>

text \<open>
  Where the operations come from. Every environment with Windows, an x86 or POSIX
  threads gets one definition of each operation, and any other gets none. The fetching
  operations and the accesses of all files do what the comments promise when nobody
  interferes; compare-and-swap returns, on success, the new value as documented only in the
  generic file, and the old value on x86 and Windows, where the mutex needs it.
\<close>

theorem atomics_of_every_platform:
  "(included_files w x p t = [] \<longleftrightarrow> \<not> w \<and> \<not> x \<and> \<not> t) \<and>
     (Win_h \<in> set (included_files w x p t) \<longleftrightarrow> w) \<and> distinct (included_files w x p t) \<and>
     (X86_h \<in> set (included_files w x p t) \<longleftrightarrow> included_files w x p t = [X86_h]) \<and>
     pfunc_fetch_and_add_32 c a = documented_fetch_and_add c a \<and>
     generic_fetch_and_add_32 c a = documented_fetch_and_add c a \<and>
     effect (win_fetch_and_add_32 a) c (accumulator (win_fetch_and_add_32 a)) = documented_fetch_and_add c a \<and>
     pfunc_fetch_and_store_32 c a = documented_fetch_and_store c a \<and>
     generic_fetch_and_store_32 c a = documented_fetch_and_store c a \<and>
     effect (win_fetch_and_store_16 a16) c16 (accumulator (win_fetch_and_store_16 a16)) =
       documented_fetch_and_store c16 a16 \<and>
     generic_compare_and_swap_32 c x' k = documented_compare_and_swap c x' k \<and>
     snd (pfunc_compare_and_swap_32 c x' k) = snd (documented_compare_and_swap c x' k) \<and>
     (fst (pfunc_compare_and_swap_32 c x' k) = fst (documented_compare_and_swap c x' k) \<longleftrightarrow> c \<noteq> k \<or> x' = k)"
  by (auto simp: included_files_def pf_defs win_fetch_and_add_32_def win_fetch_and_store_16_def)

text \<open>
  C20: the start-up count needs the prefix. If each of \<open>n\<close> threads adds one with the x86
  operation, then in every state in which all have done so the count is \<open>n\<close> and the loop of
  the constructor ends, whatever the interleaving. With the operation of \<^verbatim>\<open>win.h\<close> and two
  or more threads on as many processors, an addition can be lost: all threads have counted
  themselves, nothing can happen any more, and the constructor waits for ever.
\<close>

theorem start_count_needs_lock_prefix:
  assumes "2 \<le> n" and "n < 2 ^ 32"
  shows "(\<forall>s. reaches (step_of (cpu_event n (x86_fetch_and_add_32 1))) (cpus_start 0) s \<and> all_done n s \<longrightarrow>
            start_loop_ends n s) \<and>
         (\<exists>s. reaches (step_of (cpu_event n (win_fetch_and_add_32 1))) (cpus_start 0) s \<and> all_done n s \<and>
            (\<forall>t. cpu_event n (win_fetch_and_add_32 1) t s = None) \<and> \<not> start_loop_ends n s)"
proof (intro conjI allI impI)
  fix s assume s: "reaches (step_of (cpu_event n (x86_fetch_and_add_32 1))) (cpus_start 0) s \<and> all_done n s"
  then have "count_inv n 0 s" by (intro locked_adds.reach_inv [OF refl]) simp
  moreover have "has_counted n s = {..<n}" using s by (auto simp: all_done_def has_counted_def split: phase.splits)
  ultimately show "start_loop_ends n s" by (simp add: count_inv_def start_loop_ends_def)
next
  from lost_run_result [OF assms(1), of 0] obtain s where
    s: "run_events (cpu_event n (win_fetch_and_add_32 1)) (lost_run n) (cpus_start 0) = Some s"
    "memory s = of_nat (n - 1)" "all_done n s" by auto
  have "of_nat (n - 1) \<noteq> (of_nat n :: u32)" using assms by (simp add: of_nat_inj32)
  with s(2) have "\<not> start_loop_ends n s" by (simp add: start_loop_ends_def)
  moreover have "cpu_event n (win_fetch_and_add_32 1) t s = None" for t
    using s(3) by (auto simp: cpu_event_def all_done_def split: phase.splits dest!: spec [of _ t])
  ultimately show "\<exists>s. reaches (step_of (cpu_event n (win_fetch_and_add_32 1))) (cpus_start 0) s \<and> all_done n s \<and>
      (\<forall>t. cpu_event n (win_fetch_and_add_32 1) t s = None) \<and> \<not> start_loop_ends n s"
    using run_events_reaches [OF s(1)] s(3) by blast
qed

theorem start_count_needs_lock_prefix_witness:
  "\<exists>s. reaches (step_of (cpu_event 3 (win_fetch_and_add_32 1))) (cpus_start 0) s \<and> all_done 3 s \<and>
     \<not> start_loop_ends 3 s"
proof -
  have "(2 :: nat) \<le> 3" "(3 :: nat) < 2 ^ 32" by simp_all
  from start_count_needs_lock_prefix [OF this] show ?thesis by blast
qed

end
