(* ===== verification/Generator.thy ===== *)
theory Generator
  imports Pfunc_Prelude
begin

text \<open>
  The library instance generator of \<^verbatim>\<open>pfunc/generator.hpp\<close>: C++ types as terms, the primary
  template and its seven specialisations, and the choice that the language makes among
  them. With it the scheduling policies that have a queue (\<^verbatim>\<open>pfunc/task_queue_set.hpp\<close>), the
  types of the C interface (\<^verbatim>\<open>pfunc/pfunc.h\<close>), and the macros of \<^verbatim>\<open>pfunc/environ.hpp\<close>.
\<close>

section \<open>Types\<close>

text \<open>\<open>User\<close> is any type that the program brings along.\<close>

datatype cpp_type =
    Use_default
  | ErrorS | FifoT | LifoT | PrioT | CilkT
  | Int_t
  | Less_of cpp_type
  | Virtual_functor
  | Internal_work_func
  | User string
  | Attribute_of cpp_type cpp_type
  | Task_of cpp_type cpp_type
  | Taskmgr_of cpp_type cpp_type
  | Group_t

datatype default_tag = Sched_tag | Comp_tag | Func_tag

fun default_type :: "default_tag \<Rightarrow> cpp_type" where
  "default_type Sched_tag = CilkT"
| "default_type Comp_tag = Less_of Int_t"
| "default_type Func_tag = Virtual_functor"

text \<open>
  The nested type \<open>first_argument_type\<close>: \<open>std::less\<close> has it; of the types of the program the
  parameter \<open>nested\<close> tells.
\<close>

fun first_argument_type :: "(string \<Rightarrow> cpp_type option) \<Rightarrow> cpp_type \<Rightarrow> cpp_type option" where
  "first_argument_type nested (Less_of t) = Some t"
| "first_argument_type nested (User s) = nested s"
| "first_argument_type nested t = None"

section \<open>The templates\<close>

record library_instance =
  task_queue_set :: cpp_type
  compare_type :: cpp_type
  priority_type :: cpp_type
  functor_type :: cpp_type
  attribute_type :: cpp_type
  task_type :: cpp_type
  taskmgr_type :: cpp_type
  group_type :: cpp_type

text \<open>\<open>GENERATE_PFUNC_TYPES\<close>; a missing nested type is an error of the compiler.\<close>

definition generate_types ::
  "(string \<Rightarrow> cpp_type option) \<Rightarrow> cpp_type \<Rightarrow> cpp_type \<Rightarrow> cpp_type \<Rightarrow> library_instance option" where
  "generate_types nested sched cmp func =
     map_option (\<lambda>prio.
       (let at = Attribute_of prio cmp; t = Task_of at func
        in \<lparr>task_queue_set = sched, compare_type = cmp, priority_type = prio, functor_type = func,
            attribute_type = at, task_type = t, taskmgr_type = Taskmgr_of sched t, group_type = Group_t\<rparr>))
       (first_argument_type nested cmp)"

datatype pattern = Var | Default

type_synonym body =
  "(string \<Rightarrow> cpp_type option) \<Rightarrow> cpp_type \<Rightarrow> cpp_type \<Rightarrow> cpp_type \<Rightarrow> library_instance option"

text \<open>The templates in the order of the file; a body gets the arguments.\<close>

definition primary :: body where
  "primary nested s c f = generate_types nested s c f"
definition spec_none :: body where
  "spec_none nested s c f =
     generate_types nested (default_type Sched_tag) (default_type Comp_tag) (default_type Func_tag)"
definition spec_sched :: body where
  "spec_sched nested s c f = generate_types nested s (default_type Comp_tag) (default_type Func_tag)"
definition spec_comp :: body where
  "spec_comp nested s c f = generate_types nested (default_type Sched_tag) c (default_type Func_tag)"
definition spec_func :: body where
  "spec_func nested s c f = generate_types nested (default_type Sched_tag) (default_type Comp_tag) f"
definition spec_sched_comp :: body where
  "spec_sched_comp nested s c f = generate_types nested s c (default_type Func_tag)"
definition spec_sched_func :: body where
  "spec_sched_func nested s c f = generate_types nested s (default_type Comp_tag) f"
definition spec_comp_func :: body where
  "spec_comp_func nested s c f = generate_types nested (default_type Sched_tag) c f"

definition templates :: "(pattern list \<times> body) list" where
  "templates =
     [([Var, Var, Var], primary),
      ([Default, Default, Default], spec_none),
      ([Var, Default, Default], spec_sched),
      ([Default, Var, Default], spec_comp),
      ([Default, Default, Var], spec_func),
      ([Var, Var, Default], spec_sched_comp),
      ([Var, Default, Var], spec_sched_func),
      ([Default, Var, Var], spec_comp_func)]"

section \<open>The choice\<close>

definition matches :: "pattern list \<Rightarrow> cpp_type list \<Rightarrow> bool" where
  "matches ps ts \<longleftrightarrow> list_all2 (\<lambda>p t. p = Default \<longrightarrow> t = Use_default) ps ts"

text \<open>Whatever matches the first pattern matches the second.\<close>

definition at_least_as_special :: "pattern list \<Rightarrow> pattern list \<Rightarrow> bool" where
  "at_least_as_special ps qs \<longleftrightarrow> list_all2 (\<lambda>p q. q = Default \<longrightarrow> p = Default) ps qs"

text \<open>
  The matching template that is at least as specialised as every other that matches; without
  one the use is ambiguous.
\<close>

definition choose_template :: "cpp_type list \<Rightarrow> (pattern list \<times> body) option" where
  "choose_template ts =
     (let ms = filter (\<lambda>(ps, b). matches ps ts) templates
      in case filter (\<lambda>(ps, b). \<forall>(qs, c)\<in>set ms. at_least_as_special ps qs) ms of
           [m] \<Rightarrow> Some m
         | _ \<Rightarrow> None)"

definition generator ::
  "(string \<Rightarrow> cpp_type option) \<Rightarrow> cpp_type \<Rightarrow> cpp_type \<Rightarrow> cpp_type \<Rightarrow> library_instance option" where
  "generator nested s c f =
     (case choose_template [s, c, f] of None \<Rightarrow> None | Some (ps, b) \<Rightarrow> b nested s c f)"

text \<open>The specialisations of \<open>task_queue_set\<close>; the primary template declares errors.\<close>

definition has_queue :: "cpp_type \<Rightarrow> bool" where
  "has_queue policy \<longleftrightarrow> policy \<in> {FifoT, LifoT, PrioT, CilkT}"

definition queue_index_type :: "cpp_type \<Rightarrow> cpp_type" where
  "queue_index_type policy = (if has_queue policy then Int_t else ErrorS)"

text \<open>The instances of the C interface.\<close>

definition c_instance :: "(string \<Rightarrow> cpp_type option) \<Rightarrow> cpp_type \<Rightarrow> library_instance option" where
  "c_instance nested sched = generator nested sched Use_default Internal_work_func"

section \<open>The environment\<close>

datatype macro = Declspec_align nat | Attribute_aligned nat | Nothing | Inline | Underscore_inline
  | Underscore_inline_underscore

definition align_macro :: "bool \<Rightarrow> bool \<Rightarrow> bool \<Rightarrow> bool \<Rightarrow> nat \<Rightarrow> macro" where
  "align_macro windows linux aix darwin n =
     (if windows then Declspec_align n else if linux \<or> aix \<or> darwin then Attribute_aligned n else Nothing)"

definition inline_macro :: "bool \<Rightarrow> bool \<Rightarrow> bool \<Rightarrow> bool \<Rightarrow> macro" where
  "inline_macro cplusplus have_inline have_underscore_inline have_underscore_inline_underscore =
     (if cplusplus \<or> have_inline then Inline
      else if have_underscore_inline then Underscore_inline
      else if have_underscore_inline_underscore then Underscore_inline_underscore else Nothing)"

section \<open>Lemmas\<close>

text \<open>The pattern of the one template that is chosen.\<close>

definition best :: "cpp_type \<Rightarrow> pattern" where
  "best t = (if t = Use_default then Default else Var)"

lemma choose_template_eq:
  "choose_template [s, c, f] =
     Some ([best s, best c, best f],
       if s = Use_default
       then (if c = Use_default then (if f = Use_default then spec_none else spec_func)
             else (if f = Use_default then spec_comp else spec_comp_func))
       else (if c = Use_default then (if f = Use_default then spec_sched else spec_sched_func)
             else (if f = Use_default then spec_sched_comp else primary)))"
  by (cases "s = Use_default"; cases "c = Use_default"; cases "f = Use_default")
     (simp_all add: choose_template_def templates_def matches_def at_least_as_special_def best_def Let_def)

lemma choose_template_sound:
  assumes "choose_template ts = Some m"
  shows "m \<in> set templates \<and> matches (fst m) ts \<and>
     (\<forall>q\<in>set templates. matches (fst q) ts \<longrightarrow> at_least_as_special (fst m) (fst q))"
proof -
  let ?ms = "filter (\<lambda>(ps, b). matches ps ts) templates"
  let ?ns = "filter (\<lambda>(ps, b). \<forall>(qs, c)\<in>set ?ms. at_least_as_special ps qs) ?ms"
  have "?ns = [m]" using assms by (auto simp: choose_template_def Let_def split: list.splits)
  then have "m \<in> set ?ns" by simp
  then show ?thesis by (auto split: prod.splits)
qed

definition or_default :: "default_tag \<Rightarrow> cpp_type \<Rightarrow> cpp_type" where
  "or_default tag t = (if t = Use_default then default_type tag else t)"

lemma generator_eq:
  "generator nested s c f =
     generate_types nested (or_default Sched_tag s) (or_default Comp_tag c) (or_default Func_tag f)"
  by (simp add: generator_def choose_template_eq or_default_def primary_def spec_none_def spec_sched_def
      spec_comp_def spec_func_def spec_sched_comp_def spec_sched_func_def spec_comp_func_def)

text \<open>An instance is well-typed: its parts are built from each other, and the comparison takes priorities.\<close>

definition well_typed :: "(string \<Rightarrow> cpp_type option) \<Rightarrow> library_instance \<Rightarrow> bool" where
  "well_typed nested i \<longleftrightarrow>
     first_argument_type nested (compare_type i) = Some (priority_type i) \<and>
     attribute_type i = Attribute_of (priority_type i) (compare_type i) \<and>
     task_type i = Task_of (attribute_type i) (functor_type i) \<and>
     taskmgr_type i = Taskmgr_of (task_queue_set i) (task_type i) \<and>
     Use_default \<notin> {task_queue_set i, compare_type i, functor_type i}"

lemma default_type_real [simp]: "default_type tag \<noteq> Use_default"
  by (cases tag) simp_all

section \<open>Properties\<close>

text \<open>
  C18: the generator is well-typed and never ambiguous. For every three arguments exactly one
  of the eight templates is the most specialised that matches; it yields the user's types
  with \<open>cilkS\<close>, \<open>std::less<int>\<close> and \<open>virtual_functor\<close> in the places of \<open>use_default\<close>; the
  attribute, task and task manager types are built from each other, and the comparison
  takes the priority type. It fails only for a comparison without \<open>first_argument_type\<close>. The
  four instances of the C interface exist, with \<open>int\<close> priorities and a queue.
\<close>

theorem generator_is_well_typed:
  "(\<exists>m. choose_template [s, c, f] = Some m \<and> m \<in> set templates \<and> matches (fst m) [s, c, f] \<and>
      (\<forall>q\<in>set templates. matches (fst q) [s, c, f] \<longrightarrow> at_least_as_special (fst m) (fst q))) \<and>
   (case generator nested s c f of
      None \<Rightarrow> c \<noteq> Use_default \<and> first_argument_type nested c = None
    | Some i \<Rightarrow> well_typed nested i \<and> task_queue_set i = (if s = Use_default then CilkT else s) \<and>
        compare_type i = (if c = Use_default then Less_of Int_t else c) \<and>
        functor_type i = (if f = Use_default then Virtual_functor else f)) \<and>
   (has_queue s \<longrightarrow> (\<exists>i. c_instance nested s = Some i \<and> well_typed nested i \<and> priority_type i = Int_t \<and>
      task_queue_set i = s \<and> queue_index_type (task_queue_set i) \<noteq> ErrorS))"
proof (intro conjI impI)
  show "\<exists>m. choose_template [s, c, f] = Some m \<and> m \<in> set templates \<and> matches (fst m) [s, c, f] \<and>
      (\<forall>q\<in>set templates. matches (fst q) [s, c, f] \<longrightarrow> at_least_as_special (fst m) (fst q))"
    using choose_template_sound [OF choose_template_eq] choose_template_eq by blast
  show "case generator nested s c f of
      None \<Rightarrow> c \<noteq> Use_default \<and> first_argument_type nested c = None
    | Some i \<Rightarrow> well_typed nested i \<and> task_queue_set i = (if s = Use_default then CilkT else s) \<and>
        compare_type i = (if c = Use_default then Less_of Int_t else c) \<and>
        functor_type i = (if f = Use_default then Virtual_functor else f)"
    by (auto simp: generator_eq generate_types_def well_typed_def or_default_def Let_def split: option.splits)
  show "\<exists>i. c_instance nested s = Some i \<and> well_typed nested i \<and> priority_type i = Int_t \<and>
      task_queue_set i = s \<and> queue_index_type (task_queue_set i) \<noteq> ErrorS" if "has_queue s"
    using that
    by (auto simp: c_instance_def generator_eq generate_types_def well_typed_def or_default_def Let_def
        queue_index_type_def has_queue_def)
qed

theorem generator_is_well_typed_witness:
  "\<exists>i. c_instance (\<lambda>_. None) PrioT = Some i \<and> taskmgr_type i =
     Taskmgr_of PrioT (Task_of (Attribute_of Int_t (Less_of Int_t)) Internal_work_func)"
proof -
  have "has_queue PrioT" by (simp add: has_queue_def)
  with generator_is_well_typed [of PrioT "Use_default" Internal_work_func "\<lambda>_. None"]
  obtain i where "c_instance (\<lambda>_. None) PrioT = Some i" "well_typed (\<lambda>_. None) i" "priority_type i = Int_t"
    "task_queue_set i = PrioT" by blast
  moreover have "compare_type i = Less_of Int_t \<and> functor_type i = Internal_work_func"
    using calculation(1) by (auto simp: c_instance_def generator_eq generate_types_def or_default_def Let_def)
  ultimately show ?thesis by (auto simp: well_typed_def)
qed

end
