(* ===== verification/Matmult.thy ===== *)
theory Matmult
  imports Pfunc_Prelude
begin

text \<open>
  The matrix product of \<^verbatim>\<open>examples/cxx/matmult.cpp\<close>: sub-matrices of a vector, the
  three-loop product, and the functor \<open>dgemm_op\<close> as a tree of tasks that run in any
  interleaving. Loading and storing an element of \<open>C\<close> are separate steps. The elements
  are of any type with zero, sum and product, so that \<open>double\<close> is one of them; that the
  result is the product needs the laws of a semiring, which \<open>double\<close> has up to rounding.
  Indices are natural numbers: the vectors of the program have less than \<open>2 ^ 31\<close> elements.
\<close>

section \<open>Sub-matrices\<close>

record dmat =
  dim :: nat
  stride :: nat
  start_index :: nat
  transposed :: bool

definition divisible_matrix :: "nat \<Rightarrow> nat \<Rightarrow> nat \<Rightarrow> bool \<Rightarrow> dmat" where
  "divisible_matrix d s i t = \<lparr>dim = d, stride = s, start_index = i, transposed = t\<rparr>"

definition quadrant :: "nat \<Rightarrow> dmat \<Rightarrow> dmat" where
  "quadrant q m =
     (let new_dim = dim m div 2
      in divisible_matrix new_dim (stride m)
           (start_index m + (if q = 1 then 0 else if q = 2 then new_dim
                             else if q = 3 then new_dim * stride m
                             else new_dim * stride m + new_dim))
           (transposed m))"

text \<open>The index of an element in the vector, for both forms of \<open>operator()\<close>.\<close>

definition index_of :: "dmat \<Rightarrow> nat \<Rightarrow> nat \<Rightarrow> nat" where
  "index_of m i j =
     (if transposed m then start_index m + j * stride m + i else start_index m + i * stride m + j)"

definition dimension :: "dmat \<Rightarrow> nat" where
  "dimension m = dim m"

section \<open>The operations\<close>

record gemm =
  mat_A :: dmat
  mat_B :: dmat
  mat_C :: dmat

definition dgemm_op :: "dmat \<Rightarrow> dmat \<Rightarrow> dmat \<Rightarrow> gemm" where
  "dgemm_op a b c = \<lparr>mat_A = a, mat_B = b, mat_C = c\<rparr>"

text \<open>The vectors under \<open>A\<close> and \<open>B\<close> are not written.\<close>

definition product_entry :: "'a::{zero, plus, times} list \<Rightarrow> 'a list \<Rightarrow> gemm \<Rightarrow> nat \<Rightarrow> nat \<Rightarrow> 'a" where
  "product_entry A B g i j =
     fold (\<lambda>k acc. acc + A ! index_of (mat_A g) i k * B ! index_of (mat_B g) k j) [0..<dimension (mat_A g)] 0"

definition loop_cells :: "nat \<Rightarrow> (nat \<times> nat) list" where
  "loop_cells d = concat (map (\<lambda>i. map (\<lambda>j. (i, j)) [0..<d]) [0..<d])"

definition add_cell :: "'a::{zero, plus, times} list \<Rightarrow> 'a list \<Rightarrow> gemm \<Rightarrow> nat \<times> nat \<Rightarrow> 'a list \<Rightarrow> 'a list" where
  "add_cell A B g = (\<lambda>(i, j) C.
     C[index_of (mat_C g) i j := C ! index_of (mat_C g) i j + product_entry A B g i j])"

definition dgemm_three_loop :: "'a::{zero, plus, times} list \<Rightarrow> 'a list \<Rightarrow> gemm \<Rightarrow> 'a list \<Rightarrow> 'a list" where
  "dgemm_three_loop A B g C = fold (add_cell A B g) (loop_cells (dimension (mat_A g))) C"

text \<open>The functors of the two batches; the fourth is called directly.\<close>

definition first_ops :: "gemm \<Rightarrow> gemm list" where
  "first_ops g =
     [dgemm_op (quadrant 1 (mat_A g)) (quadrant 1 (mat_B g)) (quadrant 1 (mat_C g)),
      dgemm_op (quadrant 1 (mat_A g)) (quadrant 2 (mat_B g)) (quadrant 2 (mat_C g)),
      dgemm_op (quadrant 3 (mat_A g)) (quadrant 1 (mat_B g)) (quadrant 3 (mat_C g)),
      dgemm_op (quadrant 3 (mat_A g)) (quadrant 2 (mat_B g)) (quadrant 4 (mat_C g))]"

definition second_ops :: "gemm \<Rightarrow> gemm list" where
  "second_ops g =
     [dgemm_op (quadrant 2 (mat_A g)) (quadrant 3 (mat_B g)) (quadrant 1 (mat_C g)),
      dgemm_op (quadrant 2 (mat_A g)) (quadrant 4 (mat_B g)) (quadrant 2 (mat_C g)),
      dgemm_op (quadrant 4 (mat_A g)) (quadrant 3 (mat_B g)) (quadrant 3 (mat_C g)),
      dgemm_op (quadrant 4 (mat_A g)) (quadrant 4 (mat_B g)) (quadrant 4 (mat_C g))]"

lemma op_dims [simp]:
  "h \<in> set (first_ops g) \<Longrightarrow> dim (mat_A h) = dim (mat_A g) div 2"
  "h \<in> set (second_ops g) \<Longrightarrow> dim (mat_A h) = dim (mat_A g) div 2"
  by (auto simp: first_ops_def second_ops_def dgemm_op_def quadrant_def divisible_matrix_def Let_def)

text \<open>The functor when all its tasks run at once where they are spawned.\<close>

function dgemm :: "nat \<Rightarrow> 'a::{zero, plus, times} list \<Rightarrow> 'a list \<Rightarrow> gemm \<Rightarrow> 'a list \<Rightarrow> 'a list" where
  "dgemm x A B g C =
     (if dimension (mat_A g) \<le> x then dgemm_three_loop A B g C
      else fold (dgemm x A B) (second_ops g) (fold (dgemm x A B) (first_ops g) C))"
  by pat_completeness auto
termination
  by (relation "measure (\<lambda>(x, A, B, g, C). dim (mat_A g))") (auto simp: dimension_def)

declare dgemm.simps [simp del]

section \<open>Any interleaving\<close>

text \<open>
  A functor that has not started, one in the loops with the cells to do and the element it
  has loaded, one in its first or second batch of four, and one that has returned.
\<close>

datatype 'a gtask =
    Start gemm
  | Cells gemm "(nat \<times> nat) list" "'a option"
  | Batch bool gemm "'a gtask list"
  | Returned

text \<open>
  One step of the task at the end of a path in the tree, and the store it makes. An access
  outside a vector is \<open>None\<close>.
\<close>

fun gstep :: "nat \<Rightarrow> 'a::{zero, plus, times} list \<Rightarrow> 'a list \<Rightarrow> nat list \<Rightarrow> 'a gtask \<Rightarrow> 'a list \<Rightarrow>
    ('a gtask \<times> (nat \<times> 'a) option) option" where
  "gstep x A B [] (Start g) C =
     Some (if dimension (mat_A g) \<le> x then Cells g (loop_cells (dimension (mat_A g))) None
           else Batch True g (map Start (first_ops g)), None)"
| "gstep x A B [] (Cells g [] r) C = Some (Returned, None)"
| "gstep x A B [] (Cells g ((i, j) # ps) None) C =
     (if index_of (mat_C g) i j < length C \<and>
         (\<forall>k<dimension (mat_A g). index_of (mat_A g) i k < length A \<and> index_of (mat_B g) k j < length B)
      then Some (Cells g ((i, j) # ps) (Some (C ! index_of (mat_C g) i j)), None) else None)"
| "gstep x A B [] (Cells g ((i, j) # ps) (Some v)) C =
     Some (Cells g ps None, Some (index_of (mat_C g) i j, v + product_entry A B g i j))"
| "gstep x A B [] (Batch b g ts) C =
     (if \<forall>t\<in>set ts. t = Returned
      then Some (if b then Batch False g (map Start (second_ops g)) else Returned, None) else None)"
| "gstep x A B (q # path) (Batch b g ts) C =
     (if q < length ts
      then map_option (\<lambda>(t, u). (Batch b g (ts[q := t]), u)) (gstep x A B path (ts ! q) C) else None)"
| "gstep x A B path t C = None"

definition store_at :: "(nat \<times> 'a) option \<Rightarrow> 'a list \<Rightarrow> 'a list" where
  "store_at u C = (case u of None \<Rightarrow> C | Some (i, v) \<Rightarrow> C[i := v])"

definition gemm_event ::
  "nat \<Rightarrow> 'a::{zero, plus, times} list \<Rightarrow> 'a list \<Rightarrow> nat list \<Rightarrow> 'a gtask \<times> 'a list \<Rightarrow> ('a gtask \<times> 'a list) option" where
  "gemm_event x A B path = (\<lambda>(t, C). map_option (\<lambda>(t', u). (t', store_at u C)) (gstep x A B path t C))"

section \<open>Where a sub-matrix lies\<close>

definition pos :: "dmat \<Rightarrow> nat \<Rightarrow> nat \<Rightarrow> nat" where
  "pos m r c = start_index m + r * stride m + c"

definition region :: "dmat \<Rightarrow> nat set" where
  "region m = {pos m r c |r c. r < dim m \<and> c < dim m}"

lemma index_pos: "index_of m i j = (if transposed m then pos m j i else pos m i j)"
  by (simp add: index_of_def pos_def)

lemma index_region: "i < dim m \<Longrightarrow> j < dim m \<Longrightarrow> index_of m i j \<in> region m"
  by (auto simp: index_pos region_def)

definition row_off :: "nat \<Rightarrow> nat \<Rightarrow> nat" where "row_off q h = (if q = 1 \<or> q = 2 then 0 else h)"
definition col_off :: "nat \<Rightarrow> nat \<Rightarrow> nat" where "col_off q h = (if q = 1 \<or> q = 3 then 0 else h)"

lemma quadrant_sel [simp]:
  "dim (quadrant q m) = dim m div 2" "stride (quadrant q m) = stride m"
  "transposed (quadrant q m) = transposed m"
  by (simp_all add: quadrant_def divisible_matrix_def Let_def)

lemma quadrant_pos:
  "pos (quadrant q m) r c = pos m (r + row_off q (dim m div 2)) (c + col_off q (dim m div 2))"
  by (auto simp: quadrant_def divisible_matrix_def Let_def pos_def row_off_def col_off_def algebra_simps)

lemma off_bound: "r < dim m div 2 \<Longrightarrow> r + row_off q (dim m div 2) < dim m"
  "r < dim m div 2 \<Longrightarrow> r + col_off q (dim m div 2) < dim m"
  by (auto simp: row_off_def col_off_def)

lemma quadrant_region: "region (quadrant q m) \<subseteq> region m"
  by (auto simp: region_def quadrant_pos) (metis off_bound)

lemma pos_inj:
  assumes "pos m r c = pos m r' c'" and "c < stride m" and "c' < stride m"
  shows "r = r' \<and> c = c'"
proof -
  have eq: "r * stride m + c = r' * stride m + c'" using assms(1) by (simp add: pos_def)
  have "(r * stride m + c) div stride m = r" "(r' * stride m + c') div stride m = r'"
    using assms(2,3) by auto
  with eq have "r = r'" by metis
  with eq show ?thesis by simp
qed

lemma quadrants_disjoint:
  assumes "dim m \<le> stride m" and "q \<in> {1, 2, 3, 4}" "q' \<in> {1, 2, 3, 4}" "q \<noteq> q'"
  shows "region (quadrant q m) \<inter> region (quadrant q' m) = {}"
proof (rule ccontr)
  let ?h = "dim m div 2"
  assume "region (quadrant q m) \<inter> region (quadrant q' m) \<noteq> {}"
  then obtain r c r' c' where rc: "r < ?h" "c < ?h" "r' < ?h" "c' < ?h"
    and eq: "pos m (r + row_off q ?h) (c + col_off q ?h) = pos m (r' + row_off q' ?h) (c' + col_off q' ?h)"
    by (auto simp: region_def quadrant_pos)
  have "r + row_off q ?h = r' + row_off q' ?h \<and> c + col_off q ?h = c' + col_off q' ?h"
    by (rule pos_inj [OF eq]) (use rc off_bound(2) [of _ m] assms(1) in \<open>metis order_less_le_trans\<close>)+
  then show False using rc assms(2-4) by (auto simp: row_off_def col_off_def)
qed

definition within :: "nat \<Rightarrow> dmat \<Rightarrow> bool" where
  "within n m \<longleftrightarrow> (\<forall>p\<in>region m. p < n)"

text \<open>An operation on square sub-matrices of one size inside their vectors.\<close>

definition op_ok :: "nat \<Rightarrow> nat \<Rightarrow> nat \<Rightarrow> gemm \<Rightarrow> bool" where
  "op_ok nA nB nC g \<longleftrightarrow>
     dim (mat_A g) = dim (mat_C g) \<and> dim (mat_B g) = dim (mat_C g) \<and> dim (mat_C g) \<le> stride (mat_C g) \<and>
     within nA (mat_A g) \<and> within nB (mat_B g) \<and> within nC (mat_C g)"

lemma within_quadrant: "within n m \<Longrightarrow> within n (quadrant q m)"
  using quadrant_region by (auto simp: within_def)

lemma op_ok_quadrants:
  assumes "op_ok nA nB nC g"
  shows "op_ok nA nB nC (dgemm_op (quadrant p (mat_A g)) (quadrant q (mat_B g)) (quadrant s (mat_C g)))"
proof -
  have "dim (mat_C g) div 2 \<le> stride (mat_C g)" using assms by (auto simp: op_ok_def)
  then show ?thesis using assms by (simp add: op_ok_def dgemm_op_def within_quadrant)
qed

lemma part_cases:
  assumes "h \<in> set (first_ops g) \<or> h \<in> set (second_ops g)"
  obtains p q s where "h = dgemm_op (quadrant p (mat_A g)) (quadrant q (mat_B g)) (quadrant s (mat_C g))"
proof -
  have "\<exists>p q s. h = dgemm_op (quadrant p (mat_A g)) (quadrant q (mat_B g)) (quadrant s (mat_C g))"
    using assms unfolding first_ops_def second_ops_def by (elim disjE) (simp, blast)+
  then show thesis using that by blast
qed

lemma op_ok_parts:
  assumes "op_ok nA nB nC g" and "h \<in> set (first_ops g) \<or> h \<in> set (second_ops g)"
  shows "op_ok nA nB nC h"
  using assms(2) by (rule part_cases) (simp add: op_ok_quadrants [OF assms(1)])

lemma part_region:
  assumes "h \<in> set (first_ops g) \<or> h \<in> set (second_ops g)"
  shows "region (mat_C h) \<subseteq> region (mat_C g)"
  using assms by (rule part_cases) (simp add: dgemm_op_def quadrant_region)

lemma parts_C:
  "q < 4 \<Longrightarrow> mat_C (first_ops g ! q) = quadrant (Suc q) (mat_C g)"
  "q < 4 \<Longrightarrow> mat_C (second_ops g ! q) = quadrant (Suc q) (mat_C g)"
  "length (first_ops g) = 4" "length (second_ops g) = 4"
proof -
  have "q = 0 \<or> q = 1 \<or> q = 2 \<or> q = 3" if "q < 4" using that by auto
  then show "q < 4 \<Longrightarrow> mat_C (first_ops g ! q) = quadrant (Suc q) (mat_C g)"
    "q < 4 \<Longrightarrow> mat_C (second_ops g ! q) = quadrant (Suc q) (mat_C g)"
    by (auto simp: first_ops_def second_ops_def dgemm_op_def simp flip: numeral_2_eq_2)
qed (simp_all add: first_ops_def second_ops_def)

section \<open>Functions that work on part of a vector\<close>

definition touches :: "nat set \<Rightarrow> ('a list \<Rightarrow> 'a list) \<Rightarrow> bool" where
  "touches S f \<longleftrightarrow> (\<forall>C. length (f C) = length C) \<and> (\<forall>C i. i \<notin> S \<longrightarrow> f C ! i = C ! i) \<and>
     (\<forall>C i v. i \<notin> S \<longrightarrow> f (C[i := v]) = (f C)[i := v])"

lemma touchesD:
  assumes "touches S f"
  shows "length (f C) = length C" and "i \<notin> S \<Longrightarrow> f C ! i = C ! i"
    and "i \<notin> S \<Longrightarrow> f (C[i := v]) = (f C)[i := v]"
  using assms by (auto simp: touches_def)

lemma touches_mono: "touches S f \<Longrightarrow> S \<subseteq> T \<Longrightarrow> touches T f"
  unfolding touches_def by (meson subsetD)

lemma touches_id: "touches S (\<lambda>C. C)"
  by (simp add: touches_def)

lemma touches_comp: "touches S f \<Longrightarrow> touches S g \<Longrightarrow> touches S (\<lambda>C. f (g C))"
  by (simp add: touches_def)

lemma touches_fold: "(\<And>a. a \<in> set as \<Longrightarrow> touches S (f a)) \<Longrightarrow> touches S (fold f as)"
proof (induction as)
  case (Cons a as)
  then have "touches S (f a)" "touches S (fold f as)" by auto
  then show ?case by (simp add: touches_def)
qed (simp add: touches_def)

lemma touches_update:
  assumes "i \<in> S"
  shows "touches S (\<lambda>C. C[i := h (C ! i)])"
  unfolding touches_def
proof (intro conjI allI impI)
  fix C k v assume "k \<notin> S"
  with assms have "i \<noteq> k" by auto
  then show "C[i := h (C ! i)] ! k = C ! k" "C[k := v, i := h (C[k := v] ! i)] = C[i := h (C ! i), k := v]"
    by (simp_all add: list_update_swap)
qed simp

lemma touches_add_cell:
  "index_of (mat_C g) i j \<in> S \<Longrightarrow> touches S (add_cell A B g (i, j))"
  using touches_update [of "index_of (mat_C g) i j" S "\<lambda>c. c + product_entry A B g i j"]
  by (simp add: add_cell_def)

lemma loop_cells_in: "(i, j) \<in> set (loop_cells d) \<longleftrightarrow> i < d \<and> j < d"
  by (auto simp: loop_cells_def image_iff)

lemma dgemm_unfold:
  "dgemm x A B g =
     (if dimension (mat_A g) \<le> x then dgemm_three_loop A B g
      else (\<lambda>C. fold (dgemm x A B) (second_ops g) (fold (dgemm x A B) (first_ops g) C)))"
  by (rule ext) (simp add: dgemm.simps [of x A B g])

lemma dgemm_touches:
  "op_ok nA nB nC g \<Longrightarrow> touches (region (mat_C g)) (dgemm x A B g)"
proof (induction "dim (mat_A g)" arbitrary: g rule: less_induct)
  case less
  show ?case
  proof (cases "dimension (mat_A g) \<le> x")
    case True
    have "touches (region (mat_C g)) (add_cell A B g p)" if "p \<in> set (loop_cells (dimension (mat_A g)))" for p
    proof -
      obtain i j where p: "p = (i, j)" by fastforce
      with that less.prems have "i < dim (mat_C g)" "j < dim (mat_C g)"
        by (simp_all add: op_ok_def dimension_def loop_cells_in)
      then show ?thesis unfolding p by (intro touches_add_cell index_region)
    qed
    then have "touches (region (mat_C g)) (dgemm_three_loop A B g)"
      unfolding dgemm_three_loop_def by (rule touches_fold)
    then show ?thesis using True by (simp add: dgemm_unfold [of x A B g])
  next
    case False
    then have "dim (mat_A g) div 2 < dim (mat_A g)" by (simp add: dimension_def)
    then have part: "touches (region (mat_C g)) (dgemm x A B h)"
      if "h \<in> set (first_ops g) \<or> h \<in> set (second_ops g)" for h
      using that op_dims [of h g]
      by (intro touches_mono [OF less.hyps [OF _ op_ok_parts [OF less.prems that]] part_region [OF that]]) auto
    have "touches (region (mat_C g)) (fold (dgemm x A B) (first_ops g))"
      "touches (region (mat_C g)) (fold (dgemm x A B) (second_ops g))"
      by (rule touches_fold, rule part, simp)+
    then show ?thesis using False by (simp add: dgemm_unfold [of x A B g] touches_comp)
  qed
qed

section \<open>Interleavings\<close>

text \<open>What a task is still going to write, and what becomes of \<open>C\<close> when it runs on alone.\<close>

fun cells_of :: "'a gtask \<Rightarrow> nat set" where
  "cells_of (Start g) = region (mat_C g)"
| "cells_of (Cells g ps r) = region (mat_C g)"
| "cells_of (Batch b g ts) = region (mat_C g)"
| "cells_of Returned = {}"

fun run_alone :: "nat \<Rightarrow> 'a::{zero, plus, times} list \<Rightarrow> 'a list \<Rightarrow> 'a gtask \<Rightarrow> 'a list \<Rightarrow> 'a list" where
  "run_alone x A B (Start g) C = dgemm x A B g C"
| "run_alone x A B (Cells g ps None) C = fold (add_cell A B g) ps C"
| "run_alone x A B (Cells g [] (Some v)) C = C"
| "run_alone x A B (Cells g ((i, j) # ps) (Some v)) C =
     fold (add_cell A B g) ps (C[index_of (mat_C g) i j := v + product_entry A B g i j])"
| "run_alone x A B (Batch b g ts) C =
     (let C1 = fold (run_alone x A B) ts C in if b then fold (dgemm x A B) (second_ops g) C1 else C1)"
| "run_alone x A B Returned C = C"

fun task_ok :: "nat \<Rightarrow> nat \<Rightarrow> nat \<Rightarrow> nat \<Rightarrow> 'a gtask \<Rightarrow> bool" where
  "task_ok x nA nB nC (Start g) = op_ok nA nB nC g"
| "task_ok x nA nB nC (Cells g ps r) =
     (op_ok nA nB nC g \<and> (\<forall>(i, j)\<in>set ps. i < dim (mat_C g) \<and> j < dim (mat_C g)))"
| "task_ok x nA nB nC (Batch b g ts) =
     (op_ok nA nB nC g \<and> x < dim (mat_C g) \<and> length ts = 4 \<and>
      (\<forall>q<4. cells_of (ts ! q) \<subseteq> region (quadrant (Suc q) (mat_C g))) \<and> (\<forall>t\<in>set ts. task_ok x nA nB nC t))"
| "task_ok x nA nB nC Returned = True"

lemma batch_ok:
  assumes "op_ok nA nB nC g" and "x < dim (mat_C g)"
  shows "task_ok x nA nB nC (Batch b g (map Start (first_ops g)))"
    and "task_ok x nA nB nC (Batch b g (map Start (second_ops g)))"
  using assms by (auto simp: parts_C intro: op_ok_parts)

lemma cell_touches:
  "i < dim (mat_C g) \<Longrightarrow> j < dim (mat_C g) \<Longrightarrow> touches (region (mat_C g)) (add_cell A B g (i, j))"
  by (intro touches_add_cell index_region)

lemma run_touches:
  "task_ok x nA nB nC t \<Longrightarrow> touches (cells_of t) (run_alone x A B t)"
proof (induction t)
  case (Start g)
  have "run_alone x A B (Start g) = dgemm x A B g" by (rule ext) simp
  with dgemm_touches [of nA nB nC g x A B] Start show ?case by simp
next
  case (Cells g ps r)
  have fold: "touches (region (mat_C g)) (fold (add_cell A B g) qs)" if "set qs \<subseteq> set ps" for qs
    using that Cells by (intro touches_fold) (auto intro!: cell_touches)
  show ?case
  proof (cases r)
    case None
    have "run_alone x A B (Cells g ps r) = fold (add_cell A B g) ps" using None by (intro ext) simp
    with fold show ?thesis by simp
  next
    case (Some v)
    show ?thesis
    proof (cases ps)
      case Nil
      have "run_alone x A B (Cells g ps r) = (\<lambda>C. C)" using Some Nil by (intro ext) simp
      then show ?thesis by (simp add: touches_id)
    next
      case (Cons p qs)
      obtain i j where p: "p = (i, j)" by fastforce
      let ?i = "index_of (mat_C g) i j"
      have "?i \<in> region (mat_C g)" using Cells Cons p by (auto intro!: index_region)
      from touches_update [OF this, of "\<lambda>_. v + product_entry A B g i j"]
      have "touches (region (mat_C g)) (\<lambda>C. C[?i := v + product_entry A B g i j])" .
      from touches_comp [OF fold this, of qs] Cons
      have "touches (region (mat_C g)) (\<lambda>C. fold (add_cell A B g) qs (C[?i := v + product_entry A B g i j]))"
        by auto
      moreover have "run_alone x A B (Cells g ps r) =
          (\<lambda>C. fold (add_cell A B g) qs (C[?i := v + product_entry A B g i j]))"
        using Some Cons p by (intro ext) simp
      ultimately show ?thesis by simp
    qed
  qed
next
  case (Batch b g ts)
  have "touches (region (mat_C g)) (run_alone x A B t)" if t: "t \<in> set ts" for t
  proof -
    from t obtain q where "q < length ts" "ts ! q = t" by (auto simp: in_set_conv_nth)
    with Batch.prems have "cells_of t \<subseteq> region (mat_C g)" using quadrant_region by (auto; blast)
    then show ?thesis by (rule touches_mono [rotated]) (use Batch t in auto)
  qed
  then have ts: "touches (region (mat_C g)) (fold (run_alone x A B) ts)" by (rule touches_fold)
  have "touches (region (mat_C g)) (dgemm x A B h)" if "h \<in> set (second_ops g)" for h
    using that Batch.prems
    by (intro touches_mono [OF dgemm_touches [OF op_ok_parts] part_region]) auto
  then have "touches (region (mat_C g)) (fold (dgemm x A B) (second_ops g))" by (rule touches_fold)
  from touches_comp [OF this ts] ts
  have "touches (region (mat_C g)) (\<lambda>C. if b then fold (dgemm x A B) (second_ops g) (fold (run_alone x A B) ts C)
      else fold (run_alone x A B) ts C)" by (cases b) simp_all
  moreover have "run_alone x A B (Batch b g ts) =
      (\<lambda>C. if b then fold (dgemm x A B) (second_ops g) (fold (run_alone x A B) ts C)
       else fold (run_alone x A B) ts C)" by (intro ext) (simp add: Let_def)
  ultimately show ?case by simp
next
  case Returned
  have "run_alone x A B Returned = (\<lambda>C. C)" by (rule ext) simp
  then show ?case by (simp add: touches_id)
qed

text \<open>A step reads and writes only its own cells, and leaves a task in order.\<close>

lemma gstep_local:
  assumes "task_ok x nA nB nC t" and "gstep x A B path t C = Some (t', u)"
  shows "(\<forall>M. length M = length C \<and> (\<forall>i\<in>cells_of t. M ! i = C ! i) \<longrightarrow> gstep x A B path t M = Some (t', u)) \<and>
         task_ok x nA nB nC t' \<and> cells_of t' \<subseteq> cells_of t \<and> (\<forall>i v. u = Some (i, v) \<longrightarrow> i \<in> cells_of t)"
  using assms
proof (induction x A B path t C arbitrary: t' u rule: gstep.induct)
  case (1 x A B g C)
  have "t' = Batch True g (map Start (first_ops g)) \<Longrightarrow> x < dim (mat_C g) \<Longrightarrow> task_ok x nA nB nC t'"
    using batch_ok(1) [of nA nB nC g x] 1 by simp
  with 1 show ?case
    by (auto simp: dimension_def op_ok_def loop_cells_in split: if_splits)
next
  case (3 x A B g i j ps C)
  then have "index_of (mat_C g) i j \<in> region (mat_C g)" by (auto intro!: index_region)
  with 3 show ?case by (auto split: if_splits)
next
  case (4 x A B g i j ps v C)
  then have "index_of (mat_C g) i j \<in> region (mat_C g)" by (auto intro!: index_region)
  with 4 show ?case by auto
next
  case (5 x A B b g ts C)
  then have "task_ok x nA nB nC (Batch False g (map Start (second_ops g)))"
    by (intro batch_ok(2)) auto
  with 5 show ?case by (auto split: if_splits)
next
  case (6 x A B q path b g ts C)
  from 6(3) obtain s where q: "q < length ts" and s: "gstep x A B path (ts ! q) C = Some (s, u)"
    and t': "t' = Batch b g (ts[q := s])" by (auto split: if_splits)
  have ok: "task_ok x nA nB nC (ts ! q)" "q < 4" "cells_of (ts ! q) \<subseteq> region (quadrant (Suc q) (mat_C g))"
    using 6(2) q by auto
  note IH = 6(1) [OF q ok(1) s]
  have "cells_of (ts ! q) \<subseteq> region (mat_C g)" using ok(3) quadrant_region by blast
  moreover have "\<forall>k<4. cells_of (ts[q := s] ! k) \<subseteq> region (quadrant (Suc k) (mat_C g))"
  proof -
    have "cells_of s \<subseteq> region (quadrant (Suc q) (mat_C g))" using IH ok(3) by blast
    then show ?thesis using 6(2) q by (simp add: nth_list_update)
  qed
  moreover have "\<forall>t\<in>set (ts[q := s]). task_ok x nA nB nC t"
    using IH 6(2) by (auto dest!: set_update_subset_insert [THEN subsetD])
  moreover have "gstep x A B (q # path) (Batch b g ts) M = Some (t', u)"
    if "length M = length C" "\<forall>i\<in>region (mat_C g). M ! i = C ! i" for M
  proof -
    have "\<forall>i\<in>cells_of (ts ! q). M ! i = C ! i" using that(2) calculation(1) by blast
    then have "gstep x A B path (ts ! q) M = Some (s, u)" using IH that(1) by blast
    then show ?thesis using q t' by simp
  qed
  moreover have "\<forall>i v. u = Some (i, v) \<longrightarrow> i \<in> region (mat_C g)" using IH calculation(1) by blast
  ultimately show ?case using 6(2) t' by simp
qed auto

text \<open>
  The end is settled: no step changes what running on alone would make of \<open>C\<close>.
\<close>

lemma fold_split:
  "q < length ts \<Longrightarrow> fold f (ts[q := t]) C = fold f (drop (Suc q) ts) (f t (fold f (take q ts) C))"
  by (simp add: upd_conv_take_nth_drop)

lemma store_at_agree:
  "touches S f \<Longrightarrow> (\<And>i v. u = Some (i, v) \<Longrightarrow> i \<notin> S) \<Longrightarrow> f (store_at u C) = store_at u (f C)"
  by (auto simp: store_at_def touches_def split: option.splits)

lemma gstep_settled:
  assumes "task_ok x nA nB nC t" and "gstep x A B path t C = Some (t', u)"
  shows "run_alone x A B t' (store_at u C) = run_alone x A B t C"
  using assms
proof (induction path arbitrary: t C t' u)
  case Nil
  have starts: "fold (run_alone x A B) (map Start hs) D = fold (dgemm x A B) hs D" for hs D
    by (induction hs arbitrary: D) auto
  have over: "fold (run_alone x A B) ts C = C" if "\<forall>t\<in>set ts. t = Returned" for ts :: "'a gtask list"
    using that by (induction ts) auto
  show ?case
  proof (cases t)
    case (Start g)
    with Nil starts show ?thesis
      by (auto simp: store_at_def dgemm_unfold [of x A B g] dgemm_three_loop_def Let_def)
  next
    case (Cells g ps r)
    with Nil show ?thesis
      by (cases ps; cases r) (auto simp: store_at_def add_cell_def split: if_splits)
  next
    case (Batch b g ts)
    with Nil starts over [of ts] show ?thesis by (auto simp: store_at_def Let_def split: if_splits)
  qed (use Nil in simp)
next
  case (Cons q path)
  from Cons.prems(2) obtain b g ts where t: "t = Batch b g ts"
    by (cases "(x, A, B, q # path, t, C)" rule: gstep.cases) auto
  note 6 = Cons.IH Cons.prems [unfolded t]
  from 6(3) obtain s where q: "q < length ts" and s: "gstep x A B path (ts ! q) C = Some (s, u)"
    and t': "t' = Batch b g (ts[q := s])" by (auto split: if_splits)
  have ok: "op_ok nA nB nC g" "length ts = 4" "\<forall>k<4. cells_of (ts ! k) \<subseteq> region (quadrant (Suc k) (mat_C g))"
    "\<forall>t\<in>set ts. task_ok x nA nB nC t"
    using 6(2) by auto
  have okq: "task_ok x nA nB nC (ts ! q)" using ok(4) q by auto
  let ?R = "\<lambda>k. region (quadrant (Suc k) (mat_C g))"
  let ?S = "\<Union>k\<in>{..<q}. ?R k"
  have disj: "?R q \<inter> ?S = {}"
  proof -
    have "?R q \<inter> ?R k = {}" if "k < q" for k
      using ok(1,2) q that by (intro quadrants_disjoint) (auto simp: op_ok_def)
    then show ?thesis by blast
  qed
  have pre: "touches ?S (fold (run_alone x A B) (take q ts))"
  proof (rule touches_fold)
    fix t assume "t \<in> set (take q ts)"
    then obtain k where k: "k < q" "ts ! k = t" using q by (auto simp: in_set_conv_nth)
    then have "k < 4" using q ok(2) by simp
    then have "cells_of t \<subseteq> ?R k" using ok(3) k(2) by blast
    moreover have "t \<in> set ts" using k q by auto
    then have "task_ok x nA nB nC t" using ok(4) by blast
    moreover note k(1)
    ultimately have "cells_of t \<subseteq> ?S" "task_ok x nA nB nC t" by blast+
    then show "touches ?S (run_alone x A B t)" by (intro touches_mono [OF run_touches])
  qed
  let ?M = "fold (run_alone x A B) (take q ts) C"
  note loc = gstep_local [OF okq s]
  have inR: "cells_of (ts ! q) \<subseteq> ?R q" using ok(2,3) q by simp
  have "length ?M = length C" by (rule touchesD(1) [OF pre])
  moreover have "\<forall>i\<in>cells_of (ts ! q). ?M ! i = C ! i"
    using touchesD(2) [OF pre, of _ C] inR disj by blast
  ultimately have stepM: "gstep x A B path (ts ! q) ?M = Some (s, u)" using loc by blast
  have "fold (run_alone x A B) (take q ts) (store_at u C) = store_at u ?M"
    by (rule store_at_agree [OF pre]) (use loc inR disj in blast)
  moreover have "run_alone x A B s (store_at u ?M) = run_alone x A B (ts ! q) ?M"
    by (rule 6(1) [OF okq stepM])
  ultimately have "fold (run_alone x A B) (ts[q := s]) (store_at u C) =
      fold (run_alone x A B) (ts[q := ts ! q]) C"
    unfolding fold_split [OF q] by simp
  then have "fold (run_alone x A B) (ts[q := s]) (store_at u C) = fold (run_alone x A B) ts C" by simp
  then show ?case by (simp add: t t' Let_def)
qed

section \<open>Progress\<close>

function steps_of :: "nat \<Rightarrow> nat \<Rightarrow> nat" where
  "steps_of x d = (if d \<le> x then 2 * (d * d) + 2 else 3 + 8 * steps_of x (d div 2))"
  by pat_completeness auto
termination by (relation "measure snd") auto

declare steps_of.simps [simp del]

fun gsteps_left :: "nat \<Rightarrow> 'a gtask \<Rightarrow> nat" where
  "gsteps_left x (Start g) = steps_of x (dim (mat_A g))"
| "gsteps_left x (Cells g ps r) = Suc (2 * length ps - (if r = None then 0 else 1))"
| "gsteps_left x (Batch b g ts) =
     Suc (sum_list (map (gsteps_left x) ts) + (if b then Suc (4 * steps_of x (dim (mat_A g) div 2)) else 0))"
| "gsteps_left x Returned = 0"

lemma loop_cells_length: "length (loop_cells d) = d * d"
proof -
  have "length (concat (map (\<lambda>i. map (\<lambda>j. (i, j)) [0..<d]) is)) = length is * d" for "is" :: "nat list"
    by (induction "is") auto
  then show ?thesis by (simp add: loop_cells_def)
qed

lemma sum_const: "\<forall>a\<in>set xs. f a = c \<Longrightarrow> sum_list (map f xs) = length xs * (c :: nat)"
  by (induction xs) auto

lemma batch_steps:
  "sum_list (map (gsteps_left x \<circ> Start) (first_ops g)) = 4 * steps_of x (dim (mat_A g) div 2)"
  "sum_list (map (gsteps_left x \<circ> Start) (second_ops g)) = 4 * steps_of x (dim (mat_A g) div 2)"
  by (subst sum_const; simp add: parts_C)+

lemma gstep_decreases:
  "gstep x A B path t C = Some (t', u) \<Longrightarrow> gsteps_left x t' < gsteps_left x t"
proof (induction x A B path t C arbitrary: t' u rule: gstep.induct)
  case (1 x A B g C)
  show ?case
  proof (cases "dim (mat_A g) \<le> x")
    case True
    then have "steps_of x (dim (mat_A g)) = 2 * (dim (mat_A g) * dim (mat_A g)) + 2"
      by (simp add: steps_of.simps [of x "dim (mat_A g)"])
    with True 1 show ?thesis by (auto simp: loop_cells_length dimension_def)
  next
    case False
    then have "steps_of x (dim (mat_A g)) = 3 + 8 * steps_of x (dim (mat_A g) div 2)"
      by (simp add: steps_of.simps [of x "dim (mat_A g)"])
    with False 1 show ?thesis by (auto simp: dimension_def batch_steps)
  qed
next
  case (5 x A B b g ts C)
  then show ?case by (auto simp: batch_steps split: if_splits)
next
  case (6 x A B q path b g ts C)
  from 6(2) obtain s where q: "q < length ts" and s: "gstep x A B path (ts ! q) C = Some (s, u)"
    and t': "t' = Batch b g (ts[q := s])" by (auto split: if_splits)
  have "sum_list (map f (ts[q := s])) < sum_list (map f ts)" if "f s < f (ts ! q)" for f :: "'a gtask \<Rightarrow> nat"
    using that by (subst (2) id_take_nth_drop [OF q]) (simp add: upd_conv_take_nth_drop [OF q])
  from this [OF 6(1) [OF q s]]
  show ?case by (simp add: t')
qed (auto split: if_splits)

lemma gstep_enabled:
  "task_ok x (length A) (length B) (length C) t \<Longrightarrow> t \<noteq> Returned \<Longrightarrow> \<exists>path r. gstep x A B path t C = Some r"
proof (induction t)
  case (Start g)
  then show ?case by (intro exI [of _ "[]"]) simp
next
  case (Cells g ps r)
  show ?case
  proof (cases ps)
    case Nil
    then show ?thesis by (intro exI [of _ "[]"]) simp
  next
    case (Cons p qs)
    obtain i j where p: "p = (i, j)" by fastforce
    have "index_of (mat_C g) i j < length C"
      "k < dim (mat_A g) \<Longrightarrow> index_of (mat_A g) i k < length A \<and> index_of (mat_B g) k j < length B" for k
      using Cells Cons p by (auto simp: op_ok_def within_def index_region)
    then show ?thesis using Cons p
      by (intro exI [of _ "[]"]; cases r) (auto simp: dimension_def)
  qed
next
  case (Batch b g ts)
  show ?case
  proof (cases "\<forall>t\<in>set ts. t = Returned")
    case True
    then show ?thesis by (intro exI [of _ "[]"]) simp
  next
    case False
    then obtain q where q: "q < length ts" "ts ! q \<noteq> Returned" by (auto simp: in_set_conv_nth)
    then have "ts ! q \<in> set ts" by simp
    from Batch.IH [OF this _ q(2)] Batch.prems(1) this
    obtain path r where "gstep x A B path (ts ! q) C = Some r" by auto
    with q show ?thesis by (intro exI [of _ "q # path"]) auto
  qed
qed simp

section \<open>The product\<close>

definition plain :: "gemm \<Rightarrow> bool" where
  "plain g \<longleftrightarrow> \<not> transposed (mat_A g) \<and> \<not> transposed (mat_B g) \<and> \<not> transposed (mat_C g)"

definition psum :: "'a::semiring_0 list \<Rightarrow> 'a list \<Rightarrow> gemm \<Rightarrow> nat \<Rightarrow> nat \<Rightarrow> 'a" where
  "psum A B g i j = (\<Sum>k<dim (mat_A g). A ! index_of (mat_A g) i k * B ! index_of (mat_B g) k j)"

lemma product_entry_sum: "product_entry A B g i j = psum A B g i j"
proof -
  have "fold (\<lambda>k acc. acc + f k) [0..<n] a = a + (\<Sum>k<n. f k)" for f and n and a :: "'a::semiring_0"
    by (induction n) (simp_all add: add.assoc)
  then show ?thesis by (simp add: product_entry_def psum_def dimension_def)
qed

definition adds :: "'a::semiring_0 list \<Rightarrow> 'a list \<Rightarrow> nat \<Rightarrow> gemm \<Rightarrow> ('a list \<Rightarrow> 'a list) \<Rightarrow> bool" where
  "adds A B n g f \<longleftrightarrow>
     (\<forall>C i j. length C = n \<longrightarrow> i < dim (mat_C g) \<longrightarrow> j < dim (mat_C g) \<longrightarrow>
        f C ! index_of (mat_C g) i j = C ! index_of (mat_C g) i j + psum A B g i j)"

lemma index_inj:
  assumes "dim m \<le> stride m" and "i < dim m" "j < dim m" "i' < dim m" "j' < dim m"
    and "index_of m i j = index_of m i' j'"
  shows "i = i' \<and> j = j'"
  using assms pos_inj [of m i j i' j'] pos_inj [of m j i j' i'] by (auto simp: index_pos split: if_splits)

lemma loop_cells_distinct: "distinct (loop_cells d)"
proof -
  have "distinct (concat (map (\<lambda>i. map (\<lambda>j. (i, j)) [0..<d]) is))" if "distinct is" for "is" :: "nat list"
    using that by (induction "is") (auto simp: distinct_map inj_on_def)
  then show ?thesis by (simp add: loop_cells_def)
qed

lemma three_loop_adds:
  assumes ok: "op_ok nA nB nC g"
  shows "adds A B nC g (dgemm_three_loop A B g)"
  unfolding adds_def
proof (intro allI impI)
  fix C :: "'a list" and i j assume len: "length C = nC" and ij: "i < dim (mat_C g)" "j < dim (mat_C g)"
  have fold: "fold (add_cell A B g) ps C ! index_of (mat_C g) i j =
      (if (i, j) \<in> set ps then C ! index_of (mat_C g) i j + psum A B g i j else C ! index_of (mat_C g) i j)"
    if "distinct ps" "\<forall>(k, l)\<in>set ps. k < dim (mat_C g) \<and> l < dim (mat_C g)" "length C = nC" for ps C
    using that
  proof (induction ps arbitrary: C)
    case (Cons p ps)
    obtain k l where p: "p = (k, l)" by fastforce
    have kl: "k < dim (mat_C g)" "l < dim (mat_C g)" using Cons.prems p by auto
    have "index_of (mat_C g) i j < length C"
      using ok ij Cons.prems(3) by (auto simp: op_ok_def within_def index_region)
    moreover have "index_of (mat_C g) k l = index_of (mat_C g) i j \<longleftrightarrow> (k, l) = (i, j)"
      using index_inj [of "mat_C g" k l i j] kl ij ok by (auto simp: op_ok_def)
    ultimately have "add_cell A B g p C ! index_of (mat_C g) i j =
        (if p = (i, j) then C ! index_of (mat_C g) i j + psum A B g i j else C ! index_of (mat_C g) i j)"
      by (auto simp: p add_cell_def product_entry_sum)
    moreover have "length (add_cell A B g p C) = nC" using Cons.prems(3) by (simp add: p add_cell_def)
    ultimately show ?case using Cons.IH [of "add_cell A B g p C"] Cons.prems by auto
  qed simp
  have "dimension (mat_A g) = dim (mat_C g)" using ok by (simp add: op_ok_def dimension_def)
  moreover have "\<forall>(k, l)\<in>set (loop_cells (dim (mat_C g))). k < dim (mat_C g) \<and> l < dim (mat_C g)"
    by (auto simp: loop_cells_in)
  note fold [OF loop_cells_distinct this len]
  ultimately show "dgemm_three_loop A B g C ! index_of (mat_C g) i j =
      C ! index_of (mat_C g) i j + psum A B g i j"
    using ij by (simp add: dgemm_three_loop_def loop_cells_in)
qed

text \<open>Operations on disjoint regions, one after the other.\<close>

lemma fold_adds:
  assumes n: "n < length hs"
    and touch: "\<And>k. k < length hs \<Longrightarrow> touches (region (mat_C (hs ! k))) (f (hs ! k))"
    and adds: "adds A B nC (hs ! n) (f (hs ! n))"
    and disj: "\<And>k. k < length hs \<Longrightarrow> k \<noteq> n \<Longrightarrow> region (mat_C (hs ! k)) \<inter> region (mat_C (hs ! n)) = {}"
    and len: "length C = nC" and ij: "i < dim (mat_C (hs ! n))" "j < dim (mat_C (hs ! n))"
  shows "fold f hs C ! index_of (mat_C (hs ! n)) i j =
           C ! index_of (mat_C (hs ! n)) i j + psum A B (hs ! n) i j"
proof -
  let ?p = "index_of (mat_C (hs ! n)) i j" and ?S = "- region (mat_C (hs ! n))"
  have p: "?p \<notin> ?S" using index_region [OF ij] by simp
  have other: "touches ?S (f (hs ! k))" if "k < length hs" "k \<noteq> n" for k
    using disj [OF that] by (intro touches_mono [OF touch [OF that(1)]]) blast
  have "touches ?S (fold f (take n hs))" "touches ?S (fold f (drop (Suc n) hs))"
  proof -
    have "touches ?S (f h)" if "h \<in> set (take n hs) \<or> h \<in> set (drop (Suc n) hs)" for h
    proof -
      from that show ?thesis
      proof
        assume "h \<in> set (take n hs)"
        then obtain k where "k < length (take n hs)" "take n hs ! k = h" by (meson in_set_conv_nth)
        then have k: "k < n" "h = hs ! k" by auto
        then have "k < length hs" "k \<noteq> n" using n by linarith+
        from other [OF this] show ?thesis unfolding k(2) .
      next
        assume "h \<in> set (drop (Suc n) hs)"
        then obtain k where "k < length (drop (Suc n) hs)" "drop (Suc n) hs ! k = h"
          by (meson in_set_conv_nth)
        then have k: "k < length hs - Suc n" "h = hs ! (Suc n + k)" by auto
        then have "Suc n + k < length hs" "Suc n + k \<noteq> n" using n by linarith+
        from other [OF this] show ?thesis unfolding k(2) .
      qed
    qed
    then show "touches ?S (fold f (take n hs))" "touches ?S (fold f (drop (Suc n) hs))"
      by (intro touches_fold, blast)+
  qed
  note pre = touchesD [OF this(1)] and post = touchesD [OF this(2)]
  have "fold f hs C = fold f (drop (Suc n) hs) (f (hs ! n) (fold f (take n hs) C))"
    using fold_split [OF n, of f "hs ! n" C] by simp
  then have "fold f hs C ! ?p = f (hs ! n) (fold f (take n hs) C) ! ?p" using post(2) [OF p] by simp
  also have "\<dots> = fold f (take n hs) C ! ?p + psum A B (hs ! n) i j"
    using adds pre(1) len ij by (simp add: adds_def)
  finally show ?thesis using pre(2) [OF p] by simp
qed

lemma sum_halves:
  "(\<Sum>k<h + n. f k) = (\<Sum>k<h. f k) + (\<Sum>k<n. f (k + h) :: 'a::comm_monoid_add)" for h n :: nat
proof (induction n)
  case (Suc n)
  have "(\<Sum>k<h + Suc n. f k) = (\<Sum>k<h + n. f k) + f (n + h)" by (simp add: add.commute)
  with Suc show ?case by (simp add: add.assoc)
qed simp

lemma quadrant_index:
  "\<not> transposed m \<Longrightarrow>
   index_of (quadrant q m) i j = index_of m (i + row_off q (dim m div 2)) (j + col_off q (dim m div 2))"
  by (simp add: index_pos quadrant_pos)

text \<open>The two products for one quadrant make up the product there.\<close>

lemma quadrant_sums:
  assumes "plain g" and "dim (mat_C g) = h + h" "dim (mat_A g) = h + h" "dim (mat_B g) = h + h"
    and "i < h + h" "j < h + h"
  shows "\<exists>n<4. \<exists>i' j'. i' < h \<and> j' < h \<and>
     index_of (mat_C (first_ops g ! n)) i' j' = index_of (mat_C g) i j \<and>
     index_of (mat_C (second_ops g ! n)) i' j' = index_of (mat_C g) i j \<and>
     psum A B (first_ops g ! n) i' j' + psum A B (second_ops g ! n) i' j' = psum A B g i j"
proof -
  have q: "index_of (quadrant q m) a b = index_of m (a + row_off q h) (b + col_off q h)"
    if "m = mat_A g \<or> m = mat_B g \<or> m = mat_C g" for q m a b
    using that assms(1-4) quadrant_index [of m q a b] by (auto simp: plain_def)
  have half: "dim (quadrant q (mat_A g)) = h" for q using assms(3) by simp
  have ps: "psum A B (dgemm_op (quadrant p (mat_A g)) (quadrant q (mat_B g)) c) a b =
      (\<Sum>k<h. A ! index_of (mat_A g) (a + row_off p h) (k + col_off p h) *
              B ! index_of (mat_B g) (k + row_off q h) (b + col_off q h))" for p q c a b
    unfolding psum_def dgemm_op_def gemm.select_convs half using q by simp
  have sum: "(\<Sum>k<h. A ! index_of (mat_A g) i k * B ! index_of (mat_B g) k j) +
      (\<Sum>k<h. A ! index_of (mat_A g) i (k + h) * B ! index_of (mat_B g) (k + h) j) = psum A B g i j"
    unfolding psum_def assms(3) by (rule sum_halves [symmetric])
  have C: "index_of (mat_C (dgemm_op a b (quadrant q (mat_C g)))) i' j' =
      index_of (mat_C g) (i' + row_off q h) (j' + col_off q h)" for a b q i' j'
    using q by (simp add: dgemm_op_def)
  have lt: "h \<le> i \<Longrightarrow> i - h < h" "h \<le> j \<Longrightarrow> j - h < h" using assms(5,6) by linarith+
  consider "i < h" "j < h" | "i < h" "h \<le> j" | "h \<le> i" "j < h" | "h \<le> i" "h \<le> j" by linarith
  then show ?thesis
  proof cases
    case 1
    then show ?thesis using sum assms(5,6)
      by - (rule exI [of _ 0], rule conjI, simp, rule exI [of _ i], rule exI [of _ j],
         simp add: lt first_ops_def second_ops_def C ps row_off_def col_off_def)
  next
    case 2
    then show ?thesis using sum assms(5,6)
      by - (rule exI [of _ 1], rule conjI, simp, rule exI [of _ i], rule exI [of _ "j - h"],
         simp add: lt first_ops_def second_ops_def C ps row_off_def col_off_def)
  next
    case 3
    then show ?thesis using sum assms(5,6)
      by - (rule exI [of _ 2], rule conjI, simp, rule exI [of _ "i - h"], rule exI [of _ j],
         simp add: lt first_ops_def second_ops_def C ps row_off_def col_off_def)
  next
    case 4
    then show ?thesis using sum assms(5,6)
      by - (rule exI [of _ 3], rule conjI, simp, rule exI [of _ "i - h"], rule exI [of _ "j - h"],
         simp add: lt first_ops_def second_ops_def C ps row_off_def col_off_def)
  qed
qed

lemma plain_parts:
  assumes "plain g" and "h \<in> set (first_ops g) \<or> h \<in> set (second_ops g)"
  shows "plain h"
  using assms(2) by (rule part_cases) (use assms(1) in \<open>simp add: plain_def dgemm_op_def\<close>)

lemma dgemm_adds:
  assumes "op_ok nA nB nC g" and "plain g" and "dim (mat_C g) = 2 ^ e" and x: "1 \<le> x"
  shows "adds A B nC g (dgemm x A B g)"
  using assms(1-3)
proof (induction e arbitrary: g)
  case (0 g)
  then have "dimension (mat_A g) \<le> x" using x by (simp add: op_ok_def dimension_def)
  with three_loop_adds [OF 0(1)] show ?case by (simp add: dgemm_unfold [of x A B g])
next
  case (Suc e g)
  note ok = Suc.prems(1)
  have dims: "dim (mat_C g) = 2 ^ e + 2 ^ e" "dim (mat_A g) = 2 ^ e + 2 ^ e" "dim (mat_B g) = 2 ^ e + 2 ^ e"
    using ok Suc.prems(3) by (auto simp: op_ok_def)
  show ?case
  proof (cases "dimension (mat_A g) \<le> x")
    case True
    with three_loop_adds [OF ok] show ?thesis by (simp add: dgemm_unfold [of x A B g])
  next
    case False
    have part: "adds A B nC h (dgemm x A B h)" "touches (region (mat_C h)) (dgemm x A B h)"
      if "h \<in> set (first_ops g) \<or> h \<in> set (second_ops g)" for h
    proof -
      have "dim (mat_C h) = 2 ^ e"
        using that by (rule part_cases) (use dims in \<open>simp add: dgemm_op_def\<close>)
      then show "adds A B nC h (dgemm x A B h)"
        by (rule Suc.IH [OF op_ok_parts [OF ok that] plain_parts [OF Suc.prems(2) that]])
      show "touches (region (mat_C h)) (dgemm x A B h)" by (rule dgemm_touches [OF op_ok_parts [OF ok that]])
    qed
    have batch: "fold (dgemm x A B) hs C ! index_of (mat_C (hs ! n)) i j =
        C ! index_of (mat_C (hs ! n)) i j + psum A B (hs ! n) i j"
      if "hs = first_ops g \<or> hs = second_ops g" "n < 4" "length C = nC" "i < 2 ^ e" "j < 2 ^ e" for hs n C i j
    proof -
      have hs: "length hs = 4" "\<And>k. k < 4 \<Longrightarrow> mat_C (hs ! k) = quadrant (Suc k) (mat_C g)"
        using that(1) parts_C by auto
      have member: "hs ! k \<in> set (first_ops g) \<or> hs ! k \<in> set (second_ops g)" if "k < 4" for k
        using \<open>hs = first_ops g \<or> hs = second_ops g\<close> that hs(1) by auto
      show ?thesis
      proof (rule fold_adds [where nC = nC])
        show "region (mat_C (hs ! k)) \<inter> region (mat_C (hs ! n)) = {}" if "k < length hs" "k \<noteq> n" for k
          using that hs \<open>n < 4\<close> ok by (simp, intro quadrants_disjoint) (auto simp: op_ok_def)
        show "touches (region (mat_C (hs ! k))) (dgemm x A B (hs ! k))" if "k < length hs" for k
          using part(2) [OF member] that hs(1) by simp
      qed (use that hs part(1) member dims in auto)
    qed
    have tf: "touches (region (mat_C g)) (fold (dgemm x A B) (first_ops g))"
      by (rule touches_fold) (use part(2) part_region touches_mono in blast)
    show ?thesis
      unfolding adds_def
    proof (intro allI impI)
      fix C :: "'a list" and i j
      assume C: "length C = nC" and ij: "i < dim (mat_C g)" "j < dim (mat_C g)"
      let ?p = "index_of (mat_C g) i j"
      from ij dims(1) have "i < 2 ^ e + 2 ^ e" "j < 2 ^ e + 2 ^ e" by simp_all
      from quadrant_sums [OF Suc.prems(2) dims this, of A B] obtain n i' j' where n: "n < 4" "i' < 2 ^ e" "j' < 2 ^ e"
        and p: "index_of (mat_C (first_ops g ! n)) i' j' = ?p" "index_of (mat_C (second_ops g ! n)) i' j' = ?p"
        and sum: "psum A B (first_ops g ! n) i' j' + psum A B (second_ops g ! n) i' j' = psum A B g i j"
        by blast
      let ?C1 = "fold (dgemm x A B) (first_ops g) C"
      have "length ?C1 = nC" using touchesD(1) [OF tf] C by simp
      from batch [OF disjI2 [OF refl] n(1) this n(2,3)] batch [OF disjI1 [OF refl] n(1) C n(2,3)]
      have "fold (dgemm x A B) (second_ops g) ?C1 ! ?p = C ! ?p + psum A B g i j"
        unfolding p by (simp add: add.assoc sum)
      then show "dgemm x A B g C ! ?p = C ! ?p + psum A B g i j"
        using False by (simp add: dgemm_unfold [of x A B g])
    qed
  qed
qed

section \<open>The program\<close>

text \<open>The matrices of \<open>main\<close>, and its root task on a zero matrix.\<close>

definition root_dgemm :: "nat \<Rightarrow> gemm" where
  "root_dgemm n =
     dgemm_op (divisible_matrix n n 0 False) (divisible_matrix n n 0 False) (divisible_matrix n n 0 False)"

definition matmult_start :: "nat \<Rightarrow> 'a::{zero, plus, times} gtask \<times> 'a list" where
  "matmult_start n = (Start (root_dgemm n), replicate (n * n) 0)"

lemma root_ok: "op_ok (n * n) (n * n) (n * n) (root_dgemm n)" "plain (root_dgemm n)"
proof -
  have "r * n + c < n * n" if "r < n" "c < n" for r c
  proof -
    have "Suc r * n \<le> n * n" using that(1) by (intro mult_le_mono1) simp
    with that(2) show ?thesis by simp
  qed
  then show "op_ok (n * n) (n * n) (n * n) (root_dgemm n)" "plain (root_dgemm n)"
    by (auto simp: op_ok_def root_dgemm_def dgemm_op_def divisible_matrix_def within_def region_def pos_def
        plain_def)
qed

definition gemm_inv ::
  "nat \<Rightarrow> nat \<Rightarrow> 'a::{zero, plus, times} list \<Rightarrow> 'a list \<Rightarrow> 'a gtask \<times> 'a list \<Rightarrow> bool" where
  "gemm_inv x n A B = (\<lambda>(t, C). task_ok x (n * n) (n * n) (n * n) t \<and> length C = n * n \<and>
     run_alone x A B t C = dgemm x A B (root_dgemm n) (replicate (n * n) 0))"

interpretation gemm_run: invariant_system "\<lambda>s. s = matmult_start n" "step_of (gemm_event x A B)" "gemm_inv x n A B"
  for x n and A B :: "'a::{zero, plus, times} list"
proof unfold_locales
  fix s assume "s = (matmult_start n :: 'a gtask \<times> 'a list)"
  then show "gemm_inv x n A B s" using root_ok(1) by (simp add: gemm_inv_def matmult_start_def)
next
  fix s s' assume inv: "gemm_inv x n A B s" and "step_of (gemm_event x A B) s s'"
  then obtain path t C t' u where s: "s = (t, C)" and g: "gstep x A B path t C = Some (t', u)"
    and s': "s' = (t', store_at u C)"
    by (auto simp: gemm_event_def elim!: step_ofE split: prod.splits)
  have ok: "task_ok x (n * n) (n * n) (n * n) t" using inv s by (simp add: gemm_inv_def)
  have "length (store_at u C) = length C" by (auto simp: store_at_def split: option.splits)
  then show "gemm_inv x n A B s'"
    using gstep_local [OF ok g] gstep_settled [OF ok g] inv s s' by (simp add: gemm_inv_def)
qed

lemma gemm_run_length:
  "run_events (gemm_event x A B) es (t, C) = Some (t', C') \<Longrightarrow> length es + gsteps_left x t' \<le> gsteps_left x t"
proof (induction es arbitrary: t C)
  case (Cons e es)
  from Cons.prems obtain t1 C1 where e: "gemm_event x A B e (t, C) = Some (t1, C1)"
    and r: "run_events (gemm_event x A B) es (t1, C1) = Some (t', C')"
    by (auto split: option.splits)
  from e obtain u where "gstep x A B e t C = Some (t1, u)" by (auto simp: gemm_event_def)
  from gstep_decreases [OF this] Cons.IH [OF r] show ?case by simp
qed simp

text \<open>
  For matrices of any dimension and elements of any type, \<open>double\<close> included, and for any
  interleaving of the tasks: the number of steps is bounded, no access is out of range and no
  task gets stuck, and when the root task has returned \<open>C\<close> is what the sequential recursion
  computes, in the same order of additions.
\<close>

lemma matmult_settled:
  assumes "length A = n * n" and "length B = n * n"
    and "run_events (gemm_event x A B) es (matmult_start n) = Some (t, C)"
  shows "length es \<le> steps_of x n \<and> (t \<noteq> Returned \<longrightarrow> (\<exists>path s. gemm_event x A B path (t, C) = Some s)) \<and>
         (t = Returned \<longrightarrow> C = dgemm x A B (root_dgemm n) (replicate (n * n) 0))"
proof -
  have inv: "gemm_inv x n A B (t, C)" by (rule gemm_run.reach_inv [OF refl run_events_reaches [OF assms(3)]])
  have "length es \<le> steps_of x n"
    using gemm_run_length [of x A B es "Start (root_dgemm n)" "replicate (n * n) 0" t C] assms(3)
    by (simp add: matmult_start_def root_dgemm_def dgemm_op_def divisible_matrix_def)
  moreover have "\<exists>path s. gemm_event x A B path (t, C) = Some s" if "t \<noteq> Returned"
  proof -
    have "task_ok x (length A) (length B) (length C) t" using inv assms by (simp add: gemm_inv_def)
    from gstep_enabled [OF this that] show ?thesis by (auto simp: gemm_event_def)
  qed
  moreover have "C = dgemm x A B (root_dgemm n) (replicate (n * n) 0)" if "t = Returned"
    using inv that by (simp add: gemm_inv_def)
  ultimately show ?thesis by blast
qed

section \<open>Properties\<close>

text \<open>
  C15: the parallel product computes the product. If the dimension is a power of two and the
  base case has at least dimension one, then over a semiring, in any interleaving of the tasks:
  the number of steps is bounded, no access is out of range and no task gets stuck, and when the
  root task has returned the matrix product of \<open>A\<close> and \<open>B\<close> is in \<open>C\<close>, row by row.
\<close>

theorem matmult_computes_product:
  assumes "n = 2 ^ e" and "1 \<le> x" and "length A = n * n" and "length B = n * n"
    and "run_events (gemm_event x A B) es (matmult_start n) = Some (t, C)"
  shows "length es \<le> steps_of x n \<and> (t \<noteq> Returned \<longrightarrow> (\<exists>path s. gemm_event x A B path (t, C) = Some s)) \<and>
    (t = Returned \<longrightarrow> length C = n * n \<and>
       (\<forall>i<n. \<forall>j<n. C ! (i * n + j) = (\<Sum>k<n. A ! (i * n + k) * B ! (k * n + j) :: 'a::semiring_0)))"
proof -
  note S = matmult_settled [OF assms(3-5)]
  have inv: "gemm_inv x n A B (t, C)" by (rule gemm_run.reach_inv [OF refl run_events_reaches [OF assms(5)]])
  have dim: "dim (mat_C (root_dgemm n)) = 2 ^ e"
    using assms(1) by (simp add: root_dgemm_def dgemm_op_def divisible_matrix_def)
  have "C ! (i * n + j) = (\<Sum>k<n. A ! (i * n + k) * B ! (k * n + j))"
    if "t = Returned" and ij: "i < n" "j < n" for i j
  proof -
    have C: "C = dgemm x A B (root_dgemm n) (replicate (n * n) 0)" using S that(1) by blast
    have idx: "i * n + j < n * n"
      using root_ok(1) [of n] ij
      by (auto simp: op_ok_def root_dgemm_def dgemm_op_def divisible_matrix_def within_def region_def pos_def)
    from dgemm_adds [OF root_ok dim assms(2), of A B] ij idx show ?thesis
      by (auto simp: C adds_def psum_def root_dgemm_def dgemm_op_def divisible_matrix_def index_of_def)
  qed
  with S inv show ?thesis by (auto simp: gemm_inv_def)
qed

text \<open>A run for 2 by 2 matrices: the tasks of a batch take turns.\<close>

definition turns :: "nat \<Rightarrow> nat list list" where
  "turns k = concat (replicate k [[0], [2], [1], [3]])"

definition small_run :: "nat list list" where
  "small_run = [[]] @ turns 4 @ [[]] @ turns 4 @ [[]]"

theorem matmult_computes_product_witness:
  "\<exists>C. run_events (gemm_event 1 [1, 2, 3, 4 :: int] [5, 6, 7, 8]) small_run (matmult_start 2) = Some (Returned, C) \<and>
     C ! 2 = 43"
proof -
  have "case run_events (gemm_event 1 [1, 2, 3, 4 :: int] [5, 6, 7, 8]) small_run (matmult_start 2) of
      None \<Rightarrow> False | Some (t, C) \<Rightarrow> t = Returned" by code_simp
  then obtain C where
    r: "run_events (gemm_event 1 [1, 2, 3, 4 :: int] [5, 6, 7, 8]) small_run (matmult_start 2) = Some (Returned, C)"
    by (auto split: option.splits)
  have "(2 :: nat) = 2 ^ 1" "(1 :: nat) \<le> 1" by simp_all
  from matmult_computes_product [OF this _ _ r] r show ?thesis
    by (auto simp: numeral_2_eq_2 dest: spec [of _ 1] spec [of _ 0])
qed

text \<open>
  A transposed matrix is divided wrongly. \<open>split\<close> cuts the quadrants where they lie in
  memory, but the functor takes the second and the third for those of the matrix that the
  index operator shows. With a transposed \<open>B\<close> the recursion and the three-loop product
  differ. And with a base case of dimension 0 nothing at all is added.
\<close>

theorem transposed_split_is_wrong:
  "(let g = dgemm_op (divisible_matrix 2 2 0 False) (divisible_matrix 2 2 0 True) (divisible_matrix 2 2 0 False)
    in dgemm 2 [1, 2, 3, 4 :: int] [5, 6, 7, 8] g [0, 0, 0, 0] = [17, 23, 39, 53] \<and>
       dgemm 1 [1, 2, 3, 4 :: int] [5, 6, 7, 8] g [0, 0, 0, 0] \<noteq> dgemm 2 [1, 2, 3, 4] [5, 6, 7, 8] g [0, 0, 0, 0]) \<and>
   dgemm 0 [1, 2, 3, 4 :: int] [5, 6, 7, 8] (root_dgemm 2) [0, 0, 0, 0] = [0, 0, 0, 0]"
  by code_simp

end
