(* ===== verification/Fibonacci.thy ===== *)
theory Fibonacci
  imports Predicates
begin

text \<open>
  The functor of \<^verbatim>\<open>examples/cxx/fibonacci.cpp\<close>: it spawns a task for one half of the
  recursion, calls itself for the other and waits. A tree of such functors runs in any
  interleaving. The result is an \<open>int\<close>, whose sum is taken modulo \<open>2 ^ 32\<close>; the argument
  does not grow, so it is an integer.
\<close>

section \<open>The functor\<close>

text \<open>
  A functor that has not begun; one that has spawned the task for \<open>n - 1\<close> (the first
  subtree) and runs the call for \<open>n - 2\<close> (the second); one that has returned, with \<open>fib_n\<close>.
\<close>

datatype fib_task = Call int | Forked int fib_task fib_task | Value u32

fun fib_step :: "bool list \<Rightarrow> fib_task \<Rightarrow> fib_task option" where
  "fib_step [] (Call n) =
     Some (if n = 0 \<or> n = 1 then Value (of_int n) else Forked n (Call (n - 1)) (Call (n - 2)))"
| "fib_step [] (Forked n (Value a) (Value b)) = Some (Value (a + b))"
| "fib_step (False # p) (Forked n s t) = map_option (\<lambda>s. Forked n s t) (fib_step p s)"
| "fib_step (True # p) (Forked n s t) = map_option (Forked n s) (fib_step p t)"
| "fib_step p t = None"

text \<open>The level of the task for \<open>n - 1\<close>: \<open>~0x0 - (n - 1)\<close>, an \<open>int\<close> that becomes unsigned.\<close>

definition fib_level :: "int \<Rightarrow> u32" where
  "fib_level n = of_int (- 1 - (n - 1))"

section \<open>What it computes\<close>

fun fib :: "nat \<Rightarrow> nat" where
  "fib 0 = 0"
| "fib (Suc 0) = 1"
| "fib (Suc (Suc n)) = fib (Suc n) + fib n"

fun fib_value :: "fib_task \<Rightarrow> u32" where
  "fib_value (Call n) = of_nat (fib (nat n))"
| "fib_value (Forked n s t) = fib_value s + fib_value t"
| "fib_value (Value v) = v"

fun natural :: "fib_task \<Rightarrow> bool" where
  "natural (Call n) \<longleftrightarrow> 0 \<le> n"
| "natural (Forked n s t) \<longleftrightarrow> natural s \<and> natural t"
| "natural (Value v) \<longleftrightarrow> True"

fun call_steps :: "nat \<Rightarrow> nat" where
  "call_steps 0 = 1"
| "call_steps (Suc 0) = 1"
| "call_steps (Suc (Suc n)) = 2 + call_steps (Suc n) + call_steps n"

fun fib_left :: "fib_task \<Rightarrow> nat" where
  "fib_left (Call n) = call_steps (nat n)"
| "fib_left (Forked n s t) = Suc (fib_left s + fib_left t)"
| "fib_left (Value v) = 0"

lemma two_steps:
  assumes "0 \<le> (n :: int)" and "n \<noteq> 0" "n \<noteq> 1"
  obtains k where "nat n = Suc (Suc k)" "nat (n - 1) = Suc k" "nat (n - 2) = k"
  using assms by (intro that [of "nat (n - 2)"]) auto

lemma fib_step_keeps:
  "fib_step p t = Some t' \<Longrightarrow> natural t \<Longrightarrow> natural t' \<and> fib_value t' = fib_value t \<and> fib_left t' < fib_left t"
proof (induction p t arbitrary: t' rule: fib_step.induct)
  case (1 n)
  show ?case
  proof (cases "n = 0 \<or> n = 1")
    case True
    with 1 show ?thesis by auto
  next
    case False
    with 1 obtain k where "nat n = Suc (Suc k)" "nat (n - 1) = Suc k" "nat (n - 2) = k"
      by (auto elim: two_steps)
    with False 1 show ?thesis by auto
  qed
qed auto

lemma fib_enabled: "(\<forall>v. t \<noteq> Value v) \<Longrightarrow> \<exists>p t'. fib_step p t = Some t'"
proof (induction t)
  case (Call n)
  show ?case by (intro exI [of _ "[]"]) simp
next
  case (Forked n s t)
  show ?case
  proof (cases "\<exists>v. s = Value v")
    case False
    with Forked obtain p s' where "fib_step p s = Some s'" by blast
    then show ?thesis by (intro exI [of _ "False # p"]) simp
  next
    case s: True
    show ?thesis
    proof (cases "\<exists>v. t = Value v")
      case False
      with Forked obtain p t' where "fib_step p t = Some t'" by blast
      then show ?thesis by (intro exI [of _ "True # p"]) simp
    next
      case True
      with s show ?thesis by (intro exI [of _ "[]"]) auto
    qed
  qed
qed simp

text \<open>A functor with a negative argument below it, on the side of the spawned tasks.\<close>

fun negative_below :: "fib_task \<Rightarrow> bool" where
  "negative_below (Call n) \<longleftrightarrow> n < 0"
| "negative_below (Forked n s t) \<longleftrightarrow> negative_below s"
| "negative_below (Value v) \<longleftrightarrow> False"

lemma fib_step_negative: "fib_step p t = Some t' \<Longrightarrow> negative_below t \<Longrightarrow> negative_below t'"
  by (induction p t arbitrary: t' rule: fib_step.induct) auto

interpretation negative: invariant_system negative_below "step_of fib_step" negative_below
  by unfold_locales (auto elim!: step_ofE intro: fib_step_negative)

lemma fib_run:
  "run_events fib_step ps t = Some t' \<Longrightarrow> natural t \<Longrightarrow>
   natural t' \<and> fib_value t' = fib_value t \<and> length ps + fib_left t' \<le> fib_left t"
proof (induction ps arbitrary: t)
  case (Cons p ps)
  then obtain t1 where "fib_step p t = Some t1" "run_events fib_step ps t1 = Some t'"
    by (auto split: option.splits)
  with Cons fib_step_keeps [of p t t1] show ?case by fastforce
qed simp

section \<open>Properties\<close>

text \<open>
  The example computes Fibonacci numbers. For \<open>0 \<le> n\<close> every run has a bounded number of
  steps and can go on until the functor has returned, with \<open>fib n\<close> modulo \<open>2 ^ 32\<close>; for
  \<open>n < 0\<close>, which the program does not exclude, no run ever returns.
\<close>

theorem fibonacci_computes:
  assumes "run_events fib_step ps (Call n) = Some t"
  shows "(0 \<le> n \<longrightarrow> length ps \<le> call_steps (nat n) \<and> (case t of
            Value v \<Rightarrow> v = of_nat (fib (nat n)) | _ \<Rightarrow> (\<exists>p t'. fib_step p t = Some t'))) \<and>
         (n < 0 \<longrightarrow> (\<exists>p t'. fib_step p t = Some t') \<and> (\<forall>v. t \<noteq> Value v))"
proof (intro conjI impI)
  assume "0 \<le> n"
  with fib_run [OF assms] have r: "fib_value t = of_nat (fib (nat n))" "length ps \<le> call_steps (nat n)" by auto
  from r(2) show "length ps \<le> call_steps (nat n)" .
  show "case t of Value v \<Rightarrow> v = of_nat (fib (nat n)) | _ \<Rightarrow> (\<exists>p t'. fib_step p t = Some t')"
    using r(1) fib_enabled [of t] by (auto split: fib_task.splits)
next
  assume "n < 0"
  then have "negative_below t" using negative.reach_inv [OF _ run_events_reaches [OF assms]] by simp
  then show "\<forall>v. t \<noteq> Value v" by auto
  then show "\<exists>p t'. fib_step p t = Some t'" by (rule fib_enabled)
qed

theorem fibonacci_computes_witness:
  "run_events fib_step [[], [False], [True], [False, True], [False, False], [False], []] (Call 3) =
     Some (Value (of_nat (fib 3))) \<and> \<not> (\<exists>v. run_events fib_step [[], [False]] (Call (- 1)) = Some (Value v))"
proof -
  have "run_events fib_step [[], [False], [True], [False, True], [False, False], [False], []] (Call 3) =
      Some (Value 2)" by code_simp
  from fibonacci_computes [OF this] this show ?thesis
    using fibonacci_computes [of "[[], [False]]" "- 1"] by auto
qed

text \<open>
  Its levels let the children be taken. While a task for the argument \<open>m\<close>, or the root
  task, waits for the task that one of its calls with an argument \<open>n \<le> m\<close> has spawned, the
  waiting predicate of \<open>cilkS\<close> accepts that task.
\<close>

theorem fibonacci_children_acceptable:
  assumes "1 \<le> n" and "n \<le> m" and "m < 2 ^ 31"
    and "level (attr p) = fib_level (m + 1) \<or> level (attr p) = PFUNC_DEFAULT_TASK_LEVEL"
    and "level (attr c) = fib_level n"
  shows "waiting_own_pred cmp CilkS p c"
proof -
  have "unat (fib_level k) = nat (2 ^ 32 - k)" if "1 \<le> k" "k \<le> 2 ^ 31" for k
  proof -
    have "fib_level k = of_int (2 ^ 32 - k)" by (simp add: fib_level_def)
    moreover have "uint (of_int x :: u32) = x" if "0 \<le> x" "x < 2 ^ 32" for x
      using that by (simp add: take_bit_int_eq_self uint_word_of_int_eq)
    moreover have "0 \<le> 2 ^ 32 - k" "2 ^ 32 - k < 2 ^ 32" using that by simp_all
    ultimately have "fib_level k = of_int (2 ^ 32 - k)" "uint (of_int (2 ^ 32 - k) :: u32) = 2 ^ 32 - k"
      by blast+
    then show ?thesis by (simp only: unat_eq_nat_uint)
  qed
  from this [of n] this [of "m + 1"] assms show ?thesis
    by (auto simp: waiting_cilk word_le_nat_alt PFUNC_DEFAULT_TASK_LEVEL_def)
qed

theorem fibonacci_children_acceptable_witness:
  "waiting_own_pred (<) CilkS ((task_default (0 :: int))\<lparr>attr := set_level (fib_level 5) (attribute_make 0 True False)\<rparr>)
     ((task_default 0)\<lparr>attr := set_level (fib_level 4) (attribute_make 0 True False)\<rparr>)"
  by (rule fibonacci_children_acceptable [of 4 4]) (simp_all add: set_level_def)

end
