(* ===== verification/Dag.thy ===== *)
theory Dag
  imports Atomics
begin

text \<open>
  The graph of \<^verbatim>\<open>examples/cxx/dot_reader/dag.h\<close>, as the grammar \<^verbatim>\<open>dot.y\<close> builds it, and the
  functor \<open>inorder\<close> of \<^verbatim>\<open>examples/cxx/while.cpp\<close>, which many tasks may call for one vertex.
  Vertices are numbered in the order of their list; the heads of the lists, which hold no
  vertex and no edge, are left out. The counters are integers: they do not overflow in a
  graph that fits into memory.
\<close>

section \<open>The graph\<close>

record vertex =
  ident :: int
  in_degree :: int
  out_degree :: int
  edges :: "(nat \<times> int) list"

record dag =
  vertices :: "vertex list"
  num_vertices :: int
  num_edges :: int

definition empty_dag :: dag where
  "empty_dag = \<lparr>vertices = [], num_vertices = 0, num_edges = 0\<rparr>"

definition vertex_init :: vertex where
  "vertex_init = \<lparr>ident = - 1, in_degree = 0, out_degree = 0, edges = []\<rparr>"

text \<open>
  \<open>add_edge\<close>: the assertions fail for a pointer that is no vertex. Source and destination
  may be the same.
\<close>

definition upd_vertex :: "nat \<Rightarrow> (vertex \<Rightarrow> vertex) \<Rightarrow> dag \<Rightarrow> dag" where
  "upd_vertex p f g = g\<lparr>vertices := (vertices g)[p := f (vertices g ! p)]\<rparr>"

definition add_edge :: "nat \<Rightarrow> nat \<Rightarrow> int \<Rightarrow> dag \<Rightarrow> dag option" where
  "add_edge source destination weight g =
     (if source < length (vertices g) \<and> destination < length (vertices g)
      then let g1 = upd_vertex source (\<lambda>v. v\<lparr>edges := edges v @ [(destination, weight)]\<rparr>) g;
               g2 = upd_vertex source (\<lambda>v. v\<lparr>out_degree := out_degree v + 1\<rparr>) g1;
               g3 = upd_vertex destination (\<lambda>v. v\<lparr>in_degree := in_degree v + 1\<rparr>) g2
           in Some (g3\<lparr>num_edges := num_edges g3 + 1\<rparr>)
      else None)"

fun get_vertex_from :: "nat \<Rightarrow> int \<Rightarrow> vertex list \<Rightarrow> nat option" where
  "get_vertex_from p i [] = None"
| "get_vertex_from p i (v # vs) = (if i = ident v then Some p else get_vertex_from (Suc p) i vs)"

definition get_vertex :: "int \<Rightarrow> dag \<Rightarrow> nat option" where
  "get_vertex i g = get_vertex_from 0 i (vertices g)"

text \<open>A pointer into a list of edges is what is left of the list; \<open>NULL\<close> is its end.\<close>

definition get_first_edge :: "vertex \<Rightarrow> (nat \<times> int) list" where
  "get_first_edge v = edges v"

definition get_last_edge :: "vertex \<Rightarrow> (nat \<times> int) list" where
  "get_last_edge v = []"

text \<open>The lines printed: one for the head of the list, then one for every vertex.\<close>

definition pretty_print :: "dag \<Rightarrow> (int \<times> int \<times> int \<times> (int \<times> int) list) option list" where
  "pretty_print g =
     None # map (\<lambda>v. Some (ident v, in_degree v, out_degree v,
                      map (\<lambda>(d, w). (ident (vertices g ! d), w)) (edges v))) (vertices g)"

text \<open>The actions of the grammar: a vertex; an edge, with weight 0 unless one is given.\<close>

datatype dot_command = Vertex int | Edge int int "int option"

fun dot_action :: "dot_command \<Rightarrow> dag \<Rightarrow> dag option" where
  "dot_action (Vertex i) g =
     Some (g\<lparr>vertices := vertices g @ [vertex_init\<lparr>ident := i\<rparr>], num_vertices := num_vertices g + 1\<rparr>)"
| "dot_action (Edge i j w) g =
     (case (get_vertex i g, get_vertex j g) of
        (Some p, Some q) \<Rightarrow> add_edge p q (case w of None \<Rightarrow> 0 | Some x \<Rightarrow> x) g
      | _ \<Rightarrow> Some g)"

fun read_dot :: "dot_command list \<Rightarrow> dag \<Rightarrow> dag option" where
  "read_dot [] g = Some g"
| "read_dot (c # cs) g = (case dot_action c g of None \<Rightarrow> None | Some g' \<Rightarrow> read_dot cs g')"

section \<open>The iterator\<close>

text \<open>What a loop from \<open>first\<close> to \<open>last\<close> over \<open>dag_iterator\<close> sees.\<close>

fun dag_range :: "(nat \<times> int) list \<Rightarrow> (nat \<times> int) list \<Rightarrow> nat list" where
  "dag_range current finish =
     (if current = finish then [] else case current of [] \<Rightarrow> [] | (d, w) # es \<Rightarrow> d # dag_range es finish)"

declare dag_range.simps [simp del]

lemma dag_range_all: "dag_range es [] = map fst es"
  by (induction es) (auto simp: dag_range.simps)

section \<open>A graph is consistent\<close>

definition edges_to :: "nat \<Rightarrow> vertex list \<Rightarrow> nat" where
  "edges_to p vs = (\<Sum>v\<leftarrow>vs. length (filter (\<lambda>(d, w). d = p) (edges v)))"

definition dag_ok :: "dag \<Rightarrow> bool" where
  "dag_ok g \<longleftrightarrow> num_vertices g = int (length (vertices g)) \<and>
     num_edges g = (\<Sum>v\<leftarrow>vertices g. out_degree v) \<and>
     (\<forall>v\<in>set (vertices g). out_degree v = int (length (edges v)) \<and>
        (\<forall>(d, w)\<in>set (edges v). d < length (vertices g))) \<and>
     (\<forall>p<length (vertices g). in_degree (vertices g ! p) = int (edges_to p (vertices g)))"

lemma get_vertex_from_sound:
  "get_vertex_from p i vs = Some q \<Longrightarrow>
   p \<le> q \<and> q < p + length vs \<and> ident (vs ! (q - p)) = i \<and> (\<forall>k<q - p. ident (vs ! k) \<noteq> i)"
proof (induction p i vs rule: get_vertex_from.induct)
  case (2 p i v vs)
  show ?case
  proof (cases "i = ident v")
    case True
    with 2 show ?thesis by simp
  next
    case False
    with 2 have IH: "Suc p \<le> q" "q < Suc p + length vs" "ident (vs ! (q - Suc p)) = i"
      "\<forall>k<q - Suc p. ident (vs ! k) \<noteq> i" by auto
    then obtain m where m: "q - p = Suc m" "q - Suc p = m" by (metis Suc_diff_le diff_Suc_Suc)
    with IH False show ?thesis by (auto simp: nth_Cons split: nat.splits)
  qed
qed simp

lemma get_vertex_sound:
  "get_vertex i g = Some p \<Longrightarrow> p < length (vertices g) \<and> ident (vertices g ! p) = i \<and> (\<forall>k<p. ident (vertices g ! k) \<noteq> i)"
  using get_vertex_from_sound [of 0 i "vertices g" p] by (simp add: get_vertex_def)

lemma sum_list_upd:
  "k < length xs \<Longrightarrow> (\<Sum>x\<leftarrow>xs[k := y]. f x) = (\<Sum>x\<leftarrow>xs. f x) - f (xs ! k) + (f y :: int)"
  by (induction xs arbitrary: k) (auto split: nat.splits)

lemma edges_to_upd:
  assumes "k < length vs"
  shows "int (edges_to p (vs[k := y])) = int (edges_to p vs) - int (length (filter (\<lambda>(d, w). d = p) (edges (vs ! k)))) +
     int (length (filter (\<lambda>(d, w). d = p) (edges y)))"
proof -
  have "int (edges_to p vs) = (\<Sum>v\<leftarrow>vs. int (length (filter (\<lambda>(d, w). d = p) (edges v))))" for vs
    by (induction vs) (auto simp: edges_to_def)
  then show ?thesis using sum_list_upd [OF assms] by simp
qed

text \<open>The vertices after \<open>add_edge\<close>, in one update of the source and one of the destination.\<close>

lemma add_edge_vertices:
  assumes "add_edge p q w g = Some g'"
  shows "p < length (vertices g)" "q < length (vertices g)" "num_edges g' = num_edges g + 1"
    "num_vertices g' = num_vertices g"
    "vertices g' = (let vs = (vertices g)[p := (vertices g ! p)\<lparr>edges := edges (vertices g ! p) @ [(q, w)],
                               out_degree := out_degree (vertices g ! p) + 1\<rparr>]
                    in vs[q := (vs ! q)\<lparr>in_degree := in_degree (vs ! q) + 1\<rparr>])"
  using assms by (auto simp: add_edge_def upd_vertex_def Let_def split: if_splits)

lemma add_edge_ok:
  assumes ok: "dag_ok g" and add: "add_edge p q w g = Some g'"
  shows "dag_ok g'"
proof -
  note A = add_edge_vertices [OF add]
  let ?s = "(vertices g ! p)\<lparr>edges := edges (vertices g ! p) @ [(q, w)], out_degree := out_degree (vertices g ! p) + 1\<rparr>"
  let ?vs = "(vertices g)[p := ?s]"
  let ?d = "(?vs ! q)\<lparr>in_degree := in_degree (?vs ! q) + 1\<rparr>"
  have vs': "vertices g' = ?vs[q := ?d]" using A(5) by (simp add: Let_def)
  have out: "(\<Sum>v\<leftarrow>vertices g'. out_degree v) = (\<Sum>v\<leftarrow>vertices g. out_degree v) + 1"
    unfolding vs' using A(1,2) by (simp add: sum_list_upd)
  have arr: "int (edges_to k (vertices g')) = int (edges_to k (vertices g)) + (if k = q then 1 else 0)" for k
    unfolding vs' using A(1,2) by (simp add: edges_to_upd)
  have edge: "out_degree v = int (length (edges v)) \<and> (\<forall>(d, w)\<in>set (edges v). d < length (vertices g))"
    if "v \<in> set (vertices g')" for v
  proof -
    have old: "out_degree x = int (length (edges x)) \<and> (\<forall>(d, w)\<in>set (edges x). d < length (vertices g))"
      if "x \<in> set (vertices g)" for x using ok that by (simp add: dag_ok_def)
    have s: "out_degree ?s = int (length (edges ?s)) \<and> (\<forall>(d, w)\<in>set (edges ?s). d < length (vertices g))"
      using old [of "vertices g ! p"] A(1,2) by auto
    have vs: "out_degree x = int (length (edges x)) \<and> (\<forall>(d, w)\<in>set (edges x). d < length (vertices g))"
      if "x \<in> set ?vs" for x
      using that set_update_subset_insert [of "vertices g" p ?s] s old by blast
    have "out_degree ?d = out_degree (?vs ! q)" "edges ?d = edges (?vs ! q)" by simp_all
    moreover have "?vs ! q \<in> set ?vs" using A(2) by simp
    ultimately have d: "out_degree ?d = int (length (edges ?d)) \<and> (\<forall>(d, w)\<in>set (edges ?d). d < length (vertices g))"
      using vs by metis
    have "v = ?d \<or> v \<in> set ?vs" using that set_update_subset_insert [of ?vs q ?d] by (auto simp: vs')
    with vs d show ?thesis by blast
  qed
  have ind: "in_degree (vertices g' ! k) = in_degree (vertices g ! k) + (if k = q then 1 else 0)"
    if "k < length (vertices g)" for k
    using that A(1,2) by (auto simp: vs' nth_list_update)
  have len: "length (vertices g') = length (vertices g)" by (simp add: vs')
  show ?thesis
    unfolding dag_ok_def len
    using ok A(3,4) out arr edge ind by (simp add: dag_ok_def)
qed

lemma dot_action_ok:
  assumes ok: "dag_ok g" and "dot_action c g = Some g'"
  shows "dag_ok g'"
proof (cases c)
  case (Vertex i)
  let ?n = "length (vertices g)"
  have g': "vertices g' = vertices g @ [vertex_init\<lparr>ident := i\<rparr>]" "num_vertices g' = num_vertices g + 1"
    "num_edges g' = num_edges g"
    using assms(2) Vertex by auto
  have old: "out_degree v = int (length (edges v))" "\<forall>(d, w)\<in>set (edges v). d < ?n" if "v \<in> set (vertices g)" for v
    using ok that by (simp_all add: dag_ok_def)
  have "edges_to ?n (vertices g) = 0"
    using old(2) by (fastforce simp: edges_to_def sum_list_eq_0_iff filter_empty_conv)
  moreover have arr: "edges_to k (vertices g') = edges_to k (vertices g)" for k
    by (simp add: edges_to_def vertex_init_def g')
  ultimately have "in_degree (vertices g' ! k) = int (edges_to k (vertices g'))" if "k < Suc ?n" for k
    using ok that by (auto simp: dag_ok_def nth_append less_Suc_eq vertex_init_def g')
  moreover have "out_degree v = int (length (edges v)) \<and> (\<forall>(d, w)\<in>set (edges v). d < Suc ?n)"
    if "v \<in> set (vertices g')" for v
    using that old [of v] by (force simp: g' vertex_init_def)
  ultimately show ?thesis
    using ok by (simp add: dag_ok_def g' vertex_init_def)
next
  case (Edge i j w)
  with assms show ?thesis
    by (auto split: option.splits dest: add_edge_ok)
qed

lemma dot_action_defined: "\<exists>g'. dot_action c g = Some g'"
proof (cases c)
  case (Edge i j w)
  show ?thesis
  proof (cases "\<exists>p q. get_vertex i g = Some p \<and> get_vertex j g = Some q")
    case True
    then obtain p q where "get_vertex i g = Some p" "get_vertex j g = Some q" by blast
    with get_vertex_sound [of i g p] get_vertex_sound [of j g q] Edge show ?thesis
      by (simp add: add_edge_def Let_def)
  next
    case False
    with Edge show ?thesis by (auto split: option.splits)
  qed
qed simp

lemma read_dot_ok: "dag_ok g \<Longrightarrow> \<exists>g'. read_dot cs g = Some g' \<and> dag_ok g'"
proof (induction cs arbitrary: g)
  case (Cons c cs)
  obtain g1 where "dot_action c g = Some g1" using dot_action_defined by blast
  with Cons dot_action_ok [OF Cons.prems] show ?case by auto
qed simp

lemma empty_dag_ok: "dag_ok empty_dag"
  by (simp add: dag_ok_def empty_dag_def)

section \<open>What a file says\<close>

fun declared :: "dot_command list \<Rightarrow> int list" where
  "declared [] = []"
| "declared (Vertex i # cs) = i # declared cs"
| "declared (Edge i j w # cs) = declared cs"

text \<open>The edges between vertices declared before; \<open>seen\<close> are the vertices so far.\<close>

fun accepted :: "int list \<Rightarrow> dot_command list \<Rightarrow> (int \<times> int \<times> int) list" where
  "accepted seen [] = []"
| "accepted seen (Vertex i # cs) = accepted (seen @ [i]) cs"
| "accepted seen (Edge i j w # cs) =
     (if i \<in> set seen \<and> j \<in> set seen then [(i, j, case w of None \<Rightarrow> 0 | Some x \<Rightarrow> x)] else []) @ accepted seen cs"

definition idents :: "dag \<Rightarrow> int list" where
  "idents g = map ident (vertices g)"

definition edges_of :: "dag \<Rightarrow> nat \<Rightarrow> (int \<times> int) list" where
  "edges_of g p = map (\<lambda>(d, w). (idents g ! d, w)) (edges (vertices g ! p))"

definition first_of_its_name :: "int list \<Rightarrow> nat \<Rightarrow> bool" where
  "first_of_its_name is p \<longleftrightarrow> (\<forall>k<p. is ! k \<noteq> is ! p)"

definition edges_from :: "int \<Rightarrow> (int \<times> int \<times> int) list \<Rightarrow> (int \<times> int) list" where
  "edges_from i es = map snd (filter (\<lambda>e. fst e = i) es)"

lemma get_vertex_idents:
  "(get_vertex i g = Some p) = (p < length (idents g) \<and> idents g ! p = i \<and> first_of_its_name (idents g) p)"
proof -
  have "i \<in> ident ` set vs \<Longrightarrow> \<exists>q. get_vertex_from n i vs = Some q" for n vs
    by (induction vs arbitrary: n) auto
  moreover have "p < length (vertices g) \<Longrightarrow> ident (vertices g ! p) \<in> ident ` set (vertices g)" for p by simp
  ultimately have "\<exists>q. get_vertex i g = Some q" if "p < length (vertices g)" "ident (vertices g ! p) = i" for p
    using that by (auto simp: get_vertex_def)
  then show ?thesis
    using get_vertex_sound [of i g] unfolding idents_def first_of_its_name_def
    by (auto) (metis linorder_neqE_nat option.inject)+
qed

lemma get_vertex_none: "get_vertex i g = None \<longleftrightarrow> i \<notin> set (idents g)"
proof -
  have "get_vertex_from n i vs = None \<longleftrightarrow> i \<notin> ident ` set vs" for n vs
    by (induction vs arbitrary: n) auto
  then show ?thesis by (simp add: get_vertex_def idents_def)
qed

lemma add_edge_edges_of:
  assumes "add_edge p q w g = Some g'" and "k < length (idents g)"
  shows "idents g' = idents g" "edges_of g' k = edges_of g k @ (if k = p then [(idents g ! q, w)] else [])"
proof -
  note A = add_edge_vertices [OF assms(1)]
  show ids: "idents g' = idents g"
    using A by (auto intro!: nth_equalityI simp: idents_def Let_def nth_list_update)
  have "edges (vertices g' ! k) = edges (vertices g ! k) @ (if k = p then [(q, w)] else [])"
    using A(1,2,5) assms(2) by (auto simp: Let_def nth_list_update idents_def)
  then show "edges_of g' k = edges_of g k @ (if k = p then [(idents g ! q, w)] else [])"
    by (simp add: edges_of_def ids)
qed

lemma first_of_its_name_append:
  "p < length is \<Longrightarrow> first_of_its_name (is @ js) p \<longleftrightarrow> first_of_its_name is p"
  by (auto simp: first_of_its_name_def nth_append)

text \<open>What is added to the edges of a vertex by the rest of a file.\<close>

lemma read_dot_edges:
  "dag_ok g \<Longrightarrow> read_dot cs g = Some g' \<Longrightarrow>
   idents g' = idents g @ declared cs \<and>
   (\<forall>p<length (idents g'). edges_of g' p = (if p < length (idents g) then edges_of g p else []) @
      (if first_of_its_name (idents g') p then edges_from (idents g' ! p) (accepted (idents g) cs) else []))"
proof (induction cs arbitrary: g)
  case Nil
  then show ?case by (simp add: edges_from_def)
next
  case (Cons c cs)
  then obtain g1 where g1: "dot_action c g = Some g1" and g': "read_dot cs g1 = Some g'"
    by (auto split: option.splits)
  note IH = Cons.IH [OF dot_action_ok [OF Cons.prems(1) g1] g']
  have within: "\<forall>v\<in>set (vertices g). \<forall>(d, w)\<in>set (edges v). d < length (vertices g)"
    using Cons.prems(1) by (simp add: dag_ok_def)
  show ?case
  proof (cases c)
    case (Vertex i)
    with g1 have g1': "vertices g1 = vertices g @ [vertex_init\<lparr>ident := i\<rparr>]" by auto
    then have ids: "idents g1 = idents g @ [i]" by (simp add: idents_def)
    have old: "edges_of g1 p = edges_of g p" if "p < length (idents g)" for p
    proof -
      have "d < length (vertices g)" if "(d, w) \<in> set (edges (vertices g ! p))" for d w
        using within nth_mem [of p "vertices g"] \<open>p < length (idents g)\<close> that by (auto simp: idents_def)
      then show ?thesis
        using that unfolding edges_of_def ids by (auto simp: g1' nth_append idents_def)
    qed
    have new: "edges_of g1 (length (idents g)) = []"
      by (simp add: edges_of_def g1' idents_def nth_append vertex_init_def)
    have "edges_of g' p = (if p < length (idents g) then edges_of g p else []) @
      (if first_of_its_name (idents g') p then edges_from (idents g' ! p) (accepted (idents g) (c # cs)) else [])"
      if "p < length (idents g')" for p
    proof (cases "p < length (idents g)")
      case True
      with IH that old show ?thesis by (simp add: ids Vertex)
    next
      case False
      then have "p = length (idents g) \<or> \<not> p < length (idents g1)" by (auto simp: ids)
      with False IH that new show ?thesis by (auto simp: ids Vertex)
    qed
    with IH ids Vertex show ?thesis by simp
  next
    case (Edge i j w)
    show ?thesis
    proof (cases "get_vertex i g = None \<or> get_vertex j g = None")
      case True
      then have "i \<notin> set (idents g) \<or> j \<notin> set (idents g)" by (simp add: get_vertex_none)
      then have acc: "accepted (idents g) (c # cs) = accepted (idents g) cs" using Edge by auto
      have "g1 = g" using True g1 Edge by (auto split: option.splits)
      then show ?thesis using IH acc Edge by simp
    next
      case False
      let ?w = "case w of None \<Rightarrow> 0 | Some x \<Rightarrow> x"
      have "i \<in> set (idents g)" "j \<in> set (idents g)" using False by (auto simp: get_vertex_none)
      then have acc: "accepted (idents g) (c # cs) = (i, j, ?w) # accepted (idents g) cs" using Edge by simp
      from False obtain p q where pq: "get_vertex i g = Some p" "get_vertex j g = Some q" by auto
      note P = pq [unfolded get_vertex_idents]
      have add: "add_edge p q ?w g = Some g1" using g1 pq Edge by simp
      have ids: "idents g1 = idents g" using add_edge_edges_of [OF add] P by blast
      have "edges_of g' k = (if k < length (idents g) then edges_of g k else []) @
        (if first_of_its_name (idents g') k then edges_from (idents g' ! k) (accepted (idents g) (c # cs)) else [])"
        if "k < length (idents g')" for k
      proof (cases "k < length (idents g)")
        case True
        have pre: "idents g' = idents g @ declared cs" using IH ids by simp
        have "k = p \<longleftrightarrow> first_of_its_name (idents g) k \<and> idents g ! k = i"
          using P True by (auto simp: first_of_its_name_def) (metis linorder_neqE_nat)
        moreover have "edges_of g1 k = edges_of g k @ (if k = p then [(j, ?w)] else [])"
          using add_edge_edges_of [OF add True] P by simp
        ultimately show ?thesis
          using IH that True unfolding acc
          by (auto simp: ids pre nth_append first_of_its_name_append edges_from_def)
      next
        case False
        have pre: "idents g' = idents g @ declared cs" using IH ids by simp
        have "\<not> (first_of_its_name (idents g') k \<and> idents g' ! k = i)"
          using P False unfolding first_of_its_name_def pre
          by (metis linorder_not_less nth_append order.strict_trans1)
        with IH that False show ?thesis unfolding acc by (auto simp: ids edges_from_def)
      qed
      with IH ids Edge show ?thesis by simp
    qed
  qed
qed

section \<open>Properties\<close>

text \<open>
  Reading a file never violates an assertion, and the graph is the one the file says. The
  vertices are those declared, in order; a vertex has the edges whose source has its number
  and whose two ends were declared before, in order and with their weights (the first one, if
  several have that number); its degrees count the edges that leave and reach it; the iterators
  from \<open>get_first_edge\<close> to \<open>get_last_edge\<close> visit the destinations in this order.
\<close>

theorem dot_file_is_read:
  "\<exists>g. read_dot cs empty_dag = Some g \<and> idents g = declared cs \<and>
     num_vertices g = int (length (declared cs)) \<and>
     num_edges g = (\<Sum>v\<leftarrow>vertices g. out_degree v) \<and>
     (\<forall>p<length (declared cs). let v = vertices g ! p in
        edges_of g p = (if first_of_its_name (declared cs) p then edges_from (declared cs ! p) (accepted [] cs) else []) \<and>
        out_degree v = int (length (edges v)) \<and>
        in_degree v = int (edges_to p (vertices g)) \<and>
        dag_range (get_first_edge v) (get_last_edge v) = map fst (edges v))"
proof -
  obtain g where g: "read_dot cs empty_dag = Some g" "dag_ok g"
    using read_dot_ok [OF empty_dag_ok] by blast
  have "idents empty_dag = []" by (simp add: idents_def empty_dag_def)
  with read_dot_edges [OF empty_dag_ok g(1)] have E: "idents g = declared cs"
    "\<forall>p<length (declared cs). edges_of g p =
       (if first_of_its_name (declared cs) p then edges_from (declared cs ! p) (accepted [] cs) else [])"
    by simp_all
  have "length (vertices g) = length (declared cs)"
    using arg_cong [OF E(1), of length] by (simp add: idents_def)
  with g E show ?thesis
    by (intro exI [of _ g]) (simp add: dag_ok_def get_first_edge_def get_last_edge_def dag_range_all)
qed

theorem dot_file_is_read_witness:
  "\<exists>g. read_dot [Vertex 7, Edge 7 8 None, Vertex 8, Edge 7 8 (Some 5)] empty_dag = Some g \<and>
     edges_of g 0 = [(8, 5)] \<and> dag_range (get_first_edge (vertices g ! 0)) (get_last_edge (vertices g ! 0)) = map fst (edges (vertices g ! 0))"
proof -
  let ?cs = "[Vertex 7, Edge 7 8 None, Vertex 8, Edge 7 8 (Some 5)]"
  obtain g where g: "read_dot ?cs empty_dag = Some g"
    and A: "\<forall>p<length (declared ?cs). let v = vertices g ! p in
        edges_of g p = (if first_of_its_name (declared ?cs) p then edges_from (declared ?cs ! p) (accepted [] ?cs) else []) \<and>
        out_degree v = int (length (edges v)) \<and>
        in_degree v = int (edges_to p (vertices g)) \<and>
        dag_range (get_first_edge v) (get_last_edge v) = map fst (edges v)"
    using dot_file_is_read [of ?cs] by blast
  from A [rule_format, of 0] have "edges_of g 0 = [(8, 5)]"
    "dag_range (get_first_edge (vertices g ! 0)) (get_last_edge (vertices g ! 0)) = map fst (edges (vertices g ! 0))"
    by (simp_all add: first_of_its_name_def edges_from_def Let_def)
  with g show ?thesis by blast
qed

end
