(* ===== verification/Traversal.thy ===== *)
theory Traversal
  imports Dag
begin

text \<open>
  The functor \<open>inorder\<close> of \<^verbatim>\<open>examples/cxx/while.cpp\<close>: a task is started for every edge of the
  start vertex, and every task that finds its vertex \<open>WHITE\<close> and wins the atomic increment
  starts one for every edge of that vertex. The visits run in any interleaving: the test of the
  colour and the increment are separate steps. A visit that has started others waits for them
  before it returns, which does not restrict their steps and is left out.
\<close>

section \<open>The functor and the start\<close>

datatype visit_phase = Test | Add | Added | Skipped

record traversal =
  color_map :: "8 word list"
  visits :: "(nat \<times> visit_phase) list"
  printed :: "int list"

definition new_visits :: "dag \<Rightarrow> nat \<Rightarrow> (nat \<times> visit_phase) list" where
  "new_visits g p =
     (let v = vertices g ! p in map (\<lambda>d. (d, Test)) (dag_range (get_first_edge v) (get_last_edge v)))"

text \<open>One step of visit \<open>k\<close>. An index outside of \<open>color_map\<close> has no defined behaviour.\<close>

definition inorder :: "dag \<Rightarrow> nat \<Rightarrow> traversal \<Rightarrow> traversal option" where
  "inorder g k s =
     (if k < length (visits s)
      then let (p, ph) = visits s ! k; id = ident (vertices g ! p); i = nat id in
        if 0 \<le> id \<and> i < length (color_map s)
        then case ph of
            Test \<Rightarrow> Some (s\<lparr>visits := (visits s)[k := (p, if color_map s ! i = 0 then Add else Skipped)]\<rparr>)
          | Add \<Rightarrow> let (old, new) = pfunc_fetch_and_add_8 (color_map s ! i) 1 in
              Some (s\<lparr>color_map := (color_map s)[i := new],
                      visits := (visits s)[k := (p, Added)] @ (if old = 0 then new_visits g p else []),
                      printed := printed s @ (if old = 0 then [id] else [])\<rparr>)
          | Added \<Rightarrow> None
          | Skipped \<Rightarrow> None
        else None
      else None)"

text \<open>\<open>main\<close>: the colours are \<open>WHITE\<close>, the root task visits the edges of the start vertex.\<close>

definition start_traversal :: "int \<Rightarrow> dag \<Rightarrow> traversal option" where
  "start_traversal start g =
     (case get_vertex start g of
        None \<Rightarrow> None
      | Some p \<Rightarrow> Some \<lparr>color_map = replicate (nat (num_vertices g)) 0,
                        visits = new_visits g p, printed = []\<rparr>)"

section \<open>The visits and the colours\<close>

definition succs :: "dag \<Rightarrow> nat \<Rightarrow> nat list" where
  "succs g p = map fst (edges (vertices g ! p))"

definition arcs :: "dag \<Rightarrow> (nat \<times> nat) set" where
  "arcs g = {(p, q). p < length (vertices g) \<and> q \<in> set (succs g p)}"

text \<open>The vertices are numbered as \<open>main\<close> asks for.\<close>

definition numbered :: "dag \<Rightarrow> bool" where
  "numbered g \<longleftrightarrow> (\<forall>p<length (vertices g). ident (vertices g ! p) = int p)"

abbreviation count_of :: "'a \<Rightarrow> 'a list \<Rightarrow> nat" where
  "count_of x xs \<equiv> count (mset xs) x"

definition additions :: "traversal \<Rightarrow> nat \<Rightarrow> nat" where
  "additions s p = count_of (p, Added) (visits s)"

definition tr_inv :: "dag \<Rightarrow> nat \<Rightarrow> traversal \<Rightarrow> bool" where
  "tr_inv g st s \<longleftrightarrow>
     length (color_map s) = length (vertices g) \<and>
     (\<forall>p\<in>set (map fst (visits s)). p < length (vertices g) \<and> (st, p) \<in> (arcs g)\<^sup>+) \<and>
     (\<forall>p<length (vertices g). color_map s ! p = of_nat (additions s p)) \<and>
     distinct (printed s) \<and>
     (\<forall>i\<in>set (printed s). 0 \<le> i \<and> i < int (length (vertices g))) \<and>
     (\<forall>p<length (vertices g). int p \<in> set (printed s) \<longleftrightarrow> 0 < additions s p) \<and>
     mset (map fst (visits s)) = mset (succs g st @ concat (map (\<lambda>i. succs g (nat i)) (printed s))) \<and>
     (\<forall>p. (p, Skipped) \<in> set (visits s) \<longrightarrow> 0 < additions s p)"

lemma new_visits_fst: "map fst (new_visits g p) = succs g p"
  by (simp add: new_visits_def get_first_edge_def get_last_edge_def dag_range_all succs_def Let_def comp_def)

lemma new_visits_Test: "v \<in> set (new_visits g p) \<Longrightarrow> snd v = Test"
  by (auto simp: new_visits_def Let_def)

lemma count_new_visits: "ph \<noteq> Test \<Longrightarrow> count_of (q, ph) (new_visits g p) = 0"
  using new_visits_Test [of "(q, ph)" g p] by (force simp: count_eq_zero_iff)

lemma count_upd:
  "k < length xs \<Longrightarrow> count_of x (xs[k := y]) + (if xs ! k = x then 1 else 0) = count_of x xs + (if y = x then 1 else 0)"
proof -
  assume k: "k < length xs"
  then have "mset (xs[k := y]) + {#xs ! k#} = mset xs + {#y#}"
    by (simp add: mset_update)
  from arg_cong [OF this, of "\<lambda>m. count m x"] show ?thesis
    by (auto split: if_splits)
qed

lemma count_map_fst:
  "k < length xs \<Longrightarrow> fst y = fst (xs ! k) \<Longrightarrow> map fst (xs[k := y]) = map fst xs"
  by (induction xs arbitrary: k) (auto split: nat.splits)

text \<open>No vertex is visited more often than it has edges, counting those of the start vertex twice.\<close>

lemma edges_to_succs: "edges_to p (vertices g) = (\<Sum>k<length (vertices g). count_of p (succs g k))"
proof -
  have "length (filter (\<lambda>(d, w). d = p) es) = count_of p (map fst es)" for es :: "(nat \<times> int) list"
    by (induction es) auto
  then show ?thesis
    by (simp add: edges_to_def succs_def sum_list_sum_nth atLeast0LessThan)
qed

lemma visits_bounded:
  assumes "tr_inv g st s"
  shows "count_of p (map fst (visits s)) \<le> count_of p (succs g st) + edges_to p (vertices g)"
proof -
  have "(\<Sum>i\<leftarrow>printed s. count_of p (succs g (nat i))) = (\<Sum>i\<in>set (printed s). count_of p (succs g (nat i)))"
    using assms by (simp add: tr_inv_def sum_list_distinct_conv_sum_set)
  also have "\<dots> = (\<Sum>k\<in>nat ` set (printed s). count_of p (succs g k))"
    using assms by (subst sum.reindex) (auto simp: tr_inv_def inj_on_def eq_nat_nat_iff)
  also have "\<dots> \<le> (\<Sum>k<length (vertices g). count_of p (succs g k))"
    using assms by (intro sum_mono2) (auto simp: tr_inv_def)
  also have "\<dots> = edges_to p (vertices g)" by (simp add: edges_to_succs)
  finally have le: "(\<Sum>i\<leftarrow>printed s. count_of p (succs g (nat i))) \<le> edges_to p (vertices g)" .
  have "count_of p (concat xss) = (\<Sum>xs\<leftarrow>xss. count_of p xs)" for xss :: "nat list list"
    by (induction xss) auto
  moreover have "mset (map fst (visits s)) = mset (succs g st @ concat (map (\<lambda>i. succs g (nat i)) (printed s)))"
    using assms by (simp add: tr_inv_def)
  ultimately show ?thesis
    using le by (simp add: comp_def del: mset_map)
qed

lemma additions_below:
  assumes "(p, Add) \<in> set (visits s)"
  shows "additions s p < count_of p (map fst (visits s))"
proof -
  have "count_of (p, Added) xs + count_of (p, Add) xs \<le> count_of p (map fst xs)" for xs
    by (induction xs) auto
  from this [of "visits s"] show ?thesis
    using assms count_greater_zero_iff [of "mset (visits s)" "(p, Add)"] unfolding additions_def set_mset_mset by linarith
qed

lemma of_nat8_0: "n < 256 \<Longrightarrow> (of_nat n :: 8 word) = 0 \<longleftrightarrow> n = 0"
  by (auto simp: word_of_nat_eq_0_iff dest: dvd_imp_le)

section \<open>The steps keep the invariant\<close>

definition few_visits :: "dag \<Rightarrow> nat \<Rightarrow> bool" where
  "few_visits g st \<longleftrightarrow> (\<forall>p<length (vertices g). in_degree (vertices g ! p) + int (count_of p (succs g st)) \<le> 256)"

text \<open>What a step may be, with the numbering of \<open>main\<close>.\<close>

lemma inorder_cases:
  assumes "inorder g k s = Some s'" and "numbered g" and inv: "tr_inv g st s"
  obtains (test) p where "k < length (visits s)" "visits s ! k = (p, Test)" "p < length (vertices g)"
      "s' = s\<lparr>visits := (visits s)[k := (p, if additions s p mod 256 = 0 then Add else Skipped)]\<rparr>"
  | (add) p where "k < length (visits s)" "visits s ! k = (p, Add)" "p < length (vertices g)"
      "s' = s\<lparr>color_map := (color_map s)[p := color_map s ! p + 1],
              visits := (visits s)[k := (p, Added)] @ (if color_map s ! p = 0 then new_visits g p else []),
              printed := printed s @ (if color_map s ! p = 0 then [int p] else [])\<rparr>"
proof -
  obtain p ph where v: "visits s ! k = (p, ph)" by (cases "visits s ! k")
  have k: "k < length (visits s)" using assms(1) by (simp add: inorder_def split: if_splits)
  with v have "p \<in> set (map fst (visits s))" by (metis fst_conv length_map nth_map nth_mem)
  with inv have p: "p < length (vertices g)" by (auto simp: tr_inv_def)
  with assms(2) have "ident (vertices g ! p) = int p" by (simp add: numbered_def)
  moreover have "length (color_map s) = length (vertices g)" using inv by (simp add: tr_inv_def)
  moreover have "color_map s ! p = of_nat (additions s p)" using inv p by (simp add: tr_inv_def)
  then have "color_map s ! p = 0 \<longleftrightarrow> additions s p mod 256 = 0"
    by (simp add: word_of_nat_eq_0_iff dvd_eq_mod_eq_0)
  ultimately show thesis
    using assms(1) k v p test add
    by (auto simp: inorder_def Let_def pf_defs split: visit_phase.splits)
qed

lemma trancl_arc: "(st, p) \<in> (arcs g)\<^sup>+ \<Longrightarrow> p < length (vertices g) \<Longrightarrow> q \<in> set (succs g p) \<Longrightarrow> (st, q) \<in> (arcs g)\<^sup>+"
  by (rule trancl_into_trancl) (auto simp: arcs_def)

lemma succs_within: "dag_ok g \<Longrightarrow> p < length (vertices g) \<Longrightarrow> q \<in> set (succs g p) \<Longrightarrow> q < length (vertices g)"
  using nth_mem [of p "vertices g"] by (fastforce simp: dag_ok_def succs_def)

lemma inorder_inv:
  assumes step: "inorder g k s = Some s'" and inv: "tr_inv g st s"
    and g: "numbered g" "dag_ok g" "few_visits g st"
  shows "tr_inv g st s'"
  using step g(1) inv
proof (cases rule: inorder_cases)
  case (test p)
  let ?ph = "if additions s p mod 256 = 0 then Add else Skipped"
  have additions: "additions s' q = additions s q" for q
    using count_upd [OF test(1), where x = "(q, Added)" and y = "(p, ?ph)"] test by (auto simp: additions_def split: if_splits)
  have fst: "map fst (visits s') = map fst (visits s)"
    using count_map_fst [OF test(1), of "(p, ?ph)"] test by simp
  have "?ph = Skipped \<Longrightarrow> 0 < additions s p" by (auto split: if_splits intro: gr0I)
  moreover have "set (visits s') \<subseteq> insert (p, ?ph) (set (visits s))"
    using test set_update_subset_insert by fastforce
  ultimately have "(q, Skipped) \<in> set (visits s') \<Longrightarrow> 0 < additions s' q" for q
    using inv by (auto simp: tr_inv_def additions split: if_splits)
  then show ?thesis
    using inv test(4) unfolding tr_inv_def additions fst by simp
next
  case (add p)
  note I = inv [unfolded tr_inv_def]
  have "additions s p < count_of p (map fst (visits s))"
    using add(1,2) by (intro additions_below) (metis nth_mem)
  also have "int (count_of p (map fst (visits s))) \<le> 256"
    using visits_bounded [OF inv, of p] g(2,3) add(3) by (fastforce simp: dag_ok_def few_visits_def)
  then have "count_of p (map fst (visits s)) \<le> 256" by linarith
  finally have "(of_nat (additions s p) :: 8 word) = 0 \<longleftrightarrow> additions s p = 0" by (rule of_nat8_0)
  then have white: "color_map s ! p = 0 \<longleftrightarrow> additions s p = 0" using I add(3) by simp
  have vis: "visits s' = (visits s)[k := (p, Added)] @ (if additions s p = 0 then new_visits g p else [])"
    and prt: "printed s' = printed s @ (if additions s p = 0 then [int p] else [])"
    and col: "color_map s' = (color_map s)[p := color_map s ! p + 1]"
    using add(4) by (simp_all add: white)
  have additions: "additions s' q = additions s q + (if q = p then 1 else 0)" for q
    using count_upd [OF add(1), where x = "(q, Added)" and y = "(p, Added)"] add(2)
    by (auto simp: additions_def vis dest!: new_visits_Test split: if_splits)
  have fst: "map fst (visits s') = map fst (visits s) @ (if additions s p = 0 then succs g p else [])"
    using count_map_fst [OF add(1), of "(p, Added)"] add(2) by (simp add: vis new_visits_fst)
  have "p \<in> set (map fst (visits s))" using add(1,2) by (metis fst_conv length_map nth_map nth_mem)
  with I have here: "(st, p) \<in> (arcs g)\<^sup>+" by blast
  have *: "\<forall>q\<in>set (map fst (visits s')). q < length (vertices g) \<and> (st, q) \<in> (arcs g)\<^sup>+"
    using I trancl_arc [OF here add(3)] succs_within [OF g(2) add(3)] unfolding fst by auto
  have **: "(q, Skipped) \<in> set (visits s) " if "(q, Skipped) \<in> set (visits s')" for q
    using that set_update_subset_insert [of "visits s" k "(p, Added)"] new_visits_Test [of "(q, Skipped)" g p]
    by (auto simp: vis split: if_splits)
  show ?thesis
    unfolding tr_inv_def
  proof (intro conjI)
    show "\<forall>q<length (vertices g). color_map s' ! q = of_nat (additions s' q)"
      using I add(3) by (auto simp: col additions nth_list_update)
    show "distinct (printed s')" using I add(3) by (auto simp: prt)
    show "\<forall>q<length (vertices g). int q \<in> set (printed s') \<longleftrightarrow> 0 < additions s' q"
      using I by (auto simp: prt additions)
    show "mset (map fst (visits s')) = mset (succs g st @ concat (map (\<lambda>i. succs g (nat i)) (printed s')))"
      using I unfolding fst prt by (auto simp del: mset_map)
    show "\<forall>q. (q, Skipped) \<in> set (visits s') \<longrightarrow> 0 < additions s' q"
      using I ** by (auto simp: additions)
    show "\<forall>i\<in>set (printed s'). 0 \<le> i \<and> i < int (length (vertices g))"
      using I add(3) by (auto simp: prt)
  qed (use I * in \<open>simp_all add: col\<close>)
qed

definition tr_start :: "dag \<Rightarrow> nat \<Rightarrow> traversal \<Rightarrow> bool" where
  "tr_start g st s \<longleftrightarrow> numbered g \<and> dag_ok g \<and> few_visits g st \<and> start_traversal (int st) g = Some s"

lemma get_vertex_numbered:
  assumes "numbered g" and "get_vertex i g = Some p"
  shows "p < length (vertices g)" "i = int p"
  using get_vertex_sound [OF assms(2)] assms(1) by (auto simp: numbered_def)

lemma start_traversal_inv:
  assumes "tr_start g st s"
  shows "st < length (vertices g)" "tr_inv g st s"
proof -
  from assms have g: "numbered g" "dag_ok g" by (simp_all add: tr_start_def)
  from assms obtain p where p: "get_vertex (int st) g = Some p"
    and s: "s = \<lparr>color_map = replicate (nat (num_vertices g)) 0, visits = new_visits g p, printed = []\<rparr>"
    by (auto simp: tr_start_def start_traversal_def split: option.splits)
  from get_vertex_numbered [OF g(1) p] have st: "p = st" "st < length (vertices g)" by auto
  have "set (succs g st) \<subseteq> {..<length (vertices g)}" using succs_within [OF g(2) st(2)] by blast
  moreover have sel: "visits s = new_visits g st" "color_map s = replicate (length (vertices g)) 0" "printed s = []"
    using st g(2) by (simp_all add: s dag_ok_def)
  moreover have none: "(q, Added) \<notin> set (visits s)" "(q, Skipped) \<notin> set (visits s)" for q
    by (auto simp: sel dest: new_visits_Test)
  moreover have "additions s q = 0" for q
    using none by (simp add: additions_def count_eq_zero_iff)
  ultimately show "st < length (vertices g)" "tr_inv g st s"
    using st by (auto simp: tr_inv_def new_visits_fst arcs_def simp del: mset_map)
qed

definition tr_good :: "dag \<Rightarrow> nat \<Rightarrow> traversal \<Rightarrow> bool" where
  "tr_good g st s \<longleftrightarrow> tr_inv g st s \<and> numbered g \<and> dag_ok g \<and> few_visits g st"

interpretation tr: invariant_system "tr_start g st" "step_of (inorder g)" "tr_good g st" for g st
  by unfold_locales
    (auto elim!: step_ofE simp: tr_good_def tr_start_def intro: inorder_inv start_traversal_inv [unfolded tr_start_def])

section \<open>Progress\<close>

fun phase_left :: "visit_phase \<Rightarrow> nat" where
  "phase_left Test = 2"
| "phase_left Add = 1"
| "phase_left Added = 0"
| "phase_left Skipped = 0"

definition tr_left :: "traversal \<Rightarrow> nat" where
  "tr_left s = (\<Sum>v\<leftarrow>visits s. phase_left (snd v))"

lemma sum_list_upd_nat:
  "k < length xs \<Longrightarrow> (\<Sum>x\<leftarrow>xs[k := y]. f x) + f (xs ! k) = (\<Sum>x\<leftarrow>xs. f x) + (f y :: nat)"
  by (induction xs arbitrary: k) (auto split: nat.splits)

lemma inorder_left:
  assumes "inorder g k s = Some s'" and "numbered g" and "tr_inv g st s"
  shows "tr_left s' + 2 * length (visits s) < tr_left s + 2 * length (visits s')"
  using assms
proof (cases rule: inorder_cases)
  case (test p)
  with sum_list_upd_nat [OF test(1), of "\<lambda>v. phase_left (snd v)" "(p, if additions s p mod 256 = 0 then Add else Skipped)"] show ?thesis
    by (auto simp: tr_left_def)
next
  case (add p)
  have "(\<Sum>v\<leftarrow>new_visits g p. phase_left (snd v)) = 2 * length (new_visits g p)"
    by (simp add: new_visits_def Let_def comp_def sum_list_triv)
  with add sum_list_upd_nat [OF add(1), of "\<lambda>v. phase_left (snd v)" "(p, Added)"] show ?thesis
    by (auto simp: tr_left_def)
qed

lemma tr_run_length:
  "run_events (inorder g) ks s = Some s' \<Longrightarrow> tr_good g st s \<Longrightarrow>
   length ks + tr_left s' + 2 * length (visits s) \<le> tr_left s + 2 * length (visits s')"
proof (induction ks arbitrary: s)
  case (Cons k ks)
  then obtain s1 where s1: "inorder g k s = Some s1" and run: "run_events (inorder g) ks s1 = Some s'"
    by (auto split: option.splits)
  have "tr_good g st s1" using tr.step_inv [OF Cons.prems(2)] s1 by (blast intro: step_of.event)
  with Cons.IH [OF run] inorder_left [OF s1] Cons.prems(2) show ?case
    by (fastforce simp: tr_good_def)
qed simp

lemma visits_length:
  assumes "tr_inv g st s" and "dag_ok g" and "st < length (vertices g)"
  shows "int (length (visits s)) \<le> out_degree (vertices g ! st) + num_edges g"
proof -
  have out: "out_degree (vertices g ! p) = int (length (succs g p))" if "p < length (vertices g)" for p
    using assms(2) that by (auto simp: dag_ok_def succs_def)
  have "mset (map fst (visits s)) = mset (succs g st @ concat (map (\<lambda>i. succs g (nat i)) (printed s)))"
    using assms(1) by (simp add: tr_inv_def)
  from mset_eq_length [OF this] have len: "length (visits s) = length (succs g st) + (\<Sum>i\<leftarrow>printed s. length (succs g (nat i)))"
    by (simp add: length_concat comp_def)
  have "(\<Sum>i\<leftarrow>printed s. length (succs g (nat i))) = (\<Sum>i\<in>set (printed s). length (succs g (nat i)))"
    using assms by (simp add: tr_inv_def sum_list_distinct_conv_sum_set)
  also have "\<dots> = (\<Sum>k\<in>nat ` set (printed s). length (succs g k))"
    using assms by (subst sum.reindex) (auto simp: tr_inv_def inj_on_def eq_nat_nat_iff)
  also have "\<dots> \<le> (\<Sum>k<length (vertices g). length (succs g k))"
    using assms by (intro sum_mono2) (auto simp: tr_inv_def)
  finally have "int (length (visits s)) \<le> int (length (succs g st) + (\<Sum>k<length (vertices g). length (succs g k)))"
    unfolding len of_nat_le_iff by simp
  also have "\<dots> = int (length (succs g st)) + (\<Sum>k<length (vertices g). int (length (succs g k)))"
    unfolding of_nat_add of_nat_sum ..
  also have "(\<Sum>k<length (vertices g). int (length (succs g k))) = (\<Sum>k<length (vertices g). out_degree (vertices g ! k))"
    by (rule sum.cong) (simp_all add: out)
  also have "\<dots> = num_edges g"
    using assms(2) by (simp add: dag_ok_def sum_list_sum_nth atLeast0LessThan)
  finally show ?thesis by (simp add: out [OF assms(3)])
qed

text \<open>When no visit can go on, all of them are over, and what was printed is closed under the edges.\<close>

lemma stuck_visits_over:
  assumes "\<forall>k. inorder g k s = None" and good: "tr_good g st s" and "v \<in> set (visits s)"
  shows "snd v = Added \<or> snd v = Skipped"
proof -
  obtain k where k: "k < length (visits s)" "visits s ! k = v" using assms(3) by (meson in_set_conv_nth)
  obtain p ph where v: "v = (p, ph)" by (cases v)
  have "p \<in> set (map fst (visits s))" using assms(3) v by force
  with good have "p < length (vertices g)" "length (color_map s) = length (vertices g)"
    by (auto simp: tr_good_def tr_inv_def)
  moreover from this have "ident (vertices g ! p) = int p" using good by (simp add: tr_good_def numbered_def)
  moreover have "inorder g k s = None" using assms(1) by blast
  ultimately show ?thesis
    using k v by (auto simp: inorder_def Let_def pf_defs split: visit_phase.splits)
qed

lemma stuck_printed:
  assumes stuck: "\<forall>k. inorder g k s = None" and good: "tr_good g st s"
  shows "int ` ((arcs g)\<^sup>+ `` {st}) \<subseteq> set (printed s)"
proof -
  have I: "tr_inv g st s" using good by (simp add: tr_good_def)
  have vis: "int p \<in> set (printed s)" if "p \<in> set (map fst (visits s))" for p
  proof -
    from that obtain ph where ph: "(p, ph) \<in> set (visits s)" by auto
    from stuck_visits_over [OF stuck good ph] ph have "0 < additions s p"
      using I by (auto simp: tr_inv_def additions_def)
    with that I show ?thesis by (auto simp: tr_inv_def)
  qed
  have "set (map fst (visits s)) = set (succs g st @ concat (map (\<lambda>i. succs g (nat i)) (printed s)))"
    using I unfolding tr_inv_def by (metis set_mset_mset)
  note all = this
  from all have from_st: "q \<in> set (map fst (visits s))" if "q \<in> set (succs g st)" for q
    using that by auto
  have from_p: "q \<in> set (map fst (visits s))" if "int p \<in> set (printed s)" "q \<in> set (succs g p)" for p q
    using that unfolding all by force
  have "int q \<in> set (printed s)" if "(st, q) \<in> (arcs g)\<^sup>+" for q
    using that
  proof (induction rule: trancl_induct)
    case (base q)
    then show ?case by (auto simp: arcs_def intro: vis from_st)
  next
    case (step p q)
    then show ?case by (auto simp: arcs_def intro: vis from_p)
  qed
  then show ?thesis by auto
qed

section \<open>A vertex with 257 visits\<close>

lemma run_append:
  "run_events f es s = Some t \<Longrightarrow> run_events f (es @ es') s = run_events f es' t"
  by (induction es arbitrary: s) (auto split: option.splits)

text \<open>The file: \<open>0; 1;\<close> and \<open>n\<close> times \<open>0 -> 1;\<close>.\<close>

definition crowd :: "nat \<Rightarrow> dot_command list" where
  "crowd n = [Vertex 0, Vertex 1] @ replicate n (Edge 0 1 None)"

lemma crowd_graph:
  assumes "read_dot (crowd n) empty_dag = Some g"
  shows "numbered g" "length (vertices g) = 2" "num_vertices g = 2" "succs g 0 = replicate n 1" "succs g 1 = []"
    "get_vertex 0 g = Some 0"
proof -
  obtain g' where "read_dot (crowd n) empty_dag = Some g'" "dag_ok g'" using read_dot_ok [OF empty_dag_ok] by blast
  with assms have ok: "dag_ok g" by simp
  have "declared (replicate n (Edge 0 1 None)) = []" by (induction n) auto
  then have dec: "declared (crowd n) = [0, 1]" by (simp add: crowd_def)
  have "accepted [0, 1] (replicate n (Edge 0 1 None)) = replicate n (0, 1, 0)" by (induction n) auto
  then have acc: "accepted [] (crowd n) = replicate n (0, 1, 0)" by (simp add: crowd_def)
  have "idents empty_dag = []" by (simp add: idents_def empty_dag_def)
  with read_dot_edges [OF empty_dag_ok assms] have ids: "idents g = [0, 1]"
    and es: "\<forall>p<2. edges_of g p = (if first_of_its_name [0, 1] p then edges_from ([0, 1] ! p) (replicate n (0, 1, 0)) else [])"
    by (simp_all add: dec acc numeral_2_eq_2)
  show len: "length (vertices g) = 2" using arg_cong [OF ids, of length] by (simp add: idents_def)
  then show "num_vertices g = 2" using ok by (simp add: dag_ok_def)
  have id: "ident (vertices g ! p) = [0, 1] ! p" if "p < 2" for p
    using arg_cong [OF ids, of "\<lambda>is. is ! p"] that len by (simp add: idents_def)
  then show "numbered g" by (auto simp: numbered_def len less_2_cases_iff)
  show "get_vertex 0 g = Some 0" by (simp add: get_vertex_idents ids first_of_its_name_def)
  have E: "edges_of g 0 = replicate n (1, 0)" "edges_of g 1 = []"
    using es [rule_format, of 0] es [rule_format, of 1]
    by (simp_all add: first_of_its_name_def edges_from_def filter_replicate)
  show "succs g 1 = []" using E(2) by (simp add: edges_of_def succs_def)
  have "length (succs g 0) = n" using arg_cong [OF E(1), of length] by (simp add: edges_of_def succs_def)
  moreover have "d = 1" if "d \<in> set (succs g 0)" for d
  proof -
    from that obtain w where w: "(d, w) \<in> set (edges (vertices g ! 0))" by (auto simp: succs_def)
    then have "(idents g ! d, w) \<in> set (edges_of g 0)" by (force simp: edges_of_def)
    then have "idents g ! d = 1" unfolding E by auto
    moreover have "d < 2" using succs_within [OF ok _ that] len by simp
    ultimately show ?thesis by (auto simp: ids less_2_cases_iff)
  qed
  ultimately show "succs g 0 = replicate n 1" by (metis replicate_eqI)
qed

lemma all_test:
  assumes "ident (vertices g ! p) = 0 \<or> ident (vertices g ! p) = 1" and "visits s = replicate n (p, Test)"
    "color_map s = [0, 0]" and "k \<le> n"
  shows "run_events (inorder g) [0..<k] s = Some (s\<lparr>visits := replicate k (p, Add) @ replicate (n - k) (p, Test)\<rparr>)"
  using assms(4)
proof (induction k)
  case 0
  then show ?case using assms by simp
next
  case (Suc k)
  have "(replicate k (p, Add) @ replicate (n - k) (p, Test))[k := (p, Add)] =
    replicate (Suc k) (p, Add) @ replicate (n - Suc k) (p, Test)"
    using Suc.prems by (auto intro!: nth_equalityI simp: nth_append nth_list_update nth_Cons')
  with Suc assms show ?case
    by (auto simp: run_append inorder_def Let_def nth_append)
qed

lemma all_add:
  assumes "ident (vertices g ! 1) = 1" "succs g 1 = []" and "visits s = replicate n (1, Add)"
    "color_map s = [0, 0]" "printed s = []" and "k \<le> n" and "k \<le> 256"
  shows "run_events (inorder g) [0..<k] s =
    Some (s\<lparr>color_map := [0, of_nat k], visits := replicate k (1, Added) @ replicate (n - k) (1, Add),
            printed := if k = 0 then [] else [1]\<rparr>)"
  using assms(6,7)
proof (induction k)
  case 0
  then show ?case using assms by simp
next
  case (Suc k)
  have "(replicate k (1, Added) @ replicate (n - k) (1, Add))[k := (1, Added)] =
    replicate (Suc k) (1::nat, Added) @ replicate (n - Suc k) (1, Add)"
    using Suc.prems by (auto intro!: nth_equalityI simp: nth_append nth_list_update nth_Cons')
  moreover have "(of_nat k :: 8 word) = 0 \<longleftrightarrow> k = 0" using Suc.prems by (simp add: of_nat8_0)
  moreover have "new_visits g 1 = []" using new_visits_fst [of g 1] assms(2) by simp
  ultimately show ?case using Suc assms
    by (auto simp: run_append inorder_def Let_def nth_append pf_defs add.commute)
qed

section \<open>Properties\<close>


definition triangle :: dag where
  "triangle = \<lparr>vertices = [\<lparr>ident = 0, in_degree = 1, out_degree = 1, edges = [(1, 0)]\<rparr>,
                 \<lparr>ident = 1, in_degree = 1, out_degree = 1, edges = [(2, 0)]\<rparr>,
                 \<lparr>ident = 2, in_degree = 1, out_degree = 1, edges = [(0, 0)]\<rparr>],
               num_vertices = 3, num_edges = 3\<rparr>"


text \<open>
  The colour of a vertex is a \<open>char\<close> that every visitor increments, so it is \<open>WHITE\<close> again
  after 256 of them: a vertex with 257 edges into it can be expanded twice, if all its visitors
  test the colour before the first of them changes it.
\<close>

theorem crowded_vertex_expanded_twice:
  "\<exists>g s ks t. read_dot (crowd 257) empty_dag = Some g \<and> numbered g \<and> start_traversal 0 g = Some s \<and>
     run_events (inorder g) ks s = Some t \<and> printed t = [1, 1]"
proof -
  obtain g where g: "read_dot (crowd 257) empty_dag = Some g" using read_dot_ok [OF empty_dag_ok] by blast
  note G = crowd_graph [OF g]
  have id: "ident (vertices g ! 1) = 1" using G(1,2) by (simp add: numbered_def)
  have new: "map fst (new_visits g 0) = replicate 257 1" using G(4) by (simp add: new_visits_fst)
  have "new_visits g 0 = replicate 257 (1, Test)"
  proof (rule replicate_eqI)
    show "length (new_visits g 0) = 257" using arg_cong [OF new, of length] by simp
    show "v = (1, Test)" if "v \<in> set (new_visits g 0)" for v
    proof -
      from that have "fst v \<in> set (map fst (new_visits g 0))" by simp
      with new new_visits_Test [OF that] show ?thesis by (cases v) simp
    qed
  qed
  then have s: "start_traversal 0 g = Some \<lparr>color_map = [0, 0], visits = replicate 257 (1, Test), printed = []\<rparr>"
    using G by (simp add: start_traversal_def numeral_2_eq_2)
  let ?s0 = "\<lparr>color_map = [0, 0], visits = replicate 257 (1, Test), printed = []\<rparr>"
  let ?s1 = "?s0\<lparr>visits := replicate 257 (1, Add)\<rparr>"
  have r1: "run_events (inorder g) [0..<257] ?s0 = Some ?s1"
    using all_test [of g 1 ?s0 257 257] id by simp
  let ?s2 = "?s1\<lparr>color_map := [0, 0], visits := replicate 256 (1, Added) @ [(1, Add)], printed := [1]\<rparr>"
  have zero: "(of_nat 256 :: 8 word) = 0" by simp
  have r2: "run_events (inorder g) [0..<256] ?s1 = Some ?s2"
    using all_add [of g ?s1 257 256] id G(5) zero by simp
  have "printed t = [1, 1]" if "run_events (inorder g) [256] ?s2 = Some t" for t
    using that id by (auto simp: inorder_def Let_def nth_append pf_defs)
  moreover have "\<exists>t. run_events (inorder g) [256] ?s2 = Some t"
    using id by (auto simp: inorder_def Let_def nth_append pf_defs)
  ultimately obtain t where t: "run_events (inorder g) [256] ?s2 = Some t" "printed t = [1, 1]" by blast
  have "run_events (inorder g) ([0..<257] @ [0..<256] @ [256]) ?s0 = Some t"
    unfolding run_append [OF r1] run_append [OF r2] by (rule t(1))
  with g G(1) s t(2) show ?thesis by blast
qed

end
