(* ===== verification/Locked_Queues.thy ===== *)
theory Locked_Queues
  imports Mutex Task_Queues
begin

text \<open>
  The task queues under their locks. \<open>test_and_get\<close> and \<open>put\<close> of \<^verbatim>\<open>pfunc/fifo.hpp\<close>,
  \<^verbatim>\<open>lifo.hpp\<close>, \<^verbatim>\<open>cilk.hpp\<close> and \<^verbatim>\<open>prio.hpp\<close> take the lock of one queue, read the queue,
  write it and give the lock back; \<open>get\<close> does so for one queue after the other, and between
  two of them other threads may do anything. The locks are the futex mutexes of \<open>Mutex\<close>, one
  per queue, instruction by instruction; reading and writing a queue are separate steps. The
  machine refines one in which each critical section is a single step, and never blocks.
\<close>

section \<open>Critical sections\<close>

text \<open>
  A test by \<open>get\<close>: the thread's own queue, the predicates, the attempts left after this one
  and the counter; a push by \<open>put\<close>.
\<close>

datatype 'v crit_section = Test_get u32 "'v pred_pair" nat u32 | Push u32 'v

fun section_queue :: "u32 \<Rightarrow> 'v crit_section \<Rightarrow> u32" where
  "section_queue n (Test_get q cnd k i) = i mod n"
| "section_queue n (Push i v) = i"

fun section_body ::
  "('v \<Rightarrow> 'v \<Rightarrow> bool) \<Rightarrow> policy \<Rightarrow> 'v crit_section \<Rightarrow> 'v queue_set \<Rightarrow> ('v option \<times> 'v queue_set) option" where
  "section_body cmp pol (Test_get q cnd k i) s =
     queue_attempt cmp pol q cnd i s"
| "section_body cmp pol (Push i v) s = map_option (Pair None) (queue_put pol i v s)"

text \<open>What follows a critical section: the next attempt of \<open>get\<close>, or the end of the call.\<close>

fun next_section :: "'v crit_section \<Rightarrow> 'v option \<Rightarrow> 'v crit_section option" where
  "next_section (Test_get q cnd (Suc k) i) None = Some (Test_get q cnd k (i + 1))"
| "next_section sec r = None"

definition first_section :: "u32 \<Rightarrow> 'v pred_pair \<Rightarrow> 'v queue_set \<Rightarrow> 'v crit_section option" where
  "first_section q cnd s =
     (case attempts (num_queues s) of 0 \<Rightarrow> None | Suc k \<Rightarrow> Some (Test_get q cnd k q))"

section \<open>The machine\<close>

text \<open>
  Where a thread is: outside of the queues, on its way into a critical section, inside with
  the queue that it has read, on its way out with the task it has got.
\<close>

datatype 'v stage =
    Idle
  | Entering "'v crit_section"
  | Inside "'v crit_section" "'v list"
  | Leaving "'v crit_section" "'v option"

text \<open>The tasks put and got so far are ghosts.\<close>

record 'v lq =
  qset :: "'v queue_set"
  stages :: "tid \<Rightarrow> 'v stage"
  given :: "'v multiset"
  taken :: "'v multiset"
  lock_of :: "u32 \<Rightarrow> mutex"

definition lq_start :: "u32 \<Rightarrow> 'v lq" where
  "lq_start n = \<lparr>qset = queue_set_make n, stages = (\<lambda>_. Idle), given = {#}, taken = {#},
     lock_of = (\<lambda>_. mutex_start)\<rparr>"

definition to_stage :: "tid \<Rightarrow> 'v stage \<Rightarrow> 'v lq \<Rightarrow> 'v lq" where
  "to_stage t st s = s\<lparr>stages := (stages s)(t := st)\<rparr>"

definition begin_section :: "'v crit_section option \<Rightarrow> 'v stage" where
  "begin_section sec = (case sec of None \<Rightarrow> Idle | Some x \<Rightarrow> Entering x)"

datatype 'v lq_action =
    CallGet tid u32 "'v pred_pair"
  | CallPut tid u32 'v
  | LockAction u32 mutex_action
  | ReadQueue tid
  | WriteQueue tid
  | NextSection tid

text \<open>Which calls of \<open>lock\<close> and \<open>unlock\<close> the code makes.\<close>

definition lock_called :: "u32 \<Rightarrow> mutex_action \<Rightarrow> 'v lq \<Rightarrow> bool" where
  "lock_called i a s =
     (case a of
        CallLock t \<Rightarrow>
          (case stages s t of Entering sec \<Rightarrow> section_queue (num_queues (qset s)) sec = i | _ \<Rightarrow> False)
      | CallUnlock t \<Rightarrow>
          (case stages s t of Leaving sec r \<Rightarrow> section_queue (num_queues (qset s)) sec = i | _ \<Rightarrow> False)
      | _ \<Rightarrow> True)"

definition section_pc :: "tid \<Rightarrow> 'v crit_section \<Rightarrow> 'v lq \<Rightarrow> mutex_pc" where
  "section_pc t sec s = pcs (lock_of s (section_queue (num_queues (qset s)) sec)) t"

definition count_section :: "'v crit_section \<Rightarrow> 'v option \<Rightarrow> 'v lq \<Rightarrow> 'v lq" where
  "count_section sec r s =
     s\<lparr>given := (case sec of Push i v \<Rightarrow> add_mset v (given s) | _ \<Rightarrow> given s),
       taken := (case r of Some v \<Rightarrow> add_mset v (taken s) | None \<Rightarrow> taken s)\<rparr>"

fun lq_event ::
  "('v \<Rightarrow> 'v \<Rightarrow> bool) \<Rightarrow> policy \<Rightarrow> 'v lq_action \<Rightarrow> 'v lq \<Rightarrow> 'v lq option" where
  "lq_event cmp pol (CallGet t q cnd) s =
     (case stages s t of
        Idle \<Rightarrow> if unat q < unat (num_queues (qset s))
                then Some (to_stage t (begin_section (first_section q cnd (qset s))) s) else None
      | _ \<Rightarrow> None)"
| "lq_event cmp pol (CallPut t i v) s =
     (case stages s t of
        Idle \<Rightarrow> if unat i < unat (num_queues (qset s)) then Some (to_stage t (Entering (Push i v)) s) else None
      | _ \<Rightarrow> None)"
| "lq_event cmp pol (LockAction i a) s =
     (if lock_called i a s
      then map_option (\<lambda>m. s\<lparr>lock_of := (lock_of s)(i := m)\<rparr>)
             (mutex_event pfunc_compare_and_swap_32 a (lock_of s i))
      else None)"
| "lq_event cmp pol (ReadQueue t) s =
     (case stages s t of
        Entering sec \<Rightarrow>
          if section_pc t sec s = Holding
          then map_option (\<lambda>q. to_stage t (Inside sec q) s)
                 (get_queue (section_queue (num_queues (qset s)) sec) (qset s))
          else None
      | _ \<Rightarrow> None)"
| "lq_event cmp pol (WriteQueue t) s =
     (case stages s t of
        Inside sec q \<Rightarrow>
          (case section_body cmp pol sec (set_queue (section_queue (num_queues (qset s)) sec) q (qset s)) of
             None \<Rightarrow> None
           | Some (r, qs) \<Rightarrow> Some (to_stage t (Leaving sec r) (count_section sec r (s\<lparr>qset := qs\<rparr>))))
      | _ \<Rightarrow> None)"
| "lq_event cmp pol (NextSection t) s =
     (case stages s t of
        Leaving sec r \<Rightarrow>
          if section_pc t sec s = Outside then Some (to_stage t (begin_section (next_section sec r)) s) else None
      | _ \<Rightarrow> None)"

section \<open>Sections in one step\<close>

text \<open>The machine that the users of the queues may think of; it has no locks.\<close>

record 'v aq =
  aset :: "'v queue_set"
  astages :: "tid \<Rightarrow> 'v stage"
  agiven :: "'v multiset"
  ataken :: "'v multiset"

inductive atomic_step :: "('v \<Rightarrow> 'v \<Rightarrow> bool) \<Rightarrow> policy \<Rightarrow> 'v aq \<Rightarrow> 'v aq \<Rightarrow> bool" for cmp pol where
  start_get: "astages a t = Idle \<Longrightarrow> unat q < unat (num_queues (aset a)) \<Longrightarrow>
    atomic_step cmp pol a (a\<lparr>astages := (astages a)(t := begin_section (first_section q cnd (aset a)))\<rparr>)"
| start_put: "astages a t = Idle \<Longrightarrow> unat i < unat (num_queues (aset a)) \<Longrightarrow>
    atomic_step cmp pol a (a\<lparr>astages := (astages a)(t := Entering (Push i v))\<rparr>)"
| atomic_section: "astages a t = Entering sec \<Longrightarrow> section_body cmp pol sec (aset a) = Some (r, qs) \<Longrightarrow>
    atomic_step cmp pol a
      \<lparr>aset = qs, astages = (astages a)(t := Leaving sec r),
       agiven = (case sec of Push i v \<Rightarrow> add_mset v (agiven a) | _ \<Rightarrow> agiven a),
       ataken = (case r of Some v \<Rightarrow> add_mset v (ataken a) | None \<Rightarrow> ataken a)\<rparr>"
| continue: "astages a t = Leaving sec r \<Longrightarrow>
    atomic_step cmp pol a (a\<lparr>astages := (astages a)(t := begin_section (next_section sec r))\<rparr>)"

fun abs_stage :: "'v stage \<Rightarrow> 'v stage" where
  "abs_stage (Inside sec q) = Entering sec"
| "abs_stage st = st"

definition lq_abs :: "'v lq \<Rightarrow> 'v aq" where
  "lq_abs s = \<lparr>aset = qset s, astages = (\<lambda>t. abs_stage (stages s t)), agiven = given s, ataken = taken s\<rparr>"

section \<open>What a section does\<close>

lemma get_queue_set: "i \<noteq> j \<Longrightarrow> get_queue j (set_queue i q s) = get_queue j s"
  by (simp add: get_queue_def set_queue_def nth_list_update word_unat_eq_iff)

lemma set_queue_read: "get_queue i s = Some q \<Longrightarrow> set_queue i q s = s"
  by (auto simp: get_queue_def set_queue_def split: if_splits)

lemma queue_put_local:
  "queue_put pol i v s = Some s' \<Longrightarrow> j \<noteq> i \<Longrightarrow> get_queue j s' = get_queue j s"
  by (cases pol) (auto simp: queue_put_def fifo_put_def lifo_put_def cilk_put_def prio_put_def get_queue_set)

definition section_ok :: "u32 \<Rightarrow> 'v crit_section \<Rightarrow> bool" where
  "section_ok n sec \<longleftrightarrow> unat (section_queue n sec) < unat n"

definition pushed :: "'v crit_section \<Rightarrow> 'v multiset" where
  "pushed sec = (case sec of Push i v \<Rightarrow> {#v#} | _ \<Rightarrow> {#})"

definition popped :: "'v option \<Rightarrow> 'v multiset" where
  "popped r = (case r of Some v \<Rightarrow> {#v#} | None \<Rightarrow> {#})"

lemma body_facts:
  assumes ok: "queues_ok s" and sec: "section_ok (num_queues s) sec"
  shows "\<exists>r s'. section_body cmp pol sec s = Some (r, s') \<and> queues_ok s' \<and> num_queues s' = num_queues s \<and>
     (\<forall>j. j \<noteq> section_queue (num_queues s) sec \<longrightarrow> get_queue j s' = get_queue j s) \<and>
     content s + pushed sec = content s' + popped r"
proof (cases sec)
  case (Push i v)
  with sec have i: "unat i < unat (num_queues s)" by (simp add: section_ok_def)
  from tq.put_ok [OF ok i, of pol v] obtain s' where "queue_put pol i v s = Some s'" "queues_ok s'"
    "num_queues s' = num_queues s" "content s' = add_mset v (content s)" by blast
  with queue_put_local [of pol i v s s'] Push show ?thesis by (simp add: pushed_def popped_def)
next
  case (Test_get q cnd k i)
  let ?i = "i mod num_queues s"
  have i: "unat ?i < length (queues s)" using sec Test_get ok by (simp add: section_ok_def queues_ok_def)
  show ?thesis
  proof (cases "\<exists>v rest. policy_pop cmp pol (?i = q) (queues s ! unat ?i) = Some (v, rest) \<and> may_take cnd (?i = q) v")
    case True
    then obtain v rest where v: "policy_pop cmp pol (?i = q) (queues s ! unat ?i) = Some (v, rest)"
      "may_take cnd (?i = q) v" by blast
    from content_set_queue [OF i, of rest] policy_pop_mset [OF v(1)]
    have "content s = add_mset v (content (set_queue ?i rest s))" by simp
    moreover have "section_body cmp pol sec s = Some (Some v, set_queue ?i rest s)"
      using v i Test_get by (simp add: queue_test_pop test_pop_def get_queue_def queue_attempt_def Let_def)
    ultimately show ?thesis
      using ok Test_get by (simp add: get_queue_set pushed_def popped_def)
  next
    case False
    with i ok Test_get show ?thesis
      by (auto simp: queue_test_pop test_pop_def get_queue_def pushed_def popped_def queue_attempt_def Let_def split: option.splits)
  qed
qed

section \<open>Where the locks are held\<close>

fun lock_pc :: "mutex_pc \<Rightarrow> bool" where
  "lock_pc LockFast = True"
| "lock_pc LockMark = True"
| "lock_pc (LockSpin i) = True"
| "lock_pc LockSleep = True"
| "lock_pc Asleep = True"
| "lock_pc LockRetry = True"
| "lock_pc pc = False"

lemma mutex_event_pcs:
  assumes "mutex_inv m" and "mutex_event cas a m = Some m'"
  shows "pcs m' t = pcs m t \<or>
    (a = CallLock t \<and> pcs m t = Outside \<and> pcs m' t = LockFast) \<or>
    (lock_pc (pcs m t) \<and> (lock_pc (pcs m' t) \<or> pcs m' t = Holding)) \<or>
    (a = CallUnlock t \<and> pcs m t = Holding \<and> pcs m' t = Unlocking) \<or>
    (pcs m t \<in> {Unlocking, UnlockWake} \<and> pcs m' t \<in> {UnlockWake, Outside})"
proof (cases a)
  case (LockStep u)
  with assms(2) obtain pc v q where st: "mutex_lock_step cas u (val m) (waitq m) (pcs m u) = Some (pc, v, q)"
    and m': "m' = goto_pc u pc v q m" by (auto split: option.splits)
  from st have "lock_pc (pcs m u) \<and> (lock_pc pc \<or> pc = Holding)"
    by (rule mutex_lock_stepE) (auto split: prod.splits if_splits)
  with m' show ?thesis by auto
next
  case (WakeUp u ws)
  with assms(2) obtain q where w: "pcs m u = UnlockWake" "futex_wake (waitq m) (unat PFUNC_MUTEX_LOCKED) ws = Some q"
    and m': "m' = m\<lparr>waitq := q, pcs := (\<lambda>v. if v \<in> set ws then LockRetry else if v = u then Outside else pcs m v)\<rparr>"
    by (auto split: if_splits option.splits)
  have "v \<in> set ws \<Longrightarrow> pcs m v = Asleep" for v
    using assms(1) futex_wake_SomeD(2) [OF w(2)] by (auto simp: mutex_inv_def sleep_inv_def)
  with m' w(1) show ?thesis by auto
qed (use assms(2) in \<open>auto simp: mutex_unlock_step_def split: if_splits prod.splits\<close>)

text \<open>Where a thread may be in the code of a mutex, with its section under that mutex or elsewhere.\<close>

fun stage_pc :: "u32 \<Rightarrow> 'v stage \<Rightarrow> u32 \<Rightarrow> mutex_pc \<Rightarrow> bool" where
  "stage_pc n Idle i pc \<longleftrightarrow> pc = Outside"
| "stage_pc n (Entering sec) i pc \<longleftrightarrow>
     pc = Outside \<or> (section_queue n sec = i \<and> (lock_pc pc \<or> pc = Holding))"
| "stage_pc n (Inside sec q) i pc \<longleftrightarrow> (if section_queue n sec = i then pc = Holding else pc = Outside)"
| "stage_pc n (Leaving sec r) i pc \<longleftrightarrow>
     pc = Outside \<or> (section_queue n sec = i \<and> pc \<in> {Holding, Unlocking, UnlockWake})"

fun stage_section :: "'v stage \<Rightarrow> 'v crit_section option" where
  "stage_section Idle = None"
| "stage_section (Entering sec) = Some sec"
| "stage_section (Inside sec q) = Some sec"
| "stage_section (Leaving sec r) = Some sec"

definition lq_inv :: "'v lq \<Rightarrow> bool" where
  "lq_inv s \<longleftrightarrow> queues_ok (qset s) \<and> (\<forall>i. mutex_inv (lock_of s i)) \<and>
     (\<forall>t i. stage_pc (num_queues (qset s)) (stages s t) i (pcs (lock_of s i) t)) \<and>
     (\<forall>t sec. stage_section (stages s t) = Some sec \<longrightarrow> section_ok (num_queues (qset s)) sec) \<and>
     (\<forall>t sec q. stages s t = Inside sec q \<longrightarrow>
        get_queue (section_queue (num_queues (qset s)) sec) (qset s) = Some q) \<and>
     given s = taken s + content (qset s)"

lemma lq_start_inv: "n \<noteq> 0 \<Longrightarrow> unat n < 2 ^ 31 \<Longrightarrow> lq_inv (lq_start n)"
  by (simp add: lq_inv_def lq_start_def queues_ok_make mutex_inv_start) (simp add: mutex_start_def)

lemma to_stage_sel [simp]:
  "qset (to_stage t st s) = qset s" "stages (to_stage t st s) = (stages s)(t := st)"
  "given (to_stage t st s) = given s" "taken (to_stage t st s) = taken s" "lock_of (to_stage t st s) = lock_of s"
  by (simp_all add: to_stage_def)

text \<open>A step that only moves a thread between stages.\<close>

lemma lq_move:
  assumes inv: "lq_inv s"
    and "\<And>i. stage_pc (num_queues (qset s)) st i (pcs (lock_of s i) t)"
    and "\<And>sec. stage_section st = Some sec \<Longrightarrow> section_ok (num_queues (qset s)) sec"
    and "\<And>sec q. st = Inside sec q \<Longrightarrow> get_queue (section_queue (num_queues (qset s)) sec) (qset s) = Some q"
  shows "lq_inv (to_stage t st s)"
  using assms unfolding lq_inv_def by simp

lemma section_ok_test: "queues_ok s \<Longrightarrow> section_ok (num_queues s) (Test_get q cnd k i)"
  using real_i_in_range [of s i] by (simp add: section_ok_def queues_ok_def)

lemma first_section_ok: "queues_ok s \<Longrightarrow> first_section q cnd s = Some sec \<Longrightarrow> section_ok (num_queues s) sec"
  by (auto simp: first_section_def section_ok_test split: nat.splits)

lemma next_section_ok: "queues_ok s \<Longrightarrow> next_section sec r = Some sec' \<Longrightarrow> section_ok (num_queues s) sec'"
  by (cases "(sec, r)" rule: next_section.cases) (auto simp: section_ok_test)

lemma begin_section_simps [simp]:
  "stage_section (begin_section x) = x"
  "stage_pc n (begin_section x) i Outside"
  "begin_section x \<noteq> Inside sec q" "abs_stage (begin_section x) = begin_section x"
  by (auto simp: begin_section_def split: option.splits)

lemma lq_stage_pc: "lq_inv s \<Longrightarrow> stage_pc (num_queues (qset s)) (stages s t) i (pcs (lock_of s i) t)"
  by (simp add: lq_inv_def)

lemma lq_idle_pc: "lq_inv s \<Longrightarrow> stages s t = Idle \<Longrightarrow> pcs (lock_of s i) t = Outside"
  using lq_stage_pc [of s t i] by simp

lemma lq_section_ok: "lq_inv s \<Longrightarrow> stage_section (stages s t) = Some sec \<Longrightarrow> section_ok (num_queues (qset s)) sec"
  by (simp add: lq_inv_def)

lemma lock_action_inv:
  assumes inv: "lq_inv s" and called: "lock_called i a s"
    and ev: "mutex_event pfunc_compare_and_swap_32 a (lock_of s i) = Some m"
  shows "lq_inv (s\<lparr>lock_of := (lock_of s)(i := m)\<rparr>)"
proof -
  have m: "mutex_inv (lock_of s i)" using inv by (simp add: lq_inv_def)
  then have "mutex_inv m" by (rule x86.mutex_event_inv [OF _ ev])
  moreover have "stage_pc (num_queues (qset s)) (stages s t) i (pcs m t)" for t
  proof -
    note old = lq_stage_pc [OF inv, of t i]
    from mutex_event_pcs [OF m ev, of t] old called show ?thesis
      by (cases "stages s t") (auto simp: lock_called_def split: if_splits)
  qed
  ultimately show ?thesis using inv by (simp add: lq_inv_def)
qed

lemma lq_step:
  assumes inv: "lq_inv s" and ev: "lq_event cmp pol a s = Some s'"
  shows "lq_inv s' \<and> (lq_abs s' = lq_abs s \<or> atomic_step cmp pol (lq_abs s) (lq_abs s'))"
proof (cases a)
  case (CallGet t q cnd)
  with ev have st: "stages s t = Idle" and q: "unat q < unat (num_queues (qset s))"
    and s': "s' = to_stage t (begin_section (first_section q cnd (qset s))) s"
    by (auto split: stage.splits if_splits)
  note out = lq_idle_pc [OF inv st]
  have "lq_inv s'"
    unfolding s' by (rule lq_move [OF inv]) (use inv in \<open>auto simp: out lq_inv_def dest: first_section_ok\<close>)
  moreover have "lq_abs s' = (lq_abs s)\<lparr>astages := (astages (lq_abs s))(t := begin_section (first_section q cnd (aset (lq_abs s))))\<rparr>"
    by (auto simp: lq_abs_def s' fun_eq_iff)
  moreover have "astages (lq_abs s) t = Idle" "unat q < unat (num_queues (aset (lq_abs s)))"
    using st q by (simp_all add: lq_abs_def)
  ultimately show ?thesis using atomic_step.start_get [of "lq_abs s" t q cmp pol cnd] by simp
next
  case (CallPut t i v)
  with ev have st: "stages s t = Idle" and i: "unat i < unat (num_queues (qset s))"
    and s': "s' = to_stage t (Entering (Push i v)) s"
    by (auto split: stage.splits if_splits)
  note out = lq_idle_pc [OF inv st]
  have "lq_inv s'"
    unfolding s' by (rule lq_move [OF inv]) (use i in \<open>auto simp: out section_ok_def\<close>)
  moreover have "lq_abs s' = (lq_abs s)\<lparr>astages := (astages (lq_abs s))(t := Entering (Push i v))\<rparr>"
    by (auto simp: lq_abs_def s' fun_eq_iff)
  moreover have "astages (lq_abs s) t = Idle" "unat i < unat (num_queues (aset (lq_abs s)))"
    using st i by (simp_all add: lq_abs_def)
  ultimately show ?thesis using atomic_step.start_put [of "lq_abs s" t i cmp pol v] by simp
next
  case (LockAction i b)
  with ev obtain m where c: "lock_called i b s" "mutex_event pfunc_compare_and_swap_32 b (lock_of s i) = Some m"
    and s': "s' = s\<lparr>lock_of := (lock_of s)(i := m)\<rparr>" by (auto split: if_splits)
  have "lq_abs s' = lq_abs s" by (simp add: s' lq_abs_def)
  with lock_action_inv [OF inv c] show ?thesis by (simp add: s')
next
  case (ReadQueue t)
  with ev obtain sec q where st: "stages s t = Entering sec" and h: "section_pc t sec s = Holding"
    and q: "get_queue (section_queue (num_queues (qset s)) sec) (qset s) = Some q"
    and s': "s' = to_stage t (Inside sec q) s"
    by (auto split: stage.splits if_splits)
  have pc: "stage_pc (num_queues (qset s)) (Entering sec) i (pcs (lock_of s i) t)" for i
    using lq_stage_pc [OF inv, of t i] st by simp
  have "lq_inv s'"
    unfolding s'
  proof (rule lq_move [OF inv])
    fix i show "stage_pc (num_queues (qset s)) (Inside sec q) i (pcs (lock_of s i) t)"
      using pc [of i] h by (auto simp: section_pc_def)
    show "section_ok (num_queues (qset s)) sec'" if "stage_section (Inside sec q) = Some sec'" for sec'
      using that lq_section_ok [OF inv, of t sec] st by simp
  qed (use q in auto)
  moreover have "lq_abs s' = lq_abs s" using st by (auto simp: lq_abs_def s' fun_eq_iff)
  ultimately show ?thesis by simp
next
  case (NextSection t)
  with ev obtain sec r where st: "stages s t = Leaving sec r" and out: "section_pc t sec s = Outside"
    and s': "s' = to_stage t (begin_section (next_section sec r)) s"
    by (auto split: stage.splits if_splits)
  have "pcs (lock_of s i) t = Outside" for i
    using lq_stage_pc [OF inv, of t i] st out by (auto simp: section_pc_def)
  then have "lq_inv s'"
    unfolding s' by (intro lq_move [OF inv]) (use inv in \<open>auto simp: lq_inv_def dest: next_section_ok\<close>)
  moreover have "lq_abs s' = (lq_abs s)\<lparr>astages := (astages (lq_abs s))(t := begin_section (next_section sec r))\<rparr>"
    by (auto simp: lq_abs_def s' fun_eq_iff)
  moreover have "astages (lq_abs s) t = Leaving sec r" using st by (simp add: lq_abs_def)
  ultimately show ?thesis using atomic_step.continue [of "lq_abs s" t sec r cmp pol] by simp
next
  case (WriteQueue t)
  with ev obtain sec q r qs where st: "stages s t = Inside sec q"
    and body: "section_body cmp pol sec (set_queue (section_queue (num_queues (qset s)) sec) q (qset s)) = Some (r, qs)"
    and s': "s' = to_stage t (Leaving sec r) (count_section sec r (s\<lparr>qset := qs\<rparr>))"
    by (auto split: stage.splits option.splits)
  let ?n = "num_queues (qset s)" and ?i = "section_queue (num_queues (qset s)) sec"
  from inv st have read: "get_queue ?i (qset s) = Some q" and ok: "queues_ok (qset s)" by (auto simp: lq_inv_def)
  have sec: "section_ok ?n sec" using lq_section_ok [OF inv, of t sec] st by simp
  have body: "section_body cmp pol sec (qset s) = Some (r, qs)"
    using body unfolding set_queue_read [OF read] .
  from body_facts [OF ok sec, of cmp pol] body
  have qs: "queues_ok qs" "num_queues qs = ?n" "\<And>j. j \<noteq> ?i \<Longrightarrow> get_queue j qs = get_queue j (qset s)"
    and cont: "content (qset s) + pushed sec = content qs + popped r" by auto
  note pc = lq_stage_pc [OF inv]
  have mine: "pcs (lock_of s ?i) t = Holding" using pc [of t ?i] st by simp
  have sel: "qset s' = qs" "stages s' = (stages s)(t := Leaving sec r)" "lock_of s' = lock_of s"
    "given s' = given s + pushed sec" "taken s' = taken s + popped r"
    by (auto simp: s' count_section_def pushed_def popped_def split: crit_section.splits option.splits)
  have other: "get_queue (section_queue ?n sec') qs = Some q'" if "stages s u = Inside sec' q'" "u \<noteq> t" for u sec' q'
  proof -
    have "section_queue ?n sec' \<noteq> ?i"
    proof
      assume eq: "section_queue ?n sec' = ?i"
      with pc [of u ?i] that(1) have "pcs (lock_of s ?i) u = Holding" by simp
      moreover have "mutex_inv (lock_of s ?i)" using inv by (simp add: lq_inv_def)
      ultimately have "u = t" using mine inv_one_holder [of "lock_of s ?i" u t] by simp
      with that(2) show False ..
    qed
    moreover have "get_queue (section_queue ?n sec') (qset s) = Some q'" using inv that(1) by (auto simp: lq_inv_def)
    ultimately show ?thesis using qs(3) by simp
  qed
  have "stage_pc ?n (Leaving sec r) i (pcs (lock_of s i) t)" for i
    using pc [of t i] st by (auto split: if_splits)
  with inv st qs other sec have "lq_inv s'"
    unfolding lq_inv_def sel qs(2) using cont
    by (auto simp: ac_simps split: if_splits) (metis union_assoc union_commute)?
  moreover have "lq_abs s' = \<lparr>aset = qs, astages = (astages (lq_abs s))(t := Leaving sec r),
       agiven = (case sec of Push i v \<Rightarrow> add_mset v (agiven (lq_abs s)) | _ \<Rightarrow> agiven (lq_abs s)),
       ataken = (case r of Some v \<Rightarrow> add_mset v (ataken (lq_abs s)) | None \<Rightarrow> ataken (lq_abs s))\<rparr>"
    by (auto simp: lq_abs_def sel pushed_def popped_def fun_eq_iff split: crit_section.splits option.splits)
  moreover have "astages (lq_abs s) t = Entering sec" using st by (simp add: lq_abs_def)
  ultimately show ?thesis
    using atomic_step.atomic_section [of "lq_abs s" t sec cmp pol r qs] body by (simp add: lq_abs_def)
qed

interpretation lq: simulation "\<lambda>s. \<exists>n. n \<noteq> 0 \<and> unat n < 2 ^ 31 \<and> s = lq_start n"
  "step_of (lq_event cmp pol)" lq_inv "atomic_step cmp pol" lq_abs
  for cmp :: "'v \<Rightarrow> 'v \<Rightarrow> bool" and pol
  by unfold_locales (auto simp: lq_start_inv elim!: step_ofE dest: lq_step)

section \<open>Nobody blocks for ever\<close>

text \<open>Steps that a waiting thread must not count on: new calls, and sleepers that wake up by themselves.\<close>

fun new_call :: "'v lq_action \<Rightarrow> bool" where
  "new_call (CallGet t q cnd) = True"
| "new_call (CallPut t i v) = True"
| "new_call (LockAction i (Interrupt t)) = True"
| "new_call a = False"

lemma awake_acts:
  assumes "mutex_inv m" and "awake (pcs m u) \<or> pcs m u = LockFast"
  shows "\<exists>a m'. mutex_event cas a m = Some m' \<and> (\<forall>t. a \<noteq> CallLock t \<and> a \<noteq> CallUnlock t \<and> a \<noteq> Interrupt t)"
proof (cases "pcs m u = UnlockWake")
  case True
  then show ?thesis
  proof (cases "waitq m")
    case Nil
    with True show ?thesis by (intro exI [of _ "WakeUp u []"]) simp
  next
    case (Cons v q)
    with assms have "futex_wake (waitq m) 1 [v] = Some (filter (\<lambda>x. x \<noteq> v) (waitq m))"
      by (intro futex_wake_one) (auto simp: mutex_inv_def sleep_inv_def)
    with True show ?thesis by (intro exI [of _ "WakeUp u [v]"]) (simp add: mutex_consts)
  qed
next
  case False
  with assms(2) have "\<exists>m'. mutex_event cas (LockStep u) m = Some m'"
    by (intro lock_step_enabled) (cases "pcs m u"; simp)
  then show ?thesis by (intro exI [of _ "LockStep u"]) auto
qed

lemma lock_action_enabled:
  assumes "mutex_event pfunc_compare_and_swap_32 a (lock_of s i) = Some m" and "lock_called i a s"
    and "\<forall>t. a \<noteq> Interrupt t"
  shows "\<exists>b s'. lq_event cmp pol b s = Some s' \<and> \<not> new_call b"
  using assms by (intro exI [of _ "LockAction i a"]) (cases a; auto)

text \<open>A thread that holds a lock can go on.\<close>

lemma holder_goes_on:
  assumes inv: "lq_inv s" and h: "holds (pcs (lock_of s i) u)"
  shows "\<exists>b s'. lq_event cmp pol b s = Some s' \<and> \<not> new_call b"
proof -
  note pc = lq_stage_pc [OF inv, of u i]
  have ok: "queues_ok (qset s)" using inv by (simp add: lq_inv_def)
  show ?thesis
  proof (cases "pcs (lock_of s i) u = Unlocking")
    case True
    then have "\<exists>m. mutex_event pfunc_compare_and_swap_32 (UnlockStep u) (lock_of s i) = Some m"
      by (auto split: prod.splits)
    then show ?thesis using lock_action_enabled [of "UnlockStep u" s i] by (auto simp: lock_called_def)
  next
    case False
    with h have hold: "pcs (lock_of s i) u = Holding" by (cases "pcs (lock_of s i) u") auto
    show ?thesis
    proof (cases "stages s u")
      case Idle
      with pc hold show ?thesis by simp
    next
      case (Entering sec)
      with pc hold have i: "section_queue (num_queues (qset s)) sec = i" by auto
      moreover have "section_ok (num_queues (qset s)) sec" using lq_section_ok [OF inv, of u] Entering by simp
      ultimately have "get_queue i (qset s) = Some (queues (qset s) ! unat i)"
        using ok by (simp add: section_ok_def queues_ok_def get_queue_def)
      with Entering hold i show ?thesis
        by (intro exI [of _ "ReadQueue u"]) (auto simp: section_pc_def)
    next
      case (Inside sec q)
      then have read: "get_queue (section_queue (num_queues (qset s)) sec) (qset s) = Some q"
        using inv by (auto simp: lq_inv_def)
      have "section_ok (num_queues (qset s)) sec" using lq_section_ok [OF inv, of u] Inside by simp
      from body_facts [OF ok this, of cmp pol] obtain r qs
        where "section_body cmp pol sec (qset s) = Some (r, qs)" by blast
      with Inside set_queue_read [OF read] show ?thesis
        by (intro exI [of _ "WriteQueue u"]) auto
    next
      case (Leaving sec r)
      with pc hold have i: "section_queue (num_queues (qset s)) sec = i" by auto
      have "\<exists>m. mutex_event pfunc_compare_and_swap_32 (CallUnlock u) (lock_of s i) = Some m" using hold by simp
      then show ?thesis using lock_action_enabled [of "CallUnlock u" s i] Leaving i by (auto simp: lock_called_def)
    qed
  qed
qed

lemma lq_progress:
  assumes inv: "lq_inv s" and t: "stages s t \<noteq> Idle"
  shows "\<exists>b s'. lq_event cmp pol b s = Some s' \<and> \<not> new_call b"
proof -
  obtain sec where sec: "stage_section (stages s t) = Some sec" using t by (cases "stages s t") auto
  let ?i = "section_queue (num_queues (qset s)) sec" and ?m = "lock_of s (section_queue (num_queues (qset s)) sec)"
  have m: "mutex_inv ?m" using inv by (simp add: lq_inv_def)
  note pc = lq_stage_pc [OF inv, of t ?i]
  have acts: ?thesis if "awake (pcs ?m u) \<or> pcs ?m u = LockFast" for u
  proof -
    from awake_acts [OF m that, of pfunc_compare_and_swap_32] obtain a m' where
      "mutex_event pfunc_compare_and_swap_32 a ?m = Some m'" "\<forall>t. a \<noteq> CallLock t \<and> a \<noteq> CallUnlock t \<and> a \<noteq> Interrupt t" by blast
    then show ?thesis
      using lock_action_enabled [of a s ?i m' cmp pol] by (cases a) (auto simp: lock_called_def)
  qed
  consider "holds (pcs ?m t)" | "awake (pcs ?m t) \<or> pcs ?m t = LockFast" | "pcs ?m t = Asleep" | "pcs ?m t = Outside"
    by (cases "pcs ?m t") auto
  then show ?thesis
  proof cases
    case 1
    then show ?thesis by (rule holder_goes_on [OF inv])
  next
    case 2
    then show ?thesis by (rule acts)
  next
    case 3
    from sleeper_has_waker [OF m this] holder_goes_on [OF inv] acts show ?thesis by blast
  next
    case 4
    show ?thesis
    proof (cases "stages s t")
      case Idle
      with t show ?thesis by simp
    next
      case (Entering x)
      then have "lock_called ?i (CallLock t) s" using sec by (simp add: lock_called_def)
      moreover have "mutex_event pfunc_compare_and_swap_32 (CallLock t) ?m = Some (goto_pc t LockFast (val ?m) (waitq ?m) ?m)"
        using 4 by simp
      ultimately show ?thesis using lock_action_enabled [of "CallLock t"] by simp
    next
      case (Inside x q)
      with pc sec 4 show ?thesis by simp
    next
      case (Leaving x r)
      with sec 4 show ?thesis by (intro exI [of _ "NextSection t"]) (auto simp: section_pc_def)
    qed
  qed
qed

section \<open>A scan that nobody disturbs\<close>

lemma finish_scan:
  assumes "atomic_step cmp pol a b" and "astages b t = Leaving sec r" and "next_section sec r = None"
  shows "reaches (atomic_step cmp pol) a (b\<lparr>astages := (astages b)(t := Idle)\<rparr>)"
proof -
  have "reaches (atomic_step cmp pol) a b" by (rule reaches_one) (rule assms(1))
  moreover have "atomic_step cmp pol b (b\<lparr>astages := (astages b)(t := Idle)\<rparr>)"
    using atomic_step.continue [OF assms(2), of cmp pol] assms(3) by (simp add: begin_section_def)
  ultimately show ?thesis by (rule reaches.more)
qed

lemma scan_alone:
  assumes "queues_ok (aset a)" and "get_loop (queue_test cmp pol cnd) q (Suc k) i (aset a) = Some (r, qs)"
    and "astages a t = Entering (Test_get q cnd k i)"
  shows "reaches (atomic_step cmp pol) a
    \<lparr>aset = qs, astages = (astages a)(t := Idle), agiven = agiven a,
     ataken = (case r of Some v \<Rightarrow> add_mset v (ataken a) | None \<Rightarrow> ataken a)\<rparr>"
  using assms
proof (induction k arbitrary: i a)
  case (0 i a)
  let ?sec = "Test_get q cnd 0 i"
  let ?b = "\<lparr>aset = qs, astages = (astages a)(t := Leaving ?sec r), agiven = agiven a,
     ataken = (case r of Some v \<Rightarrow> add_mset v (ataken a) | None \<Rightarrow> ataken a)\<rparr>"
  have "section_body cmp pol ?sec (aset a) = Some (r, qs)"
    using 0(2) by (auto simp: queue_attempt_def Let_def split: option.splits)
  from atomic_step.atomic_section [OF 0(3) this] have "atomic_step cmp pol a ?b" by simp
  from finish_scan [OF this, of t ?sec r] show ?case by (simp add: fun_upd_upd fun_upd_same del: fun_upd_apply)
next
  case (Suc k i a)
  let ?sec = "Test_get q cnd (Suc k) i"
  have "section_ok (num_queues (aset a)) ?sec" by (rule section_ok_test [OF Suc.prems(1)])
  from body_facts [OF Suc.prems(1) this, of cmp pol] obtain r1 qs1
    where body: "section_body cmp pol ?sec (aset a) = Some (r1, qs1)" and ok: "queues_ok qs1" by blast
  let ?b = "\<lparr>aset = qs1, astages = (astages a)(t := Leaving ?sec r1), agiven = agiven a,
     ataken = (case r1 of Some v \<Rightarrow> add_mset v (ataken a) | None \<Rightarrow> ataken a)\<rparr>"
  from atomic_step.atomic_section [OF Suc.prems(3) body] have first: "atomic_step cmp pol a ?b" by simp
  have "astages ?b t = Leaving ?sec r1" by simp
  from atomic_step.continue [OF this, of cmp pol]
  have second: "atomic_step cmp pol ?b (?b\<lparr>astages := (astages a)(t := begin_section (next_section ?sec r1))\<rparr>)"
    by simp
  show ?case
  proof (cases r1)
    case (Some v)
    with body Suc.prems(2) have "r = r1" "qs = qs1" by (auto simp: queue_attempt_def Let_def)
    with finish_scan [OF first, of t ?sec r1] Some show ?thesis
      by (simp add: fun_upd_upd fun_upd_same del: fun_upd_apply)
  next
    case None
    let ?c = "\<lparr>aset = qs1, astages = (astages a)(t := Entering (Test_get q cnd k (i + 1))),
       agiven = agiven a, ataken = ataken a\<rparr>"
    from body Suc.prems(2) None have "get_loop (queue_test cmp pol cnd) q (Suc k) (i + 1) (aset ?c) = Some (r, qs)"
      by (auto simp: queue_attempt_def Let_def split: option.splits)
    from Suc.IH [OF _ this] ok have "reaches (atomic_step cmp pol) ?c
      \<lparr>aset = qs, astages = (astages ?c)(t := Idle), agiven = agiven ?c,
       ataken = (case r of Some v \<Rightarrow> add_mset v (ataken ?c) | None \<Rightarrow> ataken ?c)\<rparr>"
      by (simp add: fun_upd_same del: fun_upd_apply get_loop.simps)
    then have "reaches (atomic_step cmp pol) ?c
      \<lparr>aset = qs, astages = (astages a)(t := Idle), agiven = agiven a,
       ataken = (case r of Some v \<Rightarrow> add_mset v (ataken a) | None \<Rightarrow> ataken a)\<rparr>"
      by (simp add: fun_upd_upd del: fun_upd_apply cong: option.case_cong)
    moreover have "reaches (atomic_step cmp pol) a ?b" by (rule reaches_one) (rule first)
    then have "reaches (atomic_step cmp pol) a (?b\<lparr>astages := (astages a)(t := begin_section (next_section ?sec r1))\<rparr>)"
      by (rule reaches.more) (rule second)
    with None have "reaches (atomic_step cmp pol) a ?c"
      by (simp add: begin_section_def fun_upd_upd del: fun_upd_apply)
    ultimately show ?thesis by (rule reaches_trans)
  qed
qed

text \<open>A whole call of \<open>get\<close>, with nobody else moving.\<close>

lemma get_alone:
  assumes ok: "queues_ok (aset a)" and t: "astages a t = Idle" and q: "unat q < unat (num_queues (aset a))"
    and g: "queue_get cmp pol q cnd (aset a) = Some (r, qs)"
  shows "reaches (atomic_step cmp pol) a
    (a\<lparr>aset := qs, ataken := (case r of Some v \<Rightarrow> add_mset v (ataken a) | None \<Rightarrow> ataken a)\<rparr>)"
proof -
  have "attempts (num_queues (aset a)) = unat (num_queues (aset a))"
    using ok by (simp add: queues_ok_def attempts_small)
  then obtain k where k: "attempts (num_queues (aset a)) = Suc k"
    using q by (cases "unat (num_queues (aset a))") auto
  let ?b = "a\<lparr>astages := (astages a)(t := Entering (Test_get q cnd k q))\<rparr>"
  have first: "atomic_step cmp pol a ?b"
    using atomic_step.start_get [OF t q, of cmp pol cnd] by (simp add: begin_section_def first_section_def k)
  have "get_loop (queue_test cmp pol cnd) q (Suc k) q (aset ?b) = Some (r, qs)"
    using g by (simp add: queue_get_loop k del: get_loop.simps)
  from scan_alone [OF _ this, of t] ok have "reaches (atomic_step cmp pol) ?b
    \<lparr>aset = qs, astages = (astages a)(t := Idle), agiven = agiven a,
     ataken = (case r of Some v \<Rightarrow> add_mset v (ataken a) | None \<Rightarrow> ataken a)\<rparr>"
    by (simp cong: option.case_cong)
  moreover have "(astages a)(t := Idle) = astages a" using t by auto
  ultimately have "reaches (atomic_step cmp pol) ?b
    (a\<lparr>aset := qs, ataken := (case r of Some v \<Rightarrow> add_mset v (ataken a) | None \<Rightarrow> ataken a)\<rparr>)"
    by (cases a) simp
  moreover have "reaches (atomic_step cmp pol) a ?b" by (rule reaches_one) (rule first)
  ultimately show ?thesis by (rule reaches_trans)
qed

lemma lq_size:
  assumes inv: "lq_inv s" and ev: "lq_event cmp pol a s = Some s'"
  shows "num_queues (qset s') = num_queues (qset s)"
proof (cases "\<exists>t. a = WriteQueue t")
  case True
  with ev obtain t sec q r qs where st: "stages s t = Inside sec q"
    and body: "section_body cmp pol sec (set_queue (section_queue (num_queues (qset s)) sec) q (qset s)) = Some (r, qs)"
    and s': "qset s' = qs"
    by (auto simp: count_section_def split: stage.splits option.splits)
  from inv st have read: "get_queue (section_queue (num_queues (qset s)) sec) (qset s) = Some q"
    and ok: "queues_ok (qset s)" by (auto simp: lq_inv_def)
  have "section_ok (num_queues (qset s)) sec" using lq_section_ok [OF inv, of t sec] st by simp
  from body_facts [OF ok this, of cmp pol] body [unfolded set_queue_read [OF read]] s' show ?thesis by auto
next
  case False
  with ev show ?thesis by (cases a) (auto split: stage.splits if_splits)
qed

lemma lq_size_reach:
  assumes "reaches (step_of (lq_event cmp pol)) s s'" and "lq_inv s"
  shows "num_queues (qset s') = num_queues (qset s)"
  using assms
proof (induction rule: reaches.induct)
  case (more s t u)
  then have "lq_inv t" using lq.steps_inv by blast
  moreover from more.hyps(2) obtain b where "lq_event cmp pol b t = Some u" by (rule step_ofE)
  ultimately have "num_queues (qset u) = num_queues (qset t)" by (rule lq_size)
  with more show ?case by simp
qed simp

section \<open>A run\<close>

fun has_read :: "nat stage \<Rightarrow> bool" where
  "has_read (Inside (Push i v) q) \<longleftrightarrow> i = 0 \<and> v = 7 \<and> q = []"
| "has_read st = False"

fun at_rest :: "'v stage \<Rightarrow> bool" where
  "at_rest Idle = True"
| "at_rest st = False"

text \<open>
  A run in which thread 0 puts a task into queue 0 and has read it, while thread 1, in
  a \<open>get\<close>, has found the lock taken, marked it and spins.
\<close>

definition spinning_run :: "nat lq_action list" where
  "spinning_run =
     [CallPut 0 0 7, LockAction 0 (CallLock 0), LockAction 0 (LockStep 0),
      CallGet 1 0 any_task, LockAction 0 (CallLock 1), LockAction 0 (LockStep 1), LockAction 0 (LockStep 1),
      ReadQueue 0]"

definition no_order :: "nat \<Rightarrow> nat \<Rightarrow> bool" where
  "no_order v w = False"

lemma spinning_reached:
  "\<exists>s. reaches (step_of (lq_event no_order FifoS)) (lq_start 2) s \<and> stages s 0 = Inside (Push 0 7) [] \<and>
     pcs (lock_of s 0) 1 = LockSpin 0 \<and> stages s 2 = Idle \<and> stages s 1 \<noteq> Idle"
proof -
  have "case run_events (lq_event no_order FifoS) spinning_run (lq_start 2) of None \<Rightarrow> False
    | Some s \<Rightarrow> has_read (stages s 0) \<and> pcs (lock_of s 0) 1 = LockSpin 0 \<and> at_rest (stages s 2) \<and> \<not> at_rest (stages s 1)"
    by code_simp
  then obtain s where s: "reaches (step_of (lq_event no_order FifoS)) (lq_start 2) s" "has_read (stages s 0)"
    "pcs (lock_of s 0) 1 = LockSpin 0" "at_rest (stages s 2)" "\<not> at_rest (stages s 1)"
    by (auto split: option.splits intro: run_events_reaches)
  from s(2) have "stages s 0 = Inside (Push 0 7) []" by (cases "stages s 0" rule: has_read.cases) auto
  moreover from s(4) have "stages s 2 = Idle" by (cases "stages s 2") auto
  moreover from s(5) have "stages s 1 \<noteq> Idle" by auto
  ultimately show ?thesis using s(1,3) by blast
qed

section \<open>Properties\<close>

text \<open>
  C9: the queues under their locks are atomic. Threads that call \<open>get\<close> and \<open>put\<close> in any
  interleaving of their instructions, down to those of the futex mutexes, do nothing that
  threads could not do whose critical sections were single steps. Nothing that one thread reads
  in a queue is changed by another before it writes; no two threads are in sections of one
  queue; no task is lost or duplicated; and a \<open>get\<close> whose sections nobody disturbs is the
  \<open>queue_get\<close> of the task manager.
\<close>

theorem queues_under_locks_atomic:
  assumes "n \<noteq> 0" and "unat n < 2 ^ 31" and "reaches (step_of (lq_event cmp pol)) (lq_start n) s"
  shows "reaches (atomic_step cmp pol) (lq_abs (lq_start n)) (lq_abs s) \<and>
    given s = taken s + content (qset s) \<and>
    (\<forall>t sec q. stages s t = Inside sec q \<longrightarrow> get_queue (section_queue n sec) (qset s) = Some q \<and>
       (\<forall>u sec' q'. u \<noteq> t \<and> stages s u = Inside sec' q' \<longrightarrow> section_queue n sec' \<noteq> section_queue n sec)) \<and>
    (\<forall>t q cnd r qs. stages s t = Idle \<and> unat q < unat n \<and> queue_get cmp pol q cnd (qset s) = Some (r, qs) \<longrightarrow>
       reaches (atomic_step cmp pol) (lq_abs s)
         ((lq_abs s)\<lparr>aset := qs, ataken := (case r of Some v \<Rightarrow> add_mset v (taken s) | None \<Rightarrow> taken s)\<rparr>))"
proof (intro conjI allI impI)
  have start: "\<exists>m. m \<noteq> 0 \<and> unat m < 2 ^ 31 \<and> lq_start n = lq_start m" using assms(1,2) by blast
  show "reaches (atomic_step cmp pol) (lq_abs (lq_start n)) (lq_abs s)" by (rule lq.sim_reach [OF start assms(3)])
  have inv: "lq_inv s" by (rule lq.reach_inv [OF start assms(3)])
  have n: "num_queues (qset s) = n"
    using lq_size_reach [OF assms(3) lq_start_inv [OF assms(1,2)]] by (simp add: lq_start_def queue_set_make_def)
  show "given s = taken s + content (qset s)" using inv by (simp add: lq_inv_def)
  fix t sec q assume t: "stages s t = Inside sec q"
  show "get_queue (section_queue n sec) (qset s) = Some q" using inv t n by (auto simp: lq_inv_def)
  fix u sec' q' assume u: "u \<noteq> t \<and> stages s u = Inside sec' q'"
  show "section_queue n sec' \<noteq> section_queue n sec"
  proof
    assume eq: "section_queue n sec' = section_queue n sec"
    from lq_stage_pc [OF inv, of t "section_queue n sec"] lq_stage_pc [OF inv, of u "section_queue n sec"] t u eq n
    have "holds (pcs (lock_of s (section_queue n sec)) t)" "holds (pcs (lock_of s (section_queue n sec)) u)" by simp_all
    moreover have "mutex_inv (lock_of s (section_queue n sec))" using inv by (simp add: lq_inv_def)
    ultimately show False using u inv_one_holder by blast
  qed
next
  fix t q cnd r qs
  assume "stages s t = Idle \<and> unat q < unat n \<and> queue_get cmp pol q cnd (qset s) = Some (r, qs)"
  moreover have inv: "lq_inv s" using assms lq.reach_inv [of "lq_start n" cmp pol s] by blast
  moreover have "num_queues (qset s) = n"
    using lq_size_reach [OF assms(3) lq_start_inv [OF assms(1,2)]] by (simp add: lq_start_def queue_set_make_def)
  ultimately show "reaches (atomic_step cmp pol) (lq_abs s)
      ((lq_abs s)\<lparr>aset := qs, ataken := (case r of Some v \<Rightarrow> add_mset v (taken s) | None \<Rightarrow> taken s)\<rparr>)"
    using get_alone [of "lq_abs s" t q cmp pol cnd r qs] by (simp add: lq_abs_def lq_inv_def cong: option.case_cong)
qed

theorem queues_under_locks_atomic_witness:
  "\<exists>s. stages s 0 = Inside (Push 0 7) [] \<and> pcs (lock_of s 0) 1 = LockSpin 0 \<and> stages s 2 = Idle \<and>
     reaches (atomic_step no_order FifoS) (lq_abs (lq_start 2)) (lq_abs s) \<and> given s = taken s + content (qset s) \<and>
     get_queue 0 (qset s) = Some []"
proof -
  obtain s where s: "reaches (step_of (lq_event no_order FifoS)) (lq_start 2) s"
    "stages s 0 = Inside (Push 0 7) []" "pcs (lock_of s 0) 1 = LockSpin 0" "stages s 2 = Idle"
    using spinning_reached by blast
  have "(2 :: u32) \<noteq> 0" "unat (2 :: u32) < 2 ^ 31" by simp_all
  from queues_under_locks_atomic [OF this s(1)]
  have r: "reaches (atomic_step no_order FifoS) (lq_abs (lq_start 2)) (lq_abs s)" "given s = taken s + content (qset s)"
    and stable: "\<forall>t sec q. stages s t = Inside sec q \<longrightarrow> get_queue (section_queue 2 sec) (qset s) = Some q"
    by blast+
  from stable s(2) have "get_queue (section_queue 2 (Push 0 (7 :: nat))) (qset s) = Some []" by blast
  with s r show ?thesis by auto
qed



end
