(* ===== verification/Start_Up.thy ===== *)
theory Start_Up
  imports Taskmgr Barrier
begin

text \<open>
  How a task manager starts: the second half of the constructor in \<^verbatim>\<open>pfunc/taskmgr.hpp\<close>, which
  creates the workers one by one and spins until all of them have counted, together with the
  head of \<open>operator()\<close>, in which every worker enters itself in the thread-local table, sets
  its affinity, passes the start-up barrier of \<open>Barrier\<close> and counts. The constructor
  \<open>taskmgr_make\<close> of \<open>Taskmgr\<close> is the state that this protocol leaves behind. The counters of
  PAPI are left out.
\<close>

section \<open>The machine\<close>

datatype worker_place =
    NotCreated
  | AtSelf
  | AtTable
  | AtAffinity
  | AtBarrier
  | InBarrier
  | AtCount
  | InLoop

datatype constructor_place = Constructing | Returned_Mgr | Threw thrown

record start_up =
  su_place :: "nat \<Rightarrow> worker_place"
  su_self :: "nat \<Rightarrow> u32"
  su_table :: tls_table
  su_barrier :: bar_sys
  su_count :: u32
  su_created :: nat
  su_main :: constructor_place
  su_terminated :: bool

definition start_up_start :: "u32 list \<Rightarrow> start_up" where
  "start_up_start thds =
     (let n = sum_threads thds
      in \<lparr>su_place = (\<lambda>_. NotCreated), su_self = (\<lambda>_. 0),
          su_table = tls_set n (main_thread_attr n) (tls_initialize (n + 1)),
          su_barrier = bar_start n, su_count = 0, su_created = 0, su_main = Constructing,
          su_terminated = False\<rparr>)"

definition su_goto :: "nat \<Rightarrow> worker_place \<Rightarrow> start_up \<Rightarrow> start_up" where
  "su_goto t p s = s\<lparr>su_place := (su_place s)(t := p)\<rparr>"

text \<open>
  A worker up to its work loop. \<open>err\<close> is the result of the system call that sets its affinity;
  an exception of \<open>set_affinity\<close> leaves the start function of the thread.
\<close>

definition worker_step :: "thread_attr \<Rightarrow> int \<Rightarrow> nat \<Rightarrow> start_up \<Rightarrow> start_up option" where
  "worker_step ta err t s =
     (case su_place s t of
        AtSelf \<Rightarrow> Some (su_goto t AtTable (s\<lparr>su_self := (su_self s)(t := thread_id ta)\<rparr>))
      | AtTable \<Rightarrow> Some (su_goto t AtAffinity (s\<lparr>su_table := tls_set (su_self s t) ta (su_table s)\<rparr>))
      | AtAffinity \<Rightarrow>
          Some (if PFUNC_NO_AFFINITY \<noteq> thread_affinity ta
                then (case set_affinity err of Inr _ \<Rightarrow> su_goto t AtBarrier s | Inl x \<Rightarrow> s\<lparr>su_terminated := True\<rparr>)
                else su_goto t AtBarrier s)
      | AtBarrier \<Rightarrow>
          map_option (\<lambda>b. su_goto t InBarrier (s\<lparr>su_barrier := b\<rparr>)) (bar_event (BarEnter t) (su_barrier s))
      | InBarrier \<Rightarrow> if bpc (su_barrier s) t = BOut then Some (su_goto t AtCount s) else None
      | AtCount \<Rightarrow>
          (case pfunc_fetch_and_add_32 (su_count s) 1 of (old, c) \<Rightarrow> Some (su_goto t InLoop (s\<lparr>su_count := c\<rparr>)))
      | _ \<Rightarrow> None)"

text \<open>
  The system: the thread counts per queue and the affinity given to the constructor, what
  the system calls of the \<open>k\<close>th \<open>create_thread\<close> return, and those of each \<open>set_affinity\<close>.
\<close>

record start_env =
  env_thds :: "u32 list"
  env_affinity :: "(u32 \<Rightarrow> u32 \<Rightarrow> u32) option"
  env_create :: "nat \<Rightarrow> pthread_call \<Rightarrow> int"
  env_set_affinity :: "nat \<Rightarrow> int"

definition env_attrs :: "start_env \<Rightarrow> thread_attr list" where
  "env_attrs env = make_threads (env_affinity env) 0 0 (env_thds env)"

datatype start_action = CreateThread | WorkerAct nat | InsideBarrier bar_action | CheckCount

fun start_act :: "start_env \<Rightarrow> start_action \<Rightarrow> start_up \<Rightarrow> start_up option" where
  "start_act env CreateThread s =
     (if su_main s = Constructing \<and> su_created s < length (env_attrs env)
      then Some (let k = su_created s
        in case fst (pfunc_catch_and_rethrow (trace_site ''taskmgr'' ''taskmgr'' ''taskmgr.hpp'') None
                  (create_thread (env_create env k) (Some (env_attrs env ! k)) (Some 0) (Some k))) of
             Inl x \<Rightarrow> s\<lparr>su_main := Threw x\<rparr>
           | Inr _ \<Rightarrow> su_goto k AtSelf (s\<lparr>su_created := Suc k\<rparr>))
      else None)"
| "start_act env (WorkerAct t) s =
     (if t < length (env_attrs env) then worker_step (env_attrs env ! t) (env_set_affinity env t) t s else None)"
| "start_act env (InsideBarrier a) s =
     (case a of BarEnter t \<Rightarrow> None
      | _ \<Rightarrow> map_option (\<lambda>b. s\<lparr>su_barrier := b\<rparr>) (bar_event a (su_barrier s)))"
| "start_act env CheckCount s =
     (if su_main s = Constructing \<and> su_created s = length (env_attrs env)
      then Some (if su_count s \<noteq> sum_threads (env_thds env) then s else s\<lparr>su_main := Returned_Mgr\<rparr>)
      else None)"

definition start_event :: "start_env \<Rightarrow> start_action \<Rightarrow> start_up \<Rightarrow> start_up option" where
  "start_event env a s = (if su_terminated s then None else start_act env a s)"

abbreviation start_step :: "start_env \<Rightarrow> start_up \<Rightarrow> start_up \<Rightarrow> bool" where
  "start_step env \<equiv> step_of (start_event env)"

section \<open>The invariant\<close>

text \<open>Whether a worker at a place has entered the table, the barrier, and how it left both.\<close>

fun in_table :: "worker_place \<Rightarrow> bool" where
  "in_table NotCreated = False"
| "in_table AtSelf = False"
| "in_table AtTable = False"
| "in_table p = True"

fun has_entered :: "worker_place \<Rightarrow> bool" where
  "has_entered InBarrier = True"
| "has_entered AtCount = True"
| "has_entered InLoop = True"
| "has_entered p = False"

definition worker_ok :: "start_env \<Rightarrow> start_up \<Rightarrow> nat \<Rightarrow> bool" where
  "worker_ok env s t \<longleftrightarrow>
     (su_place s t = NotCreated \<longleftrightarrow> su_created s \<le> t) \<and>
     (su_place s t = AtTable \<longrightarrow> su_self s t = thread_id (env_attrs env ! t)) \<and>
     (in_table (su_place s t) \<longrightarrow> su_table s ! t = Some (env_attrs env ! t)) \<and>
     entries (bspec (su_barrier s)) t = (if has_entered (su_place s t) then 1 else 0) \<and>
     (su_place s t \<noteq> InBarrier \<longrightarrow> bpc (su_barrier s) t = BOut)"

definition in_loop :: "nat \<Rightarrow> start_up \<Rightarrow> nat set" where
  "in_loop n s = {t. t < n \<and> su_place s t = InLoop}"

definition small_env :: "start_env \<Rightarrow> bool" where
  "small_env env \<longleftrightarrow> Suc (total_threads (env_thds env)) < 2 ^ 32"

definition start_inv :: "start_env \<Rightarrow> start_up \<Rightarrow> bool" where
  "start_inv env s \<longleftrightarrow>
     (let n = length (env_attrs env)
      in reaches bar_step (bar_start (sum_threads (env_thds env))) (su_barrier s) \<and>
         su_created s \<le> n \<and> (\<forall>t<n. worker_ok env s t) \<and>
         length (su_table s) = Suc n \<and> su_table s ! n = Some (main_thread_attr (of_nat n)) \<and>
         su_count s = of_nat (card (in_loop n s)) \<and>
         (su_main s = Returned_Mgr \<longrightarrow> (\<forall>t<n. su_place s t = InLoop)) \<and>
         (\<forall>x. su_main s = Threw x \<longrightarrow> su_created s < n))"

lemma env_attrs_length [simp]: "length (env_attrs env) = total_threads (env_thds env)"
  by (simp add: env_attrs_def)

lemma env_attrs_id: "t < total_threads (env_thds env) \<Longrightarrow> thread_id (env_attrs env ! t) = of_nat t"
  using arg_cong [OF make_threads_ids [of "env_affinity env" 0 0 "env_thds env"], of "\<lambda>l. l ! t"]
  by (simp add: env_attrs_def)

lemma small_sum: "small_env env \<Longrightarrow> sum_threads (env_thds env) = of_nat (total_threads (env_thds env))"
  using sum_threads_total [of "env_thds env"]
  by (simp add: small_env_def word_unat_eq_iff unat_of_nat32)

lemma su_goto_sel [simp]:
  "su_place (su_goto t p s) = (su_place s)(t := p)" "su_self (su_goto t p s) = su_self s"
  "su_table (su_goto t p s) = su_table s" "su_barrier (su_goto t p s) = su_barrier s"
  "su_count (su_goto t p s) = su_count s" "su_created (su_goto t p s) = su_created s"
  "su_main (su_goto t p s) = su_main s" "su_terminated (su_goto t p s) = su_terminated s"
  by (simp_all add: su_goto_def)

lemma inside_bar:
  assumes "bar_event a b = Some b'" and "\<forall>t. a \<noteq> BarEnter t"
  shows "entries (bspec b') = entries (bspec b)" and "bpc b t = BOut \<Longrightarrow> bpc b' t = BOut"
  using assms
  by (cases a; auto simp: pf_defs bar_goto_def bar_leave_def split: bar_pc.splits if_splits prod.splits option.splits)+

lemma enter_bar:
  assumes "bar_event (BarEnter t) b = Some b'"
  shows "entries (bspec b') = (entries (bspec b))(t := Suc (entries (bspec b) t))" and "u \<noteq> t \<Longrightarrow> bpc b' u = bpc b u"
  using assms by (auto split: if_splits)

lemma in_loop_upd: "su_place s' = (su_place s)(t := p) \<Longrightarrow> su_place s t \<noteq> InLoop \<Longrightarrow> p \<noteq> InLoop \<Longrightarrow> in_loop n s' = in_loop n s"
  by (auto simp: in_loop_def)

lemma start_up_inv:
  assumes small: "small_env env"
  shows "start_inv env (start_up_start (env_thds env))"
proof -
  let ?n = "total_threads (env_thds env)"
  have "unat (of_nat ?n + 1 :: u32) = Suc ?n" "unat (of_nat ?n :: u32) = ?n"
    using small by (simp_all add: small_env_def unat_plus_one32 unat_of_nat32)
  then have "su_table (start_up_start (env_thds env)) = (replicate (Suc ?n) None)[?n := Some (main_thread_attr (of_nat ?n))]"
    by (simp add: start_up_start_def Let_def small_sum [OF small] tls_set_def tls_initialize_def del: replicate_Suc)
  then have "length (su_table (start_up_start (env_thds env))) = Suc ?n"
    "su_table (start_up_start (env_thds env)) ! ?n = Some (main_thread_attr (of_nat ?n))"
    by (simp_all del: replicate_Suc)
  then show ?thesis
    by (auto simp: start_inv_def start_up_start_def Let_def worker_ok_def in_loop_def bar_start_def
        barrier_spec_start_def intro: reaches.here)
qed

text \<open>A worker that has not reached its work loop yet moves on.\<close>

lemma start_moved:
  assumes inv: "start_inv env s" and t: "t < total_threads (env_thds env)" "su_place s t \<noteq> InLoop"
    and s': "su_place s' = (su_place s)(t := p)" "p \<noteq> InLoop"
    and same: "su_created s' = su_created s" "su_main s' = su_main s" "su_count s' = su_count s"
      "length (su_table s') = length (su_table s)"
      "su_table s' ! total_threads (env_thds env) = su_table s ! total_threads (env_thds env)"
    and reach: "reaches bar_step (bar_start (sum_threads (env_thds env))) (su_barrier s')"
    and ok: "\<And>u. u < total_threads (env_thds env) \<Longrightarrow> worker_ok env s' u"
  shows "start_inv env s'"
  using assms in_loop_upd [OF s'(1) t(2) s'(2)] by (auto simp: start_inv_def Let_def)

lemma start_inv_worker:
  assumes inv: "start_inv env s" and t: "t < length (env_attrs env)" and p: "su_place s t \<noteq> NotCreated"
    and small: "small_env env"
    and ev: "worker_step (env_attrs env ! t) err t s = Some s'"
  shows "start_inv env s'"
proof -
  let ?n = "total_threads (env_thds env)" and ?a = "env_attrs env ! t"
  from inv have reach: "reaches bar_step (bar_start (sum_threads (env_thds env))) (su_barrier s)"
    and created: "su_created s \<le> ?n" and ok: "\<And>u. u < ?n \<Longrightarrow> worker_ok env s u"
    and table: "length (su_table s) = Suc ?n" "su_table s ! ?n = Some (main_thread_attr (of_nat ?n))"
    and count: "su_count s = of_nat (card (in_loop ?n s))"
    and ret: "su_main s = Returned_Mgr \<Longrightarrow> \<forall>u<?n. su_place s u = InLoop"
    and threw: "\<And>x. su_main s = Threw x \<Longrightarrow> su_created s < ?n"
    by (auto simp: start_inv_def Let_def)
  have t: "t < ?n" and id: "unat (of_nat t :: u32) = t" "thread_id ?a = of_nat t"
    using t small env_attrs_id [of t env] by (simp_all add: small_env_def unat_of_nat32)
  note mine = ok [OF t, unfolded worker_ok_def]
  have main: "su_place s t \<noteq> InLoop \<Longrightarrow> su_main s \<noteq> Returned_Mgr" using ret t by auto
  show ?thesis
  proof (cases "su_place s t")
    case AtSelf
    with ev have s': "s' = su_goto t AtTable (s\<lparr>su_self := (su_self s)(t := thread_id ?a)\<rparr>)" by (simp add: worker_step_def)
    have "worker_ok env s' u" if "u < ?n" for u
      using ok [OF that] mine AtSelf by (cases "u = t") (auto simp: worker_ok_def s')
    with reach AtSelf show ?thesis
      by (intro start_moved [OF inv t, where s' = s' and p = AtTable]) (simp_all add: s')
  next
    case AtTable
    with ev mine have s': "s' = su_goto t AtAffinity (s\<lparr>su_table := (su_table s)[t := Some ?a]\<rparr>)"
      by (simp add: worker_step_def tls_set_def id)
    have "worker_ok env s' u" if "u < ?n" for u
      using ok [OF that] mine AtTable table t by (cases "u = t") (auto simp: worker_ok_def s')
    with reach AtTable t show ?thesis
      by (intro start_moved [OF inv t, where s' = s' and p = AtAffinity]) (simp_all add: s')
  next
    case AtAffinity
    have ok': "worker_ok env (su_goto t AtBarrier s) u" if "u < ?n" for u
      using ok [OF that] mine AtAffinity by (cases "u = t") (auto simp: worker_ok_def)
    then have "start_inv env (su_goto t AtBarrier s)"
      using reach AtAffinity by (intro start_moved [OF inv t, where s' = "su_goto t AtBarrier s" and p = AtBarrier]) simp_all
    moreover have "start_inv env (s\<lparr>su_terminated := True\<rparr>)"
      using inv by (simp add: start_inv_def Let_def worker_ok_def in_loop_def)
    moreover from ev AtAffinity have "s' = su_goto t AtBarrier s \<or> s' = s\<lparr>su_terminated := True\<rparr>"
      by (auto simp: worker_step_def split: if_splits sum.splits)
    ultimately show ?thesis by blast
  next
    case AtBarrier
    with ev obtain b where b: "bar_event (BarEnter t) (su_barrier s) = Some b"
      and s': "s' = su_goto t InBarrier (s\<lparr>su_barrier := b\<rparr>)" by (auto simp: worker_step_def)
    have "worker_ok env s' u" if "u < ?n" for u
      using ok [OF that] mine AtBarrier enter_bar [OF b]
      by (cases "u = t") (auto simp: worker_ok_def s' simp del: bar_event.simps)
    moreover have "reaches bar_step (bar_start (sum_threads (env_thds env))) b"
      using reach b by (blast intro: reaches.more step_of.event)
    ultimately show ?thesis using AtBarrier
      by (intro start_moved [OF inv t, where s' = s' and p = InBarrier]) (simp_all add: s')
  next
    case InBarrier
    with ev have out: "bpc (su_barrier s) t = BOut" and s': "s' = su_goto t AtCount s"
      by (auto simp: worker_step_def split: if_splits)
    have "worker_ok env s' u" if "u < ?n" for u
      using ok [OF that] mine InBarrier out by (cases "u = t") (auto simp: worker_ok_def s')
    with reach InBarrier show ?thesis
      by (intro start_moved [OF inv t, where s' = s' and p = AtCount]) (simp_all add: s')
  next
    case AtCount
    with ev have s': "s' = su_goto t InLoop (s\<lparr>su_count := su_count s + 1\<rparr>)" by (simp add: worker_step_def pf_defs)
    have "worker_ok env s' u" if "u < ?n" for u
      using ok [OF that] mine AtCount by (cases "u = t") (auto simp: worker_ok_def s')
    moreover have "in_loop ?n s' = insert t (in_loop ?n s)" "t \<notin> in_loop ?n s" "finite (in_loop ?n s)"
      using AtCount t by (auto simp: s' in_loop_def)
    ultimately show ?thesis using reach created table count main threw AtCount
      by (auto simp: start_inv_def Let_def s')
  qed (use ev p in \<open>auto simp: worker_step_def\<close>)
qed

lemma start_event_inv:
  assumes small: "small_env env" and inv: "start_inv env s" and ev: "start_event env a s = Some s'"
  shows "start_inv env s'"
proof -
  let ?n = "total_threads (env_thds env)"
  from inv have reach: "reaches bar_step (bar_start (sum_threads (env_thds env))) (su_barrier s)"
    and ok: "\<And>u. u < ?n \<Longrightarrow> worker_ok env s u"
    and ret: "su_main s = Returned_Mgr \<Longrightarrow> \<forall>u<?n. su_place s u = InLoop"
    and count: "su_count s = of_nat (card (in_loop ?n s))"
    by (auto simp: start_inv_def Let_def)
  from ev have act: "start_act env a s = Some s'" by (simp add: start_event_def split: if_splits)
  show ?thesis
  proof (cases a)
    case CreateThread
    let ?k = "su_created s"
    from act CreateThread have m: "su_main s = Constructing" and k: "?k < ?n"
      and "(\<exists>x. s' = s\<lparr>su_main := Threw x\<rparr>) \<or> s' = su_goto ?k AtSelf (s\<lparr>su_created := Suc ?k\<rparr>)"
      by (auto simp: Let_def split: if_splits sum.splits)
    moreover have "start_inv env (su_goto ?k AtSelf (s\<lparr>su_created := Suc ?k\<rparr>))"
    proof -
      let ?s = "su_goto ?k AtSelf (s\<lparr>su_created := Suc ?k\<rparr>)"
      have "su_place s ?k = NotCreated" using ok [OF k] by (simp add: worker_ok_def)
      then have "in_loop ?n ?s = in_loop ?n s" by (auto simp: in_loop_def)
      moreover have "worker_ok env ?s u" if "u < ?n" for u
        using ok [OF that] ok [OF k] by (cases "u = ?k") (auto simp: worker_ok_def)
      ultimately show ?thesis using inv m k by (simp add: start_inv_def Let_def)
    qed
    moreover have "start_inv env (s\<lparr>su_main := Threw x\<rparr>)" for x
      using inv k by (simp add: start_inv_def Let_def worker_ok_def in_loop_def)
    ultimately show ?thesis by blast
  next
    case (WorkerAct t)
    with act have "t < length (env_attrs env)"
      and ws: "worker_step (env_attrs env ! t) (env_set_affinity env t) t s = Some s'" by (auto split: if_splits)
    moreover have "su_place s t \<noteq> NotCreated" using ws by (auto simp: worker_step_def)
    ultimately show ?thesis using start_inv_worker [OF inv _ _ small ws] by blast
  next
    case (InsideBarrier b)
    with act obtain c where c: "bar_event b (su_barrier s) = Some c" "\<forall>t. b \<noteq> BarEnter t"
      and s': "s' = s\<lparr>su_barrier := c\<rparr>" by (auto split: bar_action.splits)
    have "worker_ok env s' u" if "u < ?n" for u
      using ok [OF that] inside_bar [OF c] by (simp add: worker_ok_def s')
    moreover have "reaches bar_step (bar_start (sum_threads (env_thds env))) c"
      using reach c(1) by (blast intro: reaches.more step_of.event)
    ultimately show ?thesis using inv by (simp add: start_inv_def Let_def s' in_loop_def)
  next
    case CheckCount
    show ?thesis
    proof (cases "s' = s")
      case False
      with act CheckCount have s': "s' = s\<lparr>su_main := Returned_Mgr\<rparr>"
        and "su_count s = sum_threads (env_thds env)" by (auto split: if_splits)
      then have eq: "of_nat (card (in_loop ?n s)) = (of_nat ?n :: u32)" using count small_sum [OF small] by simp
      have sub: "in_loop ?n s \<subseteq> {..<?n}" by (auto simp: in_loop_def)
      then have "card (in_loop ?n s) \<le> ?n" using card_mono [of "{..<?n}" "in_loop ?n s"] by simp
      with eq small have "card (in_loop ?n s) = ?n" by (simp add: small_env_def of_nat_inj32)
      with sub have "in_loop ?n s = {..<?n}" by (intro card_subset_eq) simp_all
      then have "\<forall>u<?n. su_place s u = InLoop" by (auto simp: in_loop_def)
      with inv show ?thesis by (simp add: start_inv_def Let_def s' in_loop_def worker_ok_def)
    qed (use inv in simp)
  qed
qed

interpretation start_up: invariant_system "\<lambda>s. small_env env \<and> s = start_up_start (env_thds env)" "start_step env"
  "\<lambda>s. small_env env \<and> start_inv env s" for env
  by unfold_locales (auto simp: start_up_inv elim!: step_ofE intro: start_event_inv)

section \<open>The table and the barrier\<close>

text \<open>The table of \<open>taskmgr_make\<close>, entry by entry.\<close>

lemma made_table:
  assumes small: "small_env env" and t: "t \<le> total_threads (env_thds env)"
  shows "tls_attr_map (taskmgr_make prio_min dflt (env_thds env) (env_affinity env) ts gs) ! t =
    Some (if t = total_threads (env_thds env) then main_thread_attr (of_nat t) else env_attrs env ! t)"
proof -
  let ?n = "total_threads (env_thds env)" and ?ws = "make_threads (env_affinity env) 0 0 (env_thds env)"
  define base where "base = tls_set (of_nat ?n) (main_thread_attr (of_nat ?n)) (tls_initialize (of_nat ?n + 1))"
  let ?table = "fold (\<lambda>a. tls_set (thread_id a) a) ?ws base"
  have bits: "unat (of_nat ?n + 1 :: u32) = Suc ?n" "unat (of_nat ?n :: u32) = ?n"
    using small by (simp_all add: small_env_def unat_plus_one32 unat_of_nat32)
  then have len: "length base = Suc ?n" by (simp add: base_def tls_initialize_def)
  have ids: "map thread_id ?ws = map of_nat [0..<?n]" using make_threads_ids [of "env_affinity env" 0 0 "env_thds env"] by simp
  have id: "thread_id (?ws ! u) = of_nat u" if "u < ?n" for u
    using env_attrs_id [of u env] that by (simp add: env_attrs_def)
  have table: "tls_attr_map (taskmgr_make prio_min dflt (env_thds env) (env_affinity env) ts gs) = ?table"
    by (simp add: taskmgr_make_def Let_def base_def small_sum [OF small])
  have range: "\<forall>a\<in>set ?ws. unat (thread_id a) < length base"
    using id len small by (auto simp: in_set_conv_nth small_env_def unat_of_nat32)
  show ?thesis
  proof (cases "t = ?n")
    case True
    have "\<forall>a\<in>set ?ws. unat (thread_id a) < length base \<and> thread_id a \<noteq> of_nat ?n"
      using id range small by (auto simp: in_set_conv_nth small_env_def of_nat_inj32)
    from tls_fold_other [OF this] have "tls_get (of_nat ?n) ?table = Some (main_thread_attr (of_nat ?n))"
      using bits by (simp add: base_def tls_get_set tls_initialize_def)
    with True bits len show ?thesis by (simp add: table tls_get_def)
  next
    case False
    with t have t: "t < ?n" by simp
    have "distinct (map thread_id ?ws)" using ids small word_upt_distinct [of ?n] by (simp add: small_env_def)
    from tls_fold [OF this range, of "?ws ! t"] t have "tls_get (of_nat t) ?table = Some (?ws ! t)" by (simp add: id)
    moreover have "unat (of_nat t :: u32) = t" using t small by (simp add: small_env_def unat_of_nat32)
    ultimately show ?thesis using t len by (simp add: table tls_get_def env_attrs_def)
  qed
qed

lemma made_table_length:
  "small_env env \<Longrightarrow>
   length (tls_attr_map (taskmgr_make prio_min dflt (env_thds env) (env_affinity env) ts gs)) = Suc (total_threads (env_thds env))"
  by (simp add: taskmgr_make_def Let_def small_sum tls_initialize_def small_env_def unat_plus_one32 unat_of_nat32)

lemma past_barrier:
  assumes small: "small_env env" and inv: "start_inv env s" and t: "t < total_threads (env_thds env)"
    and p: "su_place s t = AtCount \<or> su_place s t = InLoop" and u: "u < total_threads (env_thds env)"
  shows "has_entered (su_place s u)"
proof -
  let ?n = "sum_threads (env_thds env)"
  have n: "unat ?n = total_threads (env_thds env)"
    using small sum_threads_total [of "env_thds env"] by (simp add: small_env_def)
  have reach: "reaches bar_step (bar_start ?n) (su_barrier s)" using inv by (simp add: start_inv_def Let_def)
  have b: "bar_inv ?n (su_barrier s)" using startup.reach_inv [OF refl reach] by simp
  have wt: "worker_ok env s t" "worker_ok env s u" using inv t u by (simp_all add: start_inv_def Let_def)
  then have "bpc (su_barrier s) t = BOut" "entries (bspec (su_barrier s)) t = 1" using p by (auto simp: worker_ok_def)
  with bar_place_facts [OF b, of t] t n have "rounds (su_barrier s) = 1" by simp
  with bar_entered [OF b, of u] u n have "1 \<le> entries (bspec (su_barrier s)) u" by simp
  with wt(2) show ?thesis by (auto simp: worker_ok_def split: if_splits)
qed

section \<open>Everybody gets through\<close>

lemma bar_entries_mono: "bar_event a b = Some b' \<Longrightarrow> entries (bspec b) t \<le> entries (bspec b') t"
  using inside_bar(1) [of a b b'] enter_bar(1) [of _ b b'] by (cases "\<exists>u. a = BarEnter u") (auto simp del: bar_event.simps)

lemma bar_entries_steps: "reaches bar_step b b' \<Longrightarrow> entries (bspec b) t \<le> entries (bspec b') t"
proof (induction rule: reaches.induct)
  case (more b c d)
  from more.hyps(2) obtain a where "bar_event a c = Some d" by (rule step_ofE)
  with bar_entries_mono [of a c d t] more.IH show ?case by simp
qed simp

text \<open>Steps of the barrier in which nobody enters are steps of the system.\<close>

lemma bar_steps_lift:
  assumes "reaches bar_step b b'" and "entries (bspec b') = entries (bspec b)"
    and "su_barrier s = b" and "\<not> su_terminated s"
  shows "reaches (start_step env) s (s\<lparr>su_barrier := b'\<rparr>)"
  using assms
proof (induction rule: reaches.induct)
  case (here b)
  then have "s\<lparr>su_barrier := b\<rparr> = s" by auto
  then show ?case by (simp add: reaches.here)
next
  case (more b c d)
  from more.hyps(2) obtain a where a: "bar_event a c = Some d" by (rule step_ofE)
  have "entries (bspec b) t = entries (bspec c) t \<and> entries (bspec c) t = entries (bspec d) t" for t
    using bar_entries_mono [OF a, of t] bar_entries_steps [OF more.hyps(1), of t] more.prems(1) by (simp add: order.antisym)
  then have eq: "entries (bspec c) = entries (bspec b)" "entries (bspec d) = entries (bspec c)" by auto
  have "a \<noteq> BarEnter t" for t
  proof
    assume "a = BarEnter t"
    with a enter_bar(1) [of t c d] eq(2) have "(entries (bspec c)) t = Suc (entries (bspec c) t)" by (metis fun_upd_same)
    then show False by simp
  qed
  with a more.prems have "start_event env (InsideBarrier a) (s\<lparr>su_barrier := c\<rparr>) = Some (s\<lparr>su_barrier := d\<rparr>)"
    by (auto simp: start_event_def split: bar_action.splits)
  with more.IH [OF eq(1) more.prems(2,3)] show ?case by (blast intro: reaches.more step_of.event)
qed

fun place_weight :: "worker_place \<Rightarrow> nat" where
  "place_weight NotCreated = 7"
| "place_weight AtSelf = 6"
| "place_weight AtTable = 5"
| "place_weight AtAffinity = 4"
| "place_weight AtBarrier = 3"
| "place_weight InBarrier = 2"
| "place_weight AtCount = 1"
| "place_weight InLoop = 0"

definition start_work :: "nat \<Rightarrow> start_up \<Rightarrow> nat" where
  "start_work n s = (\<Sum>t<n. place_weight (su_place s t))"

lemma start_work_less:
  "t < n \<Longrightarrow> su_place s' = (su_place s)(t := p) \<Longrightarrow> place_weight p < place_weight (su_place s t) \<Longrightarrow>
   start_work n s' < start_work n s"
  unfolding start_work_def by (intro sum_strict_mono_ex1) auto

definition calls_succeed :: "start_env \<Rightarrow> bool" where
  "calls_succeed env \<longleftrightarrow> (\<forall>k c. env_create env k c = 0) \<and> (\<forall>t. env_set_affinity env t = 0)"

definition on_course :: "start_up \<Rightarrow> bool" where
  "on_course s \<longleftrightarrow> \<not> su_terminated s \<and> (\<forall>x. su_main s \<noteq> Threw x)"

lemma on_course_step:
  assumes "calls_succeed env" and "on_course s" and "start_event env a s = Some s'"
  shows "on_course s'"
proof -
  have "create_thread (env_create env k) (Some ta) (Some f) (Some x) = Inr ()" for k ta f x
    using assms(1) by (simp add: create_thread_def pthread_calls_ok calls_succeed_def)
  with assms show ?thesis
    by (cases a) (auto simp: start_event_def on_course_def calls_succeed_def set_affinity_def worker_step_def Let_def pf_defs
        split: if_splits worker_place.splits bar_action.splits)
qed

text \<open>A worker that is neither in the barrier nor in its loop can move.\<close>

lemma worker_moves:
  assumes small: "small_env env" and calls: "calls_succeed env" and inv: "start_inv env s" and c: "on_course s"
    and t: "t < total_threads (env_thds env)" and p: "su_place s t \<noteq> InLoop"
    and out: "su_place s t = InBarrier \<Longrightarrow> bpc (su_barrier s) t = BOut"
  shows "\<exists>s'. start_step env s s' \<and> start_work (total_threads (env_thds env)) s' < start_work (total_threads (env_thds env)) s"
proof (cases "su_place s t = NotCreated")
  case True
  let ?k = "su_created s"
  have "worker_ok env s t" using inv t by (simp add: start_inv_def Let_def)
  with True have "?k \<le> t" by (simp add: worker_ok_def)
  with t have k: "?k < total_threads (env_thds env)" by simp
  then have "worker_ok env s ?k" using inv by (simp add: start_inv_def Let_def)
  then have new: "su_place s ?k = NotCreated" by (simp add: worker_ok_def)
  have "su_main s = Constructing"
    using c inv new k by (cases "su_main s") (auto simp: on_course_def start_inv_def Let_def)
  moreover have "create_thread (env_create env ?k) (Some ta) (Some f) (Some x) = Inr ()" for ta f x
    using calls by (simp add: create_thread_def pthread_calls_ok calls_succeed_def)
  ultimately have "start_event env CreateThread s = Some (su_goto ?k AtSelf (s\<lparr>su_created := Suc ?k\<rparr>))"
    using c k by (simp add: start_event_def on_course_def Let_def)
  moreover have "start_work (total_threads (env_thds env)) (su_goto ?k AtSelf (s\<lparr>su_created := Suc ?k\<rparr>)) <
      start_work (total_threads (env_thds env)) s"
    by (rule start_work_less [OF k, where p = AtSelf]) (simp_all add: new)
  ultimately show ?thesis by (blast intro: step_of.event)
next
  case False
  have n: "bar_size (cell (su_barrier s)) = sum_threads (env_thds env)"
    using inv startup.reach_inv [OF refl, of "sum_threads (env_thds env)" "su_barrier s"]
    by (simp add: start_inv_def Let_def bar_inv_def)
  have bt: "t < unat (bar_size (cell (su_barrier s)))"
    using n t small sum_threads_total [of "env_thds env"] by (simp add: small_env_def)
  have w: "worker_ok env s t" using inv t by (simp add: start_inv_def Let_def)
  have "\<exists>s' p. worker_step (env_attrs env ! t) (env_set_affinity env t) t s = Some s' \<and>
      su_place s' = (su_place s)(t := p) \<and> place_weight p < place_weight (su_place s t)"
    using False p out bt w calls
    by (cases "su_place s t") (auto simp: worker_step_def worker_ok_def set_affinity_def calls_succeed_def pf_defs)
  then obtain s' p where st: "worker_step (env_attrs env ! t) (env_set_affinity env t) t s = Some s'"
    and p: "su_place s' = (su_place s)(t := p)" "place_weight p < place_weight (su_place s t)" by blast
  from st have "start_event env (WorkerAct t) s = Some s'"
    using c t by (simp add: start_event_def on_course_def)
  with start_work_less [OF t p] show ?thesis by (blast intro: step_of.event)
qed

lemma start_progress:
  assumes small: "small_env env" and size: "total_threads (env_thds env) \<le> INT_MAX" and calls: "calls_succeed env"
  shows "start_inv env s \<Longrightarrow> on_course s \<Longrightarrow>
    \<exists>s'. reaches (start_step env) s s' \<and> start_inv env s' \<and> on_course s' \<and>
      (\<forall>t<total_threads (env_thds env). su_place s' t = InLoop)"
proof (induction "start_work (total_threads (env_thds env)) s" arbitrary: s rule: less_induct)
  case less
  let ?n = "total_threads (env_thds env)" and ?w = "sum_threads (env_thds env)"
  have n: "unat ?w = ?n" using small sum_threads_total [of "env_thds env"] by (simp add: small_env_def)
  have from_move: ?case if r: "reaches (start_step env) s s1" and inv: "start_inv env s1" and c: "on_course s1"
    and le: "start_work ?n s1 \<le> start_work ?n s" and t: "t < ?n" "su_place s1 t \<noteq> InLoop"
    and out: "su_place s1 t = InBarrier \<Longrightarrow> bpc (su_barrier s1) t = BOut" for s1 t
  proof -
    from worker_moves [OF small calls inv c t out] obtain s2
      where st: "start_step env s1 s2" and l: "start_work ?n s2 < start_work ?n s1" by blast
    from st obtain a where ev: "start_event env a s1 = Some s2" by (rule step_ofE)
    from less.hyps [of s2] l le start_event_inv [OF small inv ev] on_course_step [OF calls c ev]
    obtain s' where "reaches (start_step env) s2 s'" "start_inv env s'" "on_course s'" "\<forall>t<?n. su_place s' t = InLoop"
      by auto
    moreover have "reaches (start_step env) s s2" using r st by (rule reaches.more)
    ultimately show ?thesis by (blast intro: reaches_trans)
  qed
  consider (over) "\<forall>t<?n. su_place s t = InLoop"
    | (free) t where "t < ?n" "su_place s t \<noteq> InLoop" "su_place s t \<noteq> InBarrier"
    | (barrier) t where "t < ?n" "su_place s t = InBarrier" "\<forall>u<?n. su_place s u = InLoop \<or> su_place s u = InBarrier" by blast
  then show ?case
  proof cases
    case over
    with less.prems show ?thesis by (blast intro: reaches.here)
  next
    case free
    then show ?thesis by (intro from_move [OF reaches.here less.prems]) auto
  next
    case barrier
    have reach: "reaches bar_step (bar_start ?w) (su_barrier s)" using less.prems(1) by (simp add: start_inv_def Let_def)
    have ok: "worker_ok env s u" if "u < ?n" for u using less.prems(1) that by (simp add: start_inv_def Let_def)
    have "has_entered (su_place s u)" if "u < ?n" for u using barrier(3) that by auto
    with ok have "\<forall>u<unat ?w. entries (bspec (su_barrier s)) u = Suc 0" by (simp add: n worker_ok_def)
    from bar_completes [OF startup.reach_inv [OF refl reach] _ this] size obtain b
      where b: "reaches bar_step (su_barrier s) b" "entries (bspec b) = entries (bspec (su_barrier s))"
        "\<forall>u<?n. bpc b u = BOut" by (auto simp: n)
    let ?s = "s\<lparr>su_barrier := b\<rparr>"
    have r: "reaches (start_step env) s ?s"
      using bar_steps_lift [OF b(1,2) refl, of env] less.prems(2) by (simp add: on_course_def)
    have "start_inv env ?s" using start_up.steps_inv [OF r] small less.prems(1) by blast
    moreover have "on_course ?s" "start_work ?n ?s \<le> start_work ?n s"
      using less.prems(2) by (simp_all add: on_course_def start_work_def)
    ultimately show ?thesis using barrier b(3) by (intro from_move [OF r, where t = t]) auto
  qed
qed

lemma threw_step:
  assumes "su_main s = Threw x" and "start_event env a s = Some s'"
  shows "su_main s' = Threw x" and "su_created s' = su_created s"
  using assms
  by (cases a; auto simp: start_event_def worker_step_def Let_def pf_defs
      split: if_splits worker_place.splits bar_action.splits sum.splits)+

lemma threw_pfunc:
  assumes "reaches (start_step env) (start_up_start thds) s" and "su_main s = Threw x"
  shows "\<exists>e. x = PfuncExn e"
  using assms
proof (induction "start_up_start thds" s rule: reaches.induct)
  case here
  then show ?case by (simp add: start_up_start_def Let_def)
next
  case (more t u)
  from more.hyps(3) obtain a where a: "start_event env a t = Some u" by (rule step_ofE)
  show ?case
  proof (cases "su_main t")
    case (Threw y)
    with more threw_step(1) [OF Threw a] show ?thesis by simp
  qed (use a more.prems in \<open>cases a; auto simp: start_event_def worker_step_def Let_def pf_defs dest: catch_and_rethrow_PfuncExn
      split: if_splits worker_place.splits bar_action.splits sum.splits\<close>)+
qed

lemma can_return:
  assumes "small_env env" and "total_threads (env_thds env) \<le> INT_MAX" and "calls_succeed env"
    and "reaches (start_step env) (start_up_start (env_thds env)) s"
  shows "\<exists>s'. reaches (start_step env) s s' \<and> su_main s' = Returned_Mgr"
proof -
  let ?n = "total_threads (env_thds env)"
  have inv: "start_inv env s" using start_up.reach_inv [OF _ assms(4)] assms(1) by blast
  have "on_course s"
    using assms(4)
  proof (induction "start_up_start (env_thds env)" s rule: reaches.induct)
    case here
    show ?case by (simp add: on_course_def start_up_start_def Let_def)
  next
    case (more t u)
    from more.hyps(3) obtain a where a: "start_event env a t = Some u" by (rule step_ofE)
    show ?case by (rule on_course_step [OF assms(3) more.hyps(2) a])
  qed
  from start_progress [OF assms(1-3) inv this] obtain s1 where s1: "reaches (start_step env) s s1" "start_inv env s1"
    "on_course s1" "\<forall>t<?n. su_place s1 t = InLoop" by blast
  show ?thesis
  proof (cases "su_main s1 = Returned_Mgr")
    case False
    with s1(3) have "su_main s1 = Constructing" by (cases "su_main s1") (auto simp: on_course_def)
    moreover have "in_loop ?n s1 = {..<?n}" using s1(4) by (auto simp: in_loop_def)
    moreover have "su_created s1 = ?n"
    proof (rule ccontr)
      assume "su_created s1 \<noteq> ?n"
      with s1(2) have k: "su_created s1 < ?n" by (simp add: start_inv_def Let_def)
      with s1(2) have "worker_ok env s1 (su_created s1)" by (simp add: start_inv_def Let_def)
      with s1(4) k show False by (simp add: worker_ok_def)
    qed
    ultimately have "start_event env CheckCount s1 = Some (s1\<lparr>su_main := Returned_Mgr\<rparr>)"
      using s1(2,3) small_sum [OF assms(1)] by (simp add: start_event_def on_course_def start_inv_def Let_def)
    then have "reaches (start_step env) s (s1\<lparr>su_main := Returned_Mgr\<rparr>)"
      using s1(1) by (blast intro: reaches.more step_of.event)
    then show ?thesis by (intro exI [of _ "s1\<lparr>su_main := Returned_Mgr\<rparr>"]) simp
  qed (use s1(1) in blast)
qed

section \<open>Properties\<close>

text \<open>
  C28: when the constructor returns, the task manager is as \<open>taskmgr_make\<close> has it. In every
  interleaving of the creating thread, the workers and the accesses of the barrier: every worker
  has entered itself in the thread-local table, which is that of \<open>taskmgr_make\<close>, has passed the
  barrier and is in its work loop, and the count is that of the threads. Before that, no
  worker reaches its work loop while another one has not yet entered the table.
\<close>

theorem constructor_starts_everybody:
  assumes "small_env env" and "reaches (start_step env) (start_up_start (env_thds env)) s"
  shows "(su_main s = Returned_Mgr \<longrightarrow>
       (\<forall>t<total_threads (env_thds env). su_place s t = InLoop) \<and>
       su_table s = tls_attr_map (taskmgr_make prio_min dflt (env_thds env) (env_affinity env) ts gs) \<and>
       su_count s = thread_start_count (taskmgr_make prio_min dflt (env_thds env) (env_affinity env) ts gs)) \<and>
     (\<forall>t<total_threads (env_thds env). \<forall>u<total_threads (env_thds env).
        su_place s t = InLoop \<longrightarrow> su_table s ! u = Some (env_attrs env ! u))"
proof (intro conjI impI allI)
  let ?n = "total_threads (env_thds env)" and ?m = "taskmgr_make prio_min dflt (env_thds env) (env_affinity env) ts gs"
  have inv: "start_inv env s" using start_up.reach_inv [OF _ assms(2)] assms(1) by blast
  note I = inv [unfolded start_inv_def Let_def, simplified]
  fix t u assume tu: "t < ?n" "u < ?n" "su_place s t = InLoop"
  have "in_table (su_place s u)"
    using past_barrier [OF assms(1) inv tu(1) _ tu(2)] tu(3) by (cases "su_place s u") auto
  with I tu(2) show "su_table s ! u = Some (env_attrs env ! u)" by (simp add: worker_ok_def)
next
  let ?n = "total_threads (env_thds env)" and ?m = "taskmgr_make prio_min dflt (env_thds env) (env_affinity env) ts gs"
  have inv: "start_inv env s" using start_up.reach_inv [OF _ assms(2)] assms(1) by blast
  note I = inv [unfolded start_inv_def Let_def, simplified]
  assume "su_main s = Returned_Mgr"
  with I have loop: "\<forall>t<?n. su_place s t = InLoop" by simp
  then show "su_place s t = InLoop" if "t < ?n" for t using that by blast
  show "su_table s = tls_attr_map ?m"
  proof (rule nth_equalityI)
    show "length (su_table s) = length (tls_attr_map ?m)" using I made_table_length [OF assms(1), of prio_min dflt ts gs] by simp
    fix t assume "t < length (su_table s)"
    with I have t: "t \<le> ?n" by simp
    have "su_table s ! t = Some (env_attrs env ! t)" if "t < ?n" using I loop that by (simp add: worker_ok_def)
    with I t made_table [OF assms(1) t, of prio_min dflt ts gs] show "su_table s ! t = tls_attr_map ?m ! t" by auto
  qed
  have "in_loop ?n s = {..<?n}" using loop by (auto simp: in_loop_def)
  with I show "su_count s = thread_start_count ?m"
    using small_sum [OF assms(1)] by (simp add: taskmgr_make_def Let_def)
qed

text \<open>Two queues with a worker each; \<open>code\<close> is what \<open>pthread_create\<close> returns for the second one.\<close>

definition two_workers :: "int \<Rightarrow> start_env" where
  "two_workers code = \<lparr>env_thds = [1, 1], env_affinity = None,
     env_create = (\<lambda>k c. if k = 1 \<and> c = Create then code else 0), env_set_affinity = (\<lambda>_. 0)\<rparr>"

definition waiting_run :: "start_action list" where
  "waiting_run =
     [CreateThread, WorkerAct 0, WorkerAct 0, WorkerAct 0, WorkerAct 0, InsideBarrier (BarStep 0), InsideBarrier (BarStep 0)]"

definition failing_run :: "start_action list" where
  "failing_run =
     [CreateThread, WorkerAct 0, WorkerAct 0, WorkerAct 0, WorkerAct 0, InsideBarrier (BarStep 0), CreateThread]"

lemma two_workers_env:
  "env_thds (two_workers code) = [1, 1]" "env_affinity (two_workers code) = None" "small_env (two_workers code)"
  by (simp_all add: two_workers_def small_env_def total_threads_def)

lemma two_workers_calls: "calls_succeed (two_workers 0)"
  by (simp add: calls_succeed_def two_workers_def)

theorem constructor_starts_everybody_witness:
  "\<exists>s :: start_up. su_main s = Returned_Mgr \<and> su_place s 0 = InLoop \<and> su_place s 1 = InLoop \<and>
     su_table s = tls_attr_map (taskmgr_make (0 :: nat) 0 [1, 1] None (\<lambda>_. task_default 0) (\<lambda>_. group_default))"
proof -
  have total: "total_threads [1, 1] = 2" by (simp add: total_threads_def)
  have "\<exists>s. reaches (start_step (two_workers 0)) (start_up_start [1, 1]) s \<and> su_main s = Returned_Mgr"
    using can_return [OF two_workers_env(3) _ two_workers_calls reaches.here] total by (simp add: two_workers_env INT_MAX_def)
  then obtain s where s: "reaches (start_step (two_workers 0)) (start_up_start [1, 1]) s" "su_main s = Returned_Mgr" by blast
  from constructor_starts_everybody [OF two_workers_env(3), unfolded two_workers_env, OF s(1), of "0 :: nat" 0 "\<lambda>_. task_default 0" "\<lambda>_. group_default"]
    s(2) have "\<forall>t<total_threads [1, 1]. su_place s t = InLoop"
    and "su_table s = tls_attr_map (taskmgr_make (0 :: nat) 0 [1, 1] None (\<lambda>_. task_default 0) (\<lambda>_. group_default))"
    by blast+
  then show ?thesis using s(2) total by (intro exI [of _ s]) simp
qed

text \<open>
  C29: the constructor can always return. Unless a system call fails, from every state that the
  starting task manager can reach, wherever its workers are, inside the barrier or asleep
  there, a state can be reached in which the constructor has returned.
\<close>

theorem constructor_can_return:
  assumes "small_env env" and "total_threads (env_thds env) \<le> INT_MAX" and "calls_succeed env"
    and "reaches (start_step env) (start_up_start (env_thds env)) s"
  shows "\<exists>s'. reaches (start_step env) s s' \<and> su_main s' = Returned_Mgr"
  by (rule can_return [OF assms])

theorem constructor_can_return_witness:
  "\<exists>s s'. reaches (start_step (two_workers 0)) (start_up_start [1, 1]) s \<and> su_main s = Constructing \<and>
     bpc (su_barrier s) 0 = BWait 0 \<and> su_created s = 1 \<and>
     reaches (start_step (two_workers 0)) s s' \<and> su_main s' = Returned_Mgr"
proof -
  have "case run_events (start_event (two_workers 0)) waiting_run (start_up_start [1, 1]) of None \<Rightarrow> False
    | Some s \<Rightarrow> bpc (su_barrier s) 0 = BWait 0 \<and> su_created s = 1 \<and>
        (case su_main s of Constructing \<Rightarrow> True | _ \<Rightarrow> False)" by code_simp
  then obtain s where s: "reaches (start_step (two_workers 0)) (start_up_start [1, 1]) s" "su_main s = Constructing"
    "bpc (su_barrier s) 0 = BWait 0" "su_created s = 1"
    by (auto split: option.splits constructor_place.splits intro: run_events_reaches)
  have "total_threads [1, 1] \<le> INT_MAX" by (simp add: total_threads_def INT_MAX_def)
  from constructor_can_return [OF two_workers_env(3) _ two_workers_calls, unfolded two_workers_env, OF this s(1)] s
  show ?thesis by blast
qed



end
