(* ===== verification/Dot_Product.thy ===== *)
theory Dot_Product
  imports Group
begin

text \<open>
  The example \<^verbatim>\<open>examples/c/groups.c\<close>: the tasks of a group compute a dot product over and over.
  Each adds up its own part of the vectors into \<open>local_dot\<close>, a barrier follows, each adds up all
  of \<open>local_dot\<close>, and a second barrier protects the array until everybody has read it. One
  step is one access to \<open>local_dot\<close>; the barrier depends on the type of the group: the
  abstract one of \<open>Barrier_Spec\<close>, which \<open>barrier_steal\<close> refines, or none at all. \<open>barrier_spin\<close>
  refines no barrier (\<open>Group\<close>), and is left out. The vectors hold elements of any semiring: rounding is left out.
\<close>

section \<open>The part of a task\<close>

definition chunk :: "u32 \<Rightarrow> u32 \<Rightarrow> u32" where
  "chunk N ranks = (N + ranks - 1) div ranks"

definition my_start_index :: "u32 \<Rightarrow> u32 \<Rightarrow> u32 \<Rightarrow> u32" where
  "my_start_index N ranks rank = chunk N ranks * rank"

definition my_stop_index :: "u32 \<Rightarrow> u32 \<Rightarrow> u32 \<Rightarrow> u32" where
  "my_stop_index N ranks rank =
     (if chunk N ranks * (rank + 1) < N - 1 then chunk N ranks * (rank + 1) else N - 1)"

section \<open>The machine\<close>

datatype 'a dot_place =
    SetZero
  | Adding u32
  | AtFirst
  | InFirst
  | Summing u32 'a
  | AtSecond
  | InSecond
  | Printed

text \<open>\<open>dot\<close> is the result of the last iteration, which is what a task prints.\<close>

record 'a dot_sys =
  local_dot :: "nat \<Rightarrow> 'a"
  dot_place :: "nat \<Rightarrow> 'a dot_place"
  iteration :: "nat \<Rightarrow> nat"
  dot :: "nat \<Rightarrow> 'a"
  dot_barrier :: barrier_spec

definition dot_start :: "'a::zero dot_sys" where
  "dot_start = \<lparr>local_dot = (\<lambda>_. 0), dot_place = (\<lambda>_. SetZero), iteration = (\<lambda>_. 0), dot = (\<lambda>_. 0),
     dot_barrier = barrier_spec_start\<rparr>"

definition dot_goto :: "nat \<Rightarrow> 'a dot_place \<Rightarrow> 'a dot_sys \<Rightarrow> 'a dot_sys" where
  "dot_goto t p s = s\<lparr>dot_place := (dot_place s)(t := p)\<rparr>"

definition enter_barrier :: "nat \<Rightarrow> 'a dot_sys \<Rightarrow> 'a dot_sys" where
  "enter_barrier t s = s\<lparr>dot_barrier := (dot_barrier s)
     \<lparr>entries := (entries (dot_barrier s))(t := Suc (entries (dot_barrier s) t))\<rparr>\<rparr>"

definition may_leave :: "u32 \<Rightarrow> nat \<Rightarrow> 'a dot_sys \<Rightarrow> bool" where
  "may_leave ranks t s \<longleftrightarrow>
     list_all (\<lambda>u. entries (dot_barrier s) t \<le> entries (dot_barrier s) u) [0..<unat ranks]"

definition leave_barrier :: "nat \<Rightarrow> 'a dot_sys \<Rightarrow> 'a dot_sys" where
  "leave_barrier t s = s\<lparr>dot_barrier := (dot_barrier s)
     \<lparr>exits := (exits (dot_barrier s))(t := Suc (exits (dot_barrier s) t))\<rparr>\<rparr>"

record 'a dot_input =
  num_iters :: nat
  dim_N :: u32
  dot_ranks :: u32
  barrier_kind :: barrier_call
  vec_X :: "'a list"
  vec_Y :: "'a list"

definition passes :: "'a dot_input \<Rightarrow> nat \<Rightarrow> 'a dot_sys \<Rightarrow> bool" where
  "passes inp t s =
     (case barrier_kind inp of NoBarrier \<Rightarrow> True | CallSteal \<Rightarrow> may_leave (dot_ranks inp) t s | CallSpin \<Rightarrow> False)"

definition next_iteration :: "nat \<Rightarrow> nat \<Rightarrow> 'a dot_sys \<Rightarrow> 'a dot_sys" where
  "next_iteration iters t s =
     dot_goto t (if Suc (iteration s t) < iters then SetZero else Printed)
       (s\<lparr>iteration := (iteration s)(t := Suc (iteration s t))\<rparr>)"

fun dot_event :: "'a::semiring_0 dot_input \<Rightarrow> nat \<Rightarrow> 'a dot_sys \<Rightarrow> 'a dot_sys option" where
  "dot_event inp t s =
     (let N = dim_N inp; ranks = dot_ranks inp; rank = of_nat t in
      if unat ranks \<le> t then None
      else case dot_place s t of
        SetZero \<Rightarrow> Some (dot_goto t (Adding (my_start_index N ranks rank)) (s\<lparr>local_dot := (local_dot s)(t := 0)\<rparr>))
      | Adding j \<Rightarrow>
          Some (if j < my_stop_index N ranks rank
                then dot_goto t (Adding (j + 1))
                       (s\<lparr>local_dot := (local_dot s)(t := local_dot s t + vec_X inp ! unat j * vec_Y inp ! unat j)\<rparr>)
                else dot_goto t AtFirst s)
      | AtFirst \<Rightarrow> Some (dot_goto t InFirst (enter_barrier t s))
      | InFirst \<Rightarrow> if passes inp t s then Some (dot_goto t (Summing 0 0) (leave_barrier t s)) else None
      | Summing k d \<Rightarrow>
          Some (if k < ranks then dot_goto t (Summing (k + 1) (d + local_dot s (unat k))) s
                else dot_goto t AtSecond (s\<lparr>dot := (dot s)(t := d)\<rparr>))
      | AtSecond \<Rightarrow> Some (dot_goto t InSecond (enter_barrier t s))
      | InSecond \<Rightarrow> if passes inp t s then Some (next_iteration (num_iters inp) t (leave_barrier t s)) else None
      | Printed \<Rightarrow> None)"

section \<open>The invariant\<close>

definition part :: "'a::semiring_0 dot_input \<Rightarrow> nat \<Rightarrow> nat \<Rightarrow> 'a" where
  "part inp t j = (\<Sum>i\<leftarrow>[unat (my_start_index (dim_N inp) (dot_ranks inp) (of_nat t))..<j]. vec_X inp ! i * vec_Y inp ! i)"

definition whole_part :: "'a::semiring_0 dot_input \<Rightarrow> nat \<Rightarrow> 'a" where
  "whole_part inp t = part inp t (unat (my_stop_index (dim_N inp) (dot_ranks inp) (of_nat t)))"

definition parts_upto :: "'a::semiring_0 dot_input \<Rightarrow> nat \<Rightarrow> 'a" where
  "parts_upto inp k = (\<Sum>t\<leftarrow>[0..<k]. whole_part inp t)"

text \<open>How often a task has entered and left the barrier, and what it has computed.\<close>

definition rank_ok :: "'a::semiring_0 dot_input \<Rightarrow> 'a dot_sys \<Rightarrow> nat \<Rightarrow> bool" where
  "rank_ok inp s t \<longleftrightarrow>
     (let i = iteration s t; e = entries (dot_barrier s) t; x = exits (dot_barrier s) t;
          start = unat (my_start_index (dim_N inp) (dot_ranks inp) (of_nat t));
          stop = unat (my_stop_index (dim_N inp) (dot_ranks inp) (of_nat t)) in
      (i \<noteq> 0 \<longrightarrow> dot s t = parts_upto inp (unat (dot_ranks inp))) \<and>
      (case dot_place s t of
         SetZero \<Rightarrow> e = 2 * i \<and> x = 2 * i \<and> i < num_iters inp
       | Adding j \<Rightarrow> e = 2 * i \<and> x = 2 * i \<and> i < num_iters inp \<and>
           start \<le> unat j \<and> unat j \<le> max start stop \<and> local_dot s t = part inp t (unat j)
       | AtFirst \<Rightarrow> e = 2 * i \<and> x = 2 * i \<and> i < num_iters inp \<and> local_dot s t = whole_part inp t
       | InFirst \<Rightarrow> e = 2 * i + 1 \<and> x = 2 * i \<and> i < num_iters inp \<and> local_dot s t = whole_part inp t
       | Summing k d \<Rightarrow> e = 2 * i + 1 \<and> x = 2 * i + 1 \<and> i < num_iters inp \<and> local_dot s t = whole_part inp t \<and>
           unat k \<le> unat (dot_ranks inp) \<and> d = parts_upto inp (unat k)
       | AtSecond \<Rightarrow> e = 2 * i + 1 \<and> x = 2 * i + 1 \<and> i < num_iters inp \<and> local_dot s t = whole_part inp t \<and>
           dot s t = parts_upto inp (unat (dot_ranks inp))
       | InSecond \<Rightarrow> e = 2 * i + 2 \<and> x = 2 * i + 1 \<and> i < num_iters inp \<and> local_dot s t = whole_part inp t \<and>
           dot s t = parts_upto inp (unat (dot_ranks inp))
       | Printed \<Rightarrow> e = 2 * i \<and> x = 2 * i \<and> i = num_iters inp))"

definition dot_inv :: "'a::semiring_0 dot_input \<Rightarrow> 'a dot_sys \<Rightarrow> bool" where
  "dot_inv inp s \<longleftrightarrow> barrier_kind inp = CallSteal \<and> barrier_spec_inv (unat (dot_ranks inp)) (dot_barrier s) \<and>
     (\<forall>t<unat (dot_ranks inp). rank_ok inp s t)"

lemma dot_goto_sel [simp]:
  "local_dot (dot_goto t p s) = local_dot s" "dot_place (dot_goto t p s) = (dot_place s)(t := p)"
  "iteration (dot_goto t p s) = iteration s" "dot (dot_goto t p s) = dot s"
  "dot_barrier (dot_goto t p s) = dot_barrier s"
  by (simp_all add: dot_goto_def)

lemma barrier_moves_sel [simp]:
  "local_dot (enter_barrier t s) = local_dot s" "dot_place (enter_barrier t s) = dot_place s"
  "iteration (enter_barrier t s) = iteration s" "dot (enter_barrier t s) = dot s"
  "local_dot (leave_barrier t s) = local_dot s" "dot_place (leave_barrier t s) = dot_place s"
  "iteration (leave_barrier t s) = iteration s" "dot (leave_barrier t s) = dot s"
  "exits (dot_barrier (enter_barrier t s)) = exits (dot_barrier s)"
  "entries (dot_barrier (leave_barrier t s)) = entries (dot_barrier s)"
  "entries (dot_barrier (enter_barrier t s)) = (entries (dot_barrier s))(t := Suc (entries (dot_barrier s) t))"
  "exits (dot_barrier (leave_barrier t s)) = (exits (dot_barrier s))(t := Suc (exits (dot_barrier s) t))"
  by (simp_all add: enter_barrier_def leave_barrier_def)

lemma may_leave_iff:
  "may_leave n t s \<longleftrightarrow> (\<forall>u<unat n. entries (dot_barrier s) t \<le> entries (dot_barrier s) u)"
  by (auto simp: may_leave_def list_all_iff)

lemma passes_steal: "dot_inv inp s \<Longrightarrow> passes inp t s \<longleftrightarrow> may_leave (dot_ranks inp) t s"
  by (simp add: passes_def dot_inv_def)

lemma dot_invD:
  "dot_inv inp s \<Longrightarrow> barrier_spec_inv (unat (dot_ranks inp)) (dot_barrier s)"
  "dot_inv inp s \<Longrightarrow> t < unat (dot_ranks inp) \<Longrightarrow> rank_ok inp s t"
  by (simp_all add: dot_inv_def)

text \<open>The two barriers of an iteration keep the additions to \<open>local_dot\<close> away from its reading.\<close>

lemma parts_are_whole:
  assumes inv: "dot_inv inp s" and t: "t < unat (dot_ranks inp)" "dot_place s t = Summing k d"
    and u: "u < unat (dot_ranks inp)"
  shows "local_dot s u = whole_part inp u"
proof -
  let ?i = "iteration s t"
  have t': "entries (dot_barrier s) t = 2 * ?i + 1" "exits (dot_barrier s) t = 2 * ?i + 1"
    using dot_invD(2) [OF inv t(1)] t(2) by (auto simp: rank_ok_def Let_def)
  have all: "\<forall>v<unat (dot_ranks inp). \<forall>w<unat (dot_ranks inp). exits (dot_barrier s) v \<le> entries (dot_barrier s) w"
    using dot_invD(1) [OF inv] by (simp add: barrier_spec_inv_def)
  have apart: "exits (dot_barrier s) u \<le> 2 * ?i + 1" "2 * ?i + 1 \<le> entries (dot_barrier s) u"
    using all [rule_format, OF u t(1)] all [rule_format, OF t(1) u] t' by simp_all
  from dot_invD(2) [OF inv u] have ok: "rank_ok inp s u" .
  show ?thesis
    using ok apart by (cases "dot_place s u") (auto simp: rank_ok_def Let_def, presburger+)
qed

lemma rank_ok_other:
  assumes "rank_ok inp s u" and "local_dot s' u = local_dot s u" and "dot_place s' u = dot_place s u"
    and "iteration s' u = iteration s u" and "dot s' u = dot s u"
    and "entries (dot_barrier s') u = entries (dot_barrier s) u" and "exits (dot_barrier s') u = exits (dot_barrier s) u"
  shows "rank_ok inp s' u"
  using assms(1) unfolding rank_ok_def assms(2-7) .

lemma part_Suc:
  assumes "unat (my_start_index (dim_N inp) (dot_ranks inp) (of_nat t)) \<le> j"
  shows "part inp t (Suc j) = part inp t j + vec_X inp ! j * vec_Y inp ! j"
  using assms by (simp add: part_def)

lemma parts_upto_Suc: "parts_upto inp (Suc k) = parts_upto inp k + whole_part inp k"
  by (simp add: parts_upto_def)

lemma u32_Suc: "j < (n :: u32) \<Longrightarrow> unat (j + 1) = Suc (unat j)"
  using unat_less_32 [of n] by (intro unat_plus_one32) (simp add: word_less_nat_alt)

lemma whole_part_reached:
  assumes "unat (my_start_index (dim_N inp) (dot_ranks inp) (of_nat t)) \<le> unat j"
    and "unat j \<le> max (unat (my_start_index (dim_N inp) (dot_ranks inp) (of_nat t)))
                      (unat (my_stop_index (dim_N inp) (dot_ranks inp) (of_nat t)))"
    and "\<not> j < my_stop_index (dim_N inp) (dot_ranks inp) (of_nat t)"
  shows "part inp t (unat j) = whole_part inp t"
proof (cases "unat j = unat (my_stop_index (dim_N inp) (dot_ranks inp) (of_nat t))")
  case False
  with assms have "unat j = unat (my_start_index (dim_N inp) (dot_ranks inp) (of_nat t))"
    "unat (my_stop_index (dim_N inp) (dot_ranks inp) (of_nat t)) \<le> unat j"
    by (auto simp: word_less_nat_alt max_def split: if_splits)
  then show ?thesis by (simp add: whole_part_def part_def)
qed (simp add: whole_part_def)

lemma dot_step:
  assumes inv: "dot_inv inp s" and ev: "dot_event inp t s = Some s'"
  shows "dot_inv inp s'"
proof -
  let ?n = "unat (dot_ranks inp)" and ?b = "dot_barrier s"
  have t: "t < ?n" using ev by (auto simp: Let_def split: if_splits)
  note ok = dot_invD(2) [OF inv]
  note mine = ok [OF t, unfolded rank_ok_def Let_def]
  have others: "rank_ok inp s' u" if "u < ?n" "u \<noteq> t" for u
    by (rule rank_ok_other [OF ok [OF that(1)]])
       (use ev that t in \<open>auto simp: Let_def next_iteration_def split: dot_place.splits if_splits\<close>)
  have bar: "barrier_spec_inv ?n (dot_barrier s')"
  proof -
    have "dot_barrier s' = ?b \<or> dot_barrier s' = ?b\<lparr>entries := (entries ?b)(t := Suc (entries ?b t))\<rparr> \<and> entries ?b t = exits ?b t \<or>
      dot_barrier s' = ?b\<lparr>exits := (exits ?b)(t := Suc (exits ?b t))\<rparr> \<and> entries ?b t = Suc (exits ?b t) \<and>
      (\<forall>u<?n. entries ?b t \<le> entries ?b u)"
      using ev t mine by (auto simp: Let_def next_iteration_def enter_barrier_def leave_barrier_def may_leave_iff passes_steal [OF inv]
          split: dot_place.splits if_splits)
    then show ?thesis
      using dot_invD(1) [OF inv] barrier.step_inv [of ?n ?b] barrier_spec_step.enter [OF t, of ?b]
        barrier_spec_step.leave [OF t, of ?b] by auto
  qed
  have "rank_ok inp s' t"
  proof (cases "dot_place s t")
    case SetZero
    with ev t mine show ?thesis by (auto simp: Let_def rank_ok_def part_def)
  next
    case (Adding j)
    show ?thesis
    proof (cases "j < my_stop_index (dim_N inp) (dot_ranks inp) (of_nat t)")
      case True
      then have "unat j < unat (my_stop_index (dim_N inp) (dot_ranks inp) (of_nat t))" by (simp add: word_less_nat_alt)
      with True Adding ev t mine u32_Suc [OF True] show ?thesis
        by (auto simp: Let_def rank_ok_def part_Suc)
    next
      case False
      with Adding ev t mine whole_part_reached [of inp t j] show ?thesis
        by (auto simp: Let_def rank_ok_def)
    qed
  next
    case AtFirst
    with ev t mine show ?thesis by (auto simp: Let_def rank_ok_def)
  next
    case InFirst
    with ev t mine show ?thesis by (auto simp: Let_def rank_ok_def parts_upto_def split: if_splits)
  next
    case (Summing k d)
    show ?thesis
    proof (cases "k < dot_ranks inp")
      case True
      then have "unat k < ?n" by (simp add: word_less_nat_alt)
      with True Summing ev t mine u32_Suc [OF True] parts_are_whole [OF inv t Summing, of "unat k"] show ?thesis
        by (auto simp: Let_def rank_ok_def parts_upto_Suc)
    next
      case False
      with mine Summing have "unat k = ?n" by (auto simp: word_less_nat_alt)
      with False Summing ev t mine show ?thesis by (auto simp: Let_def rank_ok_def)
    qed
  next
    case AtSecond
    with ev t mine show ?thesis by (auto simp: Let_def rank_ok_def)
  next
    case InSecond
    with ev t mine show ?thesis
      by (auto simp: Let_def rank_ok_def next_iteration_def split: if_splits)
  next
    case Printed
    with ev t show ?thesis by (simp add: Let_def)
  qed
  with others bar inv show ?thesis unfolding dot_inv_def by blast
qed

lemma dot_start_inv: "num_iters inp \<noteq> 0 \<Longrightarrow> barrier_kind inp = CallSteal \<Longrightarrow> dot_inv inp dot_start"
  by (simp add: dot_inv_def dot_start_def rank_ok_def barrier_spec_inv_def barrier_spec_start_def)

interpretation dots: invariant_system "\<lambda>s. num_iters inp \<noteq> 0 \<and> barrier_kind inp = CallSteal \<and> s = dot_start" "step_of (dot_event inp)" "dot_inv inp" for inp
  by unfold_locales (auto simp: dot_start_inv elim!: step_ofE intro: dot_step simp del: dot_event.simps)

section \<open>The parts make up all but the last element\<close>

definition dims_ok :: "'a dot_input \<Rightarrow> bool" where
  "dims_ok inp \<longleftrightarrow> dim_N inp \<noteq> 0 \<and> dot_ranks inp \<noteq> 0 \<and> unat (dim_N inp) + unat (dot_ranks inp) \<le> 2 ^ 32"

lemma chunk_unat:
  assumes "dims_ok inp"
  shows "unat (chunk (dim_N inp) (dot_ranks inp)) =
    (unat (dim_N inp) + unat (dot_ranks inp) - 1) div unat (dot_ranks inp)"
proof -
  let ?N = "dim_N inp" and ?p = "dot_ranks inp"
  have p: "?p \<noteq> 0" "0 < unat ?p" "unat ?N + unat ?p \<le> 2 ^ 32"
    using assms by (auto simp: dims_ok_def unat_gt_0)
  then have "unat ?N + (unat ?p - 1) < 2 ^ 32" by linarith
  with p(1) have sum: "unat (?N + (?p - 1)) = unat ?N + (unat ?p - 1)"
    by (simp add: unat_word_ariths(1) unat_minus_one32)
  have eq: "?N + ?p - 1 = ?N + (?p - 1)" by simp
  have "unat (?N + ?p - 1) = unat ?N + unat ?p - 1" unfolding eq sum using p(2) by simp
  then show ?thesis unfolding chunk_def unat_div by (rule arg_cong)
qed

lemma chunk_covers:
  assumes "dims_ok inp"
  defines "c \<equiv> unat (chunk (dim_N inp) (dot_ranks inp))"
  shows "c * unat (dot_ranks inp) < 2 ^ 32" "unat (dim_N inp) \<le> c * unat (dot_ranks inp)"
proof -
  let ?N = "unat (dim_N inp)" and ?p = "unat (dot_ranks inp)"
  have p: "0 < ?p" "?N + ?p \<le> 2 ^ 32" using assms(1) by (auto simp: dims_ok_def unat_gt_0)
  have c: "c = (?N + ?p - 1) div ?p" unfolding c_def by (rule chunk_unat [OF assms(1)])
  have "c * ?p \<le> ?N + ?p - 1" unfolding c by simp
  with p show "c * ?p < 2 ^ 32" by linarith
  have "?N + ?p - 1 < c * ?p + ?p" unfolding c
    using mod_less_divisor [OF p(1), of "?N + ?p - 1"] div_mult_mod_eq [of "?N + ?p - 1" ?p] by linarith
  then show "?N \<le> c * ?p" by linarith
qed

lemma index_unat:
  assumes "dims_ok inp" and "t < unat (dot_ranks inp)"
  defines "c \<equiv> unat (chunk (dim_N inp) (dot_ranks inp))"
  shows "unat (my_start_index (dim_N inp) (dot_ranks inp) (of_nat t)) = c * t"
    "unat (my_stop_index (dim_N inp) (dot_ranks inp) (of_nat t)) = min (c * Suc t) (unat (dim_N inp) - 1)"
proof -
  let ?c = "chunk (dim_N inp) (dot_ranks inp)" and ?p = "unat (dot_ranks inp)"
  have c: "c * ?p < 2 ^ 32" using chunk_covers [OF assms(1)] by (simp add: c_def)
  have t: "unat (of_nat t :: u32) = t" "unat (of_nat t + 1 :: u32) = Suc t"
    using assms(2) unat_less_32 [of "dot_ranks inp"] by (simp_all add: unat_of_nat32 unat_plus_one32)
  have "c * t \<le> c * ?p" "c * Suc t \<le> c * ?p" using assms(2) by (intro mult_le_mono2; simp)+
  with c have "c * t < 2 ^ 32" "c * Suc t < 2 ^ 32" by linarith+
  then have m: "unat (?c * of_nat t) = c * t" "unat (?c * (of_nat t + 1)) = c * Suc t"
    using t by (simp_all add: unat_word_ariths(2) c_def)
  from m(1) show "unat (my_start_index (dim_N inp) (dot_ranks inp) (of_nat t)) = c * t"
    by (simp add: my_start_index_def)
  have "unat (dim_N inp - 1) = unat (dim_N inp) - 1"
    using assms(1) by (simp add: dims_ok_def unat_minus_one32)
  with m(2) show "unat (my_stop_index (dim_N inp) (dot_ranks inp) (of_nat t)) = min (c * Suc t) (unat (dim_N inp) - 1)"
    by (auto simp: my_stop_index_def word_less_nat_alt)
qed

lemma parts_make_up:
  assumes "dims_ok inp" and "k \<le> unat (dot_ranks inp)"
  shows "parts_upto inp k =
    (\<Sum>i\<leftarrow>[0..<min (unat (chunk (dim_N inp) (dot_ranks inp)) * k) (unat (dim_N inp) - 1)]. vec_X inp ! i * vec_Y inp ! i)"
  using assms(2)
proof (induction k)
  case (Suc k)
  let ?c = "unat (chunk (dim_N inp) (dot_ranks inp))" and ?M = "unat (dim_N inp) - 1"
  have k: "k < unat (dot_ranks inp)" using Suc.prems by simp
  have "whole_part inp k = (\<Sum>i\<leftarrow>[?c * k..<min (?c * Suc k) ?M]. vec_X inp ! i * vec_Y inp ! i)"
    by (simp add: whole_part_def part_def index_unat [OF assms(1) k])
  moreover have "[0..<min (?c * k) ?M] @ [?c * k..<min (?c * Suc k) ?M] = [0..<min (?c * Suc k) ?M]"
  proof (cases "?c * k \<le> ?M")
    case True
    then have "min (?c * k) ?M = ?c * k" "?c * k \<le> min (?c * Suc k) ?M" by simp_all
    then show ?thesis using upt_add_eq_append [of 0 "?c * k" "min (?c * Suc k) ?M - ?c * k"] by simp
  next
    case False
    then have "min (?c * k) ?M = ?M" "min (?c * Suc k) ?M = ?M" "[?c * k..<?M] = []" by simp_all
    then show ?thesis by simp
  qed
  ultimately show ?case
    using Suc by (simp add: parts_upto_Suc flip: sum_list_append map_append)
qed (simp add: parts_upto_def)

lemma all_but_last:
  assumes "dims_ok inp"
  shows "parts_upto inp (unat (dot_ranks inp)) = (\<Sum>i\<leftarrow>[0..<unat (dim_N inp) - 1]. vec_X inp ! i * vec_Y inp ! i)"
  using parts_make_up [OF assms order_refl] chunk_covers(2) [OF assms] by (simp add: min_def split: if_splits)

section \<open>Steps that are left\<close>

definition iter_cost :: "'a dot_input \<Rightarrow> nat \<Rightarrow> nat" where
  "iter_cost inp t = unat (my_stop_index (dim_N inp) (dot_ranks inp) (of_nat t)) -
     unat (my_start_index (dim_N inp) (dot_ranks inp) (of_nat t)) + unat (dot_ranks inp) + 7"

fun place_cost :: "'a dot_input \<Rightarrow> nat \<Rightarrow> 'a dot_place \<Rightarrow> nat" where
  "place_cost inp t SetZero = iter_cost inp t"
| "place_cost inp t (Adding j) =
     unat (my_stop_index (dim_N inp) (dot_ranks inp) (of_nat t)) - unat j + unat (dot_ranks inp) + 6"
| "place_cost inp t AtFirst = unat (dot_ranks inp) + 5"
| "place_cost inp t InFirst = unat (dot_ranks inp) + 4"
| "place_cost inp t (Summing k d) = unat (dot_ranks inp) - unat k + 3"
| "place_cost inp t AtSecond = 2"
| "place_cost inp t InSecond = 1"
| "place_cost inp t Printed = 0"

definition rank_left :: "'a dot_input \<Rightarrow> 'a dot_sys \<Rightarrow> nat \<Rightarrow> nat" where
  "rank_left inp s t = place_cost inp t (dot_place s t) + (num_iters inp - Suc (iteration s t)) * iter_cost inp t"

definition dot_left :: "'a dot_input \<Rightarrow> 'a dot_sys \<Rightarrow> nat" where
  "dot_left inp s = (\<Sum>t<unat (dot_ranks inp). rank_left inp s t)"

lemma rank_left_step:
  assumes inv: "dot_inv inp s" and ev: "dot_event inp t s = Some s'"
  shows "rank_left inp s t = Suc (rank_left inp s' t)"
proof -
  have t: "t < unat (dot_ranks inp)" using ev by (auto simp: Let_def split: if_splits)
  note mine = dot_invD(2) [OF inv t, unfolded rank_ok_def Let_def]
  show ?thesis
  proof (cases "dot_place s t")
    case SetZero
    with ev t show ?thesis by (auto simp: Let_def rank_left_def iter_cost_def)
  next
    case (Adding j)
    with ev t u32_Suc [of j] show ?thesis
      by (auto simp: Let_def rank_left_def word_less_nat_alt split: if_splits)
  next
    case (Summing k d)
    with ev t u32_Suc [of k] mine show ?thesis
      by (auto simp: Let_def rank_left_def word_less_nat_alt split: if_splits)
  next
    case InSecond
    with ev t mine obtain m where "num_iters inp = Suc (iteration s t) + m" by (auto dest: less_imp_Suc_add)
    with InSecond ev t show ?thesis
      by (cases m) (auto simp: Let_def rank_left_def next_iteration_def split: if_splits)
  qed (use ev t in \<open>auto simp: Let_def rank_left_def split: if_splits\<close>)
qed

lemma dot_left_step:
  assumes inv: "dot_inv inp s" and ev: "dot_event inp t s = Some s'"
  shows "dot_left inp s = Suc (dot_left inp s')"
proof -
  let ?n = "unat (dot_ranks inp)"
  have t: "t < ?n" using ev by (auto simp: Let_def split: if_splits)
  have same: "rank_left inp s' u = rank_left inp s u" if "u \<noteq> t" for u
    using ev that t by (auto simp: Let_def rank_left_def next_iteration_def split: dot_place.splits if_splits)
  have "dot_left inp s = rank_left inp s t + (\<Sum>u\<in>{..<?n} - {t}. rank_left inp s u)"
    unfolding dot_left_def using t by (simp add: sum.remove)
  also have "\<dots> = Suc (rank_left inp s' t) + (\<Sum>u\<in>{..<?n} - {t}. rank_left inp s' u)"
    using same rank_left_step [OF inv ev] by simp
  also have "\<dots> = Suc (dot_left inp s')"
    unfolding dot_left_def using t by (simp add: sum.remove)
  finally show ?thesis .
qed

lemma dot_run_length:
  "dot_inv inp s \<Longrightarrow> run_events (dot_event inp) es s = Some s' \<Longrightarrow> length es + dot_left inp s' = dot_left inp s"
proof (induction es arbitrary: s)
  case (Cons t es)
  then obtain s1 where s1: "dot_event inp t s = Some s1" "run_events (dot_event inp) es s1 = Some s'"
    by (auto split: option.splits simp del: dot_event.simps)
  from Cons.IH [OF dot_step [OF Cons.prems(1) s1(1)] s1(2)] dot_left_step [OF Cons.prems(1) s1(1)] show ?case by simp
qed simp

lemma dot_left_start:
  assumes "dims_ok inp" and "num_iters inp \<noteq> 0"
  shows "dot_left inp dot_start =
    num_iters inp * (unat (dim_N inp) - 1 + unat (dot_ranks inp) * (unat (dot_ranks inp) + 7))"
proof -
  let ?c = "unat (chunk (dim_N inp) (dot_ranks inp))" and ?M = "unat (dim_N inp) - 1" and ?n = "unat (dot_ranks inp)"
  have sum: "(\<Sum>t<k. iter_cost inp t) = min (?c * k) ?M + k * (?n + 7)" if "k \<le> ?n" for k
    using that
  proof (induction k)
    case (Suc k)
    then have k: "k < ?n" by simp
    have "iter_cost inp k = (min (?c * Suc k) ?M - ?c * k) + (?n + 7)"
      by (simp add: iter_cost_def index_unat [OF assms(1) k])
    moreover have "min (?c * k) ?M + (min (?c * Suc k) ?M - ?c * k) = min (?c * Suc k) ?M"
      using mult_le_mono2 [of k "Suc k" ?c] by linarith
    ultimately show ?case using Suc by simp
  qed simp
  obtain m where m: "num_iters inp = Suc m" using assms(2) by (cases "num_iters inp") auto
  have "rank_left inp dot_start t = num_iters inp * iter_cost inp t" for t
    by (simp add: rank_left_def dot_start_def m)
  then have "dot_left inp dot_start = num_iters inp * (\<Sum>t<?n. iter_cost inp t)"
    by (simp add: dot_left_def sum_distrib_left)
  then show ?thesis using sum [OF order_refl] chunk_covers(2) [OF assms(1)] by (simp add: min_def split: if_splits)
qed

text \<open>As long as somebody has not printed, somebody can move.\<close>

lemma dot_progress:
  assumes inv: "dot_inv inp s" and t: "t < unat (dot_ranks inp)" "dot_place s t \<noteq> Printed"
  shows "\<exists>u. dot_event inp u s \<noteq> None"
proof -
  let ?n = "unat (dot_ranks inp)" and ?e = "entries (dot_barrier s)"
  define inside where "inside = {u. u < ?n \<and> (dot_place s u = InFirst \<or> dot_place s u = InSecond)}"
  show ?thesis
  proof (cases "\<exists>u<?n. u \<notin> inside \<and> dot_place s u \<noteq> Printed")
    case True
    then obtain u where "u < ?n" "dot_place s u \<noteq> InFirst" "dot_place s u \<noteq> InSecond" "dot_place s u \<noteq> Printed"
      by (auto simp: inside_def)
    then show ?thesis by (intro exI [of _ u]) (cases "dot_place s u"; simp add: Let_def)
  next
    case False
    then have "t \<in> inside" using t by blast
    moreover have "finite inside" by (simp add: inside_def)
    ultimately obtain u where u: "u \<in> inside" "\<forall>v\<in>inside. ?e u \<le> ?e v"
      using ex_min_if_finite [of "?e ` inside"] by (metis (no_types, lifting) arg_min_if_finite(1) arg_min_least empty_iff)
    have un: "u < ?n" using u(1) by (simp add: inside_def)
    have "?e u \<le> ?e v" if v: "v < ?n" for v
    proof (cases "v \<in> inside")
      case False
      with \<open>\<not> (\<exists>u<?n. u \<notin> inside \<and> dot_place s u \<noteq> Printed)\<close> v have "dot_place s v = Printed" by blast
      with dot_invD(2) [OF inv v] have "?e v = 2 * num_iters inp" by (simp add: rank_ok_def Let_def)
      moreover have "?e u \<le> 2 * num_iters inp"
        using dot_invD(2) [OF inv un] u(1) by (auto simp: rank_ok_def Let_def inside_def)
      ultimately show ?thesis by simp
    qed (use u(2) in blast)
    then have "passes inp u s" by (simp add: may_leave_iff passes_steal [OF inv])
    with u(1) show ?thesis by (intro exI [of _ u]) (auto simp: inside_def Let_def)
  qed
qed

section \<open>Properties\<close>

text \<open>
  C40: with the work-stealing barrier the tasks of the group compute the dot product of all
  elements but the last. In every
  interleaving each task that has come to its end prints the sum over all indices below
  \<open>N - 1\<close>, since the last part ends at \<open>N - 1\<close> instead of \<open>N\<close>; the tasks agree, no run has more
  steps than \<open>NUM_ITERS\<close> times \<open>N - 1 + size * (size + 7)\<close>, and until all have printed one of
  them can move.
\<close>

theorem dot_product_misses_last:
  assumes "run_events (dot_event inp) es dot_start = Some s" and "dims_ok inp" and "num_iters inp \<noteq> 0"
    and "barrier_kind inp = CallSteal"
  shows "length es \<le> num_iters inp * (unat (dim_N inp) - 1 + unat (dot_ranks inp) * (unat (dot_ranks inp) + 7)) \<and>
    ((\<exists>t<unat (dot_ranks inp). dot_place s t \<noteq> Printed) \<longrightarrow> (\<exists>t. dot_event inp t s \<noteq> None)) \<and>
    (\<forall>t<unat (dot_ranks inp). dot_place s t = Printed \<longrightarrow>
       dot s t = (\<Sum>i\<leftarrow>[0..<unat (dim_N inp) - 1]. vec_X inp ! i * vec_Y inp ! i))"
proof (intro conjI impI allI)
  have start: "dot_inv inp dot_start" by (rule dot_start_inv [OF assms(3,4)])
  have inv: "dot_inv inp s" using dots.steps_inv [OF run_events_reaches [OF assms(1)] start] .
  show "length es \<le> num_iters inp * (unat (dim_N inp) - 1 + unat (dot_ranks inp) * (unat (dot_ranks inp) + 7))"
    using dot_run_length [OF start assms(1)] dot_left_start [OF assms(2,3)] by simp
  show "\<exists>t. dot_event inp t s \<noteq> None" if "\<exists>t<unat (dot_ranks inp). dot_place s t \<noteq> Printed"
    using that dot_progress [OF inv] by blast
  show "dot s t = (\<Sum>i\<leftarrow>[0..<unat (dim_N inp) - 1]. vec_X inp ! i * vec_Y inp ! i)"
    if "t < unat (dot_ranks inp)" "dot_place s t = Printed" for t
    using dot_invD(2) [OF inv that(1)] that(2) assms(3) all_but_last [OF assms(2)] by (simp add: rank_ok_def Let_def)
qed

text \<open>Two tasks, one iteration: the sum of 1 * 5, 2 * 6, 3 * 7 without 4 * 8.\<close>

definition four_elements :: "int dot_input" where
  "four_elements = \<lparr>num_iters = 1, dim_N = 4, dot_ranks = 2, barrier_kind = CallSteal, vec_X = [1, 2, 3, 4], vec_Y = [5, 6, 7, 8]\<rparr>"

definition dot_run :: "nat list" where
  "dot_run = [0, 1, 0, 1, 0, 1, 0, 1, 0, 1, 0, 0, 1, 0, 1, 0, 1, 0, 1, 0, 1]"

theorem dot_product_misses_last_witness:
  "case run_events (dot_event four_elements) dot_run dot_start of None \<Rightarrow> False
   | Some s \<Rightarrow> length dot_run \<le> 21 \<and> dot s 0 = 5 + 12 + 21 \<and> dot s 1 = 38"
proof -
  have "case run_events (dot_event four_elements) dot_run dot_start of None \<Rightarrow> False
    | Some s \<Rightarrow> dot_place s 0 = Printed \<and> dot_place s 1 = Printed" by code_simp
  then obtain s where s: "run_events (dot_event four_elements) dot_run dot_start = Some s"
    "dot_place s 0 = Printed" "dot_place s 1 = Printed" by (auto split: option.splits)
  have "dims_ok four_elements" "num_iters four_elements \<noteq> 0" "barrier_kind four_elements = CallSteal" by (simp_all add: dims_ok_def four_elements_def)
  note all = dot_product_misses_last [OF s(1) this]
  have "length dot_run \<le> 21" using all by (simp add: four_elements_def)
  moreover have "dot s t = 38" if "t < 2" "dot_place s t = Printed" for t
    using all that by (simp add: four_elements_def upt_rec)
  ultimately show ?thesis using s by simp
qed

section \<open>The three runs of \<open>main\<close>\<close>

text \<open>The same group, with each type of barrier; both tasks of a run join and leave it.\<close>

definition def_group :: "barrier_type \<Rightarrow> group" where
  "def_group b = group_set_barrier (barrier_code b) (group_set_size 2 (group_set_id 1234 group_default))"

definition groups_input :: "barrier_type \<Rightarrow> 'a list \<Rightarrow> 'a list \<Rightarrow> 'a dot_input" where
  "groups_input b X Y =
     \<lparr>num_iters = 1000, dim_N = 100000, dot_ranks = group_get_size (def_group b),
      barrier_kind = group_barrier (def_group b), vec_X = X, vec_Y = Y\<rparr>"

lemma groups_input_facts:
  "dims_ok (groups_input b X Y)" "num_iters (groups_input b X Y) \<noteq> 0"
  "barrier_kind (groups_input b X Y) =
     (case b of BARRIER_SPIN \<Rightarrow> CallSpin | BARRIER_WAIT \<Rightarrow> NoBarrier | BARRIER_STEAL \<Rightarrow> CallSteal)"
  by (cases b; simp add: groups_input_def dims_ok_def def_group_def group_barrier_def group_get_size_def
      group_set_barrier_def group_set_size_def group_set_id_def group_default_def)+

text \<open>The ranks of the two tasks are 0 and 1 in each run, since those of the run before have left.\<close>

lemma ranks_again:
  assumes "rank_token g = 0"
  shows "fst (join_all 2 g) = [0, 1]" "rank_token (leave_group (leave_group (snd (join_all 2 g)))) = 0"
  using assms by (simp_all add: numeral_2_eq_2 join_group_def leave_group_def pfunc_fetch_and_add_32_def lock_xadd_def)

text \<open>
  The second run asks for \<open>BARRIER_WAIT\<close>, which the documentation describes as sleeping until the
  barrier is satisfied. \<open>barrier\<close> does nothing for it: a task can go through both barriers and print
  a result before another has begun to add.
\<close>

definition without_barrier :: "int dot_input" where
  "without_barrier = four_elements\<lparr>barrier_kind := group_barrier (def_group BARRIER_WAIT)\<rparr>"

theorem barrier_wait_does_not_wait:
  "\<exists>s. run_events (dot_event without_barrier) (replicate 11 0) dot_start = Some s \<and>
     dot_place s 0 = Printed \<and> dot s 0 = 5 + 12 \<and> dot_place s 1 = SetZero"
proof -
  have "case run_events (dot_event without_barrier) (replicate 11 0) dot_start of None \<Rightarrow> False
    | Some s \<Rightarrow> dot_place s 0 = Printed \<and> dot s 0 = 5 + 12 \<and> dot_place s 1 = SetZero" by code_simp
  then show ?thesis by (auto split: option.splits)
qed

end
