(* ===== verification/Programs.thy ===== *)
theory Programs
  imports Reductions Matmult Fibonacci Traversal Api Utilities
begin

text \<open>
  The functions \<open>main\<close> of the examples in \<^verbatim>\<open>examples/cxx\<close>: what they make of their arguments, and
  the task manager and root task they start with. Arguments are strings, \<open>argv\<close> is the list of
  the first \<open>argc\<close> entries. \<open>memory\<close> says whether an array of so many bytes can be allocated. What
  is printed, the time and the random numbers in the vectors are left out.
\<close>

section \<open>Arguments\<close>

text \<open>
  \<open>atoi\<close> of the C library: white space, a sign, digits; the rest is ignored. The result is
  undefined if it does not fit into an \<open>int\<close>.
\<close>

definition digits :: string where
  "digits = ''0123456789''"

fun digits_value :: "int \<Rightarrow> string \<Rightarrow> int" where
  "digits_value acc [] = acc"
| "digits_value acc (c # cs) = (if c \<in> set digits then digits_value (acc * 10 + (of_char c - 48)) cs else acc)"

definition white_space :: string where
  "white_space = [CHR '' '', CHR 0x09, CHR 0x0A, CHR 0x0B, CHR 0x0C, CHR 0x0D]"

definition signed_value :: "string \<Rightarrow> int" where
  "signed_value s =
     (case s of
        [] \<Rightarrow> 0
      | c # cs \<Rightarrow> if c = CHR ''-'' then - digits_value 0 cs
                  else if c = CHR ''+'' then digits_value 0 cs else digits_value 0 s)"

definition atoi :: "string \<Rightarrow> int option" where
  "atoi s =
     (let n = signed_value (dropWhile (\<lambda>c. c \<in> set white_space) s)
      in if - (2 ^ 31) \<le> n \<and> n < 2 ^ 31 then Some n else None)"

text \<open>A number as it is typed.\<close>

fun decimal :: "nat \<Rightarrow> string" where
  "decimal n = (if n < 10 then [digits ! n] else decimal (n div 10) @ [digits ! (n mod 10)])"

declare decimal.simps [simp del]

lemma digit_facts:
  assumes "d < 10"
  shows "digits ! d \<in> set digits" "(of_char (digits ! d) :: int) = 48 + int d"
    "digits ! d \<notin> set white_space" "digits ! d \<noteq> CHR ''-''" "digits ! d \<noteq> CHR ''+''"
proof -
  have "list_all (\<lambda>d. digits ! d \<in> set digits \<and> (of_char (digits ! d) :: int) = 48 + int d \<and>
      digits ! d \<notin> set white_space \<and> digits ! d \<noteq> CHR ''-'' \<and> digits ! d \<noteq> CHR ''+'') [0..<10]" by code_simp
  then show "digits ! d \<in> set digits" "(of_char (digits ! d) :: int) = 48 + int d"
    "digits ! d \<notin> set white_space" "digits ! d \<noteq> CHR ''-''" "digits ! d \<noteq> CHR ''+''"
    using assms by (simp_all add: list_all_iff)
qed

lemma digits_value_append:
  "set xs \<subseteq> set digits \<Longrightarrow> digits_value acc (xs @ ys) = digits_value (digits_value acc xs) ys"
  by (induction xs arbitrary: acc) auto

lemma decimal_facts:
  "set (decimal n) \<subseteq> set digits \<and> digits_value 0 (decimal n) = int n \<and> (\<exists>d cs. decimal n = digits ! d # cs \<and> d < 10)"
proof (induction n rule: decimal.induct)
  case (1 n)
  show ?case
  proof (cases "n < 10")
    case True
    then have "decimal n = [digits ! n]" by (simp add: decimal.simps [of n])
    with digit_facts [OF True] True show ?thesis by auto
  next
    case False
    have d: "decimal n = decimal (n div 10) @ [digits ! (n mod 10)]" using False by (simp add: decimal.simps [of n])
    from 1 [OF False] obtain x cs where IH: "set (decimal (n div 10)) \<subseteq> set digits"
      "digits_value 0 (decimal (n div 10)) = int (n div 10)" "decimal (n div 10) = digits ! x # cs" "x < 10" by blast
    have last: "n mod 10 < 10" by simp
    note digit = digit_facts [OF last]
    have "int (n div 10) * 10 + int (n mod 10) = int n" by presburger
    then have "digits_value 0 (decimal n) = int n"
      using IH(1,2) digit(1,2) by (simp add: d digits_value_append)
    moreover have "set (decimal n) \<subseteq> set digits" using IH(1) digit(1) by (simp add: d)
    moreover have "\<exists>x cs. decimal n = digits ! x # cs \<and> x < 10" using IH(3,4) by (auto simp: d)
    ultimately show ?thesis by blast
  qed
qed

text \<open>A number that is typed is read back, if it is small enough.\<close>

lemma atoi_decimal [simp]: "n < 2 ^ 31 \<Longrightarrow> atoi (decimal n) = Some (int n)"
proof -
  assume small: "n < 2 ^ 31"
  from decimal_facts [of n] obtain d cs where
    n: "digits_value 0 (decimal n) = int n" "decimal n = digits ! d # cs" "d < 10" by blast
  have "dropWhile (\<lambda>c. c \<in> set white_space) (decimal n) = decimal n" using digit_facts [OF n(3)] by (simp add: n(2))
  moreover have "signed_value (decimal n) = int n"
    using digit_facts [OF n(3)] n(1) by (simp add: signed_value_def n(2))
  moreover have "int n < 2 ^ 31" using small by simp
  ultimately show ?thesis by (simp add: atoi_def)
qed

section \<open>What becomes of a program\<close>

text \<open>
  It exits with a code, dies of an exception or a failed assertion, has no defined behaviour,
  goes on for ever, or starts its root task from a configuration.
\<close>

datatype 'c launch = ExitCode int | Dies | Undefined | Hangs | Go 'c

text \<open>\<open>argv[argc]\<close> is \<open>NULL\<close>, on which \<open>atoi\<close> is undefined.\<close>

definition arg_int :: "string list \<Rightarrow> nat \<Rightarrow> (int \<Rightarrow> 'c launch) \<Rightarrow> 'c launch" where
  "arg_int argv i next =
     (if i < length argv then case atoi (argv ! i) of None \<Rightarrow> Undefined | Some n \<Rightarrow> next n else Undefined)"

text \<open>
  The array with the number of threads of each queue. \<open>for (int i=0; i<nqueues; ++i)\<close> overflows
  if there are \<open>2 ^ 31\<close> queues or more, as a negative argument asks for.
\<close>

definition make_queues :: "(nat \<Rightarrow> bool) \<Rightarrow> int \<Rightarrow> int \<Rightarrow> (u32 list \<Rightarrow> 'c launch) \<Rightarrow> 'c launch" where
  "make_queues memory q t next =
     (let nqueues = (word_of_int q :: u32) in
      if \<not> memory (4 * unat nqueues) then Dies
      else if 2 ^ 31 \<le> uint nqueues then Undefined
      else next (replicate (unat nqueues) (word_of_int t)))"

text \<open>\<open>std::vector<double> (n)\<close>: a negative \<open>n\<close> is a length beyond the greatest possible one.\<close>

definition make_vector :: "(nat \<Rightarrow> bool) \<Rightarrow> int \<Rightarrow> 'c launch \<Rightarrow> 'c launch" where
  "make_vector memory n next = (if n < 0 \<or> \<not> memory (8 * nat n) then Dies else next)"

lemma arg_decimal [simp]:
  "i < length argv \<Longrightarrow> argv ! i = decimal n \<Longrightarrow> n < 2 ^ 31 \<Longrightarrow> arg_int argv i next = next (int n)"
  by (simp add: arg_int_def)

lemma make_queues_small [simp]:
  "q < 2 ^ 31 \<Longrightarrow> make_queues memory (int q) t next =
     (if memory (4 * q) then next (replicate q (word_of_int t)) else Dies)"
proof -
  assume q: "q < 2 ^ 31"
  then have "unat (of_nat q :: u32) = q" by (intro unat_of_nat32) simp
  then have "uint (of_nat q :: u32) = int q" by (metis uint_nat)
  with q show ?thesis by (simp add: make_queues_def Let_def unat_of_nat32)
qed

lemma make_vector_nat [simp]: "make_vector memory (int n) next = (if memory (8 * n) then next else Dies)"
  by (simp add: make_vector_def)

section \<open>The root task\<close>

text \<open>
  The task manager of a program, with its root task in task 0, and the spawn from the main
  thread, with an attribute that is neither nested nor grouped. The policy is \<open>cilkS\<close>.
\<close>

definition program_manager :: "u32 list \<Rightarrow> nat taskmgr" where
  "program_manager thds = taskmgr_make 0 0 thds None (\<lambda>_. task_default 0) (\<lambda>_. group_default)"

definition launch_root :: "u32 list \<Rightarrow> (unit result \<times> nat taskmgr) option" where
  "launch_root thds =
     api_spawn_attr CilkS (sum_threads thds) 0 (attribute_make 0 False False) 0 (program_manager thds)"

section \<open>The loops\<close>

record loop_config =
  elements :: nat
  base_case :: u64
  thread_counts :: "u32 list"
  please_print :: bool

text \<open>\<^verbatim>\<open>for.cpp\<close>; the factor is the third argument.\<close>

definition for_main :: "(nat \<Rightarrow> bool) \<Rightarrow> string list \<Rightarrow> loop_config launch" where
  "for_main memory argv =
     (if length argv \<noteq> 7 then ExitCode 3
      else arg_int argv 1 (\<lambda>n. arg_int argv 2 (\<lambda>chunk_size.
        if n < chunk_size then ExitCode 3
        else arg_int argv 4 (\<lambda>q. arg_int argv 5 (\<lambda>t. make_queues memory q t (\<lambda>thds.
          arg_int argv 6 (\<lambda>print. make_vector memory n
            (Go \<lparr>elements = nat n, base_case = word_of_int chunk_size, thread_counts = thds,
                 please_print = (print \<noteq> 0)\<rparr>))))))))"

definition for_root :: "loop_config \<Rightarrow> space_1D loop" where
  "for_root c = Iterate (space_1D_make (base_case c) 0 (of_nat (elements c)))"

text \<open>\<^verbatim>\<open>reduce.cpp\<close>\<close>

definition reduce_main :: "(nat \<Rightarrow> bool) \<Rightarrow> string list \<Rightarrow> loop_config launch" where
  "reduce_main memory argv =
     (if length argv \<noteq> 6 then ExitCode 3
      else arg_int argv 1 (\<lambda>n. arg_int argv 2 (\<lambda>chunk_size.
        if n < chunk_size then ExitCode 3
        else arg_int argv 3 (\<lambda>q. arg_int argv 4 (\<lambda>t. make_queues memory q t (\<lambda>thds.
          arg_int argv 5 (\<lambda>print. make_vector memory n
            (Go \<lparr>elements = nat n, base_case = word_of_int chunk_size, thread_counts = thds,
                 please_print = (print \<noteq> 0)\<rparr>))))))))"

definition reduce_root :: "loop_config \<Rightarrow> (space_1D, 'v::monoid_add) reduction" where
  "reduce_root c = Reduce (space_1D_make (base_case c) 0 (of_nat (elements c))) 0"

section \<open>The other programs\<close>

text \<open>
  \<^verbatim>\<open>matmult.cpp\<close>: \<open>assertions\<close> says whether \<open>assert\<close> is compiled in. The product of the dimensions
  is an \<open>int\<close>.
\<close>

record matmult_config =
  problem_dim :: nat
  problem_base_case_dim :: int
  matmult_threads :: "u32 list"

definition matmult_main :: "bool \<Rightarrow> (nat \<Rightarrow> bool) \<Rightarrow> string list \<Rightarrow> matmult_config launch" where
  "matmult_main assertions memory argv =
     (if length argv \<noteq> 6 then ExitCode 3
      else arg_int argv 1 (\<lambda>n.
        case get_closest_power_of_2 (word_of_int n) of
          None \<Rightarrow> Hangs
        | Some d \<Rightarrow> arg_int argv 2 (\<lambda>x.
            if assertions \<and> sint d < x then Dies
            else arg_int argv 3 (\<lambda>q. arg_int argv 4 (\<lambda>t. make_queues memory q t (\<lambda>thds.
              arg_int argv 5 (\<lambda>print.
                if 2 ^ 31 \<le> sint d * sint d then Undefined
                else make_vector memory (sint d * sint d)
                  (make_vector memory (sint d * sint d)
                    (make_vector memory (sint d * sint d)
                      (Go \<lparr>problem_dim = nat (sint d), problem_base_case_dim = x, matmult_threads = thds\<rparr>))))))))))"

text \<open>\<^verbatim>\<open>fibonacci.cpp\<close>: a wrong number of arguments is noticed, and nothing follows from it.\<close>

definition fib_main :: "(nat \<Rightarrow> bool) \<Rightarrow> string list \<Rightarrow> (u32 list \<times> fib_task) launch" where
  "fib_main memory argv =
     arg_int argv 1 (\<lambda>q.
       let num_queues = (word_of_int q :: u32) in
       if \<not> memory (4 * unat num_queues) then Dies
       else if num_queues = 0
       then arg_int argv 3 (\<lambda>n. Go ([], Call n))
       else arg_int argv 2 (\<lambda>t. arg_int argv 3 (\<lambda>n.
              Go (replicate (unat num_queues) (word_of_int t), Call n))))"

text \<open>
  \<^verbatim>\<open>while.cpp\<close>: \<open>file\<close> gives the commands that the parser recognises in a file, \<open>None\<close> if it
  cannot be opened.
\<close>

definition while_main :: "(nat \<Rightarrow> bool) \<Rightarrow> (string \<Rightarrow> dot_command list option) \<Rightarrow> string list \<Rightarrow>
    (u32 list \<times> dag \<times> traversal) launch" where
  "while_main memory file argv =
     (if length argv \<noteq> 6 then ExitCode 3
      else arg_int argv 2 (\<lambda>start. arg_int argv 3 (\<lambda>q. arg_int argv 4 (\<lambda>t. make_queues memory q t (\<lambda>thds.
        arg_int argv 5 (\<lambda>print.
          case file (argv ! 1) of
            None \<Rightarrow> ExitCode 3
          | Some commands \<Rightarrow>
              (case read_dot commands empty_dag of
                 None \<Rightarrow> Undefined
               | Some g \<Rightarrow>
                   if \<not> memory (nat (num_vertices g)) then Dies
                   else case start_traversal start g of
                     None \<Rightarrow> ExitCode 3
                   | Some s \<Rightarrow> Go (thds, g, s))))))))"

section \<open>Runs of the loops\<close>

lemma unat_elements: "n < 2 ^ 31 \<Longrightarrow> unat (of_nat n :: u64) = n"
  by (rule unat_of_nat64) simp

lemma vector_scale_commutes:
  "i \<noteq> j \<Longrightarrow> vector_scale x i (vector_scale x j v) = vector_scale x j (vector_scale x i v)"
  by (auto simp: vector_scale_def list_update_swap word_unat_eq_iff)

lemma vector_scale_all:
  fixes v :: "'v::times list"
  assumes "length v < 2 ^ 64" and "k \<le> length v"
  shows "fold (vector_scale x) (map of_nat [0..<k]) v = map (\<lambda>a. a * x) (take k v) @ drop k v"
  using assms(2)
proof (induction k)
  case (Suc k)
  have "unat (of_nat k :: u64) = k" using Suc.prems assms(1) by (intro unat_of_nat64) linarith
  with Suc show ?case
    by (simp add: vector_scale_def list_update_append take_Suc_conv_app_nth nth_append flip: Cons_nth_drop_Suc)
qed simp

text \<open>
  A base case of 0 and no elements: the space is not split, and the loop ends after one call. So
  the loops end in as many steps as there are elements, times five and one, unless the base case
  is 0 and there is an element.
\<close>

lemma for_runs:
  fixes v :: "'v::times list"
  assumes "n < 2 ^ 31" and "length v = n" and "base \<noteq> 0 \<or> n = 0"
    and run: "run_events (pf_event (space_1D_ops base) (\<lambda>s. fold (vector_scale x) (space_1D_points s))) es
      (Iterate (space_1D_make base 0 (of_nat n)), v) = Some (q, w)"
  shows "length es \<le> 5 * n + 1 \<and>
    (q \<noteq> Finished \<longrightarrow> (\<exists>e. pf_event (space_1D_ops base) (\<lambda>s. fold (vector_scale x) (space_1D_points s)) e (q, w) \<noteq> None)) \<and>
    (q = Finished \<longrightarrow> w = map (\<lambda>a. a * x) v)"
proof (cases "base = 0")
  case False
  let ?s = "space_1D_make base 0 (of_nat n)"
  have n: "unat (of_nat n :: u64) = n" by (rule unat_elements [OF assms(1)])
  have ok: "space_1D_ok base ?s" using False by simp
  have pts: "space_1D_points ?s = map of_nat [0..<n]" using n by (simp add: space_1D_make_points)
  note * = s1.parallel_for_sequential [OF run ok space_1D_points_distinct vector_scale_commutes]
  have "fold (vector_scale x) (map of_nat [0..<n]) v = map (\<lambda>a. a * x) v"
    using vector_scale_all [of v n x] assms(1,2) by simp
  with *(1) *(2) *(3) show ?thesis by (simp add: pts)
next
  case True
  with assms have v: "n = 0" "v = []" by auto
  have none: "pf_event S f e (Finished, m) = None" for S e and f :: "space_1D \<Rightarrow> 'v list \<Rightarrow> 'v list" and m
    by (cases e) auto
  have here: "pf_event (space_1D_ops 0) (\<lambda>s. fold (vector_scale x) (space_1D_points s)) e
      (Iterate (space_1D_make 0 0 0), []) = (if e = Here then Some (Finished, []) else None)" for e
    by (cases e) (simp_all add: space_1D_make_def space_1D_points_def)
  from run v True have "(es = [] \<and> q = Iterate (space_1D_make 0 0 0) \<or> es = [Here] \<and> q = Finished) \<and> w = []"
    by (cases es; cases "tl es") (auto simp: here none split: if_splits)
  with v True here show ?thesis by auto
qed

lemma for_endless:
  assumes "0 < n" and "n < 2 ^ 31"
    and "run_events (pf_event (space_1D_ops 0) f) es (Iterate (space_1D_make 0 0 (of_nat n)), v) = Some (q, w)"
  shows "q \<noteq> Finished"
proof -
  have "(0 :: u64) < of_nat n" using assms(1) unat_elements [OF assms(2)] by (simp add: word_less_nat_alt)
  then have "loop_any endless (Iterate (space_1D_make 0 0 (of_nat n)))" by (auto simp: endless_def)
  from endless_run [OF assms(3) this] show ?thesis by auto
qed

lemma reduce_runs:
  fixes v :: "'v::monoid_add list"
  assumes "n < 2 ^ 31" and "length v = n"
    and run: "run_events (pr_event (space_1D_ops base) (accumulate_ops v)) es
      (Reduce (space_1D_make base 0 (of_nat n)) 0) = Some q"
  shows "if base = 0 \<and> 0 < n then \<nexists>r. q = Reduced r
    else length es \<le> 5 * n + 1 \<and>
      ((\<nexists>r. q = Reduced r) \<longrightarrow> (\<exists>e. pr_event (space_1D_ops base) (accumulate_ops v) e q \<noteq> None)) \<and>
      (\<forall>r. q = Reduced r \<longrightarrow> r = sum_list v)"
proof (cases "base = 0")
  case False
  let ?s = "space_1D_make base 0 (of_nat n)"
  have n: "unat (of_nat n :: u64) = n" by (rule unat_elements [OF assms(1)])
  have ok: "space_1D_ok base ?s" using False by simp
  note * = acc.reduce_sequential [OF run ok]
  have "map (\<lambda>i. v ! unat i) (space_1D_points ?s) = map (\<lambda>i. v ! unat (of_nat i :: u64)) [0..<n]"
    by (simp add: space_1D_make_points n comp_def)
  also have "\<dots> = map (nth v) [0..<n]"
    using assms(1) by (intro map_cong refl) (auto simp: unat_elements)
  also have "\<dots> = v" using assms(2) map_nth [of v] by simp
  finally have "map (\<lambda>i. v ! unat i) (space_1D_points ?s) = v" .
  with * False n show ?thesis by (simp add: space_1D_make_points fold_accumulate)
next
  case True
  have sk: "run_events (pf_event (space_1D_ops 0) (\<lambda>s m. m)) es (Iterate (space_1D_make 0 0 (of_nat n)), ()) =
      Some (skeleton q, ())" using skeleton_run [OF run, of "()"] True by simp
  show ?thesis
  proof (cases "n = 0")
    case False
    with for_endless [OF _ assms(1) sk] True show ?thesis by auto
  next
    case n: True
    have none: "pr_event S R e (Reduced r) = None" for S :: "space_1D space_ops" and R e and r :: 'v by (cases e) auto
    have here: "pr_event (space_1D_ops 0) (accumulate_ops v) e (Reduce (space_1D_make 0 0 0) 0) =
        (if e = Here then Some (Reduced 0) else None)" for e
      by (cases e) (simp_all add: space_1D_make_def space_1D_points_def accumulate_ops_def)
    from run n True have "es = [] \<and> q = Reduce (space_1D_make 0 0 0) 0 \<or> es = [Here] \<and> q = Reduced 0"
      by (cases es; cases "tl es") (auto simp: here none split: if_splits)
    with n True here assms(2) show ?thesis by auto
  qed
qed

section \<open>The root task is queued\<close>

text \<open>
  The spawn puts the root task into queue 0, that of the main thread. Without a queue this is an
  access out of range; and if no queue has a thread nobody ever takes it.
\<close>

lemma root_is_queued:
  assumes "total_threads thds < 2 ^ 32 - 1" and "length thds < 2 ^ 32"
  shows "case launch_root thds of
      None \<Rightarrow> thds = []
    | Some (r, m) \<Rightarrow> thds \<noteq> [] \<and> r = Inr () \<and> num_threads m = sum_threads thds \<and>
        queues (task_queue m) = [0] # replicate (length thds - 1) [] \<and> func (tasks m 0) = Some 0"
proof -
  let ?m = "program_manager thds"
  have own: "tls_get (sum_threads thds) (tls_attr_map ?m) = Some (main_thread_attr (sum_threads thds))"
    unfolding program_manager_def by (rule made_entries(2) [OF assms(1)])
  have q: "queues (task_queue ?m) = replicate (length thds) []"
    using assms(2) by (simp add: program_manager_def taskmgr_make_def Let_def queue_set_make_def unat_of_nat32)
  have n: "num_threads ?m = sum_threads thds" by (simp add: program_manager_def taskmgr_make_def Let_def)
  obtain t gs where prep: "task_prepare (attribute_make 0 False False) (default_group ?m) 0
      (tasks ?m 0, groups_of ?m) = (t, gs)" by fastforce
  then have f: "func t = Some 0"
    by (auto simp: task_prepare_def task_reset_completion_def task_set_func_def split: prod.splits)
  have at: "get_queue_number (attribute_make (0 :: nat) False False) = QUEUE_CURRENT_THREAD"
    by (simp add: attribute_make_def get_queue_number_def)
  have put: "queue_put CilkS 0 0 (task_queue ?m) =
      (if thds = [] then None else Some (set_queue 0 [0] (task_queue ?m)))"
    using q by (cases thds) (simp_all add: queue_put_def cilk_put_def get_queue_def)
  have "spawn_task_attr CilkS (sum_threads thds) 0 (attribute_make 0 False False) 0 ?m =
      (if thds = [] then None
       else Some (?m\<lparr>tasks := (tasks ?m)(0 := t), groups_of := gs, task_queue := set_queue 0 [0] (task_queue ?m)\<rparr>))"
    using put by (simp add: spawn_task_attr_def spawn_task_full_def prep at own main_thread_attr_def thread_attr_make_def)
  moreover have "queues (set_queue 0 [0] (task_queue ?m)) = [0] # replicate (length thds - 1) []" if "thds \<noteq> []"
    using that q by (cases thds) (simp_all add: set_queue_def)
  ultimately show ?thesis
    unfolding launch_root_def api_spawn_attr_def using n f by (simp add: changing_def)
qed

lemma equal_queues:
  assumes "q < 2 ^ 31" and "t < 2 ^ 31" and "0 < q" and "q * t < 2 ^ 32 - 1"
  shows "\<exists>m. launch_root (replicate q (of_nat t)) = Some (Inr (), m) \<and>
    queues (task_queue m) = [0] # replicate (q - 1) [] \<and> unat (num_threads m) = q * t"
proof -
  let ?thds = "replicate q (of_nat t :: u32)"
  have total: "total_threads ?thds = q * t"
    using assms(2) by (simp add: total_threads_def sum_list_replicate unat_of_nat32)
  with assms(4) sum_threads_total [of ?thds] have "unat (sum_threads ?thds) = q * t" by simp
  with root_is_queued [of ?thds] total assms(1,3,4) show ?thesis by (auto split: option.splits)
qed

section \<open>Properties\<close>



text \<open>
  The program \<^verbatim>\<open>reduce\<close>, in the same way: the root task leaves the sum of the vector, its additions
  in the order of the elements.
\<close>

theorem reduce_program_sums:
  fixes v :: "'v::monoid_add list"
  assumes "n < 2 ^ 31" and "k < 2 ^ 31" and "q < 2 ^ 31" and "t < 2 ^ 31" and "p < 2 ^ 31"
    and "length v = n"
  shows "\<exists>c. reduce_main memory [prog, decimal n, decimal k, decimal q, decimal t, decimal p] =
      (if n < k then ExitCode 3 else if memory (4 * q) \<and> memory (8 * n) then Go c else Dies) \<and>
    thread_counts c = replicate q (of_nat t) \<and>
    (\<forall>es r. run_events (pr_event (space_1D_ops (base_case c)) (accumulate_ops v)) es (reduce_root c) = Some r \<longrightarrow>
      (if k = 0 \<and> 0 < n then \<nexists>w. r = Reduced w
       else length es \<le> 5 * n + 1 \<and>
         ((\<nexists>w. r = Reduced w) \<longrightarrow> (\<exists>e. pr_event (space_1D_ops (base_case c)) (accumulate_ops v) e r \<noteq> None)) \<and>
         (\<forall>w. r = Reduced w \<longrightarrow> w = sum_list v)))"
proof -
  let ?c = "\<lparr>elements = n, base_case = of_nat k, thread_counts = replicate q (of_nat t), please_print = (p \<noteq> 0)\<rparr>"
  have base: "(of_nat k :: u64) = 0 \<longleftrightarrow> k = 0" using unat_elements [OF assms(2)] by (auto simp: word_unat_eq_iff)
  have main: "reduce_main memory [prog, decimal n, decimal k, decimal q, decimal t, decimal p] =
      (if n < k then ExitCode 3 else if memory (4 * q) \<and> memory (8 * n) then Go ?c else Dies)"
    using assms(1-5) by (simp add: reduce_main_def)
  show ?thesis
  proof (intro exI [of _ ?c] conjI allI impI)
    fix es r
    assume run: "run_events (pr_event (space_1D_ops (base_case ?c)) (accumulate_ops v)) es (reduce_root ?c) = Some r"
    show "if k = 0 \<and> 0 < n then \<nexists>w. r = Reduced w
       else length es \<le> 5 * n + 1 \<and>
         ((\<nexists>w. r = Reduced w) \<longrightarrow> (\<exists>e. pr_event (space_1D_ops (base_case ?c)) (accumulate_ops v) e r \<noteq> None)) \<and>
         (\<forall>w. r = Reduced w \<longrightarrow> w = sum_list v)"
      using reduce_runs [OF assms(1,6), of "of_nat k" es r] run unfolding base reduce_root_def loop_config.simps by blast
  qed (use main in simp_all)
qed

text \<open>
  The program \<^verbatim>\<open>matmult\<close>. Above \<open>2 ^ 30\<close> the search for a power of two does not end. From
  \<open>2 ^ 15 + 1\<close> on the number of elements overflows. Below, the dimension is the least power of two
  that is not below the argument.
\<close>

lemma sint_small: "n < 2 ^ 31 \<Longrightarrow> sint (of_nat n :: u32) = int n"
proof -
  assume "n < 2 ^ 31"
  then have "sint (word_of_int (int n) :: u32) = int n"
    unfolding sint_sbintrunc' by (intro signed_take_bit_int_eq_self) simp_all
  then show ?thesis by simp
qed

theorem matmult_program_starts:
  assumes "n < 2 ^ 31" and "x < 2 ^ 31" and "q < 2 ^ 31" and "t < 2 ^ 31" and "p < 2 ^ 31"
  shows "if 2 ^ 30 < n then matmult_main True memory [prog, decimal n, decimal x, decimal q, decimal t, decimal p] = Hangs
    else \<exists>e\<le>30. n \<le> 2 ^ e \<and> (\<forall>i<e. 2 ^ i < n) \<and>
      matmult_main True memory [prog, decimal n, decimal x, decimal q, decimal t, decimal p] =
        (if 2 ^ e < x \<or> \<not> memory (4 * q) then Dies
         else if 15 < e then Undefined
         else if memory (8 * (2 ^ e * 2 ^ e))
         then Go \<lparr>problem_dim = 2 ^ e, problem_base_case_dim = int x, matmult_threads = replicate q (of_nat t)\<rparr>
         else Dies)"
proof -
  let ?n = "of_nat n :: u32"
  have n: "sint ?n = int n" by (rule sint_small [OF assms(1)])
  have cmp: "?n \<le>s 2 ^ j \<longleftrightarrow> n \<le> 2 ^ j" if "j \<le> 30" for j
    using that n by (simp add: word_sle_eq sint_power)
  have less: "2 ^ j <s ?n \<longleftrightarrow> 2 ^ j < n" if "j \<le> 30" for j
    using that n by (simp add: word_sless_alt sint_power)
  show ?thesis
  proof (cases "2 ^ 30 < n")
    case True
    then have "get_closest_power_of_2 ?n = None" using closest_power_of_2 [of ?n] cmp [of 30] by simp
    with True assms(1) show ?thesis by (simp add: matmult_main_def)
  next
    case False
    then obtain e where e: "e \<le> 30" "get_closest_power_of_2 ?n = Some (2 ^ e)" "?n \<le>s 2 ^ e" "\<forall>i<e. 2 ^ i <s ?n"
      using closest_power_of_2 [of ?n] cmp [of 30] by (auto split: if_splits)
    have bounds: "n \<le> 2 ^ e" "\<forall>i<e. 2 ^ i < n" using e cmp [of e] less by auto
    have d: "sint (2 ^ e :: u32) = 2 ^ e" by (rule sint_power [OF e(1)])
    have square: "(2 :: int) ^ e * 2 ^ e = int (2 ^ e * 2 ^ e)" by simp
    have big: "(2 :: int) ^ 31 \<le> 2 ^ e * 2 ^ e \<longleftrightarrow> 15 < e"
      unfolding power_add [symmetric] power_increasing_iff [OF one_less_numeral_iff [THEN iffD2]]
      by (subst power_increasing_iff) auto
    have "(2147483648 :: nat) \<le> m \<longleftrightarrow> (2147483648 :: int) \<le> int m" for m by simp
    from this [of "2 ^ e * 2 ^ e"] big have big': "(2147483648 :: nat) \<le> 2 ^ e * 2 ^ e \<longleftrightarrow> 15 < e" by simp
    have x: "(2 :: int) ^ e < int x \<longleftrightarrow> 2 ^ e < x" by simp
    have "matmult_main True memory [prog, decimal n, decimal x, decimal q, decimal t, decimal p] =
        (if 2 ^ e < x \<or> \<not> memory (4 * q) then Dies
         else if 15 < e then Undefined
         else if memory (8 * (2 ^ e * 2 ^ e))
         then Go \<lparr>problem_dim = 2 ^ e, problem_base_case_dim = int x, matmult_threads = replicate q (of_nat t)\<rparr>
         else Dies)"
      using assms by (simp add: matmult_main_def e(2) d big x) (simp add: big' square nat_power_eq del: of_nat_mult of_nat_power)
    with False e(1) bounds show ?thesis by auto
  qed
qed

text \<open>
  The program \<^verbatim>\<open>fibonacci\<close>. Called with too few arguments it does not stop: it reads past the end
  of \<open>argv\<close>, unless it dies before.
\<close>

theorem fib_program_starts:
  "n < 2 ^ 31 \<Longrightarrow> q < 2 ^ 31 \<Longrightarrow> t < 2 ^ 31 \<Longrightarrow> fib_main memory (prog # decimal q # decimal t # decimal n # others) =
     (if memory (4 * q) then Go (replicate q (of_nat t), Call (int n)) else Dies)"
  "length argv < 4 \<Longrightarrow> fib_main memory argv = Undefined \<or> fib_main memory argv = Dies"
proof -
  assume small: "n < 2 ^ 31" "q < 2 ^ 31" "t < 2 ^ 31"
  then have "unat (of_nat q :: u32) = q" by (intro unat_of_nat32) simp
  moreover from this have "(of_nat q :: u32) = 0 \<longleftrightarrow> q = 0" by (auto simp: word_unat_eq_iff)
  ultimately show "fib_main memory (prog # decimal q # decimal t # decimal n # others) =
     (if memory (4 * q) then Go (replicate q (of_nat t), Call (int n)) else Dies)"
    using small by (simp add: fib_main_def Let_def)
next
  assume "length argv < 4"
  then show "fib_main memory argv = Undefined \<or> fib_main memory argv = Dies"
    by (auto simp: fib_main_def arg_int_def Let_def split: option.splits)
qed

text \<open>
  The program \<^verbatim>\<open>while\<close>. It refuses a file that it cannot open and a start vertex that the file does
  not name, and otherwise starts the traversal of the graph of the file.
\<close>

theorem while_program_starts:
  assumes "start < 2 ^ 31" and "q < 2 ^ 31" and "t < 2 ^ 31" and "p < 2 ^ 31" and "memory (4 * q)"
  shows "case file name of
      None \<Rightarrow> while_main memory file [prog, name, decimal start, decimal q, decimal t, decimal p] = ExitCode 3
    | Some commands \<Rightarrow> \<exists>g. read_dot commands empty_dag = Some g \<and> dag_ok g \<and>
        while_main memory file [prog, name, decimal start, decimal q, decimal t, decimal p] =
          (if \<not> memory (length (vertices g)) then Dies
           else if get_vertex (int start) g = None then ExitCode 3
           else Go (replicate q (of_nat t), g, the (start_traversal (int start) g)))"
proof (cases "file name")
  case None
  with assms show ?thesis by (simp add: while_main_def)
next
  case (Some commands)
  from read_dot_ok [OF empty_dag_ok, of commands] obtain g where
    g: "read_dot commands empty_dag = Some g" "dag_ok g" by blast
  then have "nat (num_vertices g) = length (vertices g)" by (simp add: dag_ok_def)
  with Some g assms show ?thesis
    by (auto simp: while_main_def start_traversal_def split: option.splits)
qed

end
