(* ===== verification/Exception_Memory.thy ===== *)
theory Exception_Memory
  imports Exceptions "HOL-Library.Monad_Syntax"
begin

text \<open>
  The pointers \<open>except\<close> of \<^verbatim>\<open>pfunc/exception.hpp\<close> in memory. In \<open>Exceptions\<close> they are values; here
  the macros allocate, destroy and follow them, as the code does, and \<open>None\<close> says that its
  behaviour is undefined. Addresses are positions in a list of blocks and are not used twice, so
  that a pointer to released memory can be told from others. \<open>avail\<close> says whether \<open>malloc\<close>
  succeeds. Owners are the objects with an \<open>except\<close>: tasks, queues, barriers and so on.
\<close>

section \<open>Memory\<close>

text \<open>A block comes from \<open>malloc\<close> or from \<open>new\<close>, which must be released in different ways.\<close>

datatype block = Malloced pfunc_exception | Newed pfunc_exception | Released

record except_memory =
  blocks :: "block list"
  except_at :: "nat \<Rightarrow> nat option"

definition except_start :: except_memory where
  "except_start = \<lparr>blocks = [], except_at = (\<lambda>_. None)\<rparr>"

definition set_except :: "nat \<Rightarrow> nat option \<Rightarrow> except_memory \<Rightarrow> except_memory" where
  "set_except x p m = m\<lparr>except_at := (except_at m)(x := p)\<rparr>"

definition allocate :: "block \<Rightarrow> except_memory \<Rightarrow> nat \<times> except_memory" where
  "allocate b m = (length (blocks m), m\<lparr>blocks := blocks m @ [b]\<rparr>)"

text \<open>\<open>clone\<close> and \<open>convert\<close> return \<open>NULL\<close> if there is no memory.\<close>

definition from_malloc :: "bool \<Rightarrow> pfunc_exception \<Rightarrow> except_memory \<Rightarrow> nat option \<times> except_memory" where
  "from_malloc avail e m = (if avail then (case allocate (Malloced e) m of (a, m') \<Rightarrow> (Some a, m')) else (None, m))"

text \<open>\<open>destroy\<close> ends with \<open>free\<close>, which is defined on memory from \<open>malloc\<close> only, and once.\<close>

definition destroy :: "nat \<Rightarrow> except_memory \<Rightarrow> except_memory option" where
  "destroy a m =
     (if a < length (blocks m)
      then case blocks m ! a of
             Malloced e \<Rightarrow> Some (m\<lparr>blocks := (blocks m)[a := Released]\<rparr>)
           | _ \<Rightarrow> None
      else None)"

definition object_at :: "nat \<Rightarrow> except_memory \<Rightarrow> pfunc_exception option" where
  "object_at a m =
     (if a < length (blocks m)
      then case blocks m ! a of Malloced e \<Rightarrow> Some e | Newed e \<Rightarrow> Some e | Released \<Rightarrow> None
      else None)"

text \<open>\<open>except->add_to_trace\<close> and \<open>except->rethrow\<close>, which throws a copy of the object.\<close>

definition trace_at :: "nat \<Rightarrow> string \<Rightarrow> except_memory \<Rightarrow> except_memory option" where
  "trace_at x new_trace m = do {
     a \<leftarrow> except_at m x;
     e \<leftarrow> object_at a m;
     Some (m\<lparr>blocks := (blocks m)
       [a := (case blocks m ! a of Newed _ \<Rightarrow> Newed (add_to_trace new_trace e) | _ \<Rightarrow> Malloced (add_to_trace new_trace e))]\<rparr>)
   }"

definition rethrow_at :: "nat \<Rightarrow> except_memory \<Rightarrow> 'a result option" where
  "rethrow_at x m = do {
     a \<leftarrow> except_at m x;
     e \<leftarrow> object_at a m;
     Some (Inl (PfuncExn (exception_copy e)))
   }"

section \<open>The macros\<close>

definition destroy_except :: "nat \<Rightarrow> except_memory \<Rightarrow> except_memory option" where
  "destroy_except x m = (case except_at m x of None \<Rightarrow> Some m | Some a \<Rightarrow> destroy a m)"

definition except_ptr_clear :: "nat \<Rightarrow> except_memory \<Rightarrow> except_memory option" where
  "except_ptr_clear x m =
     (case except_at m x of None \<Rightarrow> Some m | Some a \<Rightarrow> map_option (set_except x None) (destroy a m))"

text \<open>The part that two catch blocks of both macros share: replace \<open>except\<close> by a new object.\<close>

definition replace_except :: "bool \<Rightarrow> nat \<Rightarrow> pfunc_exception \<Rightarrow> except_memory \<Rightarrow> except_memory option" where
  "replace_except avail x e m = do {
     m1 \<leftarrow> destroy_except x m;
     case from_malloc avail e m1 of (p, m2) \<Rightarrow> Some (set_except x p m2)
   }"

fun catch_and_rethrow_at :: "bool \<Rightarrow> string \<Rightarrow> nat \<Rightarrow> 'a result \<Rightarrow> except_memory \<Rightarrow> ('a result \<times> except_memory) option" where
  "catch_and_rethrow_at avail site x (Inr v) m = Some (Inr v, m)"
| "catch_and_rethrow_at avail site x (Inl (PfuncExn error)) m = do {
     m1 \<leftarrow> replace_except avail x (exception_clone error) m;
     m2 \<leftarrow> trace_at x ('': from '' @ site) m1;
     r \<leftarrow> rethrow_at x m2;
     Some (r, m2)
   }"
| "catch_and_rethrow_at avail site x (Inl (StdExn ty what)) m = do {
     m1 \<leftarrow> replace_except avail x (exception_convert (ty @ '': from '' @ site) what (status_code PFUNC_ERROR)) m;
     r \<leftarrow> rethrow_at x m1;
     Some (r, m1)
   }"
| "catch_and_rethrow_at avail site x (Inl UnknownExn) m =
     Some (Inl (PfuncExn (exception_generic_impl site ''Unknown error'' (status_code PFUNC_ERROR))), m)"

text \<open>The last block of \<open>PFUNC_CATCH_AND_STORE\<close> uses \<open>new\<close> and forgets the old object.\<close>

fun catch_and_store_at :: "bool \<Rightarrow> string \<Rightarrow> nat \<Rightarrow> unit result \<Rightarrow> except_memory \<Rightarrow> except_memory option" where
  "catch_and_store_at avail site x (Inr v) m = Some m"
| "catch_and_store_at avail site x (Inl (PfuncExn error)) m = do {
     m1 \<leftarrow> replace_except avail x (exception_clone error) m;
     trace_at x ('': from '' @ site) m1
   }"
| "catch_and_store_at avail site x (Inl (StdExn ty what)) m =
     replace_except avail x (exception_convert (ty @ '': from '' @ site) what (status_code PFUNC_ERROR)) m"
| "catch_and_store_at avail site x (Inl UnknownExn) m =
     (case allocate (Newed (exception_generic_impl site ''Unknown error'' (status_code PFUNC_ERROR))) m of
        (a, m') \<Rightarrow> Some (set_except x (Some a) m'))"

section \<open>Objects at work\<close>

text \<open>
  A method that closes with \<open>PFUNC_CATCH_AND_RETHROW\<close>, the \<open>run\<close> of a task, and
  \<open>PFUNC_EXCEPT_PTR_CLEAR\<close> in a destructor or \<open>reset_completion\<close>; and the same on values.
\<close>

datatype except_action = Method nat string "unit result" | RunTask nat string "unit result" | Clear nat

fun except_event :: "except_action \<Rightarrow> except_memory \<Rightarrow> except_memory option" where
  "except_event (Method x site r) m = map_option snd (catch_and_rethrow_at True site x r m)"
| "except_event (RunTask x site r) m = catch_and_store_at True site x r m"
| "except_event (Clear x) m = except_ptr_clear x m"

fun except_value :: "except_action \<Rightarrow> (nat \<Rightarrow> pfunc_exception option) \<Rightarrow> nat \<Rightarrow> pfunc_exception option" where
  "except_value (Method x site r) f = f(x := snd (pfunc_catch_and_rethrow site (f x) r))"
| "except_value (RunTask x site r) f = f(x := pfunc_catch_and_store site (f x) r)"
| "except_value (Clear x) f = f(x := None)"

text \<open>What the pointers stand for.\<close>

definition excepts_of :: "except_memory \<Rightarrow> nat \<Rightarrow> pfunc_exception option" where
  "excepts_of m x = do { a \<leftarrow> except_at m x; object_at a m }"

fun orderly :: "except_action \<Rightarrow> bool" where
  "orderly (RunTask x site (Inl UnknownExn)) \<longleftrightarrow> False"
| "orderly _ \<longleftrightarrow> True"

text \<open>Every pointer leads to a block of its own from \<open>malloc\<close>, and every block is pointed to.\<close>

definition owned :: "except_memory \<Rightarrow> bool" where
  "owned m \<longleftrightarrow>
     (\<forall>x a. except_at m x = Some a \<longrightarrow> a < length (blocks m) \<and> (\<exists>e. blocks m ! a = Malloced e)) \<and>
     (\<forall>x y a. except_at m x = Some a \<longrightarrow> except_at m y = Some a \<longrightarrow> x = y) \<and>
     (\<forall>a < length (blocks m). blocks m ! a \<noteq> Released \<longrightarrow> (\<exists>x. except_at m x = Some a))"

lemma owned_start: "owned except_start"
  by (simp add: owned_def except_start_def)

lemma ownedD:
  assumes "owned m" and "except_at m x = Some a"
  shows "a < length (blocks m)" "\<exists>e. blocks m ! a = Malloced e" "except_at m y = Some a \<longleftrightarrow> y = x"
  using assms unfolding owned_def by blast+

lemma owned_pointed:
  "owned m \<Longrightarrow> a < length (blocks m) \<Longrightarrow> blocks m ! a \<noteq> Released \<Longrightarrow> \<exists>x. except_at m x = Some a"
  by (simp add: owned_def)

lemma excepts_of_None: "except_at m x = None \<Longrightarrow> excepts_of m x = None"
  by (simp add: excepts_of_def)

lemma excepts_of_Some:
  "except_at m x = Some a \<Longrightarrow> a < length (blocks m) \<Longrightarrow> blocks m ! a = Malloced e \<Longrightarrow> excepts_of m x = Some e"
  by (simp add: excepts_of_def object_at_def)

lemma excepts_of_SomeD:
  assumes "owned m" and "excepts_of m x = Some e"
  obtains a where "except_at m x = Some a" "a < length (blocks m)" "blocks m ! a = Malloced e" "object_at a m = Some e"
proof -
  from assms(2) obtain a where a: "except_at m x = Some a" "object_at a m = Some e"
    by (auto simp: excepts_of_def bind_eq_Some_conv)
  from ownedD(1,2) [OF assms(1) a(1)] a that show thesis by (auto simp: object_at_def)
qed

text \<open>\<open>excepts_of\<close> of an owner depends on its pointer and the block there only.\<close>

lemma excepts_of_cong:
  assumes "owned m" and "except_at m' y = except_at m y"
    and "\<And>a. except_at m y = Some a \<Longrightarrow> a < length (blocks m') \<and> blocks m' ! a = blocks m ! a"
  shows "excepts_of m' y = excepts_of m y"
proof (cases "except_at m y")
  case (Some a)
  with assms ownedD(1) [OF assms(1) Some] show ?thesis by (simp add: excepts_of_def object_at_def)
qed (use assms in \<open>simp add: excepts_of_def\<close>)

lemma clear_owned:
  assumes own: "owned m"
  shows "\<exists>m1. destroy_except x m = Some m1 \<and> owned (set_except x None m1) \<and>
    except_ptr_clear x m = Some (set_except x None m1) \<and> excepts_of (set_except x None m1) = (excepts_of m)(x := None)"
proof (cases "except_at m x")
  case None
  then have "set_except x None m = m" by (auto simp: set_except_def intro!: except_memory.equality)
  with None own excepts_of_None [OF None] show ?thesis
    by (auto simp: destroy_except_def except_ptr_clear_def fun_eq_iff)
next
  case (Some a)
  note a = ownedD [OF own Some]
  let ?m1 = "m\<lparr>blocks := (blocks m)[a := Released]\<rparr>"
  have d: "destroy a m = Some ?m1" using a(1,2) by (auto simp: destroy_def)
  have own1: "owned (set_except x None ?m1)"
    unfolding owned_def
  proof (intro conjI allI impI)
    fix y b assume "except_at (set_except x None ?m1) y = Some b"
    then have y: "y \<noteq> x" "except_at m y = Some b" by (auto simp: set_except_def split: if_splits)
    then have "b \<noteq> a" using a(3) by blast
    with ownedD(1,2) [OF own y(2)] show "b < length (blocks (set_except x None ?m1))"
      "\<exists>e. blocks (set_except x None ?m1) ! b = Malloced e" by (auto simp: set_except_def)
  next
    fix y z b assume "except_at (set_except x None ?m1) y = Some b" "except_at (set_except x None ?m1) z = Some b"
    then show "y = z" using ownedD(3) [OF own] by (auto simp: set_except_def split: if_splits)
  next
    fix b assume b: "b < length (blocks (set_except x None ?m1))" "blocks (set_except x None ?m1) ! b \<noteq> Released"
    then have "b \<noteq> a" "b < length (blocks m)" "blocks m ! b \<noteq> Released"
      by (auto simp: set_except_def nth_list_update [OF a(1)] split: if_splits)
    with owned_pointed [OF own] Some obtain y where "except_at m y = Some b" "y \<noteq> x" by force
    then show "\<exists>y. except_at (set_except x None ?m1) y = Some b" by (auto simp: set_except_def)
  qed
  have "excepts_of (set_except x None ?m1) y = ((excepts_of m)(x := None)) y" for y
  proof (cases "y = x")
    case False
    then have "except_at m y \<noteq> Some a" using ownedD(3) [OF own Some, of y] by simp
    with False have "excepts_of (set_except x None ?m1) y = excepts_of m y"
      by (intro excepts_of_cong [OF own]) (auto simp: set_except_def dest: ownedD(1) [OF own])
    with False show ?thesis by simp
  qed (simp add: excepts_of_def set_except_def)
  with d own1 Some show ?thesis by (auto simp: destroy_except_def except_ptr_clear_def)
qed

lemma add_owned:
  fixes e :: pfunc_exception
  assumes own: "owned m" and "except_at m x = None"
  defines "m' \<equiv> set_except x (Some (length (blocks m))) (m\<lparr>blocks := blocks m @ [Malloced e]\<rparr>)"
  shows "owned m'" "excepts_of m' = (excepts_of m)(x := Some e)"
proof -
  let ?n = "length (blocks m)"
  have at: "except_at m' y = (if y = x then Some ?n else except_at m y)" for y by (simp add: m'_def set_except_def)
  have bl: "blocks m' = blocks m @ [Malloced e]" by (simp add: m'_def set_except_def)
  have old: "b < ?n" if "except_at m y = Some b" for y b by (rule ownedD(1) [OF own that])
  show "owned m'"
    unfolding owned_def
  proof (intro conjI allI impI)
    fix y b assume y: "except_at m' y = Some b"
    show "b < length (blocks m')" using y old by (fastforce simp: at bl split: if_splits)
    show "\<exists>e. blocks m' ! b = Malloced e"
      using y old ownedD(2) [OF own] by (fastforce simp: at bl nth_append split: if_splits)
  next
    fix y z b assume "except_at m' y = Some b" "except_at m' z = Some b"
    then show "y = z" using old ownedD(3) [OF own] by (fastforce simp: at split: if_splits)
  next
    fix b assume b: "b < length (blocks m')" "blocks m' ! b \<noteq> Released"
    show "\<exists>y. except_at m' y = Some b"
    proof (cases "b = ?n")
      case False
      with b owned_pointed [OF own, of b] obtain y where "except_at m y = Some b" by (auto simp: bl nth_append)
      moreover from this assms(2) have "y \<noteq> x" by auto
      ultimately show ?thesis by (auto simp: at)
    qed (auto simp: at)
  qed
  have "excepts_of m' y = ((excepts_of m)(x := Some e)) y" for y
  proof (cases "y = x")
    case True
    then show ?thesis by (simp add: excepts_of_Some [of m' x ?n e] at bl)
  next
    case False
    then show ?thesis by (auto simp: at bl nth_append dest: old intro!: excepts_of_cong [OF own])
  qed
  then show "excepts_of m' = (excepts_of m)(x := Some e)" by blast
qed

lemma replace_except_owned:
  assumes "owned m"
  shows "\<exists>m'. replace_except True x e m = Some m' \<and> owned m' \<and> excepts_of m' = (excepts_of m)(x := Some e)"
proof -
  from clear_owned [OF assms, of x] obtain m1 where m1: "destroy_except x m = Some m1" "owned (set_except x None m1)"
    "excepts_of (set_except x None m1) = (excepts_of m)(x := None)" by blast
  have "except_at (set_except x None m1) x = None" by (simp add: set_except_def)
  note new = add_owned [OF m1(2) this, of e]
  have "replace_except True x e m = Some (set_except x (Some (length (blocks (set_except x None m1))))
      ((set_except x None m1)\<lparr>blocks := blocks (set_except x None m1) @ [Malloced e]\<rparr>))"
    by (simp add: replace_except_def m1(1) from_malloc_def allocate_def set_except_def)
  with new m1(3) show ?thesis by auto
qed

lemma trace_at_owned:
  assumes own: "owned m" and e: "excepts_of m x = Some e"
  shows "\<exists>m'. trace_at x s m = Some m' \<and> owned m' \<and> excepts_of m' = (excepts_of m)(x := Some (add_to_trace s e))"
proof -
  obtain a where a: "except_at m x = Some a" "a < length (blocks m)" "blocks m ! a = Malloced e" "object_at a m = Some e"
    by (rule excepts_of_SomeD [OF own e])
  let ?m = "m\<lparr>blocks := (blocks m)[a := Malloced (add_to_trace s e)]\<rparr>"
  have t: "trace_at x s m = Some ?m" using a by (simp add: trace_at_def)
  have "owned ?m"
    using own a(1) unfolding owned_def by (auto simp: nth_list_update [OF a(2)] split: if_splits)
  moreover have "excepts_of ?m y = ((excepts_of m)(x := Some (add_to_trace s e))) y" for y
  proof (cases "y = x")
    case True
    then show ?thesis using a(1,2) by (simp add: excepts_of_Some)
  next
    case False
    then have "except_at m y \<noteq> Some a" using ownedD(3) [OF own a(1), of y] by simp
    with False show ?thesis
      by (auto simp: nth_list_update dest: ownedD(1) [OF own] intro!: excepts_of_cong [OF own])
  qed
  ultimately show ?thesis using t by blast
qed

lemma rethrow_at_value: "excepts_of m x = Some e \<Longrightarrow> rethrow_at x m = Some (Inl (PfuncExn e))"
  by (auto simp: excepts_of_def rethrow_at_def bind_eq_Some_conv)

text \<open>Each macro does on pointers what it does on values, and keeps the blocks owned.\<close>

lemma catch_and_rethrow_owned:
  fixes r :: "'a result"
  assumes own: "owned m"
  shows "\<exists>m'. catch_and_rethrow_at True site x r m = Some (fst (pfunc_catch_and_rethrow site (excepts_of m x) r), m') \<and>
    owned m' \<and> excepts_of m' = (excepts_of m)(x := snd (pfunc_catch_and_rethrow site (excepts_of m x) r))"
proof (cases "(True, site, x, r, m)" rule: catch_and_rethrow_at.cases)
  case (2 avail site x error m)
  then have own: "owned m" using assms by simp
  from replace_except_owned [OF own, of x error] obtain m1 where
    m1: "replace_except True x error m = Some m1" "owned m1" "excepts_of m1 = (excepts_of m)(x := Some error)" by blast
  from trace_at_owned [OF m1(2), of x error "'': from '' @ site"] m1(3) obtain m2 where
    m2: "trace_at x ('': from '' @ site) m1 = Some m2" "owned m2"
      "excepts_of m2 = (excepts_of m)(x := Some (add_to_trace ('': from '' @ site) error))" by auto
  then have "(rethrow_at x m2 :: 'a result option) = Some (Inl (PfuncExn (add_to_trace ('': from '' @ site) error)))"
    by (intro rethrow_at_value) simp
  with 2 m1 m2 show ?thesis by (auto simp: Let_def)
next
  case (3 avail site x ty what m)
  then have own: "owned m" using assms by simp
  let ?e = "exception_convert (ty @ '': from '' @ site) what (status_code PFUNC_ERROR)"
  from replace_except_owned [OF own, of x ?e] obtain m1 where
    m1: "replace_except True x ?e m = Some m1" "owned m1" "excepts_of m1 = (excepts_of m)(x := Some ?e)" by blast
  then have "(rethrow_at x m1 :: 'a result option) = Some (Inl (PfuncExn ?e))" by (intro rethrow_at_value) simp
  with 3 m1 show ?thesis by (auto simp: Let_def)
qed (use own in \<open>auto simp: fun_upd_idem\<close>)

lemma catch_and_store_owned:
  assumes own: "owned m" and "r \<noteq> Inl UnknownExn"
  shows "\<exists>m'. catch_and_store_at True site x r m = Some m' \<and> owned m' \<and>
    excepts_of m' = (excepts_of m)(x := pfunc_catch_and_store site (excepts_of m x) r)"
proof (cases "(True, site, x, r, m)" rule: catch_and_store_at.cases)
  case (2 avail site x error m)
  then have own: "owned m" using assms by simp
  from replace_except_owned [OF own, of x error] obtain m1 where
    m1: "replace_except True x error m = Some m1" "owned m1" "excepts_of m1 = (excepts_of m)(x := Some error)" by blast
  from trace_at_owned [OF m1(2), of x error "'': from '' @ site"] m1 2 show ?thesis by auto
next
  case (3 avail site x ty what m)
  then show ?thesis
    using replace_except_owned [of m x "exception_convert (ty @ '': from '' @ site) what (status_code PFUNC_ERROR)"] assms
    by auto
qed (use assms in \<open>auto simp: fun_upd_idem\<close>)

lemma except_event_owned:
  assumes "owned m" and "orderly act"
  shows "\<exists>m'. except_event act m = Some m' \<and> owned m' \<and> excepts_of m' = except_value act (excepts_of m)"
proof (cases act)
  case (Method x site r)
  with catch_and_rethrow_owned [OF assms(1), of site x r] show ?thesis by auto
next
  case (RunTask x site r)
  then have "r \<noteq> Inl UnknownExn" using assms(2) by auto
  from catch_and_store_owned [OF assms(1) this, of site x] RunTask show ?thesis by auto
next
  case (Clear x)
  with clear_owned [OF assms(1), of x] show ?thesis by auto
qed

interpretation excepts: simulation "\<lambda>m. m = except_start" "\<lambda>m m'. \<exists>act. orderly act \<and> except_event act m = Some m'" owned
    "\<lambda>f f'. \<exists>act. f' = except_value act f" excepts_of
proof unfold_locales
  show "owned m" if "m = except_start" for m using that owned_start by simp
  show "owned m'" if "owned m" "\<exists>act. orderly act \<and> except_event act m = Some m'" for m m'
    using that except_event_owned by fastforce
  show "excepts_of m' = excepts_of m \<or> (\<exists>act. excepts_of m' = except_value act (excepts_of m))"
    if "owned m" "\<exists>act. orderly act \<and> except_event act m = Some m'" for m m'
    using that except_event_owned by fastforce
qed

lemma except_run_owned:
  "owned m \<Longrightarrow> list_all orderly acts \<Longrightarrow>
   \<exists>m'. run_events except_event acts m = Some m' \<and> owned m' \<and> excepts_of m' = fold except_value acts (excepts_of m)"
proof (induction acts arbitrary: m)
  case (Cons act acts)
  then obtain m1 where "except_event act m = Some m1" "owned m1" "excepts_of m1 = except_value act (excepts_of m)"
    using except_event_owned [of m act] by auto
  with Cons.IH [of m1] Cons.prems(2) show ?case by auto
qed simp

section \<open>Properties\<close>


text \<open>A task throws, a method passes it on through the same object, and the task is prepared again.\<close>

definition thrown_and_cleared :: "except_action list" where
  "thrown_and_cleared =
     [RunTask 0 ''t'' (Inl (StdExn ''E'' ''w'')), Method 0 ''m'' (Inl (PfuncExn (exception_generic_impl ''s'' ''w'' 7))),
      Method 1 ''n'' (Inl (StdExn ''F'' ''v'')), Clear 0]"


text \<open>
  A task that throws anything else, as \<open>throw 1\<close>, is broken. \<open>PFUNC_CATCH_AND_STORE\<close> takes the
  object from \<open>new\<close>, and the next \<open>reset_completion\<close>, or the destructor, gives it to \<open>free\<close>; and an
  exception that was there before is lost without being released.
\<close>

theorem unknown_exception_breaks_task:
  "\<exists>m'. except_event (RunTask x site (Inl UnknownExn)) m = Some m' \<and> except_event (Clear x) m' = None \<and>
     (owned m \<and> except_at m x = Some a \<longrightarrow> blocks m' ! a \<noteq> Released \<and> (\<nexists>y. except_at m' y = Some a))"
proof -
  let ?m = "set_except x (Some (length (blocks m)))
    (m\<lparr>blocks := blocks m @ [Newed (exception_generic_impl site ''Unknown error'' (status_code PFUNC_ERROR))]\<rparr>)"
  have "except_event (RunTask x site (Inl UnknownExn)) m = Some ?m" by (simp add: allocate_def)
  moreover have "except_event (Clear x) ?m = None" by (simp add: except_ptr_clear_def set_except_def destroy_def)
  moreover have "blocks ?m ! a \<noteq> Released \<and> (\<nexists>y. except_at ?m y = Some a)" if "owned m" "except_at m x = Some a"
    using ownedD(1,2) [OF that] ownedD(3) [OF that] by (auto simp: set_except_def nth_append)
  ultimately show ?thesis by blast
qed

text \<open>
  Without memory for the copy, an exception of PFunc is followed through \<open>NULL\<close>; one of the
  standard library that a task throws is lost, and the task counts as having succeeded.
\<close>

theorem exception_without_memory:
  assumes "except_at m x = None"
  shows "catch_and_store_at False site x (Inl (PfuncExn e)) m = None"
    and "catch_and_rethrow_at False site x (Inl (PfuncExn e)) m = None"
    and "\<exists>m'. catch_and_store_at False site x (Inl (StdExn ty what)) m = Some m' \<and> excepts_of m' x = None"
  using assms
  by (simp_all add: replace_except_def destroy_except_def from_malloc_def trace_at_def set_except_def excepts_of_def)

end
