(* ===== verification/Spec2Isabelle.thy ===== *)
theory Spec2Isabelle
  imports
    Pfunc_Prelude Atomics Futex Exceptions Mutex Event Barrier_Spec Barrier Group Pthread_Barrier Pthread_Event
    Windows_Cond Os_Sync Utilities Perf Task
    Task_Queues Predicates Threads Taskmgr Runtime Scheduling Pack Spaces Loops Reductions
    While_Loop Api C_Api Steps Fork_Join Deadlocks Other_Atomics Generator Matmult Fibonacci Dag Traversal
    Locked_Queues Start_Up Dot_Product Programs Exception_Memory
begin

text \<open>
  A verification library for PFunc, a C++ library for task parallelism.

  \<^bold>\<open>The program.\<close> A program spawns tasks. A task has an attribute (queue, priority, number of
  waiters, level, whether it is nested and whether it joins a group), a group and a functor.
  The task manager puts it into one of a set of queues, and worker threads take it out,
  run it and notify its waiters. A worker that waits for a task, or waits in a work-stealing
  barrier, runs other tasks meanwhile, on top of its own stack. Which task a queue gives
  depends on the scheduling policy and on a predicate that compares it with the waiting task.
  Below this lie mutexes, events and barriers made from atomic operations and futexes.

  \<^bold>\<open>The theories\<close>, from the bottom up; paths are relative to \<^verbatim>\<open>src/pfunc\<close>.

  \<^item> \<open>Pfunc_Prelude\<close>: machine words and their lemmas; reachability, the step relation of a
    function on events (\<open>step_of\<close>), and the locales \<open>invariant_system\<close> and \<open>simulation\<close>
    that every concurrent component interprets.
  \<^item> \<open>Atomics\<close> (\<^verbatim>\<open>pfunc_atomics.h\<close>, \<^verbatim>\<open>asm/x86.h\<close>, \<^verbatim>\<open>asm/generic.h\<close>) and \<open>Futex\<close>
    (\<^verbatim>\<open>futex.h\<close>): an operation maps the old word to its result and the new word; the futex
    calls act on a list of sleepers. Memory is sequentially consistent. \<open>Other_Atomics\<close>
    (\<^verbatim>\<open>pfunc_atomics.h\<close>, \<^verbatim>\<open>asm/ppc.h\<close>, \<^verbatim>\<open>asm/win.h\<close>): what the comments promise, and the
    operations of the other platforms, on several processors when the instruction is not locked.
  \<^item> \<open>Exceptions\<close> (\<^verbatim>\<open>exception.hpp\<close>, \<^verbatim>\<open>pfunc_common.h\<close>): exceptions are values, \<open>Inl\<close> in
    a sum; the catch blocks of the macros are functions on them. \<open>Exception_Memory\<close>: the same macros on
    pointers to blocks of memory, which refine these functions.
  \<^item> \<open>Mutex\<close> (\<^verbatim>\<open>mutex.hpp\<close>), \<open>Event\<close> (\<^verbatim>\<open>event.hpp\<close>), \<open>Barrier\<close> (\<^verbatim>\<open>barrier.hpp\<close>): the futex
    variants with one step for each access to shared memory, for any number of threads in any
    interleaving, with wake-ups in any order and interrupted system calls. \<open>Barrier_Spec\<close> is
    the abstract barrier that three barriers refine.
  \<^item> \<open>Group\<close> (\<^verbatim>\<open>group.hpp\<close>): ranks, and the spinning and work-stealing barriers in steps.
  \<^item> \<open>Pthread_Barrier\<close> (\<^verbatim>\<open>barrier.hpp\<close>) and \<open>Pthread_Event\<close> (\<^verbatim>\<open>event.hpp\<close>): the variants on a
    mutex and a condition variable, whose waits may wake up at any time; the barrier simulates
    that of \<open>Group\<close>. \<open>Windows_Cond\<close> (\<^verbatim>\<open>cond.hpp\<close>): the condition variable that PFunc builds on
    Windows from a semaphore, an event and a critical section. \<open>Os_Sync\<close> (\<^verbatim>\<open>mutex.hpp\<close>,
    \<^verbatim>\<open>cond.hpp\<close>, \<^verbatim>\<open>thread.hpp\<close>): the wrappers of system calls, over the results of the calls.
  \<^item> \<open>Utilities\<close> (\<^verbatim>\<open>utility.h\<close>): rounding up to a power of two, random numbers, the clock. \<open>Perf\<close> (\<^verbatim>\<open>perf.hpp\<close>): the
    performance counters over the results of the calls of the PAPI library.
  \<^item> \<open>Task\<close> (\<^verbatim>\<open>attribute.hpp\<close>, \<^verbatim>\<open>task.hpp\<close>): a functor is the result it has, an exception or
    nothing. Pointers to tasks, groups and functors are numbers.
  \<^item> \<open>Task_Queues\<close> (\<^verbatim>\<open>fifo.hpp\<close>, \<^verbatim>\<open>lifo.hpp\<close>, \<^verbatim>\<open>cilk.hpp\<close>, \<^verbatim>\<open>prio.hpp\<close>) and \<open>Predicates\<close>
    (\<^verbatim>\<open>predicate.hpp\<close>): sets of queues as lists of lists. Each policy interprets the locale
    \<open>queue_policy\<close>, which proves its lemmas once and is itself a \<open>task_queue\<close>, the
    interface that the task manager uses. \<open>Locked_Queues\<close>: \<open>test_and_get\<close> and \<open>put\<close> under the
    mutexes of \<open>Mutex\<close>, instruction by instruction, and \<open>get\<close> as a scan of such sections.
  \<^item> \<open>Threads\<close> (\<^verbatim>\<open>thread.hpp\<close>): thread attributes, the thread-local table, thread creation and
    affinity, with the calls of the operating system as parameters.
  \<^item> \<open>Taskmgr\<close> (\<^verbatim>\<open>taskmgr.hpp\<close>): constructor, queries, spawning and \<open>get_task\<close>; its loop
    need not end and is a partial function whose termination is proved. \<open>Start_Up\<close>: the
    constructor that creates the workers and waits, the workers until their loop, and the
    machine of \<open>Barrier\<close> between them.
  \<^item> \<open>Runtime\<close> and \<open>Scheduling\<close> (\<^verbatim>\<open>taskmgr.hpp\<close>, \<^verbatim>\<open>trampolines.hpp\<close>): the work loop,
    \<open>progress_wait\<close> and \<open>progress_barrier\<close> as a machine of any number of workers whose
    functors do what they like, one step for each queue that is looked at, and what holds in all its reachable states. \<open>Steps\<close> says what
    one action can change; \<open>Fork_Join\<close> restricts the machine to programs in which each task
    waits for its own children, with ghosts for parents and starting times; \<open>Deadlocks\<close> has
    the waits that never return.
  \<^item> \<open>Spaces\<close> (\<^verbatim>\<open>space_1D.hpp\<close>), \<open>Loops\<close> (\<^verbatim>\<open>parallel_for.hpp\<close>), \<open>Reductions\<close>
    (\<^verbatim>\<open>parallel_reduce.hpp\<close>) and \<open>While_Loop\<close> (\<^verbatim>\<open>parallel_while.hpp\<close>): the loops as terms that
    move in any interleaving, over their template arguments as records of operations; the
    locales \<open>splittable_space\<close> and \<open>reducer\<close> say what they need of them, and are interpreted on
    \<open>space_1D\<close> and the functors of \<^verbatim>\<open>../examples/cxx\<close>.
  \<^item> \<open>Pack\<close> (\<^verbatim>\<open>../lib/pfunc_pack.cpp\<close>): formats, packing and unpacking of arguments as bytes.
  \<^item> \<open>Api\<close> (\<^verbatim>\<open>pfunc.hpp\<close>) and \<open>C_Api\<close> (\<^verbatim>\<open>../lib/pfunc_c.cpp\<close>, \<^verbatim>\<open>pfunc.h\<close>): the functions of
    the C++ interface, by task manager and through the global pointer, and those of the C
    interface on handles. What \<open>wait_all\<close> needs of \<open>wait\<close> is the locale \<open>completion\<close>.
  \<^item> \<open>Generator\<close> (\<^verbatim>\<open>generator.hpp\<close>, \<^verbatim>\<open>task_queue_set.hpp\<close>, \<^verbatim>\<open>pfunc.h\<close>, \<^verbatim>\<open>environ.hpp\<close>): class
    templates as functions from types to library instances, with the choice of the most
    specialised one; the macros that depend on the environment.
  \<^item> The examples of \<^verbatim>\<open>../examples/cxx\<close>: \<open>Matmult\<close> (\<^verbatim>\<open>matmult.cpp\<close>), \<open>Fibonacci\<close>
    (\<^verbatim>\<open>fibonacci.cpp\<close>), \<open>Dag\<close> (\<^verbatim>\<open>dot_reader/dag.h\<close>, \<^verbatim>\<open>dot_reader/dot.y\<close>) and \<open>Traversal\<close>
    (\<^verbatim>\<open>while.cpp\<close>): functors as trees or lists of tasks that run in any interleaving, one step
    for each access to shared data. \<open>Dot_Product\<close> (\<^verbatim>\<open>../examples/c/groups.c\<close>): the tasks of a group
    that compute a dot product between barriers, over the abstract barrier or none. \<open>Programs\<close>: the
    functions \<open>main\<close> of the examples, from the strings of \<open>argv\<close> to the task manager and root
    task they start with, or to the exit, exception or undefined behaviour instead.

  \<^bold>\<open>What is shown.\<close> The mutex excludes, refines a lock and loses no wake-up; the three
  barriers refine the abstract one, and the futex and stealing barriers complete; an event
  leaves nobody asleep; a broadcast on Windows reaches everybody and comes back. The queues
  conserve tasks, find one when there is one and serve in the order of their policy; under
  their locks their operations are atomic and never lock up;
  the constructor returns, and then everybody is in the thread-local table and in the work
  loop; \<open>get_task\<close> returns; a task completes; no task is lost or run twice; a task that does not
  throw is what \<open>current_task_information\<close> says, and tasks nest as their policy allows.
  Fork-join programs complete, under each policy with the proviso it needs, and \<open>wait\<close> is a
  join. The types of a library instance fit together. A
  parallel loop ends in the state of the sequential one in every run, and a reduction does
  not depend on the schedule. What was packed is unpacked again; \<open>wait_all\<close> means that
  all tasks are complete; a C function that is spawned is run, and its status says so. The
  examples compute the matrix product, the Fibonacci numbers, the graph of a file and its
  traversal, whatever the schedule, and the dot product but for its last element; called
  with numbers in decimal they start with the configuration these stand for.
  Where the code does not do what it means to, a theorem gives the run that shows it: the
  inverted \<open>trylock\<close> and the spinning barrier built on it, the generic compare-and-swap, the
  counting of waiters, a wait that a signal ends early, the missing braces that lose a
  wake-up of the pthread event, a Windows broadcast that leaves its critical section locked,
  exceptions of stolen tasks, exceptions of unknown type, workers that a failed constructor
  leaves behind, groups that meet twice on one stack, \<open>BARRIER_WAIT\<close>, the dangling reference of
  \<open>parallel_while\<close>, \<open>test_all\<close> and \<open>wait_any\<close>, loops that do not end for extreme arguments, waits for a
  child of the same priority or behind another root, the additions of \<^verbatim>\<open>asm/win.h\<close> without
  the lock prefix, the division of transposed matrices, and a vertex with 257 visitors.

  \<^bold>\<open>Bounds.\<close> Machine integers have their width; identifiers and counts are 32-bit words, and
  theorems that need it say how many threads or queues there may be. No fuel is used: loops
  are structural, or steps of a machine, or \<open>partial_function\<close>. The traversal is right for up
  to 256 visits of a vertex, the number of values of a \<open>char\<close>.

  \<^bold>\<open>What is not modelled.\<close> Weak memory; memory allocation, except where it can fail in the
  interfaces; the function \<open>pfunc_test_all\<close> that \<open>wait_any\<close> of the C++ interface calls and that
  does not exist, an argument here; failing system calls inside the concurrent machines; exceptions of the functors of the parallel loops; the
  rounding of \<open>double\<close>; printing; the benchmarks, the tutorial and the remaining examples,
  and most of the \<open>main\<close> of \<^verbatim>\<open>groups.c\<close>.
\<close>

end
